(* ===== verification/Prelude.thy ===== *)
theory Prelude
  imports Main "HOL-Library.Monad_Syntax" "HOL-Library.Word" "HOL-Library.Signed_Division"
begin

text \<open>
  What the component theories share.

  \<^item> Checked array access. A C array is a list; \<open>c_load\<close> and \<open>c_store\<close> are the reads and
    writes of one element, \<open>c_slice\<close> and \<open>c_splice\<close> the copies of several. Their result is \<open>None\<close> when the index is outside the array, which
    in C is undefined behaviour. An operation built from them returns \<open>None\<close> exactly when it
    would leave an array, dereference a null pointer or fail an \<open>assert\<close>, so that the statement
    ``the operation returns \<open>Some\<close>'' is its memory safety.
  \<^item> The \<open>for\<close> loops of C: \<open>for_range\<close> runs a body for every index of a range, and
    \<open>first_index\<close> is the loop that leaves at the first index where a test holds. Each comes
    with the rule by which its clients reason about it.
  \<^item> The linear scans for a best element: \<open>scan_best\<close> is the loop that walks over a range
    and replaces its candidate whenever the next index is strictly better; it is what the
    schedulers, the replacement policies and the allocator use to choose.
  \<^item> The collections of facts the components' proofs draw on.
\<close>

named_theorems access_simps \<open>equations of the checked array accesses\<close>
named_theorems loop_simps \<open>equations that unfold one round of a loop\<close>
named_theorems inv_defs \<open>definitions of the components' invariants\<close>

type_synonym u8 = "8 word"
type_synonym u16 = "16 word"
type_synonym u32 = "32 word"
type_synonym u64 = "64 word"

subsection \<open>Checked array access\<close>

definition c_load :: "'a list \<Rightarrow> nat \<Rightarrow> 'a option" where
  "c_load xs i = (if i < length xs then Some (xs ! i) else None)"

definition c_store :: "'a list \<Rightarrow> nat \<Rightarrow> 'a \<Rightarrow> 'a list option" where
  "c_store xs i x = (if i < length xs then Some (xs[i := x]) else None)"

lemma c_load_in [simp, access_simps]: "i < length xs \<Longrightarrow> c_load xs i = Some (xs ! i)"
  by (simp add: c_load_def)

lemma c_load_out [simp, access_simps]: "length xs \<le> i \<Longrightarrow> c_load xs i = None"
  by (simp add: c_load_def)

lemma c_load_Some_iff [access_simps]: "c_load xs i = Some v \<longleftrightarrow> i < length xs \<and> v = xs ! i"
  by (auto simp: c_load_def)

lemma c_store_in [simp, access_simps]: "i < length xs \<Longrightarrow> c_store xs i x = Some (xs[i := x])"
  by (simp add: c_store_def)

lemma c_store_out [simp, access_simps]: "length xs \<le> i \<Longrightarrow> c_store xs i x = None"
  by (simp add: c_store_def)

lemma c_store_Some_iff [access_simps]:
  "c_store xs i x = Some ys \<longleftrightarrow> i < length xs \<and> ys = xs[i := x]"
  by (auto simp: c_store_def)

lemma c_load_update [access_simps]:
  "c_load (xs[i := x]) j = (if j = i \<and> i < length xs then Some x else c_load xs j)"
  by (auto simp: c_load_def)

text \<open>\<^verbatim>\<open>memcpy\<close> of \<open>n\<close> elements out of an array, and of a whole array into another.\<close>

definition c_slice :: "'a list \<Rightarrow> nat \<Rightarrow> nat \<Rightarrow> 'a list option" where
  "c_slice xs i n = (if i + n \<le> length xs then Some (take n (drop i xs)) else None)"

definition c_splice :: "'a list \<Rightarrow> nat \<Rightarrow> 'a list \<Rightarrow> 'a list option" where
  "c_splice xs i ys =
     (if i + length ys \<le> length xs then Some (take i xs @ ys @ drop (i + length ys) xs) else None)"

lemma c_slice_in [simp, access_simps]:
  "i + n \<le> length xs \<Longrightarrow> c_slice xs i n = Some (take n (drop i xs))"
  by (simp add: c_slice_def)

lemma c_slice_out [simp, access_simps]: "length xs < i + n \<Longrightarrow> c_slice xs i n = None"
  by (simp add: c_slice_def)

lemma c_splice_in [access_simps]:
  "i + length ys \<le> length xs \<Longrightarrow> c_splice xs i ys = Some (take i xs @ ys @ drop (i + length ys) xs)"
  by (simp add: c_splice_def)

lemma c_splice_out [simp, access_simps]: "length xs < i + length ys \<Longrightarrow> c_splice xs i ys = None"
  by (simp add: c_splice_def)

lemma c_splice_length: "c_splice xs i ys = Some zs \<Longrightarrow> length zs = length xs"
  by (auto simp: c_splice_def split: if_splits)

lemma c_splice_nth:
  assumes "c_splice xs i ys = Some zs" "j < length xs"
  shows "zs ! j = (if i \<le> j \<and> j < i + length ys then ys ! (j - i) else xs ! j)"
  using assms by (auto simp: c_splice_def nth_append split: if_splits)

subsection \<open>Loops over a range of indices\<close>

definition for_range :: "nat \<Rightarrow> nat \<Rightarrow> (nat \<Rightarrow> 's \<Rightarrow> 's) \<Rightarrow> 's \<Rightarrow> 's" where
  "for_range lo hi body s = fold body [lo..<hi] s"

lemma for_range_empty [simp, loop_simps]: "hi \<le> lo \<Longrightarrow> for_range lo hi body s = s"
  by (simp add: for_range_def)

lemma for_range_last [loop_simps]:
  "lo \<le> hi \<Longrightarrow> for_range lo (Suc hi) body s = body hi (for_range lo hi body s)"
  by (simp add: for_range_def)

lemma for_range_first [loop_simps]:
  "lo < hi \<Longrightarrow> for_range lo hi body s = for_range (Suc lo) hi body (body lo s)"
  by (simp add: for_range_def upt_conv_Cons)

text \<open>The rule for a counting loop: an invariant indexed by the loop variable.\<close>

lemma for_range_rule:
  assumes start: "I lo s"
    and step: "\<And>i t. lo \<le> i \<Longrightarrow> i < hi \<Longrightarrow> I i t \<Longrightarrow> I (Suc i) (body i t)"
    and le: "lo \<le> hi"
  shows "I hi (for_range lo hi body s)"
  using le step
proof (induction hi rule: nat_induct_at_least)
  case base
  then show ?case using start by simp
next
  case (Suc n)
  from Suc.hyps have "for_range lo (Suc n) body s = body n (for_range lo n body s)"
    by (rule for_range_last)
  moreover have "I n (for_range lo n body s)"
    using Suc.IH Suc.prems by simp
  ultimately show ?case using Suc.prems Suc.hyps by simp
qed

text \<open>The loop \<^verbatim>\<open>for (i = 0; i < n; i++) a[i] = f(a[i]);\<close> with checked accesses.\<close>

fun update_each :: "('a \<Rightarrow> 'a) \<Rightarrow> nat list \<Rightarrow> 'a list \<Rightarrow> 'a list option" where
  "update_each f [] a = Some a"
| "update_each f (i # is) a = do {
     x \<leftarrow> c_load a i;
     a' \<leftarrow> c_store a i (f x);
     update_each f is a'
   }"

lemma update_each_upto [loop_simps]:
  assumes "n \<le> length a"
  shows "update_each f [0..<n] a = Some (map f (take n a) @ drop n a)"
proof -
  have "update_each f [k..<n] b = Some (take k b @ map f (drop k (take n b)) @ drop n b)"
    if "k \<le> n" "n \<le> length b" for k b
    using that
  proof (induction "n - k" arbitrary: k b)
    case (Suc d)
    then have k: "k < n" "d = n - Suc k" by simp_all
    let ?b = "b[k := f (b ! k)]"
    have "take (Suc k) ?b = take k b @ [f (b ! k)]"
      using k Suc.prems by (simp add: take_Suc_conv_app_nth)
    moreover have "drop k (take n b) = b ! k # drop (Suc k) (take n b)"
      using k Suc.prems by (metis Cons_nth_drop_Suc length_take min.absorb2 nth_take)
    moreover have "drop (Suc k) (take n ?b) = drop (Suc k) (take n b)"
      using k by (simp add: take_update_swap)
    ultimately show ?case
      using Suc.hyps(1) [of "Suc k" ?b] Suc.prems k by (simp add: upt_conv_Cons)
  qed simp
  from this [of 0 a] assms show ?thesis by simp
qed

definition first_index :: "nat \<Rightarrow> nat \<Rightarrow> (nat \<Rightarrow> bool) \<Rightarrow> nat option" where
  "first_index lo hi P = List.find P [lo..<hi]"

lemma first_index_None_iff:
  "first_index lo hi P = None \<longleftrightarrow> (\<forall>i. lo \<le> i \<longrightarrow> i < hi \<longrightarrow> \<not> P i)"
  by (auto simp: first_index_def find_None_iff)

lemma first_index_SomeD:
  assumes "first_index lo hi P = Some i"
  shows "lo \<le> i" and "i < hi" and "P i" and "\<And>j. lo \<le> j \<Longrightarrow> j < i \<Longrightarrow> \<not> P j"
proof -
  from assms obtain k where k: "k < hi - lo" "P (lo + k)" "i = lo + k"
    "\<forall>j<k. \<not> P ([lo..<hi] ! j)"
    unfolding first_index_def find_Some_iff by auto
  then show "lo \<le> i" "i < hi" "P i" by simp_all
  fix j assume "lo \<le> j" "j < i"
  with k have "j - lo < k" by simp
  with k have "\<not> P ([lo..<hi] ! (j - lo))" by blast
  with \<open>lo \<le> j\<close> \<open>j < i\<close> k show "\<not> P j" by simp
qed

lemma first_index_SomeI:
  assumes "lo \<le> i" "i < hi" "P i" "\<And>j. lo \<le> j \<Longrightarrow> j < i \<Longrightarrow> \<not> P j"
  shows "first_index lo hi P = Some i"
proof (cases "first_index lo hi P")
  case None
  with assms show ?thesis by (auto simp: first_index_None_iff)
next
  case (Some k)
  note k = first_index_SomeD [OF Some]
  from k assms have "\<not> k < i" "\<not> i < k" by blast+
  with Some show ?thesis by simp
qed

lemma first_index_cong [fundef_cong]:
  "lo = lo' \<Longrightarrow> hi = hi' \<Longrightarrow> (\<And>i. lo' \<le> i \<Longrightarrow> i < hi' \<Longrightarrow> P i = Q i) \<Longrightarrow>
    first_index lo hi P = first_index lo' hi' Q"
  unfolding first_index_def by (auto intro: find_cong)

lemma first_index_unfold [loop_simps]:
  "first_index lo hi P =
    (if lo < hi then if P lo then Some lo else first_index (Suc lo) hi P else None)"
  by (auto simp: first_index_def upt_conv_Cons)

subsection \<open>Scanning for a best index\<close>

text \<open>
  \<open>scan_best elig better lo hi c\<close> is the loop
  \<^verbatim>\<open>for (i = lo; i < hi; i++) if (elig(i) && (c == none || better(i, c))) c = i;\<close>
  A candidate is replaced only by a strictly better one, so among equally good indices the
  first one wins.
\<close>

fun scan_best :: "(nat \<Rightarrow> bool) \<Rightarrow> (nat \<Rightarrow> nat \<Rightarrow> bool) \<Rightarrow> nat list \<Rightarrow> nat option \<Rightarrow> nat option"
where
  "scan_best elig better [] c = c"
| "scan_best elig better (i # is) c =
     scan_best elig better is
       (if elig i \<and> (case c of None \<Rightarrow> True | Some k \<Rightarrow> better i k) then Some i else c)"

lemma scan_best_append:
  "scan_best elig better (xs @ ys) c = scan_best elig better ys (scan_best elig better xs c)"
  by (induction xs arbitrary: c) auto

text \<open>The interface of such a scan: \<open>better\<close> compares a key strictly.\<close>

locale key_scan =
  fixes elig :: "nat \<Rightarrow> bool"
    and better :: "nat \<Rightarrow> nat \<Rightarrow> bool"
    and key :: "nat \<Rightarrow> 'k::linorder"
  assumes better_key: "better i k \<longleftrightarrow> key i < key k"
begin

lemma scan_None: "scan_best elig better xs None = None \<longleftrightarrow> (\<forall>i\<in>set xs. \<not> elig i)"
proof (induction xs rule: rev_induct)
  case (snoc x xs)
  then show ?case by (auto simp: scan_best_append split: option.splits)
qed simp

lemma scan_Some:
  assumes "scan_best elig better [0..<n] None = Some k"
  shows "k < n" and "elig k" and "\<And>i. i < n \<Longrightarrow> elig i \<Longrightarrow> key k \<le> key i"
    and "\<And>i. i < k \<Longrightarrow> elig i \<Longrightarrow> key k < key i"
proof -
  have "k < n \<and> elig k \<and> (\<forall>i<n. elig i \<longrightarrow> key k \<le> key i) \<and>
      (\<forall>i<k. elig i \<longrightarrow> key k < key i)"
    using assms
  proof (induction n arbitrary: k)
    case (Suc n)
    show ?case
    proof (cases "scan_best elig better [0..<n] None")
      case None
      then have none: "\<forall>i<n. \<not> elig i" by (simp add: scan_None)
      with Suc.prems None have "elig n" "k = n"
        by (auto simp: scan_best_append split: if_splits)
      with none show ?thesis by (auto simp: less_Suc_eq)
    next
      case (Some c)
      note IH = Suc.IH [OF Some]
      show ?thesis
      proof (cases "elig n \<and> key n < key c")
        case True
        then have "elig n \<and> better n c" by (simp add: better_key)
        with Suc.prems Some have "k = n" by (simp add: scan_best_append)
        with True IH show ?thesis by (auto simp: less_Suc_eq intro: less_imp_le less_le_trans)
      next
        case False
        then have "\<not> (elig n \<and> better n c)" by (simp add: better_key)
        with Suc.prems Some have "k = c" by (auto simp: scan_best_append)
        with False IH show ?thesis by (auto simp: less_Suc_eq not_less)
      qed
    qed
  qed simp
  then show "k < n" "elig k" "\<And>i. i < n \<Longrightarrow> elig i \<Longrightarrow> key k \<le> key i"
    "\<And>i. i < k \<Longrightarrow> elig i \<Longrightarrow> key k < key i" by auto
qed

lemma scan_exists: "i < n \<Longrightarrow> elig i \<Longrightarrow> \<exists>k. scan_best elig better [0..<n] None = Some k"
  using scan_None [of "[0..<n]"] by (cases "scan_best elig better [0..<n] None") auto

end

subsection \<open>Counting and summing over a list of threads\<close>

definition tally :: "('a \<Rightarrow> bool) \<Rightarrow> 'a list \<Rightarrow> int" where
  "tally P ps = int (length (filter P ps))"

lemma tally_nonneg: "0 \<le> tally P ps"
  by (simp add: tally_def)

lemma tally_update: "i < length ps \<Longrightarrow> tally P (ps[i := p]) = tally P ps - of_bool (P (ps ! i)) + of_bool (P p)"
proof (induction ps arbitrary: i)
  case (Cons a ps)
  then show ?case using Cons.IH [of "i - 1"] by (cases i) (auto simp: tally_def)
qed simp

lemma tally_pos: "i < length ps \<Longrightarrow> P (ps ! i) \<Longrightarrow> 1 \<le> tally P ps"
  by (induction ps arbitrary: i) (fastforce simp: tally_def nth_Cons split: nat.splits)+

lemma tally_pos_ex: "0 < tally P ps \<longleftrightarrow> (\<exists>i<length ps. P (ps ! i))"
  by (force simp: tally_def in_set_conv_nth filter_empty_conv)

lemma tally_zero: "tally P ps = 0 \<longleftrightarrow> (\<forall>i<length ps. \<not> P (ps ! i))"
  using tally_pos_ex [of P ps] tally_nonneg [of P ps] by auto

lemma tally_le_one: "tally P ps \<le> 1 \<Longrightarrow> i < length ps \<Longrightarrow> j < length ps \<Longrightarrow> P (ps ! i) \<Longrightarrow> P (ps ! j) \<Longrightarrow> i = j"
proof (rule ccontr)
  assume a: "tally P ps \<le> 1" "i < length ps" "j < length ps" "P (ps ! i)" "P (ps ! j)" "i \<noteq> j"
  have "card {i, j} \<le> card {k. k < length ps \<and> P (ps ! k)}"
    using a by (intro card_mono) auto
  then show False using a by (simp add: tally_def length_filter_conv_card)
qed

lemma tally_map: "tally P (map f ps) = tally (\<lambda>p. P (f p)) ps"
  by (simp add: tally_def filter_map o_def)

lemma tally_mono: "(\<And>p. P p \<Longrightarrow> Q p) \<Longrightarrow> tally P ps \<le> tally Q ps"
  by (induction ps) (auto simp: tally_def)

lemma sum_list_map_update:
  "i < length xs \<Longrightarrow> (\<Sum>x\<leftarrow>xs[i := v]. f x) = (\<Sum>x\<leftarrow>xs. f x) - f (xs ! i) + (f v :: int)"
proof (induction xs arbitrary: i)
  case (Cons a xs)
  then show ?case using Cons.IH [of "i - 1"] by (cases i) auto
qed simp

subsection \<open>Runs of bounded length\<close>

lemma maximal_run:
  assumes "\<And>m s. (R ^^ m) r s \<Longrightarrow> m \<le> b"
  shows "\<exists>m s. (R ^^ m) r s \<and> (\<forall>t. \<not> R s t)"
proof (rule ccontr)
  assume never: "\<not> ?thesis"
  have "\<exists>s. (R ^^ m) r s" for m
  proof (induction m)
    case (Suc m)
    then show ?case using never by (meson relpowp_Suc_I)
  qed simp
  then obtain s where "(R ^^ Suc b) r s" by blast
  from assms [OF this] show False by simp
qed

end
