(* ===== verification/Ring_Fifo.thy ===== *)
theory Ring_Fifo
  imports Prelude
begin

text \<open>
  The contract every queue of the repository is held to.

  A circular array \<open>buf\<close> with a start index and a number of entries stands for the list
  \<open>ring_list buf start n\<close>. The lemmas here say what writing behind the last entry and moving
  the start index do to that list; they are proved once and used by every circular queue.

  The locale \<open>bounded_fifo\<close> is the interface: an abstraction to a list, an invariant, a
  capacity, and the two operations, which fail exactly on a full and on an empty queue. Its
  client lemmas are about whole runs of operations: a run of the implementation gives the same
  results as the run of a list (\<open>run_refines\<close>), and elements come out in the order they went
  in (\<open>fill\<close>, \<open>drain\<close>).
\<close>

subsection \<open>Circular arrays\<close>

definition ring_list :: "'a list \<Rightarrow> nat \<Rightarrow> nat \<Rightarrow> 'a list" where
  "ring_list buf start n = map (\<lambda>i. buf ! ((start + i) mod length buf)) [0..<n]"

lemma length_ring_list [simp]: "length (ring_list buf start n) = n"
  by (simp add: ring_list_def)

lemma ring_list_0 [simp]: "ring_list buf start 0 = []"
  by (simp add: ring_list_def)

lemma ring_list_nth: "i < n \<Longrightarrow> ring_list buf start n ! i = buf ! ((start + i) mod length buf)"
  by (simp add: ring_list_def)

lemma ring_list_Nil_iff [simp]: "ring_list buf start n = [] \<longleftrightarrow> n = 0"
  by (simp add: ring_list_def)

text \<open>Two offsets below the length never meet after wrapping.\<close>

lemma mod_offset_inj:
  fixes a i j m :: nat
  assumes "i < m" "j < m" "(a + i) mod m = (a + j) mod m"
  shows "i = j"
proof -
  have *: "k = l" if "k \<le> l" "l < m" "(a + l) mod m = (a + k) mod m" for k l
  proof -
    from that have "m dvd l - k" by (simp add: mod_eq_dvd_iff_nat)
    with that show ?thesis by (auto dest: dvd_imp_le)
  qed
  show ?thesis
  proof (cases "i \<le> j")
    case True
    then show ?thesis using * [of i j] assms by simp
  next
    case False
    then show ?thesis using * [of j i] assms by simp
  qed
qed

lemma ring_list_snoc:
  assumes "n < length buf"
  shows "ring_list (buf[(start + n) mod length buf := x]) start (Suc n)
    = ring_list buf start n @ [x]"
proof -
  have "(start + n) mod length buf < length buf" using assms by (intro mod_less_divisor) linarith
  moreover have "(start + n) mod length buf \<noteq> (start + i) mod length buf" if "i < n" for i
    using mod_offset_inj [of i "length buf" n start] assms that by auto
  ultimately show ?thesis by (auto simp: ring_list_def nth_list_update)
qed

lemma ring_list_update:
  assumes "k < n" "n \<le> length buf"
  shows "ring_list (buf[(start + k) mod length buf := x]) start n = (ring_list buf start n)[k := x]"
proof (rule nth_equalityI)
  fix i assume "i < length (ring_list (buf[(start + k) mod length buf := x]) start n)"
  then have i: "i < n" by simp
  have "(start + k) mod length buf < length buf" using assms by (intro mod_less_divisor) linarith
  moreover have "(start + k) mod length buf = (start + i) mod length buf \<longleftrightarrow> i = k"
    using mod_offset_inj [of i "length buf" k start] assms i by auto
  ultimately show "ring_list (buf[(start + k) mod length buf := x]) start n ! i =
      (ring_list buf start n)[k := x] ! i"
    using i by (auto simp: ring_list_nth nth_list_update)
qed simp

lemma ring_list_Cons:
  assumes "0 < n" "start < length buf"
  shows "ring_list buf start n = buf ! start # ring_list buf ((start + 1) mod length buf) (n - 1)"
proof -
  from assms obtain m where m: "n = Suc m" by (cases n) auto
  have "((start + 1) mod length buf + i) mod length buf = (start + Suc i) mod length buf" for i
    by (simp add: mod_add_left_eq)
  then show ?thesis using assms unfolding m ring_list_def
    by (simp add: upt_conv_Cons map_Suc_upt [symmetric] del: upt_Suc)
qed

lemma mod_succ_offset:
  "((start + 1) mod m + (n - 1)) mod m = (start + n) mod m" if "0 < n" for n :: nat
proof -
  from that obtain k where "n = Suc k" by (cases n) auto
  then show ?thesis by (simp add: mod_add_left_eq)
qed

lemma mod_Suc_offset: "Suc ((start + n) mod m) mod m = (start + Suc n) mod (m :: nat)"
  by (simp add: mod_Suc_eq)

subsection \<open>The interface of a bounded queue\<close>

datatype 'a fifo_op = Enq 'a | Deq

datatype 'a fifo_result = Accepted | Refused | Returned 'a

text \<open>A run of operations, with the result of each.\<close>

fun run_fifo ::
  "('a \<Rightarrow> 's \<Rightarrow> 's option) \<Rightarrow> ('s \<Rightarrow> ('a \<times> 's) option) \<Rightarrow> 'a fifo_op list \<Rightarrow> 's
    \<Rightarrow> 'a fifo_result list \<times> 's"
where
  "run_fifo enq deq [] s = ([], s)"
| "run_fifo enq deq (Enq x # ops) s =
     (case enq x s of
        None \<Rightarrow> (let (rs, s') = run_fifo enq deq ops s in (Refused # rs, s'))
      | Some t \<Rightarrow> (let (rs, s') = run_fifo enq deq ops t in (Accepted # rs, s')))"
| "run_fifo enq deq (Deq # ops) s =
     (case deq s of
        None \<Rightarrow> (let (rs, s') = run_fifo enq deq ops s in (Refused # rs, s'))
      | Some (y, t) \<Rightarrow> (let (rs, s') = run_fifo enq deq ops t in (Returned y # rs, s')))"

text \<open>The reference implementation: a list with a bound.\<close>

definition list_enq :: "nat \<Rightarrow> 'a \<Rightarrow> 'a list \<Rightarrow> 'a list option" where
  "list_enq c x xs = (if length xs < c then Some (xs @ [x]) else None)"

fun list_deq :: "'a list \<Rightarrow> ('a \<times> 'a list) option" where
  "list_deq [] = None"
| "list_deq (x # xs) = Some (x, xs)"

locale bounded_fifo =
  fixes contents :: "'s \<Rightarrow> 'a list"
    and ok :: "'s \<Rightarrow> bool"
    and cap :: "'s \<Rightarrow> nat"
    and enq :: "'a \<Rightarrow> 's \<Rightarrow> 's option"
    and deq :: "'s \<Rightarrow> ('a \<times> 's) option"
  assumes bound: "ok s \<Longrightarrow> length (contents s) \<le> cap s"
    and enq_full: "ok s \<Longrightarrow> length (contents s) = cap s \<Longrightarrow> enq x s = None"
    and enq_room: "ok s \<Longrightarrow> length (contents s) < cap s \<Longrightarrow>
      \<exists>t. enq x s = Some t \<and> ok t \<and> cap t = cap s \<and> contents t = contents s @ [x]"
    and deq_empty: "ok s \<Longrightarrow> contents s = [] \<Longrightarrow> deq s = None"
    and deq_front: "ok s \<Longrightarrow> contents s = y # ys \<Longrightarrow>
      \<exists>t. deq s = Some (y, t) \<and> ok t \<and> cap t = cap s \<and> contents t = ys"
begin

lemma run_refines:
  assumes "ok s" and "run_fifo enq deq ops s = (rs, t)"
  shows "run_fifo (list_enq (cap s)) list_deq ops (contents s) = (rs, contents t) \<and>
    ok t \<and> cap t = cap s"
  using assms
proof (induction ops arbitrary: s rs)
  case Nil
  then show ?case by simp
next
  case (Cons oper ops)
  show ?case
  proof (cases oper)
    case (Enq x)
    show ?thesis
    proof (cases "length (contents s) < cap s")
      case True
      with enq_room [OF Cons.prems(1)] obtain u where u: "enq x s = Some u" "ok u"
        "cap u = cap s" "contents u = contents s @ [x]" by blast
      obtain rs' where rs': "run_fifo enq deq ops u = (rs', t)" "rs = Accepted # rs'"
        using Cons.prems(2) Enq u(1) by (auto split: prod.splits)
      from Cons.IH [OF u(2) rs'(1)] show ?thesis
        using Enq True rs'(2) u by (simp add: list_enq_def)
    next
      case False
      with bound [OF Cons.prems(1)] have full: "length (contents s) = cap s" by simp
      obtain rs' where rs': "run_fifo enq deq ops s = (rs', t)" "rs = Refused # rs'"
        using Cons.prems Enq enq_full [OF Cons.prems(1) full] by (auto split: prod.splits)
      from Cons.IH [OF Cons.prems(1) rs'(1)] show ?thesis
        using Enq False rs'(2) by (simp add: list_enq_def)
    qed
  next
    case Deq
    show ?thesis
    proof (cases "contents s")
      case Nil
      obtain rs' where rs': "run_fifo enq deq ops s = (rs', t)" "rs = Refused # rs'"
        using Cons.prems Deq deq_empty [OF Cons.prems(1) Nil] by (auto split: prod.splits)
      from Cons.IH [OF Cons.prems(1) rs'(1)] show ?thesis using Deq Nil rs'(2) by simp
    next
      case (Cons y ys)
      with deq_front [OF Cons.prems(1)] obtain u where u: "deq s = Some (y, u)" "ok u"
        "cap u = cap s" "contents u = ys" by blast
      obtain rs' where rs': "run_fifo enq deq ops u = (rs', t)" "rs = Returned y # rs'"
        using Cons.prems(2) Deq u(1) by (auto split: prod.splits)
      from Cons.IH [OF u(2) rs'(1)] show ?thesis using Deq Cons rs'(2) u by simp
    qed
  qed
qed

lemma fill:
  assumes "ok s" and "length (contents s) + length xs \<le> cap s"
    and "run_fifo enq deq (map Enq xs) s = (rs, t)"
  shows "rs = replicate (length xs) Accepted \<and> contents t = contents s @ xs"
  using assms
proof (induction xs arbitrary: s rs)
  case (Cons x xs)
  from Cons.prems(2) enq_room [OF Cons.prems(1)] obtain u where u: "enq x s = Some u" "ok u"
    "cap u = cap s" "contents u = contents s @ [x]" by fastforce
  obtain rs' where rs': "run_fifo enq deq (map Enq xs) u = (rs', t)" "rs = Accepted # rs'"
    using Cons.prems(3) u(1) by (auto split: prod.splits)
  from Cons.IH [OF u(2) _ rs'(1)] Cons.prems(2) show ?case using u rs'(2) by simp
qed simp

lemma drain:
  assumes "ok s" and "contents s = xs"
    and "run_fifo enq deq (replicate (length xs) Deq) s = (rs, t)"
  shows "rs = map Returned xs \<and> contents t = []"
  using assms
proof (induction xs arbitrary: s rs)
  case (Cons x xs)
  from deq_front [OF Cons.prems(1,2)] obtain u where u: "deq s = Some (x, u)" "ok u"
    "contents u = xs" by blast
  obtain rs' where rs': "run_fifo enq deq (replicate (length xs) Deq) u = (rs', t)"
    "rs = Returned x # rs'"
    using Cons.prems(3) u(1) by (auto split: prod.splits)
  from Cons.IH [OF u(2,3) rs'(1)] show ?case using rs'(2) by simp
qed simp

end

end
