(* ===== verification/Circular_Queue.thy ===== *)
theory Circular_Queue
  imports Ring_Fifo
begin

text \<open>
  The circular queue of \<open>utils/circularQueue.c\<close>.

  A \<open>Queue*\<close> is a \<open>Queue option\<close> (\<open>None\<close> is the null pointer), the array behind
  \<open>values\<close> an \<open>int list option\<close>. The \<open>int\<close> fields are \<open>nat\<close>: no operation makes one
  negative, and \<open>queue_ok\<close> bounds them by the capacity, which is an \<open>int\<close>, so no sum
  overflows; the size arguments stay \<open>int\<close>, because the code tests their sign. An operation
  returns \<open>None\<close> when it would read or write outside \<open>values\<close> or fail its \<open>assert\<close>.
  The allocator is the argument \<open>malloc\<close>: a request for \<open>n\<close> integers gives a block with
  arbitrary contents or \<open>None\<close>.

  Shown here: the invariant and its preservation, the result of every operation on every
  branch, the refinement to a bounded list, what \<open>queue_resize\<close> keeps and the case where it
  leaves \<open>tail\<close> outside the array, and the run of the file's own test routine.
\<close>

subsection \<open>Data\<close>

datatype QueueError = QUEUE_SUCCESS | QUEUE_ERROR_FULL | QUEUE_ERROR_EMPTY
  | QUEUE_ERROR_MEMORY | QUEUE_ERROR_INVALID

record Queue =
  cq_values :: "int list option"
  cq_head :: nat
  cq_tail :: nat
  cq_num_entries :: nat
  cq_size :: nat
  cq_initialized :: bool

definition QUEUE_EMPTY :: int where
  "QUEUE_EMPTY = - (2 ^ 31)"

definition queue_load :: "int list option \<Rightarrow> nat \<Rightarrow> int option" where
  "queue_load vs i = do { v \<leftarrow> vs; c_load v i }"

definition queue_store :: "int list option \<Rightarrow> nat \<Rightarrow> int \<Rightarrow> int list option" where
  "queue_store vs i x = do { v \<leftarrow> vs; c_store v i x }"

subsection \<open>Operations\<close>

definition queue_init ::
  "(nat \<Rightarrow> int list option) \<Rightarrow> Queue option \<Rightarrow> int \<Rightarrow> QueueError \<times> Queue option" where
  "queue_init malloc q sz =
     (case q of
        None \<Rightarrow> (QUEUE_ERROR_INVALID, None)
      | Some r \<Rightarrow>
          if sz \<le> 0 then (QUEUE_ERROR_INVALID, Some r)
          else (case malloc (nat sz) of
             None \<Rightarrow> (QUEUE_ERROR_MEMORY, Some (r\<lparr>cq_values := None\<rparr>))
           | Some b \<Rightarrow>
               (QUEUE_SUCCESS,
                Some (r\<lparr>cq_values := Some b, cq_size := nat sz, cq_head := 0, cq_tail := 0,
                       cq_num_entries := 0, cq_initialized := True\<rparr>))))"

definition queue_destroy :: "Queue option \<Rightarrow> QueueError \<times> Queue option" where
  "queue_destroy q =
     (case q of
        None \<Rightarrow> (QUEUE_ERROR_INVALID, None)
      | Some r \<Rightarrow>
          if \<not> cq_initialized r then (QUEUE_ERROR_INVALID, Some r)
          else (QUEUE_SUCCESS,
                Some (r\<lparr>cq_values := None, cq_initialized := False, cq_size := 0, cq_head := 0,
                       cq_tail := 0, cq_num_entries := 0\<rparr>)))"

definition queue_empty :: "Queue option \<Rightarrow> bool option" where
  "queue_empty q =
     (case q of
        None \<Rightarrow> None
      | Some r \<Rightarrow> if cq_initialized r then Some (cq_num_entries r = 0) else None)"

definition queue_full :: "Queue option \<Rightarrow> bool option" where
  "queue_full q =
     (case q of
        None \<Rightarrow> None
      | Some r \<Rightarrow> if cq_initialized r then Some (cq_num_entries r = cq_size r) else None)"

definition queue_enqueue :: "Queue option \<Rightarrow> int \<Rightarrow> (QueueError \<times> Queue option) option" where
  "queue_enqueue q value =
     (case q of
        None \<Rightarrow> Some (QUEUE_ERROR_INVALID, None)
      | Some r \<Rightarrow>
          if \<not> cq_initialized r then Some (QUEUE_ERROR_INVALID, Some r)
          else do {
            full \<leftarrow> queue_full (Some r);
            if full then Some (QUEUE_ERROR_FULL, Some r)
            else do {
              vs \<leftarrow> queue_store (cq_values r) (cq_tail r) value;
              Some (QUEUE_SUCCESS,
                    Some (r\<lparr>cq_values := Some vs,
                           cq_tail := (cq_tail r + 1) mod cq_size r,
                           cq_num_entries := cq_num_entries r + 1\<rparr>))
            }
          })"

text \<open>The out-parameter \<open>result\<close> is a flag for ``not null'' on the way in and the value
  written on the way out.\<close>

definition queue_dequeue ::
  "Queue option \<Rightarrow> bool \<Rightarrow> (QueueError \<times> Queue option \<times> int option) option" where
  "queue_dequeue q has_result =
     (case q of
        None \<Rightarrow> Some (QUEUE_ERROR_INVALID, None, None)
      | Some r \<Rightarrow>
          if \<not> cq_initialized r \<or> \<not> has_result
          then Some (QUEUE_ERROR_INVALID, Some r, None)
          else do {
            empty \<leftarrow> queue_empty (Some r);
            if empty then Some (QUEUE_ERROR_EMPTY, Some r, None)
            else do {
              v \<leftarrow> queue_load (cq_values r) (cq_head r);
              Some (QUEUE_SUCCESS,
                    Some (r\<lparr>cq_head := (cq_head r + 1) mod cq_size r,
                           cq_num_entries := cq_num_entries r - 1\<rparr>), Some v)
            }
          })"

definition queue_peek :: "Queue option \<Rightarrow> int option" where
  "queue_peek q =
     (case q of
        None \<Rightarrow> Some QUEUE_EMPTY
      | Some r \<Rightarrow>
          if \<not> cq_initialized r then Some QUEUE_EMPTY
          else do {
            empty \<leftarrow> queue_empty (Some r);
            if empty then Some QUEUE_EMPTY else queue_load (cq_values r) (cq_head r)
          })"

definition queue_size :: "Queue option \<Rightarrow> nat option" where
  "queue_size q =
     (case q of
        None \<Rightarrow> None
      | Some r \<Rightarrow> if cq_initialized r then Some (cq_num_entries r) else None)"

definition queue_clear :: "Queue option \<Rightarrow> QueueError \<times> Queue option" where
  "queue_clear q =
     (case q of
        None \<Rightarrow> (QUEUE_ERROR_INVALID, None)
      | Some r \<Rightarrow>
          if \<not> cq_initialized r then (QUEUE_ERROR_INVALID, Some r)
          else (QUEUE_SUCCESS, Some (r\<lparr>cq_head := 0, cq_tail := 0, cq_num_entries := 0\<rparr>)))"

text \<open>
  The copying loop of \<open>queue_resize\<close>:
  \<^verbatim>\<open>while (!queue_empty(q)) { queue_dequeue(q, &value); new_values[count++] = value; }\<close>
  Every round takes one entry, so the number of entries bounds the rounds.
\<close>

fun resize_copy :: "nat \<Rightarrow> Queue \<Rightarrow> int list \<Rightarrow> nat \<Rightarrow> (Queue \<times> int list \<times> nat) option" where
  "resize_copy rounds r new_values cnt = do {
     empty \<leftarrow> queue_empty (Some r);
     if empty then Some (r, new_values, cnt)
     else (case rounds of
         0 \<Rightarrow> None
       | Suc rounds' \<Rightarrow> do {
           (_, q', res) \<leftarrow> queue_dequeue (Some r) True;
           r' \<leftarrow> q';
           value \<leftarrow> res;
           new_values' \<leftarrow> c_store new_values cnt value;
           resize_copy rounds' r' new_values' (cnt + 1)
         })
   }"

declare resize_copy.simps [simp del]

definition queue_resize ::
  "(nat \<Rightarrow> int list option) \<Rightarrow> Queue option \<Rightarrow> int \<Rightarrow> (QueueError \<times> Queue option) option" where
  "queue_resize malloc q new_size =
     (case q of
        None \<Rightarrow> Some (QUEUE_ERROR_INVALID, None)
      | Some r \<Rightarrow>
          if \<not> cq_initialized r \<or> new_size \<le> 0 then Some (QUEUE_ERROR_INVALID, Some r)
          else if new_size < int (cq_num_entries r) then Some (QUEUE_ERROR_INVALID, Some r)
          else (case malloc (nat new_size) of
             None \<Rightarrow> Some (QUEUE_ERROR_MEMORY, Some r)
           | Some b \<Rightarrow> do {
               (r', new_values, cnt) \<leftarrow> resize_copy (cq_num_entries r) r b 0;
               Some (QUEUE_SUCCESS,
                     Some (r'\<lparr>cq_values := Some new_values, cq_size := nat new_size,
                             cq_head := 0, cq_tail := cnt, cq_num_entries := cnt\<rparr>))
             }))"

text \<open>\<open>queue_print\<close>: what is written, with one index and value per entry.\<close>

datatype queue_printout = PrintInvalid | PrintEmpty
  | PrintContents nat nat nat "(nat \<times> int) list"

fun print_entries :: "Queue \<Rightarrow> nat \<Rightarrow> nat \<Rightarrow> (nat \<times> int) list option" where
  "print_entries r current 0 = Some []"
| "print_entries r current (Suc left) = do {
     v \<leftarrow> queue_load (cq_values r) current;
     rest \<leftarrow> print_entries r ((current + 1) mod cq_size r) left;
     Some ((current, v) # rest)
   }"

definition queue_print :: "Queue option \<Rightarrow> queue_printout option" where
  "queue_print q =
     (case q of
        None \<Rightarrow> Some PrintInvalid
      | Some r \<Rightarrow>
          if \<not> cq_initialized r then Some PrintInvalid
          else do {
            empty \<leftarrow> queue_empty (Some r);
            if empty then Some PrintEmpty
            else do {
              es \<leftarrow> print_entries r (cq_head r) (cq_num_entries r);
              Some (PrintContents (cq_head r) (cq_tail r) (cq_num_entries r) es)
            }
          })"

subsection \<open>The test routine\<close>

text \<open>\<open>print_operation_result\<close>: the label and its colour (green for success).\<close>

datatype label_colour = Green | Red

fun print_operation_result :: "string \<Rightarrow> QueueError \<Rightarrow> string \<times> label_colour \<times> string" where
  "print_operation_result operation QUEUE_SUCCESS = (operation, Green, ''SUCCESS'')"
| "print_operation_result operation QUEUE_ERROR_FULL = (operation, Red, ''QUEUE FULL'')"
| "print_operation_result operation QUEUE_ERROR_EMPTY = (operation, Red, ''QUEUE EMPTY'')"
| "print_operation_result operation QUEUE_ERROR_MEMORY = (operation, Red, ''MEMORY ERROR'')"
| "print_operation_result operation QUEUE_ERROR_INVALID = (operation, Red, ''INVALID OPERATION'')"

text \<open>What the test routine reports: results of operations, dequeued and peeked values,
  fields of the queue and printouts.\<close>

datatype test_event = TestResult "string \<times> label_colour \<times> string" | TestDequeued int
  | TestPeek int | TestFields nat nat | TestSize nat | TestPrint queue_printout

fun test_enqueues :: "bool \<Rightarrow> int list \<Rightarrow> Queue option \<Rightarrow> (test_event list \<times> Queue option) option"
where
  "test_enqueues pr [] q = Some ([], q)"
| "test_enqueues pr (v # vs) q = do {
     (err, q1) \<leftarrow> queue_enqueue q v;
     p \<leftarrow> (if pr then map_option (\<lambda>p. [TestPrint p]) (queue_print q1) else Some []);
     (es, q2) \<leftarrow> test_enqueues pr vs q1;
     Some (TestResult (print_operation_result ''Enqueue'' err) # p @ es, q2)
   }"

fun test_dequeues :: "nat \<Rightarrow> Queue option \<Rightarrow> (test_event list \<times> Queue option) option" where
  "test_dequeues 0 q = Some ([], q)"
| "test_dequeues (Suc n) q = do {
     (err, q1, res) \<leftarrow> queue_dequeue q True;
     p \<leftarrow> queue_print q1;
     (es, q2) \<leftarrow> test_dequeues n q1;
     Some ((case res of Some v \<Rightarrow> [TestDequeued v] | None \<Rightarrow> []) @
       TestResult (print_operation_result ''Dequeue'' err) # TestPrint p # es, q2)
   }"

definition run_comprehensive_tests ::
  "(nat \<Rightarrow> int list option) \<Rightarrow> Queue \<Rightarrow> test_event list option" where
  "run_comprehensive_tests malloc q0 = do {
     let (err1, q1) = queue_init malloc (Some q0) 5;
     r1 \<leftarrow> q1;
     p1 \<leftarrow> queue_print q1;
     let t1 = [TestResult (print_operation_result ''Initialize Queue'' err1),
               TestFields (cq_size r1) (cq_num_entries r1), TestPrint p1];
     (t2, q2) \<leftarrow> test_enqueues True [1 * 10, 2 * 10, 3 * 10, 4 * 10, 5 * 10, 6 * 10] q1;
     (t3, q3) \<leftarrow> test_dequeues 3 q2;
     (t4, q4) \<leftarrow> test_enqueues True [1 * 100, 2 * 100, 3 * 100] q3;
     let (err5, q5) = queue_clear q4;
     p5 \<leftarrow> queue_print q5;
     let t5 = [TestResult (print_operation_result ''Clear Queue'' err5), TestPrint p5];
     (err6, q6) \<leftarrow> queue_enqueue q5 42;
     p6 \<leftarrow> queue_print q6;
     let t6 = [TestResult (print_operation_result ''Enqueue after clear'' err6), TestPrint p6];
     (err7, q7) \<leftarrow> queue_resize malloc q6 10;
     r7 \<leftarrow> q7;
     p7 \<leftarrow> queue_print q7;
     let t7 = [TestResult (print_operation_result ''Resize to 10'' err7), TestSize (cq_size r7),
               TestPrint p7];
     (t8, q8) \<leftarrow> test_enqueues False
       [1 * 5, 2 * 5, 3 * 5, 4 * 5, 5 * 5, 6 * 5, 7 * 5, 8 * 5] q7;
     p8 \<leftarrow> queue_print q8;
     peek_val \<leftarrow> queue_peek q8;
     p9 \<leftarrow> queue_print q8;
     (err10, q10) \<leftarrow> queue_enqueue q8 999;
     let (_, q11) = queue_clear q10;
     (err11, q12, _) \<leftarrow> queue_dequeue q11 True;
     let (err12, q13) = queue_destroy q12;
     Some (t1 @ t2 @ t3 @ t4 @ t5 @ t6 @ t7 @ t8 @ [TestPrint p8, TestPeek peek_val, TestPrint p9,
       TestResult (print_operation_result ''Enqueue to full queue'' err10),
       TestResult (print_operation_result ''Dequeue from empty'' err11),
       TestResult (print_operation_result ''Destroy Queue'' err12)])
   }"

subsection \<open>The invariant and the abstraction\<close>

text \<open>A queue that \<open>queue_init\<close> has set up, and that no exact-fit \<open>queue_resize\<close> has
  touched since.\<close>

definition queue_ok :: "Queue \<Rightarrow> bool" where
  "queue_ok r \<longleftrightarrow>
     cq_initialized r \<and> 0 < cq_size r \<and>
     (\<exists>vs. cq_values r = Some vs \<and> length vs = cq_size r) \<and>
     cq_head r < cq_size r \<and> cq_num_entries r \<le> cq_size r \<and>
     cq_tail r = (cq_head r + cq_num_entries r) mod cq_size r"

definition queue_list :: "Queue \<Rightarrow> int list" where
  "queue_list r = (case cq_values r of None \<Rightarrow> []
     | Some vs \<Rightarrow> ring_list vs (cq_head r) (cq_num_entries r))"

lemmas queue_access = queue_load_def queue_store_def queue_empty_def queue_full_def
lemmas queue_inv = queue_ok_def queue_list_def

lemma queue_okD:
  assumes "queue_ok r"
  obtains vs where "cq_values r = Some vs" "length vs = cq_size r" "cq_head r < length vs"
    "cq_tail r < length vs" "queue_list r = ring_list vs (cq_head r) (cq_num_entries r)"
proof -
  from assms obtain vs where vs: "cq_values r = Some vs" "length vs = cq_size r"
    by (auto simp: queue_ok_def)
  with assms have "cq_tail r < length vs" by (auto simp: queue_ok_def)
  with that vs assms show thesis by (auto simp: queue_inv)
qed

lemma queue_enqueue_room:
  assumes "queue_ok r" and "cq_num_entries r < cq_size r"
  obtains r' where "queue_enqueue (Some r) x = Some (QUEUE_SUCCESS, Some r')" "queue_ok r'"
    "queue_list r' = queue_list r @ [x]" "cq_size r' = cq_size r"
proof -
  from assms(1) obtain vs where vs: "cq_values r = Some vs" "length vs = cq_size r"
    "cq_tail r < length vs" "queue_list r = ring_list vs (cq_head r) (cq_num_entries r)"
    by (rule queue_okD)
  let ?r = "r\<lparr>cq_values := Some (vs[cq_tail r := x]),
    cq_tail := (cq_tail r + 1) mod cq_size r, cq_num_entries := cq_num_entries r + 1\<rparr>"
  have tail: "cq_tail r = (cq_head r + cq_num_entries r) mod length vs"
    using assms(1) vs(2) by (simp add: queue_ok_def)
  have "queue_enqueue (Some r) x = Some (QUEUE_SUCCESS, Some ?r)"
    using assms vs by (simp add: queue_enqueue_def queue_access queue_ok_def)
  moreover have "queue_ok ?r"
    using assms vs tail by (auto simp: queue_ok_def mod_Suc_eq)
  moreover have "queue_list ?r = queue_list r @ [x]"
    using ring_list_snoc [of "cq_num_entries r" vs "cq_head r" x] assms(2) vs tail
    by (simp add: queue_list_def)
  ultimately show thesis using that by simp
qed

lemma queue_dequeue_front:
  assumes "queue_ok r" and "queue_list r = y # ys"
  obtains r' where "queue_dequeue (Some r) True = Some (QUEUE_SUCCESS, Some r', Some y)"
    "queue_ok r'" "queue_list r' = ys" "cq_size r' = cq_size r"
    "cq_num_entries r' = cq_num_entries r - 1"
proof -
  from assms(1) obtain vs where vs: "cq_values r = Some vs" "length vs = cq_size r"
    "cq_head r < length vs" "queue_list r = ring_list vs (cq_head r) (cq_num_entries r)"
    by (rule queue_okD)
  let ?r = "r\<lparr>cq_head := (cq_head r + 1) mod cq_size r, cq_num_entries := cq_num_entries r - 1\<rparr>"
  from assms(2) vs have pos: "0 < cq_num_entries r"
    by (metis list.distinct(1) neq0_conv ring_list_0)
  with vs assms(2) have front: "vs ! cq_head r = y"
    "ring_list vs ((cq_head r + 1) mod cq_size r) (cq_num_entries r - 1) = ys"
    using ring_list_Cons [OF pos vs(3)] by auto
  have "queue_dequeue (Some r) True = Some (QUEUE_SUCCESS, Some ?r, Some y)"
    using assms(1) vs pos front by (simp add: queue_dequeue_def queue_access queue_ok_def)
  moreover have "queue_ok ?r"
    using assms(1) pos mod_succ_offset [OF pos, of "cq_head r" "cq_size r"]
    by (auto simp: queue_ok_def)
  ultimately show thesis using that front vs by (simp add: queue_list_def)
qed

lemma queue_list_length: "queue_ok r \<Longrightarrow> length (queue_list r) = cq_num_entries r"
  by (auto simp: queue_inv)

lemma queue_enqueue_full:
  "queue_ok r \<Longrightarrow> cq_num_entries r = cq_size r \<Longrightarrow>
    queue_enqueue (Some r) x = Some (QUEUE_ERROR_FULL, Some r)"
  by (simp add: queue_enqueue_def queue_access queue_ok_def)

lemma queue_dequeue_empty:
  "queue_ok r \<Longrightarrow> queue_list r = [] \<Longrightarrow>
    queue_dequeue (Some r) True = Some (QUEUE_ERROR_EMPTY, Some r, None)"
  using queue_list_length [of r] by (simp add: queue_dequeue_def queue_access queue_ok_def)

subsection \<open>The queue is a bounded queue\<close>

definition cq_enq :: "int \<Rightarrow> Queue \<Rightarrow> Queue option" where
  "cq_enq x r =
     (case queue_enqueue (Some r) x of Some (QUEUE_SUCCESS, q) \<Rightarrow> q | _ \<Rightarrow> None)"

definition cq_deq :: "Queue \<Rightarrow> (int \<times> Queue) option" where
  "cq_deq r =
     (case queue_dequeue (Some r) True of
        Some (QUEUE_SUCCESS, Some r', Some v) \<Rightarrow> Some (v, r') | _ \<Rightarrow> None)"

interpretation cq: bounded_fifo queue_list queue_ok cq_size cq_enq cq_deq
proof unfold_locales
  fix r x y ys
  assume ok: "queue_ok r"
  then show le: "length (queue_list r) \<le> cq_size r"
    by (simp add: queue_list_length) (simp add: queue_ok_def)
  show "cq_enq x r = None" if "length (queue_list r) = cq_size r"
    using ok that by (simp add: cq_enq_def queue_enqueue_full queue_list_length)
  show "\<exists>t. cq_enq x r = Some t \<and> queue_ok t \<and> cq_size t = cq_size r \<and>
      queue_list t = queue_list r @ [x]" if "length (queue_list r) < cq_size r"
  proof -
    have "cq_num_entries r < cq_size r" using that ok by (simp add: queue_list_length)
    with ok show ?thesis by (rule queue_enqueue_room [where x = x]) (auto simp: cq_enq_def)
  qed
  show "cq_deq r = None" if "queue_list r = []"
    using queue_dequeue_empty [OF ok that] by (simp add: cq_deq_def)
  show "\<exists>t. cq_deq r = Some (y, t) \<and> queue_ok t \<and> cq_size t = cq_size r \<and> queue_list t = ys"
    if "queue_list r = y # ys"
    using ok that by (rule queue_dequeue_front) (auto simp: cq_deq_def)
qed

lemma queue_enqueue_cases:
  assumes "queue_ok r"
  shows "\<exists>e r'. queue_enqueue (Some r) x = Some (e, Some r') \<and> queue_ok r' \<and>
      (if cq_num_entries r < cq_size r
       then e = QUEUE_SUCCESS \<and> queue_list r' = queue_list r @ [x]
       else e = QUEUE_ERROR_FULL \<and> r' = r)"
proof (cases "cq_num_entries r < cq_size r")
  case True
  with assms obtain r' where "queue_enqueue (Some r) x = Some (QUEUE_SUCCESS, Some r')"
    "queue_ok r'" "queue_list r' = queue_list r @ [x]" by (rule queue_enqueue_room [where x = x])
  with True show ?thesis by simp
next
  case False
  with assms have "cq_num_entries r = cq_size r" by (simp add: queue_ok_def)
  with assms show ?thesis by (auto simp: queue_enqueue_full)
qed

lemma queue_dequeue_cases:
  assumes "queue_ok r"
  shows "\<exists>e r' res. queue_dequeue (Some r) True = Some (e, Some r', res) \<and> queue_ok r' \<and>
      (case queue_list r of
         [] \<Rightarrow> e = QUEUE_ERROR_EMPTY \<and> r' = r \<and> res = None
       | y # ys \<Rightarrow> e = QUEUE_SUCCESS \<and> queue_list r' = ys \<and> res = Some y)"
proof (cases "queue_list r")
  case Nil
  with assms show ?thesis by (simp add: queue_dequeue_empty)
next
  case (Cons y ys)
  with assms obtain r' where "queue_dequeue (Some r) True = Some (QUEUE_SUCCESS, Some r', Some y)"
    "queue_ok r'" "queue_list r' = ys" by (rule queue_dequeue_front)
  with Cons show ?thesis by simp
qed

lemma queue_peek_front:
  assumes "queue_ok r"
  shows "queue_peek (Some r) = Some (case queue_list r of [] \<Rightarrow> QUEUE_EMPTY | y # ys \<Rightarrow> y)"
proof (cases "cq_num_entries r = 0")
  case True
  with assms show ?thesis
    by (auto simp: queue_peek_def queue_access queue_inv)
next
  case False
  from assms obtain vs where vs: "cq_values r = Some vs" "cq_head r < length vs"
    "queue_list r = ring_list vs (cq_head r) (cq_num_entries r)" by (rule queue_okD)
  with False assms show ?thesis
    by (simp add: queue_peek_def queue_access ring_list_Cons queue_ok_def)
qed

lemma queue_init_ok:
  assumes "0 < sz" and "malloc (nat sz) = Some b" and "length b = nat sz"
  obtains r' where "queue_init malloc (Some r) sz = (QUEUE_SUCCESS, Some r')" "queue_ok r'"
    "queue_list r' = []" "cq_size r' = nat sz"
  using assms by (auto simp: queue_init_def queue_inv)

subsection \<open>Resizing\<close>

lemma resize_copy_ok:
  assumes "queue_ok r" and "cnt + cq_num_entries r \<le> length nv"
  shows "\<exists>r'. cq_initialized r' \<and>
    resize_copy (cq_num_entries r) r nv cnt =
      Some (r', take cnt nv @ queue_list r @ drop (cnt + cq_num_entries r) nv,
            cnt + cq_num_entries r)"
  using assms
proof (induction "cq_num_entries r" arbitrary: r nv cnt)
  case 0
  then have "queue_list r = []" using queue_list_length by fastforce
  with 0 show ?case by (subst resize_copy.simps) (simp add: queue_access queue_ok_def)
next
  case (Suc n)
  from Suc.prems Suc.hyps(2) queue_list_length [of r] obtain y ys
    where ys: "queue_list r = y # ys" "length ys = n"
    by (metis Suc_length_conv)
  from Suc.prems(1) ys(1) obtain r1 where
    r1: "queue_dequeue (Some r) True = Some (QUEUE_SUCCESS, Some r1, Some y)"
      "queue_ok r1" "queue_list r1 = ys" "cq_num_entries r1 = cq_num_entries r - 1"
    by (rule queue_dequeue_front)
  let ?nv = "nv[cnt := y]"
  have cnt: "cnt < length nv" using Suc.prems(2) Suc.hyps(2) by simp
  have "n = cq_num_entries r1" using r1(4) Suc.hyps(2) by simp
  moreover have "cnt + 1 + cq_num_entries r1 \<le> length ?nv"
    using Suc.prems(2) Suc.hyps(2) r1(4) by simp
  ultimately obtain r' where r': "cq_initialized r'"
    "resize_copy (cq_num_entries r1) r1 ?nv (cnt + 1) =
      Some (r', take (cnt + 1) ?nv @ ys @ drop (cnt + 1 + cq_num_entries r1) ?nv,
        cnt + 1 + cq_num_entries r1)"
    using Suc.hyps(1) [OF _ r1(2), of "cnt + 1" ?nv] r1(3) by auto
  have "take (cnt + 1) ?nv = take cnt nv @ [y]"
    using cnt by (simp add: take_Suc_conv_app_nth)
  with r' r1 ys(1) Suc.prems(1) cnt Suc.hyps(2) [symmetric] show ?case
    by (subst resize_copy.simps) (auto simp: queue_access queue_ok_def)
qed

lemma queue_resize_ok:
  assumes "queue_ok r" and "0 < new_size" and "int (cq_num_entries r) \<le> new_size"
    and "malloc (nat new_size) = Some b" and "length b = nat new_size"
  obtains r' where "queue_resize malloc (Some r) new_size = Some (QUEUE_SUCCESS, Some r')"
    "queue_list r' = queue_list r" "cq_size r' = nat new_size" "cq_head r' = 0"
    "cq_tail r' = cq_num_entries r" "cq_num_entries r' = cq_num_entries r"
    "cq_values r' = Some (queue_list r @ drop (cq_num_entries r) b)" "cq_initialized r'"
proof -
  let ?n = "cq_num_entries r"
  from assms have "0 + ?n \<le> length b" by simp
  with assms(1) obtain r1 where r1: "cq_initialized r1"
    "resize_copy ?n r b 0 = Some (r1, queue_list r @ drop ?n b, ?n)"
    using resize_copy_ok [of r 0 b] by auto
  let ?r = "r1\<lparr>cq_values := Some (queue_list r @ drop ?n b), cq_size := nat new_size,
    cq_head := 0, cq_tail := ?n, cq_num_entries := ?n\<rparr>"
  have "queue_resize malloc (Some r) new_size = Some (QUEUE_SUCCESS, Some ?r)"
    using assms r1 by (simp add: queue_resize_def queue_ok_def)
  moreover have "queue_list ?r = queue_list r"
  proof -
    have "length (queue_list r @ drop ?n b) = nat new_size"
      using assms \<open>0 + ?n \<le> length b\<close> queue_list_length [OF assms(1)] by simp
    with assms queue_list_length [OF assms(1)] show ?thesis
      by (auto simp: queue_list_def ring_list_def nth_append intro!: nth_equalityI)
  qed
  ultimately show thesis using that r1 by simp
qed

subsection \<open>Properties\<close>

text \<open>An uninitialised queue and an allocator that gives zeroed blocks, for the examples.\<close>

definition raw_queue :: Queue where
  "raw_queue = \<lparr>cq_values = None, cq_head = 3, cq_tail = 9, cq_num_entries = 4, cq_size = 7,
     cq_initialized = False\<rparr>"

definition zero_malloc :: "nat \<Rightarrow> int list option" where
  "zero_malloc n = Some (replicate n 0)"

text \<open>C1. A queue set up by \<open>queue_init\<close> behaves as a bounded list under every sequence of
  enqueues and dequeues: each call succeeds or is refused exactly when it is on the list, each
  dequeue returns the same value, and at the end the array holds exactly the list.\<close>

theorem queue_run_refines_list:
  assumes "malloc (nat sz) = Some b" and "length b = nat sz" and "0 < sz"
    and "queue_init malloc (Some r) sz = (QUEUE_SUCCESS, Some q)"
    and "run_fifo cq_enq cq_deq ops q = (rs, t)"
  shows "run_fifo (list_enq (nat sz)) list_deq ops [] = (rs, queue_list t) \<and> queue_ok t"
proof -
  from assms have "queue_ok q" "queue_list q = []" "cq_size q = nat sz"
    by (auto simp: queue_init_def queue_inv)
  with cq.run_refines [of q ops rs t] assms(5) show ?thesis by simp
qed

theorem queue_run_refines_list_witness:
  "run_fifo (list_enq 2) list_deq [Enq 7, Enq 8, Enq 9, Deq, Enq 10, Deq, Deq, Deq] [] =
     (let r = run_fifo cq_enq cq_deq [Enq 7, Enq 8, Enq 9, Deq, Enq 10, Deq, Deq, Deq]
                (the (snd (queue_init zero_malloc (Some raw_queue) 2)))
      in (fst r, queue_list (snd r)))"
proof -
  let ?q = "the (snd (queue_init zero_malloc (Some raw_queue) 2))"
  let ?ops = "[Enq 7, Enq 8, Enq 9, Deq, Enq 10, Deq, Deq, Deq] :: int fifo_op list"
  have "zero_malloc (nat 2) = Some [0, 0]"
    by (simp add: zero_malloc_def numeral_2_eq_2)
  moreover have "queue_init zero_malloc (Some raw_queue) 2 = (QUEUE_SUCCESS, Some ?q)"
    by code_simp
  ultimately show ?thesis
    using queue_run_refines_list [of zero_malloc 2 "[0, 0]" raw_queue ?q ?ops
        "fst (run_fifo cq_enq cq_deq ?ops ?q)" "snd (run_fifo cq_enq cq_deq ?ops ?q)"]
    by (simp add: Let_def del: run_fifo.simps)
qed

text \<open>On a well-formed queue no operation reads or writes outside the array, and each
  branch does what its documentation says: \<open>queue_enqueue\<close> appends or reports a full queue
  and changes nothing, \<open>queue_dequeue\<close> removes and returns the front element or reports an
  empty queue, \<open>queue_peek\<close> returns the front element or \<open>QUEUE_EMPTY\<close>; every queue that
  results is again well formed.\<close>

theorem queue_operations_correct:
  assumes "queue_ok r"
  shows "(\<exists>e r'. queue_enqueue (Some r) x = Some (e, Some r') \<and> queue_ok r' \<and>
      (if cq_num_entries r < cq_size r
       then e = QUEUE_SUCCESS \<and> queue_list r' = queue_list r @ [x]
       else e = QUEUE_ERROR_FULL \<and> r' = r)) \<and>
    (\<exists>e r' res. queue_dequeue (Some r) True = Some (e, Some r', res) \<and> queue_ok r' \<and>
      (case queue_list r of
         [] \<Rightarrow> e = QUEUE_ERROR_EMPTY \<and> r' = r \<and> res = None
       | y # ys \<Rightarrow> e = QUEUE_SUCCESS \<and> queue_list r' = ys \<and> res = Some y)) \<and>
    queue_peek (Some r) = Some (case queue_list r of [] \<Rightarrow> QUEUE_EMPTY | y # ys \<Rightarrow> y)"
  using queue_enqueue_cases [OF assms] queue_dequeue_cases [OF assms] queue_peek_front [OF assms]
  by blast

theorem queue_operations_correct_witness:
  "queue_ok (the (snd (queue_init zero_malloc (Some raw_queue) 2))) \<and>
   queue_peek (snd (queue_init zero_malloc (Some raw_queue) 2)) = Some QUEUE_EMPTY"
proof -
  let ?q = "the (snd (queue_init zero_malloc (Some raw_queue) 2))"
  have ok: "queue_ok ?q"
    by (simp add: queue_init_def zero_malloc_def raw_queue_def queue_ok_def)
  have "snd (queue_init zero_malloc (Some raw_queue) 2) = Some ?q" "queue_list ?q = []"
    by (simp_all add: queue_init_def zero_malloc_def raw_queue_def queue_list_def)
  with ok queue_operations_correct [OF ok] show ?thesis by simp
qed

text \<open>C2. \<open>queue_resize\<close> to a larger capacity keeps the queue's contents and their order,
  gives the new capacity, and leaves a well-formed queue.\<close>

theorem queue_resize_keeps_contents:
  assumes "queue_ok r" and "int (cq_num_entries r) < new_size"
    and "malloc (nat new_size) = Some b" and "length b = nat new_size"
  shows "\<exists>r'. queue_resize malloc (Some r) new_size = Some (QUEUE_SUCCESS, Some r') \<and>
    queue_ok r' \<and> queue_list r' = queue_list r \<and> cq_size r' = nat new_size"
proof -
  from assms have pos: "0 < new_size" and le: "int (cq_num_entries r) \<le> new_size" by simp_all
  from assms(1) pos le assms(3,4) obtain r' where
    r': "queue_resize malloc (Some r) new_size = Some (QUEUE_SUCCESS, Some r')"
      "queue_list r' = queue_list r" "cq_size r' = nat new_size" "cq_head r' = 0"
      "cq_tail r' = cq_num_entries r" "cq_num_entries r' = cq_num_entries r"
      "cq_values r' = Some (queue_list r @ drop (cq_num_entries r) b)" "cq_initialized r'"
    by (rule queue_resize_ok)
  have "cq_num_entries r < nat new_size" using assms(2) by simp
  moreover from this have "queue_ok r'"
    using r'(3-) assms pos queue_list_length [OF assms(1)] by (simp add: queue_ok_def)
  ultimately show ?thesis using r' by blast
qed

text \<open>A queue of three places whose two elements wrap around the end of the array.\<close>

theorem queue_resize_keeps_contents_witness:
  "\<exists>r'. queue_resize zero_malloc (Some \<lparr>cq_values = Some [20, 0, 10], cq_head = 2, cq_tail = 1, cq_num_entries = 2,
      cq_size = 3, cq_initialized = True\<rparr>) 5 = Some (QUEUE_SUCCESS, Some r') \<and> queue_list r' = [10, 20] \<and> cq_size r' = 5"
proof -
  let ?q = "\<lparr>cq_values = Some [20, 0, 10], cq_head = 2, cq_tail = 1, cq_num_entries = 2, cq_size = 3, cq_initialized = True\<rparr>"
  have ok: "queue_ok ?q" by (simp add: queue_ok_def)
  have l: "queue_list ?q = [10, 20]" by (simp add: queue_list_def ring_list_def numeral_2_eq_2)
  have m: "zero_malloc (nat 5) = Some (replicate 5 0)" by (simp add: zero_malloc_def)
  show ?thesis using queue_resize_keeps_contents [of ?q 5 zero_malloc, OF ok _ m] l by auto
qed

text \<open>\<open>queue_resize\<close> to exactly the number of entries leaves \<open>tail\<close> equal to the
  capacity, one past the array. After one dequeue the queue no longer counts as full, and the
  next \<open>queue_enqueue\<close> writes at that index, outside the array.\<close>

theorem queue_resize_exact_fit_overflows:
  assumes "queue_ok r" and "cq_num_entries r = n" and "0 < n"
    and "malloc n = Some b" and "length b = n"
  shows "\<exists>r1 r2 v. queue_resize malloc (Some r) (int n) = Some (QUEUE_SUCCESS, Some r1) \<and>
    cq_tail r1 = cq_size r1 \<and>
    queue_dequeue (Some r1) True = Some (QUEUE_SUCCESS, Some r2, Some v) \<and>
    queue_enqueue (Some r2) x = None"
proof -
  from assms have "0 < int n" "int (cq_num_entries r) \<le> int n" "malloc (nat (int n)) = Some b"
    "length b = nat (int n)" by simp_all
  with assms(1) obtain r1 where
    r1: "queue_resize malloc (Some r) (int n) = Some (QUEUE_SUCCESS, Some r1)"
      "queue_list r1 = queue_list r" "cq_size r1 = nat (int n)" "cq_head r1 = 0"
      "cq_tail r1 = cq_num_entries r" "cq_num_entries r1 = cq_num_entries r"
      "cq_values r1 = Some (queue_list r @ drop (cq_num_entries r) b)" "cq_initialized r1"
    by (rule queue_resize_ok)
  have len: "length (queue_list r @ drop (cq_num_entries r) b) = n"
    using assms queue_list_length [OF assms(1)] by simp
  let ?v = "(queue_list r @ drop (cq_num_entries r) b) ! 0"
  let ?r2 = "r1\<lparr>cq_head := 1 mod n, cq_num_entries := n - 1\<rparr>"
  have "queue_dequeue (Some r1) True = Some (QUEUE_SUCCESS, Some ?r2, Some ?v)"
    using r1(3-) assms(2,3) len
    by (simp add: queue_dequeue_def queue_access del: nth_append length_append)
  moreover have "queue_enqueue (Some ?r2) x = None"
    using r1(3-) assms(2,3) len
    by (simp add: queue_enqueue_def queue_access del: length_append)
  moreover have "cq_tail r1 = cq_size r1" using r1(3,5) assms(2) by simp
  ultimately show ?thesis using r1(1) by blast
qed

theorem queue_resize_exact_fit_overflows_witness:
  "\<exists>r1 r2 v. queue_resize zero_malloc
      (Some \<lparr>cq_values = Some [11, 22, 33], cq_head = 0, cq_tail = 2, cq_num_entries = 2,
        cq_size = 3, cq_initialized = True\<rparr>) (int 2) = Some (QUEUE_SUCCESS, Some r1) \<and>
    cq_tail r1 = cq_size r1 \<and>
    queue_dequeue (Some r1) True = Some (QUEUE_SUCCESS, Some r2, Some v) \<and>
    queue_enqueue (Some r2) 44 = None"
  by (rule queue_resize_exact_fit_overflows [where b = "[0, 0]"])
    (simp_all add: queue_ok_def zero_malloc_def numeral_2_eq_2)

text \<open>The file's test routine runs without leaving an array. In its last test set the
  enqueue that the comment expects to fail on a full queue succeeds, because the queue then
  holds nine of ten entries; the dequeue from the cleared queue fails as expected.\<close>

theorem comprehensive_tests_outcome:
  "map_option (\<lambda>es. take 3 (rev es)) (run_comprehensive_tests zero_malloc raw_queue) =
    Some [TestResult (''Destroy Queue'', Green, ''SUCCESS''),
          TestResult (''Dequeue from empty'', Red, ''QUEUE EMPTY''),
          TestResult (''Enqueue to full queue'', Green, ''SUCCESS'')]"
  by code_simp

end
