(* ===== verification/Request_Queue.thy ===== *)
theory Request_Queue
  imports Ring_Fifo
begin

text \<open>
  The request queue of the memory schedulers and the first-ready first-come-first-served
  scheduler (\<^verbatim>\<open>accessPatterns/FirstReady-FirstComeFirstServe.c\<close>).

  The same queue code (a fixed array with \<open>front\<close>, \<open>rear\<close> and \<open>size\<close>, where \<open>rear\<close> starts at
  \<open>-1\<close>) is repeated in the schedulers of \<^verbatim>\<open>concurrency/scheduling/\<close>, each with its own request
  type and its own array length; it is modelled once, for any request type and any length, and
  held to the contract \<open>bounded_fifo\<close>. A function that calls \<open>exit\<close> ends in \<open>Exit code\<close>.
\<close>

datatype 'a prog = Ret 'a | Exit int

subsection \<open>The queue\<close>

record 'a req_queue =
  rq_requests :: "'a list"
  rq_front :: nat
  rq_rear :: int
  rq_size :: nat

definition initQueue :: "'a req_queue \<Rightarrow> 'a req_queue" where
  "initQueue q = q\<lparr>rq_front := 0, rq_rear := -1, rq_size := 0\<rparr>"

definition isQueueEmpty :: "'a req_queue \<Rightarrow> bool" where
  "isQueueEmpty q \<longleftrightarrow> rq_size q = 0"

definition isQueueFull :: "nat \<Rightarrow> 'a req_queue \<Rightarrow> bool" where
  "isQueueFull mx q \<longleftrightarrow> rq_size q = mx"

text \<open>The flag of the result says whether the request was stored; a refused request only prints
  a message.\<close>

definition enqueue :: "nat \<Rightarrow> 'a req_queue \<Rightarrow> 'a \<Rightarrow> (bool \<times> 'a req_queue) option" where
  "enqueue mx q request =
     (if isQueueFull mx q then Some (False, q)
      else do {
        let rear = (rq_rear q + 1) mod int mx;
        rs \<leftarrow> c_store (rq_requests q) (nat rear) request;
        Some (True, q\<lparr>rq_rear := rear, rq_requests := rs, rq_size := rq_size q + 1\<rparr>)
      })"

definition dequeue :: "nat \<Rightarrow> 'a req_queue \<Rightarrow> ('a \<times> 'a req_queue) prog option" where
  "dequeue mx q =
     (if isQueueEmpty q then Some (Exit 1)
      else do {
        request \<leftarrow> c_load (rq_requests q) (rq_front q);
        Some (Ret (request, q\<lparr>rq_front := (rq_front q + 1) mod mx, rq_size := rq_size q - 1\<rparr>))
      })"

subsection \<open>Its invariant and its contents\<close>

definition rq_ok :: "nat \<Rightarrow> 'a req_queue \<Rightarrow> bool" where
  "rq_ok mx q \<longleftrightarrow> 0 < mx \<and> length (rq_requests q) = mx \<and> rq_front q < mx \<and> rq_size q \<le> mx \<and>
     -1 \<le> rq_rear q \<and> rq_rear q < int mx \<and> (rq_rear q = -1 \<longrightarrow> rq_size q = 0) \<and>
     (rq_rear q + 1) mod int mx = int ((rq_front q + rq_size q) mod mx)"

definition rq_list :: "'a req_queue \<Rightarrow> 'a list" where
  "rq_list q = ring_list (rq_requests q) (rq_front q) (rq_size q)"

declare rq_ok_def [inv_defs]

lemma rq_list_length [simp]: "length (rq_list q) = rq_size q"
  by (simp add: rq_list_def)

lemma isQueueEmpty_iff: "isQueueEmpty q \<longleftrightarrow> rq_list q = []"
  by (simp add: isQueueEmpty_def flip: length_0_conv)

lemma initQueue_ok:
  "length (rq_requests q) = mx \<Longrightarrow> 0 < mx \<Longrightarrow> rq_ok mx (initQueue q)"
  "rq_list (initQueue q) = []"
  by (simp_all add: rq_ok_def initQueue_def rq_list_def)

lemma enqueue_full: "rq_ok mx q \<Longrightarrow> length (rq_list q) = mx \<Longrightarrow> enqueue mx q x = Some (False, q)"
  by (simp add: enqueue_def isQueueFull_def)

lemma enqueue_room:
  assumes "rq_ok mx q" and "length (rq_list q) < mx"
  shows "\<exists>t. enqueue mx q x = Some (True, t) \<and> rq_ok mx t \<and> rq_list t = rq_list q @ [x]"
proof -
  let ?p = "(rq_front q + rq_size q) mod mx"
  have lt: "?p < mx" using assms by (simp add: rq_ok_def)
  let ?t = "q\<lparr>rq_rear := int ?p, rq_requests := (rq_requests q)[?p := x],
    rq_size := rq_size q + 1\<rparr>"
  have "enqueue mx q x = Some (True, ?t)"
    using assms lt by (simp add: enqueue_def isQueueFull_def rq_ok_def)
  moreover have "(int ?p + 1) mod int mx = int ((rq_front q + (rq_size q + 1)) mod mx)"
    by (simp add: zmod_int mod_simps algebra_simps)
  with assms have "rq_ok mx ?t" by (simp add: rq_ok_def)
  moreover have "rq_list ?t = rq_list q @ [x]"
    using assms ring_list_snoc [of "rq_size q" "rq_requests q" "rq_front q" x]
    by (simp add: rq_list_def rq_ok_def)
  ultimately show ?thesis by blast
qed

lemma dequeue_empty: "rq_list q = [] \<Longrightarrow> dequeue mx q = Some (Exit 1)"
  by (simp add: dequeue_def isQueueEmpty_iff)

lemma dequeue_front:
  assumes "rq_ok mx q" and "rq_list q = y # ys"
  shows "\<exists>t. dequeue mx q = Some (Ret (y, t)) \<and> rq_ok mx t \<and> rq_list t = ys"
proof -
  from assms(2) have pos: "0 < rq_size q" using rq_list_length [of q] by simp
  let ?t = "q\<lparr>rq_front := (rq_front q + 1) mod mx, rq_size := rq_size q - 1\<rparr>"
  have y: "y = rq_requests q ! rq_front q" and ys: "ys = rq_list ?t"
    using assms pos ring_list_Cons [of "rq_size q" "rq_front q" "rq_requests q"]
    by (auto simp: rq_list_def rq_ok_def)
  have "dequeue mx q = Some (Ret (y, ?t))"
    using assms(1) pos y by (simp add: dequeue_def isQueueEmpty_def rq_ok_def)
  moreover have "rq_ok mx ?t"
    using assms(1) mod_succ_offset [OF pos, of "rq_front q" mx] by (auto simp: rq_ok_def)
  ultimately show ?thesis using ys by blast
qed

subsection \<open>The queue keeps the contract of a bounded queue\<close>

definition rq_enq :: "nat \<Rightarrow> 'a \<Rightarrow> 'a req_queue \<Rightarrow> 'a req_queue option" where
  "rq_enq mx x q = (case enqueue mx q x of Some (True, t) \<Rightarrow> Some t | _ \<Rightarrow> None)"

definition rq_deq :: "nat \<Rightarrow> 'a req_queue \<Rightarrow> ('a \<times> 'a req_queue) option" where
  "rq_deq mx q = (case dequeue mx q of Some (Ret r) \<Rightarrow> Some r | _ \<Rightarrow> None)"

interpretation rq: bounded_fifo rq_list "rq_ok mx" "\<lambda>_. mx" "rq_enq mx" "rq_deq mx" for mx
proof unfold_locales
  fix s :: "'a req_queue" and x y ys
  assume ok: "rq_ok mx s"
  then show "length (rq_list s) \<le> mx" by (simp add: rq_ok_def)
  show "length (rq_list s) = mx \<Longrightarrow> rq_enq mx x s = None"
    using enqueue_full [OF ok] by (simp add: rq_enq_def)
  show "length (rq_list s) < mx \<Longrightarrow> \<exists>t. rq_enq mx x s = Some t \<and> rq_ok mx t \<and> mx = mx \<and>
      rq_list t = rq_list s @ [x]"
    using enqueue_room [OF ok, of x] by (auto simp: rq_enq_def)
  show "rq_list s = [] \<Longrightarrow> rq_deq mx s = None"
    by (simp add: rq_deq_def dequeue_empty)
  show "rq_list s = y # ys \<Longrightarrow> \<exists>t. rq_deq mx s = Some (y, t) \<and> rq_ok mx t \<and> mx = mx \<and>
      rq_list t = ys"
    using dequeue_front [OF ok, of y ys] by (auto simp: rq_deq_def)
qed

text \<open>The loops that fill a queue: requests that find the queue full are dropped.\<close>

fun enqueue_all :: "nat \<Rightarrow> 'a list \<Rightarrow> 'a req_queue \<Rightarrow> 'a req_queue option" where
  "enqueue_all mx [] q = Some q"
| "enqueue_all mx (r # rs) q = do { (_, q') \<leftarrow> enqueue mx q r; enqueue_all mx rs q' }"

lemma enqueue_all_room:
  assumes "rq_ok mx q" and "length (rq_list q) + length rs \<le> mx"
  shows "\<exists>t. enqueue_all mx rs q = Some t \<and> rq_ok mx t \<and> rq_list t = rq_list q @ rs"
  using assms
proof (induction rs arbitrary: q)
  case (Cons r rs)
  from Cons.prems enqueue_room [of mx q r] obtain u where
    u: "enqueue mx q r = Some (True, u)" "rq_ok mx u" "rq_list u = rq_list q @ [r]"
    by fastforce
  with Cons.IH [of u] Cons.prems(2) show ?case
    using rq_list_length [of u] by auto
qed simp

subsection \<open>First-ready first-come-first-served\<close>

definition MAX_QUEUE_SIZE :: nat where
  "MAX_QUEUE_SIZE = 100"

record fr_request =
  fr_address :: int
  fr_timestamp :: int
  fr_is_row_buffer_hit :: bool

type_synonym fr_queue = "fr_request req_queue"

definition frFcfsSchedule ::
  "fr_queue \<Rightarrow> fr_queue \<Rightarrow> (fr_request \<times> fr_queue \<times> fr_queue) prog option" where
  "frFcfsSchedule hitQueue missQueue =
     (if \<not> isQueueEmpty hitQueue then
        do { d \<leftarrow> dequeue MAX_QUEUE_SIZE hitQueue;
             Some (case d of Exit c \<Rightarrow> Exit c | Ret (r, h) \<Rightarrow> Ret (r, h, missQueue)) }
      else if \<not> isQueueEmpty missQueue then
        do { d \<leftarrow> dequeue MAX_QUEUE_SIZE missQueue;
             Some (case d of Exit c \<Rightarrow> Exit c | Ret (r, m) \<Rightarrow> Ret (r, hitQueue, m)) }
      else Some (Exit 1))"

text \<open>The first loop of \<open>main\<close>, over the requests it draws, and the second, which processes
  requests while a queue is not empty. The queues shrink in every round.\<close>

fun fr_fill :: "fr_request list \<Rightarrow> fr_queue \<Rightarrow> fr_queue \<Rightarrow> (fr_queue \<times> fr_queue) option" where
  "fr_fill [] hitQueue missQueue = Some (hitQueue, missQueue)"
| "fr_fill (request # rs) hitQueue missQueue =
     (if fr_is_row_buffer_hit request
      then do { (_, h) \<leftarrow> enqueue MAX_QUEUE_SIZE hitQueue request; fr_fill rs h missQueue }
      else do { (_, m) \<leftarrow> enqueue MAX_QUEUE_SIZE missQueue request; fr_fill rs hitQueue m })"

function fr_process :: "fr_queue \<Rightarrow> fr_queue \<Rightarrow> fr_request list prog option" where
  "fr_process hitQueue missQueue =
     (if \<not> isQueueEmpty hitQueue \<or> \<not> isQueueEmpty missQueue then
        (case frFcfsSchedule hitQueue missQueue of
           None \<Rightarrow> None
         | Some (Exit c) \<Rightarrow> Some (Exit c)
         | Some (Ret (scheduled, h, m)) \<Rightarrow>
             (case fr_process h m of
                None \<Rightarrow> None
              | Some (Exit c) \<Rightarrow> Some (Exit c)
              | Some (Ret out) \<Rightarrow> Some (Ret (scheduled # out))))
      else Some (Ret []))"
  by pat_completeness auto

termination fr_process
proof (relation "measure (\<lambda>(h, m). rq_size h + rq_size m)")
  fix hitQueue missQueue :: fr_queue and o1 p x b h m
  assume "\<not> isQueueEmpty hitQueue \<or> \<not> isQueueEmpty missQueue"
    "frFcfsSchedule hitQueue missQueue = Some o1" "o1 = Ret p" "(x, b) = p" "(h, m) = b"
  then show "((h, m), hitQueue, missQueue) \<in> measure (\<lambda>(h, m). rq_size h + rq_size m)"
    by (auto simp: frFcfsSchedule_def dequeue_def isQueueEmpty_def bind_eq_Some_conv
        split: if_splits prog.splits)
qed simp

declare fr_process.simps [simp del]

definition fr_main :: "fr_queue \<Rightarrow> fr_queue \<Rightarrow> fr_request list \<Rightarrow> fr_request list prog option" where
  "fr_main h0 m0 reqs = do {
     (h, m) \<leftarrow> fr_fill reqs (initQueue h0) (initQueue m0);
     fr_process h m
   }"

lemma fr_fill_ok:
  assumes "rq_ok MAX_QUEUE_SIZE h" "rq_ok MAX_QUEUE_SIZE m"
    and "length (rq_list h) + length rs \<le> MAX_QUEUE_SIZE"
    and "length (rq_list m) + length rs \<le> MAX_QUEUE_SIZE"
  shows "\<exists>h' m'. fr_fill rs h m = Some (h', m') \<and> rq_ok MAX_QUEUE_SIZE h' \<and>
    rq_ok MAX_QUEUE_SIZE m' \<and> rq_list h' = rq_list h @ filter fr_is_row_buffer_hit rs \<and>
    rq_list m' = rq_list m @ filter (\<lambda>r. \<not> fr_is_row_buffer_hit r) rs"
  using assms
proof (induction rs arbitrary: h m)
  case (Cons r rs)
  show ?case
  proof (cases "fr_is_row_buffer_hit r")
    case True
    from Cons.prems enqueue_room [of MAX_QUEUE_SIZE h r] obtain u where
      u: "enqueue MAX_QUEUE_SIZE h r = Some (True, u)" "rq_ok MAX_QUEUE_SIZE u"
        "rq_list u = rq_list h @ [r]" by fastforce
    with Cons.IH [of u m] Cons.prems True show ?thesis
      using rq_list_length [of u] by auto
  next
    case False
    from Cons.prems enqueue_room [of MAX_QUEUE_SIZE m r] obtain u where
      u: "enqueue MAX_QUEUE_SIZE m r = Some (True, u)" "rq_ok MAX_QUEUE_SIZE u"
        "rq_list u = rq_list m @ [r]" by fastforce
    with Cons.IH [of h u] Cons.prems False show ?thesis
      using rq_list_length [of u] by auto
  qed
qed simp

lemma fr_process_ok:
  assumes "rq_ok MAX_QUEUE_SIZE h" "rq_ok MAX_QUEUE_SIZE m"
  shows "fr_process h m = Some (Ret (rq_list h @ rq_list m))"
  using assms
proof (induction "length (rq_list h) + length (rq_list m)" arbitrary: h m)
  case 0
  then have "rq_list h = []" "rq_list m = []" by (simp_all flip: length_0_conv)
  then show ?case by (simp add: fr_process.simps [of h m] isQueueEmpty_iff)
next
  case (Suc n)
  show ?case
  proof (cases "rq_list h")
    case (Cons y ys)
    with dequeue_front [OF Suc.prems(1)] obtain t where
      t: "dequeue MAX_QUEUE_SIZE h = Some (Ret (y, t))" "rq_ok MAX_QUEUE_SIZE t" "rq_list t = ys"
      by blast
    with Suc.hyps(1) [of t m] Suc.hyps(2) Suc.prems(2) Cons show ?thesis
      by (simp add: fr_process.simps [of h m] isQueueEmpty_iff frFcfsSchedule_def
          flip: rq_list_length)
  next
    case Nil
    with Suc.hyps(2) obtain y ys where ys: "rq_list m = y # ys"
      by (metis add_0 length_0_conv list.exhaust nat.distinct(1))
    with dequeue_front [OF Suc.prems(2)] obtain t where
      t: "dequeue MAX_QUEUE_SIZE m = Some (Ret (y, t))" "rq_ok MAX_QUEUE_SIZE t" "rq_list t = ys"
      by blast
    with Suc.hyps(1) [of h t] Suc.hyps(2) Suc.prems(1) Nil ys show ?thesis
      by (simp add: fr_process.simps [of h m] isQueueEmpty_iff frFcfsSchedule_def
          flip: rq_list_length)
  qed
qed

subsection \<open>Properties\<close>

text \<open>C21. The first-ready first-come-first-served scheduler processes every request exactly once
  and stops: first the row-buffer hits in their order of arrival, then the others in theirs. The
  queues never overflow and no request is dropped as long as at most \<open>MAX_QUEUE_SIZE\<close> requests
  arrive.\<close>

theorem fr_fcfs_order:
  assumes "length (rq_requests h0) = MAX_QUEUE_SIZE" "length (rq_requests m0) = MAX_QUEUE_SIZE"
    and "length reqs \<le> MAX_QUEUE_SIZE"
  shows "fr_main h0 m0 reqs = Some (Ret (filter fr_is_row_buffer_hit reqs @
    filter (\<lambda>r. \<not> fr_is_row_buffer_hit r) reqs))"
proof -
  have "rq_ok MAX_QUEUE_SIZE (initQueue h0)" "rq_ok MAX_QUEUE_SIZE (initQueue m0)"
    using assms by (auto intro!: initQueue_ok(1) simp: MAX_QUEUE_SIZE_def)
  with fr_fill_ok [of "initQueue h0" "initQueue m0" reqs] assms obtain h m where
    "fr_fill reqs (initQueue h0) (initQueue m0) = Some (h, m)" "rq_ok MAX_QUEUE_SIZE h"
    "rq_ok MAX_QUEUE_SIZE m" "rq_list h = filter fr_is_row_buffer_hit reqs"
    "rq_list m = filter (\<lambda>r. \<not> fr_is_row_buffer_hit r) reqs"
    by (auto simp: initQueue_ok(2) simp flip: length_0_conv)
  then show ?thesis using fr_process_ok [of h m] by (simp add: fr_main_def)
qed

definition fr_req :: "int \<Rightarrow> bool \<Rightarrow> fr_request" where
  "fr_req a hit = \<lparr>fr_address = a, fr_timestamp = 0, fr_is_row_buffer_hit = hit\<rparr>"

definition fr_blank :: fr_queue where
  "fr_blank = \<lparr>rq_requests = replicate 100 (fr_req 0 False), rq_front = 0, rq_rear = 0,
     rq_size = 0\<rparr>"

theorem fr_fcfs_order_witness:
  "fr_main fr_blank fr_blank [fr_req 1 False, fr_req 2 True, fr_req 3 False, fr_req 4 True] =
    Some (Ret [fr_req 2 True, fr_req 4 True, fr_req 1 False, fr_req 3 False])"
  using fr_fcfs_order [of fr_blank fr_blank
      "[fr_req 1 False, fr_req 2 True, fr_req 3 False, fr_req 4 True]"]
  by (simp add: fr_blank_def fr_req_def MAX_QUEUE_SIZE_def)

end
