(* ===== verification/Bubble_Sort.thy ===== *)
theory Bubble_Sort
  imports Prelude "HOL-Library.Multiset"
begin

text \<open>
  The bubble sort the repository's schedulers rank with
  (\<^verbatim>\<open>concurrency/scheduling/Parallelism-AwareBatchScheduling.c\<close>, \<open>rankBanks\<close>, and
  \<^verbatim>\<open>accessPatterns/schedulingAlgorithmMemoryController.c\<close>, \<open>parBsScheduleRequest\<close>): neighbours
  are exchanged when the key of the left one is smaller, so that the keys end in descending
  order. The key of an element may itself be an array access, which can fail.

  The loops on checked accesses are shown equal to loops on plain lists, and these to permute
  the array and to leave its keys in descending order.
\<close>

subsection \<open>The loops of the code\<close>

definition bubble_step :: "('a \<Rightarrow> 'k::linorder option) \<Rightarrow> nat \<Rightarrow> 'a list \<Rightarrow> 'a list option" where
  "bubble_step key j a = do {
     x \<leftarrow> c_load a j;
     y \<leftarrow> c_load a (j + 1);
     kx \<leftarrow> key x;
     ky \<leftarrow> key y;
     if kx < ky then do { a' \<leftarrow> c_store a j y; c_store a' (j + 1) x } else Some a
   }"

fun bubble_pass :: "('a \<Rightarrow> 'k::linorder option) \<Rightarrow> nat list \<Rightarrow> 'a list \<Rightarrow> 'a list option" where
  "bubble_pass key [] a = Some a"
| "bubble_pass key (j # js) a = do { a' \<leftarrow> bubble_step key j a; bubble_pass key js a' }"

fun bubble_passes :: "('a \<Rightarrow> 'k::linorder option) \<Rightarrow> nat \<Rightarrow> nat list \<Rightarrow> 'a list \<Rightarrow> 'a list option"
where
  "bubble_passes key n [] a = Some a"
| "bubble_passes key n (i # is) a =
     do { a' \<leftarrow> bubble_pass key [0..<n - i - 1] a; bubble_passes key n is a' }"

definition bubble_sort :: "('a \<Rightarrow> 'k::linorder option) \<Rightarrow> nat \<Rightarrow> 'a list \<Rightarrow> 'a list option" where
  "bubble_sort key n a = bubble_passes key n [0..<n - 1] a"

subsection \<open>The same loops on plain lists\<close>

definition exchange :: "('a \<Rightarrow> 'k::linorder) \<Rightarrow> nat \<Rightarrow> 'a list \<Rightarrow> 'a list" where
  "exchange f j a =
     (if f (a ! j) < f (a ! (j + 1)) then a[j := a ! (j + 1), j + 1 := a ! j] else a)"

definition sink :: "('a \<Rightarrow> 'k::linorder) \<Rightarrow> nat \<Rightarrow> 'a list \<Rightarrow> 'a list" where
  "sink f m a = for_range 0 m (exchange f) a"

lemma exchange_mset: "j + 1 < length a \<Longrightarrow> mset (exchange f j a) = mset a"
  by (simp add: exchange_def mset_swap)

lemma exchange_length [simp]: "length (exchange f j a) = length a"
  by (simp add: exchange_def)

lemma exchange_above: "j + 1 < k \<Longrightarrow> exchange f j a ! k = a ! k"
  by (simp add: exchange_def)

lemma exchange_nth:
  assumes "j + 1 < length a"
  shows "exchange f j a ! k = a ! k \<or> (k \<le> j + 1 \<and> (exchange f j a ! k = a ! j \<or>
    exchange f j a ! k = a ! (j + 1)))"
  using assms by (auto simp: exchange_def nth_list_update)

text \<open>After the exchanges up to \<open>m\<close> the smallest key of the first \<open>m + 1\<close> elements is at
  \<open>m\<close>, the elements behind are untouched, and nothing new has come into the prefix.\<close>

lemma sink_props:
  assumes "m < length a"
  shows "mset (sink f m a) = mset a \<and> length (sink f m a) = length a \<and>
    (\<forall>k>m. sink f m a ! k = a ! k) \<and> (\<forall>k\<le>m. \<exists>k'\<le>m. sink f m a ! k = a ! k') \<and>
    (\<forall>k\<le>m. f (sink f m a ! m) \<le> f (sink f m a ! k))"
  using assms
proof (induction m)
  case 0
  then show ?case by (simp add: sink_def)
next
  case (Suc m)
  let ?b = "sink f m a"
  have step: "sink f (Suc m) a = exchange f m ?b" by (simp add: sink_def for_range_last)
  from Suc have IH: "mset ?b = mset a" "length ?b = length a" "\<forall>k>m. ?b ! k = a ! k"
    "\<forall>k\<le>m. \<exists>k'\<le>m. ?b ! k = a ! k'" "\<forall>k\<le>m. f (?b ! m) \<le> f (?b ! k)" by simp_all
  have src: "\<exists>k'\<le>Suc m. ?b ! k = a ! k'" if "k \<le> Suc m" for k
    using that IH(3,4) by (metis le_Suc_eq lessI)
  have "\<exists>k'\<le>Suc m. exchange f m ?b ! k = a ! k'" if "k \<le> Suc m" for k
    using exchange_nth [of m ?b f k] src [OF that] src [of m] src [of "Suc m"] Suc.prems IH(2)
    by fastforce
  moreover have "f (exchange f m ?b ! Suc m) \<le> f (exchange f m ?b ! k)" if "k \<le> Suc m" for k
    using that IH(2,5) Suc.prems
    by (auto simp: exchange_def nth_list_update le_Suc_eq not_less
        intro: order_trans less_imp_le)
  moreover have "exchange f m ?b ! k = a ! k" if "Suc m < k" for k
    using that IH(3) exchange_above [of m k f ?b] by simp
  ultimately show ?case
    using IH(1,2) Suc.prems exchange_mset [of m ?b f] by (simp add: step)
qed

definition settled :: "('a \<Rightarrow> 'k::linorder) \<Rightarrow> nat \<Rightarrow> 'a list \<Rightarrow> bool" where
  "settled f p a \<longleftrightarrow> (\<forall>l. p \<le> l \<longrightarrow> l < length a \<longrightarrow> (\<forall>k<l. f (a ! l) \<le> f (a ! k)))"

lemma sink_settled:
  assumes "settled f (Suc m) a" and "m < length a"
  shows "settled f m (sink f m a)"
  unfolding settled_def
proof (intro allI impI)
  note p = sink_props [OF assms(2), of f]
  fix l k assume l: "m \<le> l" "l < length (sink f m a)" and k: "k < l"
  show "f (sink f m a ! l) \<le> f (sink f m a ! k)"
  proof (cases "l = m")
    case True
    with p k show ?thesis by simp
  next
    case False
    with l p have ml: "m < l" "l < length a" "sink f m a ! l = a ! l" by auto
    obtain k' where "k' < l" "sink f m a ! k = a ! k'"
    proof (cases "k \<le> m")
      case True
      with p obtain k' where "k' \<le> m" "sink f m a ! k = a ! k'" by blast
      with that [of k'] ml(1) show thesis by simp
    next
      case False
      with p that k show thesis by simp
    qed
    with assms(1) ml show ?thesis by (simp add: settled_def)
  qed
qed

subsection \<open>The checked loops are the plain ones\<close>

lemma bubble_step_eq:
  assumes "j + 1 < length a" and "\<forall>x\<in>set a. key x = Some (f x)"
  shows "bubble_step key j a = Some (exchange f j a)"
  using assms by (simp add: bubble_step_def exchange_def)

lemma exchange_set: "j + 1 < length a \<Longrightarrow> set (exchange f j a) = set a"
  using exchange_mset [of j a f] by (rule mset_eq_setD)

lemma bubble_pass_eq:
  assumes "m < length a" and "\<forall>x\<in>set a. key x = Some (f x)"
  shows "bubble_pass key [0..<m] a = Some (sink f m a)"
proof -
  have "bubble_pass key [i..<m] b = Some (for_range i m (exchange f) b)"
    if "i \<le> m" "m < length b" "\<forall>x\<in>set b. key x = Some (f x)" for i b
    using that
  proof (induction "m - i" arbitrary: i b)
    case (Suc d)
    then have i: "i < m" "d = m - Suc i" "i + 1 < length b" by simp_all
    with Suc.prems Suc.hyps(1) [of "Suc i" "exchange f i b"] show ?case
      using bubble_step_eq [OF i(3) Suc.prems(3)] exchange_set [OF i(3), of f]
      by (simp add: upt_conv_Cons for_range_first)
  qed simp
  from this [of 0 a] assms show ?thesis by (simp add: sink_def)
qed

lemma bubble_sort_ok:
  assumes "length a = n" and "\<forall>x\<in>set a. key x = Some (f x)"
  shows "\<exists>b. bubble_sort key n a = Some b \<and> mset b = mset a \<and>
    (\<forall>l<n. \<forall>k<l. f (b ! l) \<le> f (b ! k))"
proof -
  have "\<exists>b. bubble_passes key n [i..<n - 1] c = Some b \<and> mset b = mset c \<and> settled f 1 b"
    if "i \<le> n - 1" "length c = n" "settled f (n - i) c" "\<forall>x\<in>set c. key x = Some (f x)" for i c
    using that
  proof (induction "n - 1 - i" arbitrary: i c)
    case 0
    then have "i = n - 1" by simp
    with 0 show ?case by (cases n) (auto simp: settled_def)
  next
    case (Suc d)
    then have i: "i < n - 1" "n - i - 1 < length c" "n - i = Suc (n - i - 1)" by simp_all
    let ?c = "sink f (n - i - 1) c"
    have p: "mset ?c = mset c" "length ?c = length c" using sink_props [OF i(2), of f] by auto
    have "settled f (n - Suc i) ?c"
      using sink_settled [of f "n - i - 1" c] Suc.prems(3) i by simp
    moreover have "d = n - 1 - Suc i" using Suc.hyps(2) by simp
    ultimately have "\<exists>b. bubble_passes key n [Suc i..<n - 1] ?c = Some b \<and> mset b = mset ?c \<and>
        settled f 1 b"
      using Suc.hyps(1) [of "Suc i" ?c] Suc.prems p i(1) mset_eq_setD [OF p(1)] by simp
    then
    obtain b where "bubble_passes key n [Suc i..<n - 1] ?c = Some b" "mset b = mset ?c"
      "settled f 1 b" by blast
    with i p show ?case
      using bubble_pass_eq [OF i(2) Suc.prems(4)] by (simp add: upt_conv_Cons)
  qed
  from this [of 0 a] assms obtain b where
    "bubble_passes key n [0..<n - 1] a = Some b" "mset b = mset a" "settled f 1 b"
    by (auto simp: settled_def)
  moreover from this assms have "length b = n" using mset_eq_length by blast
  ultimately show ?thesis by (auto simp: bubble_sort_def settled_def)
qed

end
