(* ===== verification/Batch_Scheduling.thy ===== *)
theory Batch_Scheduling
  imports Request_Queue Bubble_Sort
begin

text \<open>
  Parallelism-aware batch scheduling
  (\<^verbatim>\<open>concurrency/scheduling/Parallelism-AwareBatchScheduling.c\<close>).

  Requests wait in a \<open>req_queue\<close>; \<open>formBatch\<close> moves up to \<open>MAX_BATCH_SIZE\<close> of them into an array
  and marks them, \<open>rankBanks\<close> orders the banks by their number of requests in the batch, and
  \<open>scheduleRequest\<close> serves one marked request: from the first bank of the ranking that has one,
  the oldest row-buffer hit, or else the oldest request. The pointers \<open>oldestHit\<close> and \<open>oldest\<close>
  into the batch are indices of type \<open>nat option\<close>.

  The lemmas show that the two scans of \<open>scheduleRequest\<close> find oldest requests (by the
  interface \<open>key_scan\<close>), that each call serves exactly one marked request, and that the whole
  program serves every request exactly once.
\<close>

definition MAX_BANKS :: nat where
  "MAX_BANKS = 8"

definition MAX_BATCH_SIZE :: nat where
  "MAX_BATCH_SIZE = 20"

record pb_request =
  pb_address :: int
  pb_timestamp :: int
  pb_bank :: nat
  pb_is_row_buffer_hit :: bool
  pb_is_marked :: bool

type_synonym pb_queue = "pb_request req_queue"

subsection \<open>Forming a batch\<close>

function formBatch_loop ::
  "pb_queue \<Rightarrow> pb_request list \<Rightarrow> nat \<Rightarrow> (pb_queue \<times> pb_request list \<times> nat) prog option" where
  "formBatch_loop q batch batchSize =
     (if batchSize < MAX_BATCH_SIZE \<and> \<not> isQueueEmpty q then
        (case dequeue MAX_QUEUE_SIZE q of
           None \<Rightarrow> None
         | Some (Exit c) \<Rightarrow> Some (Exit c)
         | Some (Ret (request, q')) \<Rightarrow>
             (case c_store batch batchSize (request\<lparr>pb_is_marked := True\<rparr>) of
                None \<Rightarrow> None
              | Some b \<Rightarrow> formBatch_loop q' b (batchSize + 1)))
      else Some (Ret (q, batch, batchSize)))"
  by pat_completeness auto

termination formBatch_loop
  by (relation "measure (\<lambda>(_, _, n). MAX_BATCH_SIZE - n)") auto

declare formBatch_loop.simps [simp del]

definition formBatch ::
  "pb_queue \<Rightarrow> pb_request list \<Rightarrow> (pb_queue \<times> pb_request list \<times> nat) prog option" where
  "formBatch q batch = formBatch_loop q batch 0"

subsection \<open>Ranking the banks\<close>

fun bank_counts :: "pb_request list \<Rightarrow> nat list \<Rightarrow> nat list \<Rightarrow> nat list option" where
  "bank_counts batch [] bankCount = Some bankCount"
| "bank_counts batch (i # is) bankCount = do {
     r \<leftarrow> c_load batch i;
     n \<leftarrow> c_load bankCount (pb_bank r);
     bc \<leftarrow> c_store bankCount (pb_bank r) (n + 1);
     bank_counts batch is bc
   }"

fun fill_ranking :: "nat list \<Rightarrow> nat list \<Rightarrow> nat list option" where
  "fill_ranking [] bankRanking = Some bankRanking"
| "fill_ranking (i # is) bankRanking = do {
     br \<leftarrow> c_store bankRanking i i;
     fill_ranking is br
   }"

definition rankBanks :: "pb_request list \<Rightarrow> nat \<Rightarrow> nat list \<Rightarrow> nat list option" where
  "rankBanks batch batchSize bankRanking = do {
     bankCount \<leftarrow> bank_counts batch [0..<batchSize] (replicate MAX_BANKS 0);
     br \<leftarrow> fill_ranking [0..<MAX_BANKS] bankRanking;
     bubble_sort (c_load bankCount) MAX_BANKS br
   }"

subsection \<open>Serving one request\<close>

fun oldest_scan :: "pb_request list \<Rightarrow> nat \<Rightarrow> nat list \<Rightarrow> nat option \<times> nat option
    \<Rightarrow> (nat option \<times> nat option) option" where
  "oldest_scan batch bank [] s = Some s"
| "oldest_scan batch bank (j # js) (oldestHit, oldest) = do {
     r \<leftarrow> c_load batch j;
     let older = (\<lambda>c. case c of None \<Rightarrow> True
                      | Some k \<Rightarrow> pb_timestamp r < pb_timestamp (batch ! k));
     oldest_scan batch bank js
       (if pb_bank r = bank \<and> pb_is_marked r then
          (if pb_is_row_buffer_hit r \<and> older oldestHit then Some j else oldestHit,
           if older oldest then Some j else oldest)
        else (oldestHit, oldest))
   }"

definition serve :: "pb_request list \<Rightarrow> nat \<Rightarrow> (pb_request \<times> pb_request list) option" where
  "serve batch j = do {
     r \<leftarrow> c_load batch j;
     batch' \<leftarrow> c_store batch j (r\<lparr>pb_is_marked := False\<rparr>);
     Some (r\<lparr>pb_is_marked := False\<rparr>, batch')
   }"

fun schedule_banks :: "pb_request list \<Rightarrow> nat \<Rightarrow> nat list \<Rightarrow> nat list
    \<Rightarrow> (pb_request \<times> pb_request list) prog option" where
  "schedule_banks batch batchSize bankRanking [] = Some (Exit 1)"
| "schedule_banks batch batchSize bankRanking (i # is) = do {
     bank \<leftarrow> c_load bankRanking i;
     (oldestHit, oldest) \<leftarrow> oldest_scan batch bank [0..<batchSize] (None, None);
     (case oldestHit of
        Some j \<Rightarrow> do { r \<leftarrow> serve batch j; Some (Ret r) }
      | None \<Rightarrow>
          (case oldest of
             Some j \<Rightarrow> do { r \<leftarrow> serve batch j; Some (Ret r) }
           | None \<Rightarrow> schedule_banks batch batchSize bankRanking is))
   }"

definition scheduleRequest ::
  "pb_request list \<Rightarrow> nat \<Rightarrow> nat list \<Rightarrow> (pb_request \<times> pb_request list) prog option" where
  "scheduleRequest batch batchSize bankRanking =
     schedule_banks batch batchSize bankRanking [0..<MAX_BANKS]"

subsection \<open>The program\<close>

fun process_batch :: "nat \<Rightarrow> pb_request list \<Rightarrow> nat \<Rightarrow> nat list
    \<Rightarrow> (pb_request list \<times> pb_request list) prog option" where
  "process_batch 0 batch batchSize bankRanking = Some (Ret ([], batch))"
| "process_batch (Suc n) batch batchSize bankRanking =
     (case scheduleRequest batch batchSize bankRanking of
        None \<Rightarrow> None
      | Some (Exit c) \<Rightarrow> Some (Exit c)
      | Some (Ret (scheduled, batch')) \<Rightarrow>
          (case process_batch n batch' batchSize bankRanking of
             None \<Rightarrow> None
           | Some (Exit c) \<Rightarrow> Some (Exit c)
           | Some (Ret (out, b)) \<Rightarrow> Some (Ret (scheduled # out, b))))"

text \<open>The local arrays \<open>batch\<close> and \<open>bankRanking\<close> of the loop body of \<open>main\<close> start with
  arbitrary contents \<open>batch0\<close> and \<open>ranking0\<close>.\<close>

definition batch_round :: "pb_request list \<Rightarrow> nat list \<Rightarrow> pb_queue
    \<Rightarrow> (pb_request list \<times> pb_queue) prog option" where
  "batch_round batch0 ranking0 q =
     (case formBatch q batch0 of
        None \<Rightarrow> None
      | Some (Exit c) \<Rightarrow> Some (Exit c)
      | Some (Ret (q', batch, batchSize)) \<Rightarrow>
          (case rankBanks batch batchSize ranking0 of
             None \<Rightarrow> None
           | Some bankRanking \<Rightarrow>
               (case process_batch batchSize batch batchSize bankRanking of
                  None \<Rightarrow> None
                | Some (Exit c) \<Rightarrow> Some (Exit c)
                | Some (Ret (out, _)) \<Rightarrow> Some (Ret (out, q')))))"

lemma formBatch_loop_size:
  "formBatch_loop q batch n = Some (Ret (q', b, m)) \<Longrightarrow>
     rq_size q' \<le> rq_size q \<and> (n < MAX_BATCH_SIZE \<longrightarrow> rq_size q \<noteq> 0 \<longrightarrow> rq_size q' < rq_size q)"
proof (induction q batch n rule: formBatch_loop.induct)
  case (1 q batch n)
  show ?case
  proof (cases "n < MAX_BATCH_SIZE \<and> \<not> isQueueEmpty q")
    case True
    with "1.prems" obtain r q1 b1 where
      d: "dequeue MAX_QUEUE_SIZE q = Some (Ret (r, q1))"
        "c_store batch n (r\<lparr>pb_is_marked := True\<rparr>) = Some b1"
        "formBatch_loop q1 b1 (n + 1) = Some (Ret (q', b, m))"
      by (auto simp: formBatch_loop.simps [of q batch n] split: option.splits prog.splits)
    with "1.IH" [OF True d(1) refl refl d(2,3)] True show ?thesis
      by (auto simp: isQueueEmpty_def dequeue_def bind_eq_Some_conv split: if_splits)
  next
    case False
    with "1.prems" show ?thesis
      by (auto simp: formBatch_loop.simps [of q batch n] isQueueEmpty_def)
  qed
qed

lemma batch_round_size:
  "batch_round batch0 ranking0 q = Some (Ret (out, q')) \<Longrightarrow> \<not> isQueueEmpty q \<Longrightarrow>
    rq_size q' < rq_size q"
  using formBatch_loop_size [of q batch0 0]
  by (auto simp: batch_round_def formBatch_def isQueueEmpty_def MAX_BATCH_SIZE_def
      split: option.splits prog.splits)

function batch_main_loop ::
  "pb_request list \<Rightarrow> nat list \<Rightarrow> pb_queue \<Rightarrow> pb_request list prog option" where
  "batch_main_loop batch0 ranking0 q =
     (if \<not> isQueueEmpty q then
        (case batch_round batch0 ranking0 q of
           None \<Rightarrow> None
         | Some (Exit c) \<Rightarrow> Some (Exit c)
         | Some (Ret (out, q')) \<Rightarrow>
             (case batch_main_loop batch0 ranking0 q' of
                None \<Rightarrow> None
              | Some (Exit c) \<Rightarrow> Some (Exit c)
              | Some (Ret out') \<Rightarrow> Some (Ret (out @ out'))))
      else Some (Ret []))"
  by pat_completeness auto

termination batch_main_loop
  by (relation "measure (\<lambda>(_, _, q). rq_size q)") (auto intro: batch_round_size)

declare batch_main_loop.simps [simp del]

definition batch_main :: "pb_request list \<Rightarrow> nat list \<Rightarrow> pb_queue \<Rightarrow> pb_request list
    \<Rightarrow> pb_request list prog option" where
  "batch_main batch0 ranking0 q0 reqs = do {
     q \<leftarrow> enqueue_all MAX_QUEUE_SIZE reqs (initQueue q0);
     batch_main_loop batch0 ranking0 q
   }"

subsection \<open>What each part computes\<close>

abbreviation pb_mark :: "pb_request \<Rightarrow> pb_request" where
  "pb_mark r \<equiv> r\<lparr>pb_is_marked := True\<rparr>"

abbreviation pb_unmark :: "pb_request \<Rightarrow> pb_request" where
  "pb_unmark r \<equiv> r\<lparr>pb_is_marked := False\<rparr>"

lemma formBatch_loop_ok:
  assumes "rq_ok MAX_QUEUE_SIZE q" and "length batch = MAX_BATCH_SIZE" and "k \<le> MAX_BATCH_SIZE"
  shows "\<exists>q' b n. formBatch_loop q batch k = Some (Ret (q', b, n)) \<and> rq_ok MAX_QUEUE_SIZE q' \<and>
    length b = MAX_BATCH_SIZE \<and> n = min MAX_BATCH_SIZE (k + length (rq_list q)) \<and>
    take n b = take k batch @ map pb_mark (take (n - k) (rq_list q)) \<and>
    rq_list q' = drop (n - k) (rq_list q)"
  using assms
proof (induction "MAX_BATCH_SIZE - k" arbitrary: q batch k)
  case 0
  then show ?case by (simp add: formBatch_loop.simps [of q])
next
  case (Suc d)
  then have k: "k < MAX_BATCH_SIZE" by simp
  show ?case
  proof (cases "rq_list q")
    case Nil
    with Suc.prems k show ?thesis
      by (simp add: formBatch_loop.simps [of q] isQueueEmpty_iff flip: rq_list_length)
  next
    case (Cons y ys)
    with dequeue_front [OF Suc.prems(1)] obtain t where
      t: "dequeue MAX_QUEUE_SIZE q = Some (Ret (y, t))" "rq_ok MAX_QUEUE_SIZE t" "rq_list t = ys"
      by blast
    let ?b = "batch[k := pb_mark y]"
    have step: "formBatch_loop q batch k = formBatch_loop t ?b (Suc k)"
      using k Cons t Suc.prems(2) by (simp add: formBatch_loop.simps [of q] isQueueEmpty_iff)
    have "d = MAX_BATCH_SIZE - Suc k" "Suc k \<le> MAX_BATCH_SIZE" "length ?b = MAX_BATCH_SIZE"
      using Suc.hyps(2) Suc.prems k by simp_all
    from Suc.hyps(1) [OF this(1) t(2) this(3,2)] obtain q' b n where
      r: "formBatch_loop t ?b (Suc k) = Some (Ret (q', b, n))" "rq_ok MAX_QUEUE_SIZE q'"
      "length b = MAX_BATCH_SIZE" "n = min MAX_BATCH_SIZE (Suc k + length ys)"
      "take n b = take (Suc k) ?b @ map pb_mark (take (n - Suc k) ys)"
      "rq_list q' = drop (n - Suc k) ys" by (auto simp: t(3) simp flip: rq_list_length)
    moreover have "k < n" using r(4) k by simp
    then have "n - k = Suc (n - Suc k)" by simp
    moreover have "take (Suc k) ?b = take k batch @ [pb_mark y]"
      using k Suc.prems(2) by (simp add: take_Suc_conv_app_nth)
    ultimately show ?thesis using step Cons rq_list_length [of q] by auto
  qed
qed

lemma formBatch_ok:
  assumes "rq_ok MAX_QUEUE_SIZE q" and "length batch = MAX_BATCH_SIZE"
  obtains q' b n where "formBatch q batch = Some (Ret (q', b, n))" "rq_ok MAX_QUEUE_SIZE q'"
    "length b = MAX_BATCH_SIZE" "n = min MAX_BATCH_SIZE (length (rq_list q))"
    "take n b = map pb_mark (take n (rq_list q))" "rq_list q' = drop n (rq_list q)"
  using formBatch_loop_ok [OF assms, of 0] by (auto simp: formBatch_def)

lemma bank_counts_ok:
  assumes "\<forall>i\<in>set is. i < length batch \<and> pb_bank (batch ! i) < length bc"
  shows "\<exists>bc'. bank_counts batch is bc = Some bc' \<and> length bc' = length bc \<and>
    (\<forall>b<length bc. bc' ! b = bc ! b + length (filter (\<lambda>i. pb_bank (batch ! i) = b) is))"
  using assms
proof (induction "is" arbitrary: bc)
  case (Cons i "is")
  let ?bc = "bc[pb_bank (batch ! i) := bc ! pb_bank (batch ! i) + 1]"
  from Cons.IH [of ?bc] Cons.prems show ?case by (auto simp: nth_list_update)
qed simp

lemma fill_ranking_ok:
  assumes "i + k = length br" and "take i br = [0..<i]"
  shows "fill_ranking [i..<length br] br = Some [0..<length br]"
  using assms
proof (induction k arbitrary: i br)
  case 0
  then show ?case by simp
next
  case (Suc k)
  let ?br = "br[i := i]"
  have "take (Suc i) ?br = [0..<Suc i]"
    using Suc.prems by (simp add: take_Suc_conv_app_nth)
  with Suc.IH [of "Suc i" ?br] Suc.prems show ?case by (simp add: upt_conv_Cons)
qed

definition bank_load :: "pb_request list \<Rightarrow> nat \<Rightarrow> nat" where
  "bank_load rs b = length (filter (\<lambda>r. pb_bank r = b) rs)"

lemma bank_load_take:
  "n \<le> length batch \<Longrightarrow>
    length (filter (\<lambda>i. pb_bank (batch ! i) = b) [0..<n]) = bank_load (take n batch) b"
proof (induction n)
  case (Suc n)
  then show ?case by (simp add: bank_load_def take_Suc_conv_app_nth)
qed (simp add: bank_load_def)

lemma rankBanks_ok:
  assumes "n \<le> length batch" and "\<forall>r\<in>set (take n batch). pb_bank r < MAX_BANKS"
    and "length br0 = MAX_BANKS"
  obtains br where "rankBanks batch n br0 = Some br" "mset br = mset [0..<MAX_BANKS]"
    "\<forall>l<MAX_BANKS. \<forall>k<l. bank_load (take n batch) (br ! l) \<le> bank_load (take n batch) (br ! k)"
proof -
  have "pb_bank (batch ! i) < MAX_BANKS" if "i < n" for i
  proof -
    have "take n batch ! i \<in> set (take n batch)" using that assms(1) by (intro nth_mem) simp
    with assms(2) that show ?thesis by simp
  qed
  with bank_counts_ok [of "[0..<n]" batch "replicate MAX_BANKS 0"] assms(1) obtain bc where
    bc: "bank_counts batch [0..<n] (replicate MAX_BANKS 0) = Some bc" "length bc = MAX_BANKS"
      "\<forall>b<MAX_BANKS. bc ! b = bank_load (take n batch) b"
    by (auto simp: bank_load_take)
  from fill_ranking_ok [of 0 MAX_BANKS br0] assms(3)
  have br: "fill_ranking [0..<MAX_BANKS] br0 = Some [0..<MAX_BANKS]" by simp
  have "\<forall>x\<in>set [0..<MAX_BANKS]. c_load bc x = Some (bank_load (take n batch) x)"
    using bc by simp
  from bubble_sort_ok [OF _ this, of MAX_BANKS] obtain b where
    "bubble_sort (c_load bc) MAX_BANKS [0..<MAX_BANKS] = Some b" "mset b = mset [0..<MAX_BANKS]"
    "\<forall>l<MAX_BANKS. \<forall>k<l. bank_load (take n batch) (b ! l) \<le> bank_load (take n batch) (b ! k)"
    by auto
  with that bc(1) br show thesis by (simp add: rankBanks_def)
qed

text \<open>The two candidates of the inner loop are found by the generic scan.\<close>

definition pb_elig :: "pb_request list \<Rightarrow> nat \<Rightarrow> bool \<Rightarrow> nat \<Rightarrow> bool" where
  "pb_elig batch bank hits j \<longleftrightarrow> pb_bank (batch ! j) = bank \<and> pb_is_marked (batch ! j) \<and>
     (hits \<longrightarrow> pb_is_row_buffer_hit (batch ! j))"

definition pb_older :: "pb_request list \<Rightarrow> nat \<Rightarrow> nat \<Rightarrow> bool" where
  "pb_older batch i k \<longleftrightarrow> pb_timestamp (batch ! i) < pb_timestamp (batch ! k)"

interpretation oldest: key_scan "pb_elig batch bank hits" "pb_older batch"
  "\<lambda>i. pb_timestamp (batch ! i)" for batch bank hits
  by unfold_locales (simp add: pb_older_def)

lemma oldest_scan_eq:
  assumes "\<forall>j\<in>set js. j < length batch"
  shows "oldest_scan batch bank js (h, c) =
    Some (scan_best (pb_elig batch bank True) (pb_older batch) js h,
          scan_best (pb_elig batch bank False) (pb_older batch) js c)"
  using assms
proof (induction js arbitrary: h c)
  case (Cons j js)
  then have j: "j < length batch" and IH: "oldest_scan batch bank js (h', c') =
      Some (scan_best (pb_elig batch bank True) (pb_older batch) js h',
            scan_best (pb_elig batch bank False) (pb_older batch) js c')" for h' c'
    by simp_all
  show ?case
  proof (cases "pb_bank (batch ! j) = bank \<and> pb_is_marked (batch ! j)")
    case True
    then have "pb_elig batch bank b j \<longleftrightarrow> (b \<longrightarrow> pb_is_row_buffer_hit (batch ! j))" for b
      by (simp add: pb_elig_def)
    with True j IH show ?thesis
      by (cases h; cases c) (simp_all add: Let_def flip: pb_older_def)
  next
    case False
    then have "\<not> pb_elig batch bank b j" for b by (auto simp: pb_elig_def)
    with False j IH show ?thesis
      by (cases "pb_bank (batch ! j) = bank") (simp_all add: Let_def)
  qed
qed simp

definition serves :: "pb_request list \<Rightarrow> nat \<Rightarrow> nat list \<Rightarrow> pb_request \<Rightarrow> pb_request list \<Rightarrow> nat
    \<Rightarrow> nat \<Rightarrow> bool" where
  "serves batch n br r batch' i j \<longleftrightarrow> j < n \<and> pb_is_marked (batch ! j) \<and>
     pb_bank (batch ! j) = br ! i \<and> r = pb_unmark (batch ! j) \<and> batch' = batch[j := r] \<and>
     (\<forall>i'<i. \<forall>j'<n. \<not> pb_elig batch (br ! i') False j') \<and>
     (\<forall>j'<n. pb_elig batch (br ! i) True j' \<longrightarrow> pb_is_row_buffer_hit (batch ! j)) \<and>
     (\<forall>j'<n. pb_elig batch (br ! i) (pb_is_row_buffer_hit (batch ! j)) j' \<longrightarrow>
        pb_timestamp (batch ! j) \<le> pb_timestamp (batch ! j'))"

lemma serve_in: "j < length batch \<Longrightarrow>
  serve batch j = Some (pb_unmark (batch ! j), batch[j := pb_unmark (batch ! j)])"
  by (simp add: serve_def)

lemma schedule_banks_ok:
  assumes "n \<le> length batch" and "k \<le> MAX_BANKS" and "length br = MAX_BANKS"
    and "\<forall>i'<k. \<forall>j'<n. \<not> pb_elig batch (br ! i') False j'"
  shows "case schedule_banks batch n br [k..<MAX_BANKS] of
      None \<Rightarrow> False
    | Some (Exit c) \<Rightarrow> \<forall>i<MAX_BANKS. \<forall>j<n. \<not> pb_elig batch (br ! i) False j
    | Some (Ret (r, batch')) \<Rightarrow> \<exists>i<MAX_BANKS. \<exists>j. serves batch n br r batch' i j"
  using assms(2,4)
proof (induction "MAX_BANKS - k" arbitrary: k)
  case 0
  then show ?case by simp
next
  case (Suc d)
  then have k: "k < MAX_BANKS" by simp
  let ?e = "\<lambda>h. scan_best (pb_elig batch (br ! k) h) (pb_older batch) [0..<n] None"
  have scan: "oldest_scan batch (br ! k) [0..<n] (None, None) = Some (?e True, ?e False)"
    using assms(1) by (intro oldest_scan_eq) simp
  have sub: "pb_elig batch b True j \<Longrightarrow> pb_elig batch b False j" for b j
    by (simp add: pb_elig_def)
  show ?case
  proof (cases "?e False")
    case None
    then have none: "\<forall>j<n. \<not> pb_elig batch (br ! k) False j" by (simp add: oldest.scan_None)
    then have "?e True = None" using sub by (auto simp: oldest.scan_None)
    with None scan k assms(3)
    have "schedule_banks batch n br [k..<MAX_BANKS] = schedule_banks batch n br [Suc k..<MAX_BANKS]"
      by (simp add: upt_conv_Cons)
    moreover have "d = MAX_BANKS - Suc k" "Suc k \<le> MAX_BANKS" using Suc.hyps(2) k by simp_all
    moreover have "\<forall>i'<Suc k. \<forall>j'<n. \<not> pb_elig batch (br ! i') False j'"
      using Suc.prems(2) none less_Suc_eq by blast
    ultimately show ?thesis using Suc.hyps(1) [of "Suc k"] by simp
  next
    case (Some j0)
    define h where "h = (?e True \<noteq> None)"
    obtain j where j: "?e h = Some j" using Some by (cases "?e True") (auto simp: h_def)
    note J = oldest.scan_Some [OF j]
    have none: "\<not> pb_elig batch (br ! k) True i" if "i < n" "\<not> h" for i
      using that oldest.scan_None [of batch "br ! k" True "[0..<n]"] by (simp add: h_def)
    have hit: "pb_is_row_buffer_hit (batch ! j) = h"
      using J(1,2) none [of j] by (cases h) (auto simp: pb_elig_def)
    from J(1) assms(1) have jl: "j < length batch" by simp
    have "schedule_banks batch n br [k..<MAX_BANKS] =
        Some (Ret (pb_unmark (batch ! j), batch[j := pb_unmark (batch ! j)]))"
    proof (cases "?e True")
      case None
      with j have "?e False = Some j" by (simp add: h_def)
      with None scan k assms(3) jl show ?thesis by (simp add: upt_conv_Cons serve_in)
    next
      case (Some i)
      with j have "i = j" by (simp add: h_def)
      with Some scan k assms(3) jl show ?thesis by (simp add: upt_conv_Cons serve_in)
    qed
    moreover have "serves batch n br (pb_unmark (batch ! j)) (batch[j := pb_unmark (batch ! j)]) k j"
      unfolding serves_def hit
    proof (intro conjI allI impI)
      show "pb_is_marked (batch ! j)" "pb_bank (batch ! j) = br ! k"
        using J(2) by (simp_all add: pb_elig_def)
      show "\<not> pb_elig batch (br ! i') False j'" if "i' < k" "j' < n" for i' j'
        using Suc.prems(2) that by blast
    qed (use J(1,3) none in blast)+
    ultimately show ?thesis using k by auto
  qed
qed

subsection \<open>Every request is served once, batch by batch\<close>

lemma mset_filter_update:
  assumes "j < length xs" and "P (xs ! j)" and "\<not> P r"
  shows "add_mset (xs ! j) (mset (filter P (xs[j := r]))) = mset (filter P xs)"
proof -
  have "xs ! j \<in># filter_mset P (mset xs)" using assms by simp
  with assms show ?thesis by (simp add: mset_update insert_DiffM)
qed

lemma process_batch_ok:
  assumes "n \<le> length batch" and "mset br = mset [0..<MAX_BANKS]"
    and "\<forall>r\<in>set (take n batch). pb_bank r < MAX_BANKS"
    and "k = length (filter pb_is_marked (take n batch))"
  shows "\<exists>out b. process_batch k batch n br = Some (Ret (out, b)) \<and>
    mset out = image_mset pb_unmark (mset (filter pb_is_marked (take n batch)))"
  using assms
proof (induction k arbitrary: batch)
  case (Suc k)
  have br: "length br = MAX_BANKS" "set br = {0..<MAX_BANKS}"
    using mset_eq_length [OF Suc.prems(2)] mset_eq_setD [OF Suc.prems(2)] by simp_all
  from Suc.prems(4) obtain r0 where "r0 \<in> set (take n batch)" "pb_is_marked r0"
    by (metis filter_False length_0_conv nat.distinct(1))
  moreover from this Suc.prems(3) have "pb_bank r0 < MAX_BANKS" by blast
  ultimately obtain j0 where
    j0: "j0 < n" "pb_is_marked (batch ! j0)" "pb_bank (batch ! j0) < MAX_BANKS"
    using Suc.prems(1) by (auto simp: in_set_conv_nth)
  then obtain i0 where "i0 < MAX_BANKS" "br ! i0 = pb_bank (batch ! j0)"
    using br by (metis atLeastLessThan_iff in_set_conv_nth le0)
  moreover from this j0 have "pb_elig batch (br ! i0) False j0" by (simp add: pb_elig_def)
  ultimately have "\<not> (\<forall>i<MAX_BANKS. \<forall>j<n. \<not> pb_elig batch (br ! i) False j)"
    using j0(1) by blast
  with schedule_banks_ok [OF Suc.prems(1) _ br(1), of 0] obtain r batch' i j where
    sch: "scheduleRequest batch n br = Some (Ret (r, batch'))" "serves batch n br r batch' i j"
    by (auto simp: scheduleRequest_def split: option.splits prog.splits)
  then have j: "j < length (take n batch)" "pb_is_marked (take n batch ! j)"
    "r = pb_unmark (batch ! j)" "take n batch' = (take n batch)[j := r]" "length batch' = length batch"
    using Suc.prems(1) by (auto simp: serves_def take_update_swap)
  note m = mset_filter_update [where P = pb_is_marked, OF j(1,2), of r]
  have "mset (filter pb_is_marked (take n batch)) =
      add_mset (batch ! j) (mset (filter pb_is_marked (take n batch')))"
    using m j by (simp del: mset_filter)
  moreover from this have "k = length (filter pb_is_marked (take n batch'))"
    using Suc.prems(4) by (simp flip: size_mset)
  moreover have "\<forall>r\<in>set (take n batch'). pb_bank r < MAX_BANKS"
  proof
    fix x assume "x \<in> set (take n batch')"
    then have "x = r \<or> x \<in> set (take n batch)" using j(4) set_update_subset_insert by fastforce
    with Suc.prems(3) j show "pb_bank x < MAX_BANKS"
      using nth_mem [OF j(1)] by auto
  qed
  ultimately show ?case
    using Suc.IH [of batch'] Suc.prems(1,2) j(3,5) sch(1) by auto
qed simp

lemma batch_round_ok:
  assumes "rq_ok MAX_QUEUE_SIZE q" and "length batch0 = MAX_BATCH_SIZE"
    and "length ranking0 = MAX_BANKS" and "\<forall>r\<in>set (rq_list q). pb_bank r < MAX_BANKS"
  obtains out q' where "batch_round batch0 ranking0 q = Some (Ret (out, q'))"
    "rq_ok MAX_QUEUE_SIZE q'" "rq_list q' = drop MAX_BATCH_SIZE (rq_list q)"
    "mset out = mset (map pb_unmark (take MAX_BATCH_SIZE (rq_list q)))"
proof -
  obtain q' b n where f: "formBatch q batch0 = Some (Ret (q', b, n))" "rq_ok MAX_QUEUE_SIZE q'"
    "length b = MAX_BATCH_SIZE" "n = min MAX_BATCH_SIZE (length (rq_list q))"
    "take n b = map pb_mark (take n (rq_list q))" "rq_list q' = drop n (rq_list q)"
    using assms(1,2) by (rule formBatch_ok)
  have n: "n \<le> length b" using f(3,4) by simp
  have banks: "\<forall>r\<in>set (take n b). pb_bank r < MAX_BANKS"
    using assms(4) f(5) by (auto dest: in_set_takeD)
  obtain br where br: "rankBanks b n ranking0 = Some br" "mset br = mset [0..<MAX_BANKS]"
    using n banks assms(3) by (rule rankBanks_ok)
  have mk: "filter pb_is_marked (take n b) = take n b" unfolding f(5) by (rule filter_True) auto
  then have "n = length (filter pb_is_marked (take n b))" using n by simp
  from process_batch_ok [OF n br(2) banks this] obtain out b' where
    "process_batch n b n br = Some (Ret (out, b'))"
    "mset out = image_mset pb_unmark (mset (take n b))" unfolding mk by blast
  moreover have "image_mset pb_unmark (mset (take n b)) = mset (map pb_unmark (take n (rq_list q)))"
    by (simp add: f(5) multiset.map_comp comp_def del: mset_map flip: mset_map)
  moreover have "take n (rq_list q) = take MAX_BATCH_SIZE (rq_list q)"
    "drop n (rq_list q) = drop MAX_BATCH_SIZE (rq_list q)" unfolding f(4)
    by (cases "MAX_BATCH_SIZE \<le> length (rq_list q)"; simp)+
  ultimately show thesis
    using that [of out q'] f(1,2,6) br(1) by (simp add: batch_round_def)
qed

lemma batch_main_loop_ok:
  assumes "rq_ok MAX_QUEUE_SIZE q" and "length batch0 = MAX_BATCH_SIZE"
    and "length ranking0 = MAX_BANKS" and "\<forall>r\<in>set (rq_list q). pb_bank r < MAX_BANKS"
  shows "\<exists>out. batch_main_loop batch0 ranking0 q = Some (Ret out) \<and>
    length out = length (rq_list q) \<and>
    (\<forall>k. mset (take (MAX_BATCH_SIZE * k) out) =
      mset (map pb_unmark (take (MAX_BATCH_SIZE * k) (rq_list q))))"
  using assms
proof (induction "rq_size q" arbitrary: q rule: less_induct)
  case less
  show ?case
  proof (cases "isQueueEmpty q")
    case True
    then show ?thesis
      by (simp add: batch_main_loop.simps [of _ _ q] isQueueEmpty_iff flip: rq_list_length)
  next
    case False
    obtain o1 q' where r: "batch_round batch0 ranking0 q = Some (Ret (o1, q'))"
      "rq_ok MAX_QUEUE_SIZE q'" "rq_list q' = drop MAX_BATCH_SIZE (rq_list q)"
      "mset o1 = mset (map pb_unmark (take MAX_BATCH_SIZE (rq_list q)))"
      using less.prems by (rule batch_round_ok)
    have "\<forall>r\<in>set (rq_list q'). pb_bank r < MAX_BANKS"
      using less.prems(4) r(3) in_set_dropD by metis
    with less.hyps [of q'] batch_round_size [OF r(1) False] r(2) less.prems(2,3) obtain o2 where
      o2: "batch_main_loop batch0 ranking0 q' = Some (Ret o2)" "length o2 = length (rq_list q')"
      "\<And>k. mset (take (MAX_BATCH_SIZE * k) o2) =
        mset (map pb_unmark (take (MAX_BATCH_SIZE * k) (rq_list q')))" by blast
    have len: "length o1 = min (length (rq_list q)) MAX_BATCH_SIZE"
      using mset_eq_length [OF r(4)] by simp
    have "mset (take (MAX_BATCH_SIZE * k) (o1 @ o2)) =
        mset (map pb_unmark (take (MAX_BATCH_SIZE * k) (rq_list q)))" for k
    proof (cases k)
      case (Suc m)
      have "take (MAX_BATCH_SIZE * k) (rq_list q) = take MAX_BATCH_SIZE (rq_list q) @
          take (MAX_BATCH_SIZE * m) (rq_list q')"
        by (simp add: Suc r(3) take_add)
      moreover have "take (MAX_BATCH_SIZE * k) (o1 @ o2) = o1 @ take (MAX_BATCH_SIZE * m) o2"
        using len o2(2) r(3) by (cases "MAX_BATCH_SIZE \<le> length (rq_list q)") (simp_all add: Suc)
      ultimately show ?thesis using r(4) o2(3) [of m] by simp
    qed simp
    moreover have "length (o1 @ o2) = length (rq_list q)" using len o2(2) r(3) by simp
    ultimately show ?thesis
      using False r(1) o2(1) by (simp add: batch_main_loop.simps [of _ _ q] del: mset_map)
  qed
qed

subsection \<open>Properties\<close>

text \<open>C3. The batch scheduler stops without running out of requests and serves every request
  exactly once, batch by batch: after \<open>k\<close> full batches exactly the first \<open>MAX_BATCH_SIZE * k\<close>
  arrivals have been served, so no request is overtaken by one of a later batch. No access leaves
  the request queue, the batch or the bank arrays.\<close>

theorem batch_main_serves_all:
  assumes "length batch0 = MAX_BATCH_SIZE" and "length ranking0 = MAX_BANKS"
    and "length (rq_requests q0) = MAX_QUEUE_SIZE" and "length reqs \<le> MAX_QUEUE_SIZE"
    and "\<forall>r\<in>set reqs. pb_bank r < MAX_BANKS \<and> \<not> pb_is_marked r"
  shows "\<exists>out. batch_main batch0 ranking0 q0 reqs = Some (Ret out) \<and> mset out = mset reqs \<and>
    (\<forall>k. mset (take (MAX_BATCH_SIZE * k) out) = mset (take (MAX_BATCH_SIZE * k) reqs))"
proof -
  have "rq_ok MAX_QUEUE_SIZE (initQueue q0)"
    using assms(3) by (auto intro!: initQueue_ok(1) simp: MAX_QUEUE_SIZE_def)
  with enqueue_all_room [of MAX_QUEUE_SIZE "initQueue q0" reqs] assms(4) obtain q where
    q: "enqueue_all MAX_QUEUE_SIZE reqs (initQueue q0) = Some q" "rq_ok MAX_QUEUE_SIZE q"
      "rq_list q = reqs" by (auto simp: initQueue_ok(2) simp flip: length_0_conv)
  have unmarked: "map pb_unmark rs = rs" if "set rs \<subseteq> set reqs" for rs
  proof (rule map_idI)
    fix r assume "r \<in> set rs"
    with that assms(5) have "\<not> pb_is_marked r" by blast
    then show "pb_unmark r = r" by (cases r) simp
  qed
  have "\<forall>r\<in>set (rq_list q). pb_bank r < MAX_BANKS" using q(3) assms(5) by simp
  from batch_main_loop_ok [OF q(2) assms(1,2) this] obtain out where
    out: "batch_main_loop batch0 ranking0 q = Some (Ret out)" "length out = length reqs"
      "\<And>k. mset (take (MAX_BATCH_SIZE * k) out) = mset (map pb_unmark (take (MAX_BATCH_SIZE * k) reqs))"
    by (auto simp: q(3) simp flip: rq_list_length)
  have "mset (take (MAX_BATCH_SIZE * k) out) = mset (take (MAX_BATCH_SIZE * k) reqs)" for k
    using out(3) [of k] unmarked [OF set_take_subset, of "MAX_BATCH_SIZE * k"] by simp
  moreover from this [of "length reqs"] have "mset out = mset reqs"
    using out(2) by (simp add: MAX_BATCH_SIZE_def)
  ultimately show ?thesis using out(1) q(1) by (simp add: batch_main_def)
qed

definition pb_req :: "int \<Rightarrow> int \<Rightarrow> nat \<Rightarrow> bool \<Rightarrow> pb_request" where
  "pb_req a t b hit = \<lparr>pb_address = a, pb_timestamp = t, pb_bank = b, pb_is_row_buffer_hit = hit,
     pb_is_marked = False\<rparr>"

theorem batch_main_serves_all_witness:
  "\<exists>out. batch_main (replicate 20 (pb_req 0 0 0 False)) (replicate 8 0)
      \<lparr>rq_requests = replicate 100 (pb_req 0 0 0 False), rq_front = 0, rq_rear = 0, rq_size = 0\<rparr>
      [pb_req 1 5 3 False, pb_req 2 6 3 True, pb_req 3 7 1 False] = Some (Ret out) \<and>
    mset out = mset [pb_req 1 5 3 False, pb_req 2 6 3 True, pb_req 3 7 1 False]"
  using batch_main_serves_all [of "replicate 20 (pb_req 0 0 0 False)" "replicate 8 0"
      "\<lparr>rq_requests = replicate 100 (pb_req 0 0 0 False), rq_front = 0, rq_rear = 0, rq_size = 0\<rparr>"
      "[pb_req 1 5 3 False, pb_req 2 6 3 True, pb_req 3 7 1 False]"]
  by (auto simp: pb_req_def MAX_BATCH_SIZE_def MAX_BANKS_def MAX_QUEUE_SIZE_def)

text \<open>\<open>rankBanks\<close> orders all banks, each once, by their number of requests in the batch,
  the most loaded bank first.\<close>

theorem rankBanks_descending:
  assumes "n \<le> length batch" and "\<forall>r\<in>set (take n batch). pb_bank r < MAX_BANKS"
    and "length ranking0 = MAX_BANKS"
  shows "\<exists>br. rankBanks batch n ranking0 = Some br \<and> mset br = mset [0..<MAX_BANKS] \<and>
    sorted_wrt (\<lambda>b c. bank_load (take n batch) c \<le> bank_load (take n batch) b) br"
proof -
  obtain br where br: "rankBanks batch n ranking0 = Some br" "mset br = mset [0..<MAX_BANKS]"
    "\<forall>l<MAX_BANKS. \<forall>k<l. bank_load (take n batch) (br ! l) \<le> bank_load (take n batch) (br ! k)"
    using assms by (rule rankBanks_ok)
  moreover have "length br = MAX_BANKS" using mset_eq_length [OF br(2)] by simp
  ultimately show ?thesis by (auto simp: sorted_wrt_iff_nth_less)
qed

theorem rankBanks_descending_witness:
  "\<exists>br. rankBanks [pb_req 1 0 2 False, pb_req 2 0 5 False, pb_req 3 0 2 False] 3 (replicate 8 0)
      = Some br \<and> mset br = mset [0..<MAX_BANKS]"
  using rankBanks_descending [of 3
      "[pb_req 1 0 2 False, pb_req 2 0 5 False, pb_req 3 0 2 False]" "replicate 8 0"]
  by (auto simp: pb_req_def MAX_BANKS_def)

text \<open>\<open>scheduleRequest\<close> serves, from the highest-ranked bank that has a marked request, the
  oldest marked row-buffer hit if the bank has one and else its oldest marked request, clears its
  mark and nothing else; it exits exactly when no ranked bank has a marked request.\<close>

theorem scheduleRequest_serves:
  assumes "n \<le> length batch" and "length br = MAX_BANKS"
  shows "case scheduleRequest batch n br of
      None \<Rightarrow> False
    | Some (Exit c) \<Rightarrow> \<forall>i<MAX_BANKS. \<forall>j<n. \<not> pb_elig batch (br ! i) False j
    | Some (Ret (r, batch')) \<Rightarrow> \<exists>i<MAX_BANKS. \<exists>j. serves batch n br r batch' i j"
  using schedule_banks_ok [OF assms(1) _ assms(2), of 0] by (simp add: scheduleRequest_def)

theorem scheduleRequest_serves_witness:
  "case scheduleRequest [(pb_req 1 9 2 False)\<lparr>pb_is_marked := True\<rparr>] 1 [0..<8] of
      None \<Rightarrow> False
    | Some (Exit c) \<Rightarrow> \<forall>i<MAX_BANKS. \<forall>j<1. \<not> pb_elig
        [(pb_req 1 9 2 False)\<lparr>pb_is_marked := True\<rparr>] ([0..<8] ! i) False j
    | Some (Ret (r, batch')) \<Rightarrow> \<exists>i<MAX_BANKS. \<exists>j.
        serves [(pb_req 1 9 2 False)\<lparr>pb_is_marked := True\<rparr>] 1 [0..<8] r batch' i j"
  by (rule scheduleRequest_serves) (simp_all add: MAX_BANKS_def)

end
