(* ===== verification/Adaptive_Scheduling.thy ===== *)
theory Adaptive_Scheduling
  imports Request_Queue
begin

text \<open>
  Adaptive thread-aware scheduling
  (\<^verbatim>\<open>concurrency/scheduling/AdaptiveThread-AwareScheduling.c\<close>).

  Threads are classified by their number of memory requests per thousand instructions and get a
  priority; \<open>ats_scheduleRequest\<close> takes the first request of a thread of highest priority out of
  the middle of the circular queue, moving the later requests up by one place.

  The floating-point test of \<open>classifyThreads\<close> (more than \<open>MEMORY_INTENSIVE_THRESHOLD\<close> requests per
  thousand instructions) is the parameter \<open>intensive\<close>, a function of the two counters it is
  computed from. The random behaviour of the threads in \<open>main\<close> is an argument of the model.
\<close>

definition MAX_THREADS :: nat where
  "MAX_THREADS = 8"

definition ADAPTATION_INTERVAL :: nat where
  "ADAPTATION_INTERVAL = 1000"

record ats_request =
  at_address :: int
  at_timestamp :: int
  at_thread_id :: nat

record thread_info =
  ti_memory_requests :: int
  ti_instructions :: int
  ti_is_memory_intensive :: bool
  ti_priority :: int

type_synonym ats_queue = "ats_request req_queue"

subsection \<open>Classification and adaptation\<close>

definition classifyThreads ::
  "(int \<Rightarrow> int \<Rightarrow> bool) \<Rightarrow> thread_info list \<Rightarrow> nat \<Rightarrow> thread_info list option" where
  "classifyThreads intensive threads num_threads =
     update_each (\<lambda>t.
       let m = intensive (ti_memory_requests t) (ti_instructions t)
       in t\<lparr>ti_is_memory_intensive := m, ti_priority := (if m then 2 else 1)\<rparr>)
     [0..<num_threads] threads"

definition adaptSchedulingPolicy :: "thread_info list \<Rightarrow> nat \<Rightarrow> thread_info list option" where
  "adaptSchedulingPolicy threads num_threads =
     update_each (\<lambda>t. if ti_is_memory_intensive t then t\<lparr>ti_priority := ti_priority t + 1\<rparr> else t)
     [0..<num_threads] threads"

subsection \<open>Choosing and removing a request\<close>

fun select_scan :: "ats_queue \<Rightarrow> thread_info list \<Rightarrow> nat list \<Rightarrow> int \<times> nat option
    \<Rightarrow> (int \<times> nat option) option" where
  "select_scan q threads [] s = Some s"
| "select_scan q threads (i # is) (highest_priority, selected_index) = do {
     let index = (rq_front q + i) mod MAX_QUEUE_SIZE;
     r \<leftarrow> c_load (rq_requests q) index;
     t \<leftarrow> c_load threads (at_thread_id r);
     select_scan q threads is
       (if ti_priority t > highest_priority then (ti_priority t, Some index)
        else (highest_priority, selected_index))
   }"

text \<open>The loop that moves the later requests up, from the selected index to \<open>rear\<close>; a loop that
  does not end has the value \<open>None\<close>.\<close>

partial_function (option) shift_up :: "int \<Rightarrow> nat \<Rightarrow> 'a list \<Rightarrow> 'a list option" where
  "shift_up rear i rs =
     (if int i = rear then Some rs
      else do {
        r \<leftarrow> c_load rs ((i + 1) mod MAX_QUEUE_SIZE);
        rs' \<leftarrow> c_store rs i r;
        shift_up rear ((i + 1) mod MAX_QUEUE_SIZE) rs'
      })"

definition ats_scheduleRequest ::
  "ats_queue \<Rightarrow> thread_info list \<Rightarrow> nat \<Rightarrow> (ats_request \<times> ats_queue) prog option" where
  "ats_scheduleRequest q threads num_threads =
     (if isQueueEmpty q then Some (Exit 1)
      else do {
        (highest_priority, selected_index) \<leftarrow> select_scan q threads [0..<rq_size q] (0, None);
        (case selected_index of
           None \<Rightarrow> dequeue MAX_QUEUE_SIZE q
         | Some j \<Rightarrow> do {
             selected \<leftarrow> c_load (rq_requests q) j;
             rs \<leftarrow> shift_up (rq_rear q) j (rq_requests q);
             Some (Ret (selected,
               q\<lparr>rq_requests := rs,
                 rq_rear := (rq_rear q - 1 + int MAX_QUEUE_SIZE) mod int MAX_QUEUE_SIZE,
                 rq_size := rq_size q - 1\<rparr>))
           })
      })"

subsection \<open>The simulation loop\<close>

text \<open>One cycle of \<open>main\<close>. For each thread the input says how many instructions it executes and
  which request (address and time), if any, it makes.\<close>

fun threads_behave :: "nat list \<Rightarrow> (int \<times> (int \<times> int) option) list \<Rightarrow> ats_queue \<Rightarrow> thread_info list
    \<Rightarrow> (ats_queue \<times> thread_info list) option" where
  "threads_behave (i # is) ((d, req) # inputs) q threads = do {
     t \<leftarrow> c_load threads i;
     let t1 = t\<lparr>ti_instructions := ti_instructions t + d\<rparr>;
     (case req of
        None \<Rightarrow> do { threads' \<leftarrow> c_store threads i t1; threads_behave is inputs q threads' }
      | Some (a, ts) \<Rightarrow> do {
          (_, q') \<leftarrow> enqueue MAX_QUEUE_SIZE q
            \<lparr>at_address = a, at_timestamp = ts, at_thread_id = i\<rparr>;
          threads' \<leftarrow> c_store threads i
            (t1\<lparr>ti_memory_requests := ti_memory_requests t1 + 1\<rparr>);
          threads_behave is inputs q' threads'
        })
   }"
| "threads_behave _ _ q threads = Some (q, threads)"

definition ats_cycle :: "(int \<Rightarrow> int \<Rightarrow> bool) \<Rightarrow> nat \<Rightarrow> (int \<times> (int \<times> int) option) list
    \<Rightarrow> ats_queue \<times> thread_info list
    \<Rightarrow> (ats_request option \<times> ats_queue \<times> thread_info list) prog option" where
  "ats_cycle intensive cycle inputs s = do {
     (q, threads) \<leftarrow> threads_behave [0..<MAX_THREADS] inputs (fst s) (snd s);
     threads' \<leftarrow>
       (if cycle mod ADAPTATION_INTERVAL = 0
        then do { ts \<leftarrow> classifyThreads intensive threads MAX_THREADS;
                  adaptSchedulingPolicy ts MAX_THREADS }
        else Some threads);
     if \<not> isQueueEmpty q
     then do { d \<leftarrow> ats_scheduleRequest q threads' MAX_THREADS;
               Some (case d of Exit c \<Rightarrow> Exit c | Ret (r, q') \<Rightarrow> Ret (Some r, q', threads')) }
     else Some (Ret (None, q, threads'))
   }"

fun ats_run :: "(int \<Rightarrow> int \<Rightarrow> bool) \<Rightarrow> nat \<Rightarrow> (int \<times> (int \<times> int) option) list list
    \<Rightarrow> ats_queue \<times> thread_info list
    \<Rightarrow> (ats_request option list \<times> ats_queue \<times> thread_info list) prog option" where
  "ats_run intensive cycle [] s = Some (Ret ([], s))"
| "ats_run intensive cycle (inputs # rest) s =
     (case ats_cycle intensive cycle inputs s of
        None \<Rightarrow> None
      | Some (Exit c) \<Rightarrow> Some (Exit c)
      | Some (Ret (r, s')) \<Rightarrow>
          (case ats_run intensive (cycle + 1) rest s' of
             None \<Rightarrow> None
           | Some (Exit c) \<Rightarrow> Some (Exit c)
           | Some (Ret (out, t)) \<Rightarrow> Some (Ret (r # out, t))))"

definition ats_main :: "(int \<Rightarrow> int \<Rightarrow> bool) \<Rightarrow> ats_queue \<Rightarrow> (int \<times> (int \<times> int) option) list list
    \<Rightarrow> (ats_request option list \<times> ats_queue \<times> thread_info list) prog option" where
  "ats_main intensive q0 inputs = ats_run intensive 0 inputs
     (initQueue q0, replicate MAX_THREADS
        \<lparr>ti_memory_requests = 0, ti_instructions = 0, ti_is_memory_intensive = False,
         ti_priority = 1\<rparr>)"

subsection \<open>The selection finds the first request of highest priority\<close>

definition ats_prio :: "ats_queue \<Rightarrow> thread_info list \<Rightarrow> nat \<Rightarrow> int" where
  "ats_prio q threads p = ti_priority (threads ! at_thread_id (rq_list q ! p))"

definition ats_elig :: "ats_queue \<Rightarrow> thread_info list \<Rightarrow> nat \<Rightarrow> bool" where
  "ats_elig q threads p \<longleftrightarrow> 0 < ats_prio q threads p"

definition ats_better :: "ats_queue \<Rightarrow> thread_info list \<Rightarrow> nat \<Rightarrow> nat \<Rightarrow> bool" where
  "ats_better q threads i k \<longleftrightarrow> ats_prio q threads k < ats_prio q threads i"

interpretation ats: key_scan "ats_elig q threads" "ats_better q threads"
  "\<lambda>p. - ats_prio q threads p" for q threads
  by unfold_locales (simp add: ats_better_def)

definition ats_ok :: "ats_queue \<Rightarrow> thread_info list \<Rightarrow> bool" where
  "ats_ok q threads \<longleftrightarrow> rq_ok MAX_QUEUE_SIZE q \<and> length threads = MAX_THREADS \<and>
     (\<forall>r\<in>set (rq_list q). at_thread_id r < MAX_THREADS)"

lemma select_scan_eq:
  assumes "ats_ok q threads" and "\<forall>p\<in>set ps. p < rq_size q"
    and "case c of None \<Rightarrow> True | Some p \<Rightarrow> ats_elig q threads p"
  shows "select_scan q threads ps
      (case c of None \<Rightarrow> 0 | Some p \<Rightarrow> ats_prio q threads p,
       map_option (\<lambda>p. (rq_front q + p) mod MAX_QUEUE_SIZE) c) =
    (let c' = scan_best (ats_elig q threads) (ats_better q threads) ps c in
     Some (case c' of None \<Rightarrow> 0 | Some p \<Rightarrow> ats_prio q threads p,
       map_option (\<lambda>p. (rq_front q + p) mod MAX_QUEUE_SIZE) c'))"
  using assms(2,3)
proof (induction ps arbitrary: c)
  case (Cons p ps)
  let ?j = "(rq_front q + p) mod MAX_QUEUE_SIZE"
  have len: "length (rq_requests q) = MAX_QUEUE_SIZE" "0 < MAX_QUEUE_SIZE"
    using assms(1) by (auto simp: ats_ok_def rq_ok_def)
  have p: "p < rq_size q" using Cons.prems(1) by simp
  then have nth: "rq_list q ! p = rq_requests q ! ?j" by (simp add: rq_list_def ring_list_nth len)
  have tid: "at_thread_id (rq_requests q ! ?j) < length threads"
    using assms(1) p nth_mem [of p "rq_list q"] by (simp add: ats_ok_def nth)
  define t where "t = threads ! at_thread_id (rq_requests q ! ?j)"
  have t: "c_load (rq_requests q) ?j = Some (rq_requests q ! ?j)"
    "c_load threads (at_thread_id (rq_requests q ! ?j)) = Some t"
    "ti_priority t = ats_prio q threads p"
    using len tid by (simp_all add: t_def ats_prio_def nth)
  have upd: "(if ats_prio q threads p > (case c of None \<Rightarrow> 0 | Some p \<Rightarrow> ats_prio q threads p)
      then (ats_prio q threads p, Some ?j)
      else (case c of None \<Rightarrow> 0 | Some p \<Rightarrow> ats_prio q threads p,
            map_option (\<lambda>p. (rq_front q + p) mod MAX_QUEUE_SIZE) c)) =
    (let c' = (if ats_elig q threads p \<and> (case c of None \<Rightarrow> True | Some k \<Rightarrow> ats_better q threads p k)
               then Some p else c) in
     (case c' of None \<Rightarrow> 0 | Some p \<Rightarrow> ats_prio q threads p,
      map_option (\<lambda>p. (rq_front q + p) mod MAX_QUEUE_SIZE) c'))"
    using Cons.prems(2) by (cases c) (auto simp: ats_elig_def ats_better_def)
  show ?case
    using Cons.IH [of "if ats_elig q threads p \<and>
        (case c of None \<Rightarrow> True | Some k \<Rightarrow> ats_better q threads p k) then Some p else c"] Cons.prems
    by (simp only: select_scan.simps Let_def t bind.bind_lunit upd scan_best.simps) auto
qed simp

subsection \<open>The removal keeps the other requests in order\<close>

lemma shift_up_ok:
  assumes "length rs = MAX_QUEUE_SIZE" and "n \<le> MAX_QUEUE_SIZE" and "k < n"
  shows "\<exists>rs'. shift_up (int ((f + (n - 1)) mod MAX_QUEUE_SIZE)) ((f + k) mod MAX_QUEUE_SIZE) rs
      = Some rs' \<and> length rs' = MAX_QUEUE_SIZE \<and>
    ring_list rs' f (n - 1) = take k (ring_list rs f n) @ drop (Suc k) (ring_list rs f n)"
  using assms
proof (induction "n - 1 - k" arbitrary: k rs)
  case 0
  then have "k = n - 1" by simp
  moreover have "ring_list rs f (n - 1) = take (n - 1) (ring_list rs f n)"
    by (simp add: ring_list_def take_map)
  ultimately show ?case using 0 by (simp add: shift_up.simps)
next
  case (Suc d)
  let ?m = MAX_QUEUE_SIZE
  let ?L = "ring_list rs f n"
  have m: "0 < ?m" by (simp add: MAX_QUEUE_SIZE_def)
  have k: "Suc k < n" using Suc.hyps(2) by simp
  have ne: "(f + k) mod ?m \<noteq> (f + (n - 1)) mod ?m"
  proof
    assume "(f + k) mod ?m = (f + (n - 1)) mod ?m"
    from mod_offset_inj [OF _ _ this] k Suc.prems have "k = n - 1" by simp
    with k show False by simp
  qed
  let ?rs = "rs[(f + k) mod ?m := rs ! ((f + Suc k) mod ?m)]"
  have "shift_up (int ((f + (n - 1)) mod ?m)) ((f + k) mod ?m) rs =
      shift_up (int ((f + (n - 1)) mod ?m)) ((f + Suc k) mod ?m) ?rs"
    using ne m Suc.prems(1)
    by (subst shift_up.simps) (simp add: mod_Suc_eq)
  moreover have "d = n - 1 - Suc k" using Suc.hyps(2) by simp
  from Suc.hyps(1) [OF this, of ?rs] Suc.prems k obtain rs' where
    "shift_up (int ((f + (n - 1)) mod ?m)) ((f + Suc k) mod ?m) ?rs = Some rs'"
    "length rs' = ?m"
    "ring_list rs' f (n - 1) = take (Suc k) (ring_list ?rs f n) @ drop (Suc (Suc k)) (ring_list ?rs f n)"
    by auto
  moreover have "ring_list ?rs f n = ?L[k := ?L ! Suc k]"
    using ring_list_update [of k n rs f] k Suc.prems by (simp add: ring_list_nth)
  moreover have "take (Suc k) (?L[k := ?L ! Suc k]) @ drop (Suc (Suc k)) (?L[k := ?L ! Suc k]) =
      take k ?L @ drop (Suc k) ?L"
  proof -
    have "drop (Suc k) ?L = ?L ! Suc k # drop (Suc (Suc k)) ?L"
      using k by (simp add: Cons_nth_drop_Suc)
    then show ?thesis using k by (simp add: take_Suc_conv_app_nth)
  qed
  ultimately show ?case by simp
qed

lemma removal_ok:
  assumes "rq_ok MAX_QUEUE_SIZE q" and "p < rq_size q"
  obtains rs where "shift_up (rq_rear q) ((rq_front q + p) mod MAX_QUEUE_SIZE) (rq_requests q) = Some rs"
    "let t = q\<lparr>rq_requests := rs,
       rq_rear := (rq_rear q - 1 + int MAX_QUEUE_SIZE) mod int MAX_QUEUE_SIZE,
       rq_size := rq_size q - 1\<rparr>
     in rq_ok MAX_QUEUE_SIZE t \<and> rq_list t = take p (rq_list q) @ drop (Suc p) (rq_list q)"
proof -
  let ?m = MAX_QUEUE_SIZE and ?f = "rq_front q" and ?n = "rq_size q"
  have ok: "length (rq_requests q) = ?m" "?n \<le> ?m" "0 < ?m" "0 \<le> rq_rear q" "rq_rear q < int ?m"
    "(rq_rear q + 1) mod int ?m = int ((?f + ?n) mod ?m)"
    using assms by (auto simp: rq_ok_def)
  have rear: "rq_rear q = int ((?f + (?n - 1)) mod ?m)"
  proof -
    have "rq_rear q = ((rq_rear q + 1) + (int ?m - 1)) mod int ?m" using ok(4,5) by simp
    also have "\<dots> = (int ((?f + ?n) mod ?m) + (int ?m - 1)) mod int ?m"
      by (metis ok(6) mod_add_left_eq)
    also have "\<dots> = (int (?f + ?n) + (int ?m - 1)) mod int ?m"
      by (simp only: zmod_int mod_add_left_eq)
    also have "int (?f + ?n) + (int ?m - 1) = int (?f + (?n - 1)) + int ?m"
      using assms(2) by simp
    finally show ?thesis by (simp add: zmod_int)
  qed
  from shift_up_ok [OF ok(1,2) assms(2), of ?f] obtain rs where
    rs: "shift_up (rq_rear q) ((?f + p) mod ?m) (rq_requests q) = Some rs" "length rs = ?m"
      "ring_list rs ?f (?n - 1) = take p (rq_list q) @ drop (Suc p) (rq_list q)"
    unfolding rear rq_list_def by blast
  define r where "r = (rq_rear q - 1 + int ?m) mod int ?m"
  have r: "(r + 1) mod int ?m = int ((?f + (?n - 1)) mod ?m)" "0 \<le> r" "r < int ?m"
    unfolding r_def using rear ok(3-5) by (simp_all add: mod_simps)
  have "rq_ok ?m (q\<lparr>rq_requests := rs, rq_rear := r, rq_size := ?n - 1\<rparr>)"
    using r rs(2) assms(1) ok(2) by (simp add: rq_ok_def)
  moreover have "rq_list (q\<lparr>rq_requests := rs, rq_rear := r, rq_size := ?n - 1\<rparr>) =
      take p (rq_list q) @ drop (Suc p) (rq_list q)"
    using rs(3) by (simp add: rq_list_def)
  ultimately show thesis
    unfolding r_def by (intro that [OF rs(1)]) (simp only: Let_def simp_thms)
qed

lemma ats_scheduleRequest_ok:
  assumes "ats_ok q threads" and "rq_list q \<noteq> []"
  obtains p q' where "ats_scheduleRequest q threads n = Some (Ret (rq_list q ! p, q'))"
    "p < length (rq_list q)" "rq_ok MAX_QUEUE_SIZE q'"
    "rq_list q' = take p (rq_list q) @ drop (Suc p) (rq_list q)"
    "if \<exists>i<length (rq_list q). 0 < ats_prio q threads i
     then (\<forall>i<length (rq_list q). ats_prio q threads i \<le> ats_prio q threads p) \<and>
          (\<forall>i<p. ats_prio q threads i < ats_prio q threads p)
     else p = 0"
proof -
  let ?m = MAX_QUEUE_SIZE and ?f = "rq_front q"
  have rq: "rq_ok ?m q" and len: "length (rq_requests q) = ?m" "0 < ?m"
    using assms(1) by (auto simp: ats_ok_def rq_ok_def)
  define c where "c = scan_best (ats_elig q threads) (ats_better q threads) [0..<rq_size q] None"
  have sel: "select_scan q threads [0..<rq_size q] (0, None) =
      Some (case c of None \<Rightarrow> 0 | Some p \<Rightarrow> ats_prio q threads p, map_option (\<lambda>p. (?f + p) mod ?m) c)"
    using select_scan_eq [OF assms(1), of "[0..<rq_size q]" None] by (simp add: c_def Let_def)
  show thesis
  proof (cases c)
    case None
    then have "\<forall>i<length (rq_list q). \<not> 0 < ats_prio q threads i"
      by (simp add: c_def ats.scan_None ats_elig_def)
    moreover obtain y ys where ys: "rq_list q = y # ys" using assms(2) by (cases "rq_list q") auto
    with dequeue_front [OF rq] obtain t where
      "dequeue ?m q = Some (Ret (y, t))" "rq_ok ?m t" "rq_list t = ys" by blast
    ultimately show thesis
      using None sel ys
      by (intro that [of 0 t]) (auto simp: ats_scheduleRequest_def isQueueEmpty_iff)
  next
    case (Some p)
    note P = ats.scan_Some [OF Some [unfolded c_def]]
    obtain rs where rs: "shift_up (rq_rear q) ((?f + p) mod ?m) (rq_requests q) = Some rs"
      "let t = q\<lparr>rq_requests := rs, rq_rear := (rq_rear q - 1 + int ?m) mod int ?m,
         rq_size := rq_size q - 1\<rparr>
       in rq_ok ?m t \<and> rq_list t = take p (rq_list q) @ drop (Suc p) (rq_list q)"
      using rq P(1) by (rule removal_ok)
    have "rq_list q ! p = rq_requests q ! ((?f + p) mod ?m)"
      using P(1) by (simp add: rq_list_def ring_list_nth len)
    then have run: "ats_scheduleRequest q threads n = Some (Ret (rq_list q ! p,
        q\<lparr>rq_requests := rs, rq_rear := (rq_rear q - 1 + int ?m) mod int ?m,
         rq_size := rq_size q - 1\<rparr>))"
      using assms(2) sel Some rs(1) len by (simp add: ats_scheduleRequest_def isQueueEmpty_iff)
    have max: "ats_prio q threads i \<le> ats_prio q threads p" if "i < length (rq_list q)" for i
      using P(2,3) that by (cases "ats_elig q threads i") (auto simp: ats_elig_def)
    have first: "ats_prio q threads i < ats_prio q threads p" if "i < p" for i
      using P(2,4) that by (cases "ats_elig q threads i") (auto simp: ats_elig_def)
    have ex: "\<exists>i<length (rq_list q). 0 < ats_prio q threads i"
      using P(1,2) by (auto simp: ats_elig_def)
    have "if \<exists>i<length (rq_list q). 0 < ats_prio q threads i
      then (\<forall>i<length (rq_list q). ats_prio q threads i \<le> ats_prio q threads p) \<and>
           (\<forall>i<p. ats_prio q threads i < ats_prio q threads p)
      else p = 0" by (subst if_P [OF ex]) (use max first in blast)
    with that [OF run] rs(2) P(1) show thesis by (simp only: Let_def rq_list_length)
  qed
qed

subsection \<open>The simulation keeps its invariant\<close>

definition classified :: "(int \<Rightarrow> int \<Rightarrow> bool) \<Rightarrow> thread_info \<Rightarrow> thread_info" where
  "classified intensive t =
     (let m = intensive (ti_memory_requests t) (ti_instructions t)
      in t\<lparr>ti_is_memory_intensive := m, ti_priority := (if m then 3 else 1)\<rparr>)"

lemma adaptation_ok:
  assumes "length threads = n"
  shows "do { ts \<leftarrow> classifyThreads intensive threads n; adaptSchedulingPolicy ts n } =
    Some (map (classified intensive) threads)"
  using assms
  by (auto simp: classifyThreads_def adaptSchedulingPolicy_def update_each_upto classified_def Let_def)

lemma enqueue_ats_ok:
  assumes "ats_ok q threads" and "at_thread_id r < MAX_THREADS"
  obtains b q' where "enqueue MAX_QUEUE_SIZE q r = Some (b, q')" "ats_ok q' threads"
proof (cases "length (rq_list q) < MAX_QUEUE_SIZE")
  case True
  with enqueue_room [of MAX_QUEUE_SIZE q r] assms that show thesis
    by (auto simp: ats_ok_def)
next
  case False
  with assms(1) have "length (rq_list q) = MAX_QUEUE_SIZE" by (simp add: ats_ok_def rq_ok_def)
  with assms that enqueue_full [of MAX_QUEUE_SIZE q r] show thesis by (auto simp: ats_ok_def)
qed

lemma ats_ok_threads: "ats_ok q threads \<Longrightarrow> length threads' = length threads \<Longrightarrow> ats_ok q threads'"
  by (simp add: ats_ok_def)

lemma threads_behave_ok:
  assumes "ats_ok q threads" and "\<forall>i\<in>set is. i < MAX_THREADS"
  shows "\<exists>q' threads'. threads_behave is inputs q threads = Some (q', threads') \<and> ats_ok q' threads'"
  using assms
proof (induction "is" inputs q threads rule: threads_behave.induct)
  case (1 i "is" d req inputs q threads)
  then have i: "i < length threads" "i < MAX_THREADS" by (simp_all add: ats_ok_def)
  show ?case
  proof (cases req)
    case None
    with "1.IH"(1) [OF _ refl None] "1.prems" i show ?thesis by (simp add: ats_ok_threads)
  next
    case (Some a)
    obtain x ts where a: "a = (x, ts)" by (cases a)
    let ?r = "\<lparr>at_address = x, at_timestamp = ts, at_thread_id = i\<rparr>"
    obtain b q' where q': "enqueue MAX_QUEUE_SIZE q ?r = Some (b, q')" "ats_ok q' threads"
      using enqueue_ats_ok [OF "1.prems"(1), of ?r] i by auto
    let ?t = "(threads ! i)\<lparr>ti_instructions := ti_instructions (threads ! i) + d,
      ti_memory_requests := ti_memory_requests (threads ! i) + 1\<rparr>"
    have "ats_ok q' (threads[i := ?t])" using q'(2) by (simp add: ats_ok_threads)
    with "1.IH"(2) [OF _ refl Some a [symmetric] q'(1) refl] "1.prems" q'(1) i Some a show ?thesis
      by simp
  qed
qed auto

lemma ats_cycle_ok:
  assumes "ats_ok (fst s) (snd s)"
  obtains r q' threads' where "ats_cycle intensive cycle inputs s = Some (Ret (r, q', threads'))"
    "ats_ok q' threads'"
proof -
  from threads_behave_ok [OF assms, of "[0..<MAX_THREADS]" inputs] obtain q threads where
    b: "threads_behave [0..<MAX_THREADS] inputs (fst s) (snd s) = Some (q, threads)"
      "ats_ok q threads" by auto
  define threads' where "threads' =
    (if cycle mod ADAPTATION_INTERVAL = 0 then map (classified intensive) threads else threads)"
  have t: "(if cycle mod ADAPTATION_INTERVAL = 0
        then do { ts \<leftarrow> classifyThreads intensive threads MAX_THREADS;
                  adaptSchedulingPolicy ts MAX_THREADS }
        else Some threads) = Some threads'"
    using adaptation_ok [of threads MAX_THREADS intensive] b(2) by (simp add: threads'_def ats_ok_def)
  have ok: "ats_ok q threads'" using b(2) by (rule ats_ok_threads) (simp add: threads'_def)
  show thesis
  proof (cases "isQueueEmpty q")
    case True
    with b(1) t ok that [of None q threads'] show thesis by (simp add: ats_cycle_def)
  next
    case False
    then have "rq_list q \<noteq> []" by (simp add: isQueueEmpty_iff)
    with ok obtain p q' where p: "ats_scheduleRequest q threads' MAX_THREADS =
        Some (Ret (rq_list q ! p, q'))" "rq_ok MAX_QUEUE_SIZE q'"
      "rq_list q' = take p (rq_list q) @ drop (Suc p) (rq_list q)"
      by (rule ats_scheduleRequest_ok)
    have "ats_ok q' threads'"
      using ok p(2,3) by (auto simp: ats_ok_def dest: in_set_takeD in_set_dropD)
    with b(1) t False p(1) that [of "Some (rq_list q ! p)" q' threads'] show thesis
      by (simp add: ats_cycle_def)
  qed
qed

lemma ats_run_ok:
  assumes "ats_ok (fst s) (snd s)"
  shows "\<exists>out q threads. ats_run intensive cycle inputs s = Some (Ret (out, q, threads)) \<and>
    length out = length inputs \<and> ats_ok q threads"
  using assms
proof (induction inputs arbitrary: cycle s)
  case (Cons i inputs)
  from Cons.prems obtain r q threads where
    c: "ats_cycle intensive cycle i s = Some (Ret (r, q, threads))" "ats_ok q threads"
    by (rule ats_cycle_ok)
  with Cons.IH [of "(q, threads)" "cycle + 1"] show ?case by auto
qed (auto simp: prod_eq_iff)

subsection \<open>Properties\<close>

text \<open>C15. The thread-aware scheduler takes out of a well-formed queue the first request of a
  thread of highest priority (the oldest request when no priority is positive), leaves all other
  requests in their order, and keeps the queue well formed.\<close>

theorem ats_schedules_highest_priority:
  assumes "ats_ok q threads" and "rq_list q \<noteq> []"
  shows "\<exists>p q'. ats_scheduleRequest q threads n = Some (Ret (rq_list q ! p, q')) \<and>
    p < length (rq_list q) \<and> rq_ok MAX_QUEUE_SIZE q' \<and>
    rq_list q' = take p (rq_list q) @ drop (Suc p) (rq_list q) \<and>
    (if \<exists>i<length (rq_list q). 0 < ats_prio q threads i
     then (\<forall>i<length (rq_list q). ats_prio q threads i \<le> ats_prio q threads p) \<and>
          (\<forall>i<p. ats_prio q threads i < ats_prio q threads p)
     else p = 0)"
  using assms by (rule ats_scheduleRequest_ok) blast

definition ats_req :: "int \<Rightarrow> nat \<Rightarrow> ats_request" where
  "ats_req a i = \<lparr>at_address = a, at_timestamp = 0, at_thread_id = i\<rparr>"

definition ats_example :: ats_queue where
  "ats_example = \<lparr>rq_requests = [ats_req 10 0, ats_req 11 1] @ replicate 98 (ats_req 0 0),
     rq_front = 0, rq_rear = 1, rq_size = 2\<rparr>"

definition ats_threads :: "thread_info list" where
  "ats_threads = map (\<lambda>i. \<lparr>ti_memory_requests = 0, ti_instructions = 0,
     ti_is_memory_intensive = False, ti_priority = int i\<rparr>) [0..<8]"

theorem ats_schedules_highest_priority_witness:
  "ats_ok ats_example ats_threads \<and>
   (\<exists>p q'. ats_scheduleRequest ats_example ats_threads 8 = Some (Ret (rq_list ats_example ! p, q')))"
proof -
  have l: "rq_list ats_example = [ats_req 10 0, ats_req 11 1]"
    by (simp add: ats_example_def rq_list_def ring_list_def upt_conv_Cons)
  have "ats_ok ats_example ats_threads"
    unfolding ats_ok_def l
    by (simp add: ats_example_def ats_threads_def rq_ok_def ats_req_def MAX_QUEUE_SIZE_def
        MAX_THREADS_def)
  moreover have "rq_list ats_example \<noteq> []" by (simp add: l)
  ultimately have "\<exists>p q'. ats_scheduleRequest ats_example ats_threads 8 =
      Some (Ret (rq_list ats_example ! p, q'))"
    using ats_schedules_highest_priority [of ats_example ats_threads 8] by blast
  with \<open>ats_ok ats_example ats_threads\<close> show ?thesis by blast
qed

text \<open>Whatever the threads do, the simulation runs all its cycles without leaving an array
  or exiting; the queue stays well formed and every queued request names an existing thread.\<close>

theorem ats_main_safe:
  assumes "length (rq_requests q0) = MAX_QUEUE_SIZE"
  shows "\<exists>out q threads. ats_main intensive q0 inputs = Some (Ret (out, q, threads)) \<and>
    length out = length inputs \<and> ats_ok q threads"
  unfolding ats_main_def
  by (rule ats_run_ok)
    (use assms in \<open>simp add: ats_ok_def initQueue_ok MAX_QUEUE_SIZE_def\<close>)

theorem ats_main_safe_witness:
  "\<exists>out q threads. ats_main (\<lambda>m i. 10 * i < 1000 * m) ats_example
      [[(3, Some (7, 1)), (2, None)], [(1, None), (4, Some (8, 2))]] = Some (Ret (out, q, threads)) \<and>
    length out = length [[(3 :: int, Some (7 :: int, 1 :: int)), (2, None)],
      [(1, None), (4, Some (8, 2))]] \<and> ats_ok q threads"
  by (rule ats_main_safe) (simp add: ats_example_def MAX_QUEUE_SIZE_def)

end
