(* ===== verification/Command_Scheduling.thy ===== *)
theory Command_Scheduling
  imports Request_Queue
begin

text \<open>
  The DRAM command scheduler (\<^verbatim>\<open>concurrency/scheduling/commandScheduling.c\<close>).

  Commands wait in a circular queue of sixteen; \<open>schedule_commands\<close> takes them out one by one. A
  read or write whose row is not open is put back behind an activate command for its row. The
  global variables \<open>cmd_queue\<close> and \<open>bank_states\<close> are the state; the lines the program prints are
  the DRAM commands it issues and form the trace.

  The loop need not end, so its model takes a number of rounds and tells whether the queue was
  empty at the end. The lemmas show that the issued commands always respect the DRAM protocol
  (\<open>dram_replay\<close>), and that a request for another row of an open bank is never issued.
\<close>

definition NUM_BANKS :: nat where
  "NUM_BANKS = 4"

definition QUEUE_SIZE :: nat where
  "QUEUE_SIZE = 16"

datatype CommandType = CMD_ACTIVATE | CMD_READ | CMD_WRITE | CMD_PRECHARGE

record Command =
  cmd_type :: CommandType
  cmd_bank :: u32
  cmd_row :: u32
  cmd_column :: u32

record BankState =
  is_open :: bool
  open_row :: u32

record cmd_state =
  cmd_queue :: "Command req_queue"
  bank_states :: "BankState list"

datatype dram_event = Activate u32 u32 | ReadCol u32 u32 u32 | WriteCol u32 u32 u32 | Precharge u32

definition init_command_queue :: "cmd_state \<Rightarrow> cmd_state" where
  "init_command_queue s = s\<lparr>cmd_queue := initQueue (cmd_queue s)\<rparr>"

definition is_queue_full :: "cmd_state \<Rightarrow> bool" where
  "is_queue_full s = isQueueFull QUEUE_SIZE (cmd_queue s)"

definition is_queue_empty :: "cmd_state \<Rightarrow> bool" where
  "is_queue_empty s = isQueueEmpty (cmd_queue s)"

definition enqueue_command :: "Command \<Rightarrow> cmd_state \<Rightarrow> cmd_state option" where
  "enqueue_command cmd s = do {
     (_, q) \<leftarrow> enqueue QUEUE_SIZE (cmd_queue s) cmd;
     Some (s\<lparr>cmd_queue := q\<rparr>)
   }"

definition dequeue_command :: "cmd_state \<Rightarrow> (Command \<times> cmd_state) prog option" where
  "dequeue_command s = do {
     d \<leftarrow> dequeue QUEUE_SIZE (cmd_queue s);
     Some (case d of Exit c \<Rightarrow> Exit c | Ret (cmd, q) \<Rightarrow> Ret (cmd, s\<lparr>cmd_queue := q\<rparr>))
   }"

definition requeue_activated :: "Command \<Rightarrow> cmd_state \<Rightarrow> cmd_state option" where
  "requeue_activated cmd s = do {
     s1 \<leftarrow> enqueue_command \<lparr>cmd_type = CMD_ACTIVATE, cmd_bank = cmd_bank cmd,
       cmd_row = cmd_row cmd, cmd_column = 0\<rparr> s;
     enqueue_command cmd s1
   }"

text \<open>The body of the loop: the \<open>switch\<close> on the type of the command.\<close>

definition execute_command :: "Command \<Rightarrow> cmd_state \<Rightarrow> (dram_event list \<times> cmd_state) option" where
  "execute_command cmd s = do {
     bs \<leftarrow> c_load (bank_states s) (unat (cmd_bank cmd));
     (case cmd_type cmd of
        CMD_ACTIVATE \<Rightarrow>
          if \<not> is_open bs then do {
            banks \<leftarrow> c_store (bank_states s) (unat (cmd_bank cmd))
              (bs\<lparr>is_open := True, open_row := cmd_row cmd\<rparr>);
            Some ([Activate (cmd_bank cmd) (cmd_row cmd)], s\<lparr>bank_states := banks\<rparr>)
          } else Some ([], s)
      | CMD_READ \<Rightarrow>
          if is_open bs \<and> open_row bs = cmd_row cmd
          then Some ([ReadCol (cmd_bank cmd) (cmd_row cmd) (cmd_column cmd)], s)
          else do { s' \<leftarrow> requeue_activated cmd s; Some ([], s') }
      | CMD_WRITE \<Rightarrow>
          if is_open bs \<and> open_row bs = cmd_row cmd
          then Some ([WriteCol (cmd_bank cmd) (cmd_row cmd) (cmd_column cmd)], s)
          else do { s' \<leftarrow> requeue_activated cmd s; Some ([], s') }
      | CMD_PRECHARGE \<Rightarrow>
          if is_open bs then do {
            banks \<leftarrow> c_store (bank_states s) (unat (cmd_bank cmd)) (bs\<lparr>is_open := False\<rparr>);
            Some ([Precharge (cmd_bank cmd)], s\<lparr>bank_states := banks\<rparr>)
          } else Some ([], s))
   }"

fun schedule_commands ::
  "nat \<Rightarrow> cmd_state \<Rightarrow> (dram_event list \<times> bool \<times> cmd_state) prog option" where
  "schedule_commands 0 s = Some (Ret ([], is_queue_empty s, s))"
| "schedule_commands (Suc n) s =
     (if is_queue_empty s then Some (Ret ([], True, s))
      else (case dequeue_command s of
          None \<Rightarrow> None
        | Some (Exit c) \<Rightarrow> Some (Exit c)
        | Some (Ret (cmd, s1)) \<Rightarrow>
            (case execute_command cmd s1 of
               None \<Rightarrow> None
             | Some (ev, s2) \<Rightarrow>
                 (case schedule_commands n s2 of
                    None \<Rightarrow> None
                  | Some (Exit c) \<Rightarrow> Some (Exit c)
                  | Some (Ret (evs, fin, t)) \<Rightarrow> Some (Ret (ev @ evs, fin, t))))))"

fun enqueue_commands :: "Command list \<Rightarrow> cmd_state \<Rightarrow> cmd_state option" where
  "enqueue_commands [] s = Some s"
| "enqueue_commands (c # cs) s = do { s' \<leftarrow> enqueue_command c s; enqueue_commands cs s' }"

definition command_main :: "nat \<Rightarrow> cmd_state
    \<Rightarrow> (dram_event list \<times> bool \<times> cmd_state) prog option" where
  "command_main n s0 = do {
     banks \<leftarrow> update_each (\<lambda>b. b\<lparr>is_open := False\<rparr>) [0..<NUM_BANKS] (bank_states s0);
     s \<leftarrow> enqueue_commands
       [\<lparr>cmd_type = CMD_ACTIVATE, cmd_bank = 0, cmd_row = 1000, cmd_column = 0\<rparr>,
        \<lparr>cmd_type = CMD_READ, cmd_bank = 0, cmd_row = 1000, cmd_column = 50\<rparr>,
        \<lparr>cmd_type = CMD_WRITE, cmd_bank = 1, cmd_row = 2000, cmd_column = 100\<rparr>,
        \<lparr>cmd_type = CMD_READ, cmd_bank = 0, cmd_row = 1000, cmd_column = 60\<rparr>,
        \<lparr>cmd_type = CMD_PRECHARGE, cmd_bank = 0, cmd_row = 0, cmd_column = 0\<rparr>]
       ((init_command_queue s0)\<lparr>bank_states := banks\<rparr>);
     schedule_commands n s
   }"

subsection \<open>The DRAM protocol\<close>

text \<open>What a DRAM device accepts: a closed bank can be activated, an open one read and written in
  its open row and precharged.\<close>

fun dram_step :: "dram_event \<Rightarrow> BankState list \<Rightarrow> BankState list option" where
  "dram_step (Activate b r) banks =
     (if unat b < length banks \<and> \<not> is_open (banks ! unat b)
      then Some (banks[unat b := (banks ! unat b)\<lparr>is_open := True, open_row := r\<rparr>]) else None)"
| "dram_step (ReadCol b r c) banks =
     (if unat b < length banks \<and> is_open (banks ! unat b) \<and> open_row (banks ! unat b) = r
      then Some banks else None)"
| "dram_step (WriteCol b r c) banks =
     (if unat b < length banks \<and> is_open (banks ! unat b) \<and> open_row (banks ! unat b) = r
      then Some banks else None)"
| "dram_step (Precharge b) banks =
     (if unat b < length banks \<and> is_open (banks ! unat b)
      then Some (banks[unat b := (banks ! unat b)\<lparr>is_open := False\<rparr>]) else None)"

fun dram_replay :: "dram_event list \<Rightarrow> BankState list \<Rightarrow> BankState list option" where
  "dram_replay [] banks = Some banks"
| "dram_replay (e # es) banks = do { banks' \<leftarrow> dram_step e banks; dram_replay es banks' }"

definition cmd_ok :: "cmd_state \<Rightarrow> bool" where
  "cmd_ok s \<longleftrightarrow> rq_ok QUEUE_SIZE (cmd_queue s) \<and> length (bank_states s) = NUM_BANKS \<and>
     (\<forall>c\<in>set (rq_list (cmd_queue s)). unat (cmd_bank c) < NUM_BANKS)"

lemma enqueue_command_ok:
  assumes "cmd_ok s" and "unat (cmd_bank c) < NUM_BANKS"
  obtains s' where "enqueue_command c s = Some s'" "cmd_ok s'" "bank_states s' = bank_states s"
    "length (rq_list (cmd_queue s)) < QUEUE_SIZE \<longrightarrow>
      rq_list (cmd_queue s') = rq_list (cmd_queue s) @ [c]"
proof (cases "length (rq_list (cmd_queue s)) < QUEUE_SIZE")
  case True
  with enqueue_room [of QUEUE_SIZE "cmd_queue s" c] assms obtain t where
    "enqueue QUEUE_SIZE (cmd_queue s) c = Some (True, t)" "rq_ok QUEUE_SIZE t"
    "rq_list t = rq_list (cmd_queue s) @ [c]" by (auto simp: cmd_ok_def)
  with assms that [of "s\<lparr>cmd_queue := t\<rparr>"] show thesis
    by (simp add: enqueue_command_def cmd_ok_def)
next
  case False
  moreover from assms(1) have "rq_ok QUEUE_SIZE (cmd_queue s)" by (simp add: cmd_ok_def)
  moreover from calculation have "length (rq_list (cmd_queue s)) = QUEUE_SIZE"
    by (simp add: rq_ok_def)
  ultimately show thesis
    using enqueue_full [of QUEUE_SIZE "cmd_queue s" c] assms(1) that [of s]
    by (simp add: enqueue_command_def)
qed

lemma requeue_activated_ok:
  assumes "cmd_ok s" and "unat (cmd_bank c) < NUM_BANKS"
  obtains s' where "requeue_activated c s = Some s'" "cmd_ok s'" "bank_states s' = bank_states s"
    "length (rq_list (cmd_queue s)) + 1 < QUEUE_SIZE \<longrightarrow>
      rq_list (cmd_queue s') = rq_list (cmd_queue s) @
        [\<lparr>cmd_type = CMD_ACTIVATE, cmd_bank = cmd_bank c, cmd_row = cmd_row c, cmd_column = 0\<rparr>, c]"
proof -
  let ?a = "\<lparr>cmd_type = CMD_ACTIVATE, cmd_bank = cmd_bank c, cmd_row = cmd_row c, cmd_column = 0\<rparr>"
  have "unat (cmd_bank ?a) < NUM_BANKS" using assms(2) by simp
  with assms(1) obtain s1 where s1: "enqueue_command ?a s = Some s1" "cmd_ok s1"
    "bank_states s1 = bank_states s" "length (rq_list (cmd_queue s)) < QUEUE_SIZE \<longrightarrow>
      rq_list (cmd_queue s1) = rq_list (cmd_queue s) @ [?a]" by (rule enqueue_command_ok)
  from s1(2) assms(2) obtain s2 where s2: "enqueue_command c s1 = Some s2" "cmd_ok s2"
    "bank_states s2 = bank_states s1" "length (rq_list (cmd_queue s1)) < QUEUE_SIZE \<longrightarrow>
      rq_list (cmd_queue s2) = rq_list (cmd_queue s1) @ [c]" by (rule enqueue_command_ok)
  have "length (rq_list (cmd_queue s)) + 1 < QUEUE_SIZE \<longrightarrow>
      rq_list (cmd_queue s2) = rq_list (cmd_queue s) @ [?a, c]"
    using s1(4) s2(4) by (auto simp del: rq_list_length)
  with s1 s2 show thesis by (intro that [of s2]) (simp_all add: requeue_activated_def)
qed

lemma dequeue_command_ok:
  assumes "cmd_ok s" and "rq_list (cmd_queue s) = c # cs"
  obtains s' where "dequeue_command s = Some (Ret (c, s'))" "cmd_ok s'"
    "bank_states s' = bank_states s" "rq_list (cmd_queue s') = cs"
proof -
  from assms dequeue_front [of QUEUE_SIZE "cmd_queue s" c cs] obtain t where
    "dequeue QUEUE_SIZE (cmd_queue s) = Some (Ret (c, t))" "rq_ok QUEUE_SIZE t" "rq_list t = cs"
    by (auto simp: cmd_ok_def)
  with assms that [of "s\<lparr>cmd_queue := t\<rparr>"] show thesis
    by (simp add: dequeue_command_def cmd_ok_def)
qed

lemma execute_command_ok:
  assumes "cmd_ok s" and "unat (cmd_bank c) < NUM_BANKS"
  obtains ev s' where "execute_command c s = Some (ev, s')" "cmd_ok s'"
    "dram_replay ev (bank_states s) = Some (bank_states s')"
proof -
  have b: "unat (cmd_bank c) < length (bank_states s)" using assms by (simp add: cmd_ok_def)
  obtain s' where r: "requeue_activated c s = Some s'" "cmd_ok s'"
    "bank_states s' = bank_states s" using assms by (rule requeue_activated_ok)
  have "\<exists>ev s'. execute_command c s = Some (ev, s') \<and> cmd_ok s' \<and>
      dram_replay ev (bank_states s) = Some (bank_states s')"
    using b r assms(1) by (cases "cmd_type c") (simp_all add: execute_command_def cmd_ok_def)
  with that show thesis by blast
qed

lemma dram_replay_append:
  "dram_replay (xs @ ys) b = dram_replay xs b \<bind> dram_replay ys"
proof (induction xs arbitrary: b)
  case (Cons e es)
  then show ?case by (cases "dram_step e b") simp_all
qed simp

lemma schedule_commands_ok:
  assumes "cmd_ok s"
  shows "\<exists>evs fin s'. schedule_commands n s = Some (Ret (evs, fin, s')) \<and> cmd_ok s' \<and>
    dram_replay evs (bank_states s) = Some (bank_states s')"
  using assms
proof (induction n arbitrary: s)
  case (Suc n)
  show ?case
  proof (cases "rq_list (cmd_queue s)")
    case Nil
    with Suc.prems show ?thesis by (auto simp: is_queue_empty_def isQueueEmpty_iff)
  next
    case (Cons c cs)
    with Suc.prems have cb: "unat (cmd_bank c) < NUM_BANKS" by (simp add: cmd_ok_def)
    from Suc.prems Cons obtain s1 where s1: "dequeue_command s = Some (Ret (c, s1))" "cmd_ok s1"
      "bank_states s1 = bank_states s" by (rule dequeue_command_ok)
    from s1(2) cb obtain ev s2 where s2: "execute_command c s1 = Some (ev, s2)" "cmd_ok s2"
      "dram_replay ev (bank_states s1) = Some (bank_states s2)" by (rule execute_command_ok)
    from Suc.IH [OF s2(2)] obtain evs fin s3 where
      "schedule_commands n s2 = Some (Ret (evs, fin, s3))" "cmd_ok s3"
      "dram_replay evs (bank_states s2) = Some (bank_states s3)" by blast
    with s1 s2 Cons show ?thesis
      by (simp add: is_queue_empty_def isQueueEmpty_iff dram_replay_append)
  qed
qed simp

text \<open>A read or write for another row than the open one is put back for ever.\<close>

definition row_conflict :: "Command \<Rightarrow> cmd_state \<Rightarrow> bool" where
  "row_conflict c s \<longleftrightarrow> cmd_type c \<in> {CMD_READ, CMD_WRITE} \<and> unat (cmd_bank c) < NUM_BANKS \<and>
     is_open (bank_states s ! unat (cmd_bank c)) \<and>
     open_row (bank_states s ! unat (cmd_bank c)) \<noteq> cmd_row c"

lemma row_conflict_loops:
  assumes "cmd_ok s" and "row_conflict c s"
    and "rq_list (cmd_queue s) = [c] \<or> rq_list (cmd_queue s) =
      [\<lparr>cmd_type = CMD_ACTIVATE, cmd_bank = cmd_bank c, cmd_row = cmd_row c, cmd_column = 0\<rparr>, c]"
  shows "\<exists>s'. schedule_commands n s = Some (Ret ([], False, s'))"
  using assms
proof (induction n arbitrary: s)
  case 0
  then show ?case by (auto simp: is_queue_empty_def isQueueEmpty_iff)
next
  case (Suc n)
  let ?a = "\<lparr>cmd_type = CMD_ACTIVATE, cmd_bank = cmd_bank c, cmd_row = cmd_row c, cmd_column = 0\<rparr>"
  have b: "unat (cmd_bank c) < length (bank_states s)"
    using Suc.prems by (simp add: cmd_ok_def row_conflict_def)
  from Suc.prems(3) consider "rq_list (cmd_queue s) = [c]" | "rq_list (cmd_queue s) = [?a, c]"
    by blast
  then show ?case
  proof cases
    case 1
    with Suc.prems(1) obtain s1 where s1: "dequeue_command s = Some (Ret (c, s1))" "cmd_ok s1"
      "bank_states s1 = bank_states s" "rq_list (cmd_queue s1) = []" by (rule dequeue_command_ok)
    have "unat (cmd_bank c) < NUM_BANKS" using Suc.prems(2) by (simp add: row_conflict_def)
    with s1(2) obtain s2 where s2: "requeue_activated c s1 = Some s2" "cmd_ok s2"
      "bank_states s2 = bank_states s1" "length (rq_list (cmd_queue s1)) + 1 < QUEUE_SIZE \<longrightarrow>
        rq_list (cmd_queue s2) = rq_list (cmd_queue s1) @ [?a, c]" by (rule requeue_activated_ok)
    have "execute_command c s1 = Some ([], s2)"
      using Suc.prems(2) b s1(3) s2(1) by (auto simp: execute_command_def row_conflict_def)
    moreover have "rq_list (cmd_queue s2) = [?a, c]"
      using s2(4) s1(4) by (simp add: QUEUE_SIZE_def del: rq_list_length)
    moreover have "row_conflict c s2" using Suc.prems(2) s1(3) s2(3) by (simp add: row_conflict_def)
    ultimately show ?thesis
      using 1 s1(1) s2(2) Suc.IH [of s2] by (auto simp: is_queue_empty_def isQueueEmpty_iff)
  next
    case 2
    with Suc.prems(1) obtain s1 where s1: "dequeue_command s = Some (Ret (?a, s1))" "cmd_ok s1"
      "bank_states s1 = bank_states s" "rq_list (cmd_queue s1) = [c]" by (rule dequeue_command_ok)
    have "execute_command ?a s1 = Some ([], s1)"
      using Suc.prems(2) b s1(3) by (simp add: execute_command_def row_conflict_def)
    moreover have "row_conflict c s1" using Suc.prems(2) s1(3) by (simp add: row_conflict_def)
    ultimately show ?thesis
      using 2 s1 Suc.IH [of s1] by (auto simp: is_queue_empty_def isQueueEmpty_iff)
  qed
qed

subsection \<open>Properties\<close>

text \<open>C22. From every well-formed state and after any number of rounds, the scheduler has
  stayed inside its arrays, and the commands it has issued are a legal DRAM sequence for the
  banks: only closed banks are activated, and only the open row of an open bank is read or
  written.\<close>

theorem schedule_commands_protocol:
  assumes "cmd_ok s"
  shows "\<exists>evs fin s'. schedule_commands n s = Some (Ret (evs, fin, s')) \<and> cmd_ok s' \<and>
    dram_replay evs (bank_states s) = Some (bank_states s')"
  using assms by (rule schedule_commands_ok)

definition cmd_example :: cmd_state where
  "cmd_example = \<lparr>cmd_queue = \<lparr>rq_requests = replicate 16
       \<lparr>cmd_type = CMD_READ, cmd_bank = 0, cmd_row = 7, cmd_column = 1\<rparr>,
       rq_front = 0, rq_rear = 0, rq_size = 1\<rparr>,
     bank_states = replicate 4 \<lparr>is_open = True, open_row = 5\<rparr>\<rparr>"

lemma cmd_example_ok: "cmd_ok cmd_example"
  by (simp add: cmd_ok_def cmd_example_def rq_ok_def rq_list_def ring_list_def QUEUE_SIZE_def
      NUM_BANKS_def)

text \<open>The row of the read is open, and the read is issued.\<close>

theorem schedule_commands_protocol_witness:
  "\<exists>s'. schedule_commands 5 (cmd_example\<lparr>bank_states := replicate 4 \<lparr>is_open = True, open_row = 7\<rparr>\<rparr>) =
      Some (Ret ([ReadCol 0 7 1], True, s')) \<and> cmd_ok s' \<and>
    dram_replay [ReadCol 0 7 1] (replicate 4 \<lparr>is_open = True, open_row = 7\<rparr>) = Some (bank_states s')"
proof -
  let ?s = "cmd_example\<lparr>bank_states := replicate 4 \<lparr>is_open = True, open_row = 7\<rparr>\<rparr>"
  have ok: "cmd_ok ?s"
    by (simp add: cmd_ok_def cmd_example_def rq_ok_def rq_list_def ring_list_def QUEUE_SIZE_def NUM_BANKS_def)
  have "map_option (\<lambda>r. case r of Ret (evs, fin, s') \<Rightarrow> (evs, fin) | Exit c \<Rightarrow> ([], False)) (schedule_commands 5 ?s) =
      Some ([ReadCol 0 7 1], True)" by code_simp
  with schedule_commands_protocol [OF ok, of 5] show ?thesis by auto
qed

text \<open>The loop does not end on a row conflict: a read or write for a row other than the
  open row of its bank is put back behind an activate that the open bank ignores, so after any
  number of rounds nothing has been issued and the queue is not empty.\<close>

theorem schedule_commands_row_conflict:
  assumes "cmd_ok s" and "rq_list (cmd_queue s) = [c]" and "row_conflict c s"
  shows "\<forall>n. \<exists>s'. schedule_commands n s = Some (Ret ([], False, s'))"
  using assms row_conflict_loops by blast

theorem schedule_commands_row_conflict_witness:
  "\<forall>n. \<exists>s'. schedule_commands n cmd_example = Some (Ret ([], False, s'))"
  by (rule schedule_commands_row_conflict
      [where c = "\<lparr>cmd_type = CMD_READ, cmd_bank = 0, cmd_row = 7, cmd_column = 1\<rparr>"])
    (rule cmd_example_ok, simp_all add: cmd_example_def rq_list_def ring_list_def row_conflict_def
      NUM_BANKS_def)

text \<open>The program's own commands are all issued: the write to the closed bank is delayed
  behind the activate of its row, and the loop ends with an empty queue.\<close>

theorem command_main_trace:
  "map_option (\<lambda>r. case r of Ret (evs, fin, s) \<Rightarrow> (evs, fin) | Exit c \<Rightarrow> ([], False))
      (command_main 10 cmd_example) =
    Some ([Activate 0 1000, ReadCol 0 1000 50, ReadCol 0 1000 60, Precharge 0, Activate 1 2000,
      WriteCol 1 2000 100], True)"
  by code_simp

end
