(* ===== verification/Read_Write_Grouping.thy ===== *)
theory Read_Write_Grouping
  imports Ring_Fifo
begin

text \<open>
  The read/write grouping memory controller (\<^verbatim>\<open>accessPatterns/readWriteGrouping.c\<close>).

  Two circular queues hold reads and writes; \<open>process_memory_requests\<close> serves one of them at a
  time and switches over through the mode \<open>MODE_TRANSITION\<close>. Addresses go through a small
  direct-mapped TLB.

  The time-stamp counter is a parameter \<open>clock\<close>, its successive readings, and the controller
  counts the readings made. An operation is \<open>None\<close> when it would leave an array or spin on a lock
  that is already taken. The loop that waits for a bank may run for ever and is a partial function.
\<close>

unbundle bit_operations_syntax

definition RW_MAX_QUEUE_SIZE :: nat where
  "RW_MAX_QUEUE_SIZE = 1024"

definition RW_NUM_BANKS :: nat where
  "RW_NUM_BANKS = 16"

definition CACHE_LINE_SIZE :: nat where
  "CACHE_LINE_SIZE = 64"

definition RW_TLB_SIZE :: nat where
  "RW_TLB_SIZE = 64"

datatype BusMode = READ_MODE | WRITE_MODE | MODE_TRANSITION

record rw_request =
  rw_address :: u64
  rw_data :: u64
  rw_priority :: u32
  rw_timestamp :: u64

record rw_queue =
  rwq_requests :: "rw_request list"
  rwq_head :: nat
  rwq_tail :: nat
  rwq_size :: nat
  rwq_total_age :: u64
  rwq_lock :: bool

record rw_tlb_entry =
  rt_logical_addr :: u64
  rt_physical_addr :: u64
  rt_last_access :: u64

record rw_controller =
  mc_read_queue :: rw_queue
  mc_write_queue :: rw_queue
  mc_current_mode :: BusMode
  mc_read_count :: nat
  mc_write_count :: nat
  mc_bank_timers :: "u64 list"
  mc_tlb :: "rw_tlb_entry list"
  mc_data_buffer :: "u8 list"
  mc_readings :: nat

subsection \<open>The queues\<close>

definition rw_init_queue :: "rw_request list \<Rightarrow> rw_queue" where
  "rw_init_queue storage = \<lparr>rwq_requests = storage, rwq_head = 0, rwq_tail = 0, rwq_size = 0,
     rwq_total_age = 0, rwq_lock = False\<rparr>"

definition rw_enqueue :: "rw_queue \<Rightarrow> rw_request \<Rightarrow> (bool \<times> rw_queue) option" where
  "rw_enqueue q req =
     (if rwq_lock q then None
      else if rwq_size q = RW_MAX_QUEUE_SIZE then Some (False, q)
      else do {
        rs \<leftarrow> c_store (rwq_requests q) (rwq_tail q) req;
        Some (True, q\<lparr>rwq_requests := rs, rwq_tail := (rwq_tail q + 1) mod RW_MAX_QUEUE_SIZE,
          rwq_size := rwq_size q + 1,
          rwq_total_age := rwq_total_age q + ucast (rw_priority req), rwq_lock := False\<rparr>)
      })"

definition rw_dequeue :: "rw_queue \<Rightarrow> (rw_request option \<times> rw_queue) option" where
  "rw_dequeue q =
     (if rwq_lock q then None
      else if rwq_size q = 0 then Some (None, q)
      else do {
        req \<leftarrow> c_load (rwq_requests q) (rwq_head q);
        Some (Some req, q\<lparr>rwq_head := (rwq_head q + 1) mod RW_MAX_QUEUE_SIZE,
          rwq_size := rwq_size q - 1,
          rwq_total_age := rwq_total_age q - ucast (rw_priority req), rwq_lock := False\<rparr>)
      })"

subsection \<open>Address translation and data transfer\<close>

text \<open>\<open>storage1\<close>, \<open>storage2\<close> and \<open>buffer\<close> are the blocks \<open>aligned_alloc\<close> returns; the mode, the
  counters, the bank timers and the TLB are set here.\<close>

definition init_memory_controller :: "rw_request list \<Rightarrow> rw_request list \<Rightarrow> u8 list \<Rightarrow> rw_controller"
where
  "init_memory_controller storage1 storage2 buffer =
     \<lparr>mc_read_queue = rw_init_queue storage1, mc_write_queue = rw_init_queue storage2,
      mc_current_mode = READ_MODE, mc_read_count = 0, mc_write_count = 0,
      mc_bank_timers = replicate RW_NUM_BANKS 0,
      mc_tlb = replicate RW_TLB_SIZE
        \<lparr>rt_logical_addr = 0, rt_physical_addr = 0, rt_last_access = 0\<rparr>,
      mc_data_buffer = buffer, mc_readings = 0\<rparr>"

definition translate_address ::
  "(nat \<Rightarrow> u64) \<Rightarrow> rw_controller \<Rightarrow> u64 \<Rightarrow> (u64 \<times> rw_controller) option" where
  "translate_address clock mc logical_addr = do {
     let tlb_index = unat logical_addr mod RW_TLB_SIZE;
     let now = clock (mc_readings mc);
     e \<leftarrow> c_load (mc_tlb mc) tlb_index;
     (if rt_logical_addr e = logical_addr then do {
        tlb \<leftarrow> c_store (mc_tlb mc) tlb_index (e\<lparr>rt_last_access := now\<rparr>);
        Some (rt_physical_addr e, mc\<lparr>mc_tlb := tlb, mc_readings := mc_readings mc + 1\<rparr>)
      } else do {
        let physical_addr = logical_addr XOR drop_bit 12 logical_addr;
        tlb \<leftarrow> c_store (mc_tlb mc) tlb_index
          \<lparr>rt_logical_addr = logical_addr, rt_physical_addr = physical_addr,
           rt_last_access = now\<rparr>;
        Some (physical_addr, mc\<lparr>mc_tlb := tlb, mc_readings := mc_readings mc + 1\<rparr>)
      })
   }"

text \<open>The busy-wait on a bank: the result is the number of readings made so far.\<close>

partial_function (option) wait_bank :: "(nat \<Rightarrow> u64) \<Rightarrow> u64 \<Rightarrow> nat \<Rightarrow> nat option" where
  "wait_bank clock timer k =
     (if clock k < timer then wait_bank clock timer (k + 1) else Some (k + 1))"

text \<open>\<open>memcpy\<close> of a \<open>uint64_t\<close> to and from the data buffer, least significant byte first.\<close>

definition load_u64 :: "u8 list \<Rightarrow> nat \<Rightarrow> u64 option" where
  "load_u64 buf off =
     (if off + 8 \<le> length buf
      then Some (fold (\<lambda>i acc. acc OR push_bit (8 * i) (ucast (buf ! (off + i)))) [0..<8] 0)
      else None)"

definition store_u64 :: "u8 list \<Rightarrow> nat \<Rightarrow> u64 \<Rightarrow> u8 list option" where
  "store_u64 buf off v =
     (if off + 8 \<le> length buf
      then Some (fold (\<lambda>i b. b[off + i := ucast (drop_bit (8 * i) v)]) [0..<8] buf)
      else None)"

definition handle_data_transfer ::
  "(nat \<Rightarrow> u64) \<Rightarrow> rw_controller \<Rightarrow> rw_request \<Rightarrow> (rw_request \<times> rw_controller) option" where
  "handle_data_transfer clock mc req = do {
     (physical_addr, mc1) \<leftarrow> translate_address clock mc (rw_address req);
     let bank = unat physical_addr mod RW_NUM_BANKS;
     timer \<leftarrow> c_load (mc_bank_timers mc1) bank;
     k \<leftarrow> wait_bank clock timer (mc_readings mc1);
     let off = unat physical_addr mod (CACHE_LINE_SIZE * 1024);
     (req', buf) \<leftarrow>
       (if rw_address req AND 1 \<noteq> 0
        then do { d \<leftarrow> load_u64 (mc_data_buffer mc1) off;
                  Some (req\<lparr>rw_data := d\<rparr>, mc_data_buffer mc1) }
        else do { b \<leftarrow> store_u64 (mc_data_buffer mc1) off (rw_data req); Some (req, b) });
     timers \<leftarrow> c_store (mc_bank_timers mc1) bank (clock k + 100);
     Some (req', mc1\<lparr>mc_data_buffer := buf, mc_bank_timers := timers, mc_readings := k + 1\<rparr>)
   }"

subsection \<open>The processing loop\<close>

definition process_cycle :: "(nat \<Rightarrow> u64) \<Rightarrow> rw_controller \<Rightarrow> rw_controller option" where
  "process_cycle clock mc = do {
     (should_switch, mc') \<leftarrow>
       (case mc_current_mode mc of
          READ_MODE \<Rightarrow> do {
            (r, q) \<leftarrow> rw_dequeue (mc_read_queue mc);
            let mc1 = mc\<lparr>mc_read_queue := q\<rparr>;
            (case r of
               None \<Rightarrow> Some (rwq_size (mc_write_queue mc1) > 0, mc1)
             | Some req \<Rightarrow> do {
                 (_, mc2) \<leftarrow> handle_data_transfer clock mc1 req;
                 let n = mc_read_count mc2 + 1;
                 Some (n \<ge> RW_MAX_QUEUE_SIZE div 2 \<and> rwq_size (mc_write_queue mc2) > 0,
                       mc2\<lparr>mc_read_count := n\<rparr>)
               })
          }
        | WRITE_MODE \<Rightarrow> do {
            (r, q) \<leftarrow> rw_dequeue (mc_write_queue mc);
            let mc1 = mc\<lparr>mc_write_queue := q\<rparr>;
            (case r of
               None \<Rightarrow> Some (rwq_size (mc_read_queue mc1) > 0, mc1)
             | Some req \<Rightarrow> do {
                 (_, mc2) \<leftarrow> handle_data_transfer clock mc1 req;
                 let n = mc_write_count mc2 + 1;
                 Some (n \<ge> RW_MAX_QUEUE_SIZE div 2 \<and> rwq_size (mc_read_queue mc2) > 0,
                       mc2\<lparr>mc_write_count := n\<rparr>)
               })
          }
        | MODE_TRANSITION \<Rightarrow>
            Some (False,
              mc\<lparr>mc_current_mode :=
                   (if mc_current_mode mc = READ_MODE then WRITE_MODE else READ_MODE),
                 mc_read_count := 0, mc_write_count := 0\<rparr>));
     Some (if should_switch then mc'\<lparr>mc_current_mode := MODE_TRANSITION\<rparr> else mc')
   }"

fun process_memory_requests :: "nat \<Rightarrow> (nat \<Rightarrow> u64) \<Rightarrow> rw_controller \<Rightarrow> rw_controller option" where
  "process_memory_requests 0 clock mc = Some mc"
| "process_memory_requests (Suc n) clock mc =
     do { mc' \<leftarrow> process_cycle clock mc; process_memory_requests n clock mc' }"

fun rw_fill :: "rw_request list \<Rightarrow> rw_controller \<Rightarrow> rw_controller option" where
  "rw_fill [] mc = Some mc"
| "rw_fill (req # reqs) mc =
     (if rw_address req AND 1 \<noteq> 0
      then do { (_, q) \<leftarrow> rw_enqueue (mc_read_queue mc) req; rw_fill reqs (mc\<lparr>mc_read_queue := q\<rparr>) }
      else do { (_, q) \<leftarrow> rw_enqueue (mc_write_queue mc) req; rw_fill reqs (mc\<lparr>mc_write_queue := q\<rparr>) })"

subsection \<open>The queues keep their contract and their age\<close>

definition rwq_list :: "rw_queue \<Rightarrow> rw_request list" where
  "rwq_list q = ring_list (rwq_requests q) (rwq_head q) (rwq_size q)"

definition age_of :: "rw_request list \<Rightarrow> u64" where
  "age_of rs = sum_list (map (\<lambda>r. ucast (rw_priority r)) rs)"

definition rwq_ok :: "rw_queue \<Rightarrow> bool" where
  "rwq_ok q \<longleftrightarrow> length (rwq_requests q) = RW_MAX_QUEUE_SIZE \<and> rwq_head q < RW_MAX_QUEUE_SIZE \<and>
     rwq_size q \<le> RW_MAX_QUEUE_SIZE \<and>
     rwq_tail q = (rwq_head q + rwq_size q) mod RW_MAX_QUEUE_SIZE \<and> \<not> rwq_lock q \<and>
     rwq_total_age q = age_of (rwq_list q)"

lemma rw_init_queue_ok: "length rs = RW_MAX_QUEUE_SIZE \<Longrightarrow> rwq_ok (rw_init_queue rs)"
  "rwq_list (rw_init_queue rs) = []"
  by (simp_all add: rwq_ok_def rw_init_queue_def rwq_list_def age_of_def RW_MAX_QUEUE_SIZE_def)

lemma rw_enqueue_room:
  assumes "rwq_ok q" and "rwq_size q < RW_MAX_QUEUE_SIZE"
  shows "\<exists>t. rw_enqueue q x = Some (True, t) \<and> rwq_ok t \<and> rwq_list t = rwq_list q @ [x]"
proof -
  let ?m = RW_MAX_QUEUE_SIZE
  let ?p = "(rwq_head q + rwq_size q) mod ?m"
  have "?p < ?m" by (simp add: RW_MAX_QUEUE_SIZE_def)
  let ?t = "q\<lparr>rwq_requests := (rwq_requests q)[?p := x], rwq_tail := (?p + 1) mod ?m,
    rwq_size := rwq_size q + 1, rwq_total_age := rwq_total_age q + ucast (rw_priority x),
    rwq_lock := False\<rparr>"
  have "rw_enqueue q x = Some (True, ?t)"
    using assms \<open>?p < ?m\<close> by (simp add: rw_enqueue_def rwq_ok_def)
  moreover have l: "rwq_list ?t = rwq_list q @ [x]"
    using assms ring_list_snoc [of "rwq_size q" "rwq_requests q" "rwq_head q" x]
    by (simp add: rwq_list_def rwq_ok_def)
  moreover have "rwq_ok ?t"
    using assms l unfolding rwq_ok_def by (simp add: age_of_def mod_Suc_eq)
  ultimately show ?thesis by blast
qed

lemma rw_dequeue_front:
  assumes "rwq_ok q" and "rwq_list q = y # ys"
  shows "\<exists>t. rw_dequeue q = Some (Some y, t) \<and> rwq_ok t \<and> rwq_list t = ys"
proof -
  let ?m = RW_MAX_QUEUE_SIZE
  have pos: "0 < rwq_size q"
    using assms(2) length_ring_list [of "rwq_requests q" "rwq_head q" "rwq_size q"]
    by (simp add: rwq_list_def)
  have y: "y = rwq_requests q ! rwq_head q"
    and ys: "ys = ring_list (rwq_requests q) ((rwq_head q + 1) mod ?m) (rwq_size q - 1)"
    using assms pos ring_list_Cons [of "rwq_size q" "rwq_head q" "rwq_requests q"]
    by (auto simp: rwq_list_def rwq_ok_def)
  let ?t = "q\<lparr>rwq_head := (rwq_head q + 1) mod ?m, rwq_size := rwq_size q - 1,
    rwq_total_age := rwq_total_age q - ucast (rw_priority y), rwq_lock := False\<rparr>"
  have "rw_dequeue q = Some (Some y, ?t)"
    using assms(1) pos y by (simp add: rw_dequeue_def rwq_ok_def)
  moreover have l: "rwq_list ?t = ys" by (simp add: rwq_list_def ys)
  moreover have "rwq_ok ?t"
    using assms mod_succ_offset [OF pos, of "rwq_head q" ?m] l
    unfolding rwq_ok_def by (auto simp: age_of_def)
  ultimately show ?thesis by blast
qed

definition rwq_enq :: "rw_request \<Rightarrow> rw_queue \<Rightarrow> rw_queue option" where
  "rwq_enq x q = (case rw_enqueue q x of Some (True, t) \<Rightarrow> Some t | _ \<Rightarrow> None)"

definition rwq_deq :: "rw_queue \<Rightarrow> (rw_request \<times> rw_queue) option" where
  "rwq_deq q = (case rw_dequeue q of Some (Some r, t) \<Rightarrow> Some (r, t) | _ \<Rightarrow> None)"

lemma rwq_list_length: "length (rwq_list q) = rwq_size q"
  by (simp add: rwq_list_def)

interpretation rwq: bounded_fifo rwq_list rwq_ok "\<lambda>_. RW_MAX_QUEUE_SIZE" rwq_enq rwq_deq
proof unfold_locales
  fix s :: rw_queue and x y ys
  assume ok: "rwq_ok s"
  then show "length (rwq_list s) \<le> RW_MAX_QUEUE_SIZE" by (simp add: rwq_ok_def rwq_list_length)
  show "length (rwq_list s) = RW_MAX_QUEUE_SIZE \<Longrightarrow> rwq_enq x s = None"
    using ok by (simp add: rwq_enq_def rw_enqueue_def rwq_list_length rwq_ok_def)
  show "length (rwq_list s) < RW_MAX_QUEUE_SIZE \<Longrightarrow> \<exists>t. rwq_enq x s = Some t \<and> rwq_ok t \<and>
      RW_MAX_QUEUE_SIZE = RW_MAX_QUEUE_SIZE \<and> rwq_list t = rwq_list s @ [x]"
    using rw_enqueue_room [OF ok, of x] by (auto simp: rwq_enq_def rwq_list_length)
  show "rwq_list s = [] \<Longrightarrow> rwq_deq s = None"
    using ok rwq_list_length [of s] by (simp add: rwq_deq_def rw_dequeue_def rwq_ok_def)
  show "rwq_list s = y # ys \<Longrightarrow> \<exists>t. rwq_deq s = Some (y, t) \<and> rwq_ok t \<and>
      RW_MAX_QUEUE_SIZE = RW_MAX_QUEUE_SIZE \<and> rwq_list t = ys"
    using rw_dequeue_front [OF ok, of y ys] by (auto simp: rwq_deq_def)
qed

subsection \<open>The TLB holds only right translations\<close>

definition rw_phys :: "u64 \<Rightarrow> u64" where
  "rw_phys a = a XOR drop_bit 12 a"

definition rw_tlb_ok :: "rw_tlb_entry list \<Rightarrow> bool" where
  "rw_tlb_ok tlb \<longleftrightarrow> length tlb = RW_TLB_SIZE \<and>
     (\<forall>e\<in>set tlb. rt_physical_addr e = rw_phys (rt_logical_addr e))"

lemma translate_address_ok:
  assumes "rw_tlb_ok (mc_tlb mc)"
  obtains tlb where "rw_tlb_ok tlb" "translate_address clock mc a =
    Some (rw_phys a, mc\<lparr>mc_tlb := tlb, mc_readings := mc_readings mc + 1\<rparr>)"
proof -
  let ?i = "unat a mod RW_TLB_SIZE"
  have i: "?i < length (mc_tlb mc)" using assms by (simp add: rw_tlb_ok_def RW_TLB_SIZE_def)
  have upd: "rw_tlb_ok ((mc_tlb mc)[?i := e])" if "rt_physical_addr e = rw_phys (rt_logical_addr e)"
    for e using assms that set_update_subset_insert [of "mc_tlb mc" ?i e]
    by (auto simp: rw_tlb_ok_def)
  have e: "rt_physical_addr (mc_tlb mc ! ?i) = rw_phys (rt_logical_addr (mc_tlb mc ! ?i))"
    using assms nth_mem [OF i] by (simp add: rw_tlb_ok_def)
  show thesis
  proof (cases "rt_logical_addr (mc_tlb mc ! ?i) = a")
    case True
    with that [OF upd [of "(mc_tlb mc ! ?i)\<lparr>rt_last_access := clock (mc_readings mc)\<rparr>"]] e i
    show thesis by (simp add: translate_address_def Let_def)
  next
    case False
    with that [OF upd [of "\<lparr>rt_logical_addr = a, rt_physical_addr = rw_phys a,
        rt_last_access = clock (mc_readings mc)\<rparr>"]] i
    show thesis by (simp add: translate_address_def Let_def rw_phys_def)
  qed
qed

lemma wait_bank_returns:
  assumes "\<not> clock (k + d) < timer"
  shows "\<exists>m. wait_bank clock timer k = Some m"
  using assms
proof (induction d arbitrary: k)
  case 0
  then show ?case by (simp add: wait_bank.simps)
next
  case (Suc d)
  from Suc.IH [of "k + 1"] Suc.prems obtain m where "wait_bank clock timer (k + 1) = Some m" by auto
  then show ?case by (cases "clock k < timer") (simp_all add: wait_bank.simps [of clock timer k])
qed

definition transfer_ok :: "rw_controller \<Rightarrow> bool" where
  "transfer_ok mc \<longleftrightarrow> rw_tlb_ok (mc_tlb mc) \<and> length (mc_bank_timers mc) = RW_NUM_BANKS \<and>
     length (mc_data_buffer mc) = CACHE_LINE_SIZE * 1024"

lemma store_u64_length: "store_u64 buf off v = Some b \<Longrightarrow> length b = length buf"
proof -
  have "length (fold (\<lambda>i b. b[off + i := f i]) xs b) = length b" for f and b :: "u8 list" and xs
    by (induction xs arbitrary: b) auto
  then show "store_u64 buf off v = Some b \<Longrightarrow> length b = length buf"
    by (auto simp: store_u64_def split: if_splits)
qed

lemma handle_data_transfer_ok:
  assumes "transfer_ok mc" and "\<And>t k. \<exists>d. \<not> clock (k + d) < t"
    and "unat (rw_phys (rw_address req)) mod (CACHE_LINE_SIZE * 1024) + 8 \<le> CACHE_LINE_SIZE * 1024"
  obtains req' mc' where "handle_data_transfer clock mc req = Some (req', mc')" "transfer_ok mc'"
proof -
  from assms(1) have "rw_tlb_ok (mc_tlb mc)" by (simp add: transfer_ok_def)
  then obtain tlb where t: "rw_tlb_ok tlb" "translate_address clock mc (rw_address req) =
    Some (rw_phys (rw_address req), mc\<lparr>mc_tlb := tlb, mc_readings := mc_readings mc + 1\<rparr>)"
    by (rule translate_address_ok)
  let ?b = "unat (rw_phys (rw_address req)) mod RW_NUM_BANKS"
  let ?off = "unat (rw_phys (rw_address req)) mod (CACHE_LINE_SIZE * 1024)"
  have b: "?b < length (mc_bank_timers mc)"
    using assms(1) by (simp add: transfer_ok_def RW_NUM_BANKS_def)
  from assms(2) wait_bank_returns obtain k where
    k: "wait_bank clock (mc_bank_timers mc ! ?b) (mc_readings mc + 1) = Some k" by metis
  have off: "?off + 8 \<le> length (mc_data_buffer mc)" using assms(1,3) by (simp add: transfer_ok_def)
  obtain d where d: "load_u64 (mc_data_buffer mc) ?off = Some d" using off by (simp add: load_u64_def)
  obtain buf where buf: "store_u64 (mc_data_buffer mc) ?off (rw_data req) = Some buf"
    using off by (simp add: store_u64_def)
  have "length buf = length (mc_data_buffer mc)" using buf by (rule store_u64_length)
  then show thesis
    using that t k b d buf assms(1)
    by (cases "rw_address req AND 1 \<noteq> 0")
      (simp_all add: handle_data_transfer_def Let_def transfer_ok_def)
qed

lemma handle_data_transfer_fault:
  assumes "transfer_ok mc"
    and "CACHE_LINE_SIZE * 1024 < unat (rw_phys (rw_address req)) mod (CACHE_LINE_SIZE * 1024) + 8"
  shows "handle_data_transfer clock mc req = None"
proof -
  from assms(1) have "rw_tlb_ok (mc_tlb mc)" by (simp add: transfer_ok_def)
  then obtain tlb where t: "rw_tlb_ok tlb" "translate_address clock mc (rw_address req) =
    Some (rw_phys (rw_address req), mc\<lparr>mc_tlb := tlb, mc_readings := mc_readings mc + 1\<rparr>)"
    by (rule translate_address_ok)
  with assms show ?thesis
    by (simp add: handle_data_transfer_def Let_def load_u64_def store_u64_def transfer_ok_def
        split: option.splits)
qed

subsection \<open>The mode machine\<close>

lemma translate_address_frame:
  assumes "translate_address clock mc a = Some (p, mc')"
  shows "mc_write_queue mc' = mc_write_queue mc \<and> mc_current_mode mc' = mc_current_mode mc"
  using assms
  by (auto simp: translate_address_def Let_def bind_eq_Some_conv split: if_splits)

lemma handle_data_transfer_frame:
  assumes "handle_data_transfer clock mc req = Some (req', mc')"
  shows "mc_write_queue mc' = mc_write_queue mc \<and> mc_current_mode mc' = mc_current_mode mc"
  using assms
  by (auto simp: handle_data_transfer_def Let_def bind_eq_Some_conv dest!: translate_address_frame)

lemma process_cycle_no_write:
  assumes "process_cycle clock mc = Some mc'" and "mc_current_mode mc \<noteq> WRITE_MODE"
  shows "mc_write_queue mc' = mc_write_queue mc \<and> mc_current_mode mc' \<noteq> WRITE_MODE"
proof (cases "mc_current_mode mc")
  case READ_MODE
  with assms(1) show ?thesis
    by (auto simp: process_cycle_def Let_def bind_eq_Some_conv
        dest!: handle_data_transfer_frame split: option.splits if_splits)
next
  case MODE_TRANSITION
  with assms(1) show ?thesis by (auto simp: process_cycle_def)
qed (use assms(2) in simp)

subsection \<open>Properties\<close>

text \<open>A queue set up by \<open>init_queue\<close> behaves as a bounded list under every sequence of
  enqueues and dequeues, and its \<open>total_age\<close> is at every moment the sum, modulo \<open>2^64\<close>, of the
  priorities of the requests it holds.\<close>

theorem rw_queue_refines_list:
  assumes "length storage = RW_MAX_QUEUE_SIZE"
    and "run_fifo rwq_enq rwq_deq ops (rw_init_queue storage) = (rs, q)"
  shows "run_fifo (list_enq RW_MAX_QUEUE_SIZE) list_deq ops [] = (rs, rwq_list q) \<and>
    rwq_total_age q = age_of (rwq_list q) \<and> \<not> rwq_lock q"
  using rwq.run_refines [OF rw_init_queue_ok(1) [OF assms(1)] assms(2)]
  by (simp add: rw_init_queue_ok(2) rwq_ok_def)

definition rw_req :: "u64 \<Rightarrow> u32 \<Rightarrow> rw_request" where
  "rw_req a p = \<lparr>rw_address = a, rw_data = 0, rw_priority = p, rw_timestamp = 0\<rparr>"

definition rw_storage :: "rw_request list" where
  "rw_storage = replicate RW_MAX_QUEUE_SIZE (rw_req 0 0)"

theorem rw_queue_refines_list_witness:
  "let r = run_fifo rwq_enq rwq_deq [Enq (rw_req 1 4), Enq (rw_req 2 5), Deq]
      (rw_init_queue rw_storage)
   in run_fifo (list_enq RW_MAX_QUEUE_SIZE) list_deq [Enq (rw_req 1 4), Enq (rw_req 2 5), Deq] []
     = (fst r, rwq_list (snd r)) \<and> rwq_total_age (snd r) = age_of (rwq_list (snd r))"
proof -
  let ?ops = "[Enq (rw_req 1 4), Enq (rw_req 2 5), Deq]"
  let ?r = "run_fifo rwq_enq rwq_deq ?ops (rw_init_queue rw_storage)"
  have "length rw_storage = RW_MAX_QUEUE_SIZE" by (simp add: rw_storage_def)
  with rw_queue_refines_list [of rw_storage ?ops "fst ?r" "snd ?r"] show ?thesis
    by (simp add: Let_def del: run_fifo.simps)
qed

text \<open>On a well-formed controller and a clock that reaches every value again,
  \<open>handle_data_transfer\<close> returns exactly when the eight bytes at the translated address, reduced
  modulo the buffer size, lie inside the data buffer; the translation is always
  \<open>address XOR (address >> 12)\<close>, from the TLB or not. At the last seven offsets the copy leaves
  the buffer.\<close>

theorem data_transfer_bounds:
  assumes "transfer_ok mc" and "\<And>t k. \<exists>d. \<not> clock (k + d) < t"
  shows "(\<exists>req' mc'. handle_data_transfer clock mc req = Some (req', mc') \<and> transfer_ok mc') \<longleftrightarrow>
    unat (rw_phys (rw_address req)) mod (CACHE_LINE_SIZE * 1024) + 8 \<le> CACHE_LINE_SIZE * 1024"
proof
  assume "\<exists>req' mc'. handle_data_transfer clock mc req = Some (req', mc') \<and> transfer_ok mc'"
  with handle_data_transfer_fault [OF assms(1), of req clock]
  show "unat (rw_phys (rw_address req)) mod (CACHE_LINE_SIZE * 1024) + 8 \<le> CACHE_LINE_SIZE * 1024"
    by (metis not_le option.distinct(1))
next
  assume "unat (rw_phys (rw_address req)) mod (CACHE_LINE_SIZE * 1024) + 8 \<le> CACHE_LINE_SIZE * 1024"
  with assms obtain req' mc' where
    "handle_data_transfer clock mc req = Some (req', mc')" "transfer_ok mc'"
    by (rule handle_data_transfer_ok)
  then show "\<exists>req' mc'. handle_data_transfer clock mc req = Some (req', mc') \<and> transfer_ok mc'"
    by blast
qed

definition rw_example :: rw_controller where
  "rw_example = init_memory_controller rw_storage rw_storage (replicate 65536 0)"

lemma rw_example_ok: "transfer_ok rw_example"
  by (simp add: rw_example_def init_memory_controller_def transfer_ok_def rw_tlb_ok_def rw_phys_def
      CACHE_LINE_SIZE_def)

theorem data_transfer_bounds_witness:
  "(\<exists>req' mc'. handle_data_transfer (\<lambda>k. - 1) rw_example (rw_req 4 0) =
      Some (req', mc') \<and> transfer_ok mc') \<and>
   \<not> (\<exists>req' mc'. handle_data_transfer (\<lambda>k. - 1) rw_example (rw_req 65520 0) =
      Some (req', mc') \<and> transfer_ok mc')"
proof -
  have "\<exists>d. \<not> (\<lambda>k :: nat. - 1 :: u64) (k + d) < t" for t :: u64 and k
    using word_order.extremum [of t] by (simp add: not_less)
  note b = data_transfer_bounds [OF rw_example_ok this]
  have "unat (rw_phys (rw_address (rw_req 4 0))) = 4"
    "unat (rw_phys (rw_address (rw_req 65520 0))) = 65535"
    by (simp_all add: rw_phys_def rw_req_def drop_bit_eq_div)
  then show ?thesis unfolding b by (simp add: CACHE_LINE_SIZE_def)
qed

text \<open>The mode switch never reaches \<open>WRITE_MODE\<close>: in \<open>MODE_TRANSITION\<close> the test on the
  current mode is always false and the controller returns to \<open>READ_MODE\<close>. Starting in
  \<open>READ_MODE\<close>, no write request is ever served, after any number of cycles.\<close>

theorem writes_never_served:
  assumes "mc_current_mode mc = READ_MODE"
    and "process_memory_requests n clock mc = Some mc'"
  shows "mc_write_queue mc' = mc_write_queue mc"
proof -
  have "mc_write_queue mc' = mc_write_queue mc"
    if "mc_current_mode mc \<noteq> WRITE_MODE" "process_memory_requests n clock mc = Some mc'" for mc
    using that
  proof (induction n arbitrary: mc)
    case (Suc n)
    then obtain mc1 where c: "process_cycle clock mc = Some mc1"
      "process_memory_requests n clock mc1 = Some mc'" by (auto simp: bind_eq_Some_conv)
    with process_cycle_no_write [OF c(1) Suc.prems(1)] Suc.IH [of mc1] show ?case by simp
  qed simp
  with assms show ?thesis by simp
qed

theorem writes_never_served_witness:
  "mc_write_queue (the (process_memory_requests 3 (\<lambda>k. 0)
     (rw_example\<lparr>mc_write_queue := the (rwq_enq (rw_req 2 7) (mc_write_queue rw_example))\<rparr>))) =
   the (rwq_enq (rw_req 2 7) (mc_write_queue rw_example))"
proof -
  let ?mc = "rw_example\<lparr>mc_write_queue := the (rwq_enq (rw_req 2 7) (mc_write_queue rw_example))\<rparr>"
  have mode: "mc_current_mode ?mc = READ_MODE"
    by (simp add: rw_example_def init_memory_controller_def)
  have q: "mc_read_queue ?mc = rw_init_queue rw_storage"
    by (simp add: rw_example_def init_memory_controller_def)
  have d: "rw_dequeue (rw_init_queue rw_storage) = Some (None, rw_init_queue rw_storage)"
    by (simp add: rw_dequeue_def rw_init_queue_def)
  have "\<exists>mc'. process_memory_requests 3 (\<lambda>k. 0) ?mc = Some mc'"
    using mode q d by (simp add: numeral_3_eq_3 process_cycle_def Let_def)
  then obtain mc' where "process_memory_requests 3 (\<lambda>k. 0) ?mc = Some mc'" by blast
  with writes_never_served [OF mode this] show ?thesis by simp
qed

end
