(* ===== verification/Free_List_Allocator.thy ===== *)
theory Free_List_Allocator
  imports Prelude
begin

text \<open>
  The first-fit, best-fit and worst-fit allocator
  (\<^verbatim>\<open>memory/memory_management/mem_alloc.c\<close>).

  Block headers live inside the pool. The model keeps them in a map from their address in the
  pool to the header; \<open>next\<close> is the address of the next header. \<open>sizeof(Block)\<close> is 24 (a
  \<open>size_t\<close>, an \<open>int\<close> with padding and a pointer on a 64-bit machine). The requested size is a
  64-bit \<open>size_t\<close>, whose rounding can wrap around; the sizes of blocks never exceed the pool.
  Reading a header that is not there, or following a cyclic list, has the value \<open>None\<close>.

  The abstract state of the allocator is the list of its blocks (size and free flag) in address
  order; \<open>tiling\<close> says that the headers form such a list and that the blocks and their headers
  cover the pool without gap or overlap. Allocation and release are shown to refine the list
  operations \<open>alloc_at\<close> and \<open>release_at\<close>.
\<close>

unbundle bit_operations_syntax

definition MEMORY_SIZE :: nat where
  "MEMORY_SIZE = 1024"

definition MIN_ALLOCATION :: nat where
  "MIN_ALLOCATION = 16"

definition sizeof_Block :: nat where
  "sizeof_Block = 24"

record Block =
  mb_size :: nat
  mb_is_free :: bool
  mb_next :: "nat option"

datatype AllocationStrategy = FIRST_FIT | BEST_FIT | WORST_FIT

type_synonym ma_heap = "nat \<Rightarrow> Block option"

record ma_state =
  ma_heap :: ma_heap
  ma_head :: "nat option"

subsection \<open>The operations\<close>

definition init_memory :: "ma_state \<Rightarrow> ma_state" where
  "init_memory st = \<lparr>ma_heap = (ma_heap st)(0 := Some
     \<lparr>mb_size = MEMORY_SIZE - sizeof_Block, mb_is_free = True, mb_next = None\<rparr>),
     ma_head = Some 0\<rparr>"

definition split_block :: "ma_heap \<Rightarrow> nat \<Rightarrow> nat \<Rightarrow> (nat \<times> ma_heap) option" where
  "split_block h block sz = do {
     b \<leftarrow> h block;
     let h' =
       (if mb_size b > sz + sizeof_Block + MIN_ALLOCATION then
          let new_block = block + sizeof_Block + sz
          in h(new_block := Some \<lparr>mb_size = mb_size b - sz - sizeof_Block, mb_is_free = True,
                 mb_next = mb_next b\<rparr>,
               block := Some \<lparr>mb_size = sz, mb_is_free = False, mb_next = Some new_block\<rparr>)
        else h(block := Some (b\<lparr>mb_is_free := False\<rparr>)));
     Some (block + sizeof_Block, h')
   }"

text \<open>The three search loops.\<close>

partial_function (option) first_fit_loop ::
  "ma_heap \<Rightarrow> nat \<Rightarrow> nat option \<Rightarrow> nat option option" where
  "first_fit_loop h sz cur =
     (case cur of
        None \<Rightarrow> Some None
      | Some a \<Rightarrow> do {
          b \<leftarrow> h a;
          if mb_is_free b \<and> mb_size b \<ge> sz then Some (Some a)
          else first_fit_loop h sz (mb_next b)
        })"

partial_function (option) best_fit_loop ::
  "ma_heap \<Rightarrow> nat \<Rightarrow> nat option \<Rightarrow> nat \<Rightarrow> nat option \<Rightarrow> nat option option" where
  "best_fit_loop h sz cur min_size best_block =
     (case cur of
        None \<Rightarrow> Some best_block
      | Some a \<Rightarrow> do {
          b \<leftarrow> h a;
          if mb_is_free b \<and> mb_size b \<ge> sz \<and> mb_size b < min_size
          then best_fit_loop h sz (mb_next b) (mb_size b) (Some a)
          else best_fit_loop h sz (mb_next b) min_size best_block
        })"

partial_function (option) worst_fit_loop ::
  "ma_heap \<Rightarrow> nat \<Rightarrow> nat option \<Rightarrow> nat \<Rightarrow> nat option \<Rightarrow> nat option option" where
  "worst_fit_loop h sz cur max_size best_block =
     (case cur of
        None \<Rightarrow> Some best_block
      | Some a \<Rightarrow> do {
          b \<leftarrow> h a;
          if mb_is_free b \<and> mb_size b \<ge> sz \<and> mb_size b > max_size
          then worst_fit_loop h sz (mb_next b) (mb_size b) (Some a)
          else worst_fit_loop h sz (mb_next b) max_size best_block
        })"

definition round_size :: "u64 \<Rightarrow> u64" where
  "round_size sz = (sz + of_nat MIN_ALLOCATION - 1) AND NOT (of_nat MIN_ALLOCATION - 1)"

definition allocate_memory ::
  "ma_state \<Rightarrow> u64 \<Rightarrow> AllocationStrategy \<Rightarrow> (nat option \<times> ma_state) option" where
  "allocate_memory st sz strategy = do {
     let n = unat (round_size sz);
     found \<leftarrow>
       (case strategy of
          FIRST_FIT \<Rightarrow> first_fit_loop (ma_heap st) n (ma_head st)
        | BEST_FIT \<Rightarrow> best_fit_loop (ma_heap st) n (ma_head st) (MEMORY_SIZE + 1) None
        | WORST_FIT \<Rightarrow> worst_fit_loop (ma_heap st) n (ma_head st) 0 None);
     (case found of
        None \<Rightarrow> Some (None, st)
      | Some block \<Rightarrow> do {
          (p, h) \<leftarrow> split_block (ma_heap st) block n;
          Some (Some p, st\<lparr>ma_heap := h\<rparr>)
        })
   }"

partial_function (option) find_prev :: "ma_heap \<Rightarrow> nat \<Rightarrow> nat option \<Rightarrow> nat option option" where
  "find_prev h block prev =
     (case prev of
        None \<Rightarrow> Some None
      | Some a \<Rightarrow> do {
          b \<leftarrow> h a;
          if mb_next b \<noteq> Some block then find_prev h block (mb_next b) else Some (Some a)
        })"

definition absorb_next :: "ma_heap \<Rightarrow> Block \<Rightarrow> Block option" where
  "absorb_next h b =
     (case mb_next b of
        None \<Rightarrow> Some b
      | Some n \<Rightarrow> do {
          nb \<leftarrow> h n;
          Some (if mb_is_free nb
            then b\<lparr>mb_size := mb_size b + sizeof_Block + mb_size nb, mb_next := mb_next nb\<rparr>
            else b)
        })"

definition absorb_into_prev :: "ma_heap \<Rightarrow> Block \<Rightarrow> nat option \<Rightarrow> ma_heap option" where
  "absorb_into_prev h b prev =
     (case prev of
        None \<Rightarrow> Some h
      | Some a \<Rightarrow> do {
          pb \<leftarrow> h a;
          Some (if mb_is_free pb
            then h(a := Some (pb\<lparr>mb_size := mb_size pb + sizeof_Block + mb_size b,
                   mb_next := mb_next b\<rparr>))
            else h)
        })"

definition free_memory :: "ma_state \<Rightarrow> nat option \<Rightarrow> ma_state option" where
  "free_memory st ptr =
     (case ptr of
        None \<Rightarrow> Some st
      | Some p \<Rightarrow> do {
          let block = p - sizeof_Block;
          b \<leftarrow> ma_heap st block;
          b2 \<leftarrow> absorb_next (ma_heap st) (b\<lparr>mb_is_free := True\<rparr>);
          let h2 = (ma_heap st)(block := Some b2);
          prev \<leftarrow> find_prev h2 block (ma_head st);
          h3 \<leftarrow> absorb_into_prev h2 b2 prev;
          Some (st\<lparr>ma_heap := h3\<rparr>)
        })"

partial_function (option) print_memory_loop ::
  "ma_heap \<Rightarrow> nat option \<Rightarrow> nat \<Rightarrow> nat \<Rightarrow> nat \<Rightarrow> ((nat \<times> nat \<times> bool) list \<times> nat \<times> nat) option" where
  "print_memory_loop h cur block_count total_free total_used =
     (case cur of
        None \<Rightarrow> Some ([], total_free, total_used)
      | Some a \<Rightarrow> do {
          b \<leftarrow> h a;
          (ls, tf, tu) \<leftarrow> print_memory_loop h (mb_next b) (block_count + 1)
            (if mb_is_free b then total_free + mb_size b else total_free)
            (if mb_is_free b then total_used else total_used + mb_size b);
          Some ((block_count, mb_size b, mb_is_free b) # ls, tf, tu)
        })"

lemmas allocator_loops [code] = first_fit_loop.simps best_fit_loop.simps worst_fit_loop.simps find_prev.simps
  print_memory_loop.simps

definition print_memory_state :: "ma_state \<Rightarrow> ((nat \<times> nat \<times> bool) list \<times> nat \<times> nat) option" where
  "print_memory_state st = print_memory_loop (ma_heap st) (ma_head st) 0 0 0"

definition mem_alloc_main :: "ma_state \<Rightarrow> (((nat \<times> nat \<times> bool) list \<times> nat \<times> nat) list) option" where
  "mem_alloc_main st0 = do {
     let s0 = init_memory st0;
     o0 \<leftarrow> print_memory_state s0;
     (p1, s1) \<leftarrow> allocate_memory s0 100 FIRST_FIT;
     o1 \<leftarrow> print_memory_state s1;
     (p2, s2) \<leftarrow> allocate_memory s1 200 FIRST_FIT;
     o2 \<leftarrow> print_memory_state s2;
     s3 \<leftarrow> free_memory s2 p1;
     o3 \<leftarrow> print_memory_state s3;
     (p3, s4) \<leftarrow> allocate_memory s3 150 FIRST_FIT;
     o4 \<leftarrow> print_memory_state s4;
     (p4, s5) \<leftarrow> allocate_memory s4 50 BEST_FIT;
     o5 \<leftarrow> print_memory_state s5;
     (p5, s6) \<leftarrow> allocate_memory s5 75 BEST_FIT;
     o6 \<leftarrow> print_memory_state s6;
     s7 \<leftarrow> free_memory s6 p4;
     o7 \<leftarrow> print_memory_state s7;
     (p6, s8) \<leftarrow> allocate_memory s7 25 BEST_FIT;
     o8 \<leftarrow> print_memory_state s8;
     s9 \<leftarrow> free_memory s8 p2;
     s10 \<leftarrow> free_memory s9 p3;
     s11 \<leftarrow> free_memory s10 p5;
     s12 \<leftarrow> free_memory s11 p6;
     o9 \<leftarrow> print_memory_state s12;
     Some [o0, o1, o2, o3, o4, o5, o6, o7, o8, o9]
   }"

subsection \<open>Block lists and their layout\<close>

text \<open>\<open>seg h p a bs q\<close>: following \<open>next\<close> from \<open>p\<close> one meets the blocks \<open>bs\<close>, laid out one after the
  other from address \<open>a\<close>, and ends at \<open>q\<close>.\<close>

type_synonym blocks = "(nat \<times> bool) list"

fun seg :: "ma_heap \<Rightarrow> nat option \<Rightarrow> nat \<Rightarrow> blocks \<Rightarrow> nat option \<Rightarrow> bool" where
  "seg h p a [] q \<longleftrightarrow> p = q"
| "seg h p a ((s, f) # bs) q \<longleftrightarrow> p = Some a \<and>
     (\<exists>nx. h a = Some \<lparr>mb_size = s, mb_is_free = f, mb_next = nx\<rparr> \<and>
        seg h nx (a + sizeof_Block + s) bs q)"

definition span :: "blocks \<Rightarrow> nat" where
  "span bs = sum_list (map (\<lambda>b. sizeof_Block + fst b) bs)"

lemma span_simps [simp]:
  "span [] = 0" "span (b # bs) = sizeof_Block + fst b + span bs" "span (xs @ ys) = span xs + span ys"
  by (simp_all add: span_def)

definition tiling :: "ma_state \<Rightarrow> blocks \<Rightarrow> bool" where
  "tiling st bs \<longleftrightarrow> seg (ma_heap st) (ma_head st) 0 bs None \<and> span bs = MEMORY_SIZE"

definition coalesced :: "blocks \<Rightarrow> bool" where
  "coalesced bs \<longleftrightarrow> successively (\<lambda>b c. \<not> (snd b \<and> snd c)) bs"

lemma sizeof_pos [simp]: "0 < sizeof_Block" "sizeof_Block \<noteq> 0"
  by (simp_all add: sizeof_Block_def)

lemma seg_append:
  "seg h p a (xs @ ys) q \<longleftrightarrow> (\<exists>r. seg h p a xs r \<and> seg h r (a + span xs) ys q)"
proof (induction xs arbitrary: p a)
  case (Cons b xs)
  obtain s f where "b = (s, f)" by (cases b)
  moreover have "a + sizeof_Block + s + span xs = a + span ((s, f) # xs)" by simp
  ultimately show ?case by (simp only: append_Cons seg.simps Cons.IH) blast
qed simp

lemma seg_frame:
  "seg h p a bs q \<Longrightarrow> (\<And>x. a \<le> x \<Longrightarrow> x < a + span bs \<Longrightarrow> h' x = h x) \<Longrightarrow> seg h' p a bs q"
proof (induction bs arbitrary: p a)
  case (Cons b bs)
  obtain s f where b: "b = (s, f)" by (cases b)
  with Cons.prems(1) obtain nx where nx: "p = Some a"
    "h a = Some \<lparr>mb_size = s, mb_is_free = f, mb_next = nx\<rparr>"
    "seg h nx (a + sizeof_Block + s) bs q" by auto
  moreover have "h' a = h a" using Cons.prems(2) by simp
  moreover have "seg h' nx (a + sizeof_Block + s) bs q"
    using nx(3) by (rule Cons.IH) (use Cons.prems(2) b in simp)
  ultimately show ?case using b by simp
qed simp

lemma seg_middle:
  assumes "seg h p 0 (xs @ (s, f) # ys) q"
  obtains nx where "seg h p 0 xs (Some (span xs))"
    "h (span xs) = Some \<lparr>mb_size = s, mb_is_free = f, mb_next = nx\<rparr>"
    "seg h nx (span xs + sizeof_Block + s) ys q"
  using assms by (auto simp: seg_append)

lemma blocks_split: "i < length bs \<Longrightarrow> bs = take i bs @ bs ! i # drop (Suc i) bs"
  by (rule id_take_nth_drop)

subsection \<open>The searches find what they are named after\<close>

definition fits :: "blocks \<Rightarrow> nat \<Rightarrow> nat \<Rightarrow> bool" where
  "fits bs sz i \<longleftrightarrow> snd (bs ! i) \<and> sz \<le> fst (bs ! i)"

definition smaller :: "blocks \<Rightarrow> nat \<Rightarrow> nat \<Rightarrow> bool" where
  "smaller bs i k \<longleftrightarrow> fst (bs ! i) < fst (bs ! k)"

definition larger :: "blocks \<Rightarrow> nat \<Rightarrow> nat \<Rightarrow> bool" where
  "larger bs i k \<longleftrightarrow> fst (bs ! k) < fst (bs ! i)"

interpretation best_fit: key_scan "fits bs sz" "smaller bs" "\<lambda>i. fst (bs ! i)" for bs sz
  by unfold_locales (simp add: smaller_def)

interpretation worst_fit: key_scan "\<lambda>i. fits bs sz i \<and> 0 < fst (bs ! i)" "larger bs"
  "\<lambda>i. - int (fst (bs ! i))" for bs sz
  by unfold_locales (simp add: larger_def)

lemma seg_drop:
  assumes "seg h p (span (take k bs)) (drop k bs) q" and "k < length bs"
  obtains nx where "p = Some (span (take k bs))"
    "h (span (take k bs)) = Some \<lparr>mb_size = fst (bs ! k), mb_is_free = snd (bs ! k), mb_next = nx\<rparr>"
    "seg h nx (span (take (Suc k) bs)) (drop (Suc k) bs) q"
proof -
  obtain s f where b: "bs ! k = (s, f)" by (cases "bs ! k")
  then have d: "drop k bs = (s, f) # drop (Suc k) bs"
    using assms(2) by (simp add: Cons_nth_drop_Suc [symmetric])
  have "span (take (Suc k) bs) = span (take k bs) + sizeof_Block + s"
    using assms(2) b by (simp add: take_Suc_conv_app_nth)
  with assms(1) that b show thesis unfolding d by auto
qed

lemma first_fit_loop_ok:
  assumes "seg h p (span (take k bs)) (drop k bs) None" and "k \<le> length bs"
  shows "first_fit_loop h sz p =
    Some (map_option (\<lambda>i. span (take i bs)) (first_index k (length bs) (fits bs sz)))"
  using assms
proof (induction "length bs - k" arbitrary: k p)
  case 0
  then show ?case by (simp add: first_fit_loop.simps first_index_unfold)
next
  case (Suc d)
  then have k: "k < length bs" by simp
  from Suc.prems(1) k obtain nx where nx: "p = Some (span (take k bs))"
    "h (span (take k bs)) = Some \<lparr>mb_size = fst (bs ! k), mb_is_free = snd (bs ! k), mb_next = nx\<rparr>"
    "seg h nx (span (take (Suc k) bs)) (drop (Suc k) bs) None" by (rule seg_drop)
  have "d = length bs - Suc k" using Suc.hyps(2) by simp
  from Suc.hyps(1) [OF this nx(3)] k nx(1,2) show ?case
    by (subst first_fit_loop.simps, subst first_index_unfold) (simp add: fits_def)
qed

lemma best_fit_loop_ok:
  assumes "seg h p (span (take k bs)) (drop k bs) None" and "k \<le> length bs"
    and "\<forall>i<length bs. fst (bs ! i) < m0"
  shows "best_fit_loop h sz p (case c of None \<Rightarrow> m0 | Some i \<Rightarrow> fst (bs ! i))
      (map_option (\<lambda>i. span (take i bs)) c) =
    Some (map_option (\<lambda>i. span (take i bs)) (scan_best (fits bs sz) (smaller bs) [k..<length bs] c))"
  using assms(1,2)
proof (induction "length bs - k" arbitrary: k p c)
  case 0
  then show ?case by (simp add: best_fit_loop.simps)
next
  case (Suc d)
  then have k: "k < length bs" by simp
  from Suc.prems(1) k obtain nx where nx: "p = Some (span (take k bs))"
    "h (span (take k bs)) = Some \<lparr>mb_size = fst (bs ! k), mb_is_free = snd (bs ! k), mb_next = nx\<rparr>"
    "seg h nx (span (take (Suc k) bs)) (drop (Suc k) bs) None" by (rule seg_drop)
  define c' where "c' = (if fits bs sz k \<and> (case c of None \<Rightarrow> True | Some i \<Rightarrow> smaller bs k i)
    then Some k else c)"
  have "d = length bs - Suc k" using Suc.hyps(2) by simp
  from Suc.hyps(1) [OF this nx(3), of c'] k
  have IH: "best_fit_loop h sz nx (case c' of None \<Rightarrow> m0 | Some i \<Rightarrow> fst (bs ! i))
      (map_option (\<lambda>i. span (take i bs)) c') =
    Some (map_option (\<lambda>i. span (take i bs)) (scan_best (fits bs sz) (smaller bs) [Suc k..<length bs] c'))"
    by simp
  have "best_fit_loop h sz p (case c of None \<Rightarrow> m0 | Some i \<Rightarrow> fst (bs ! i))
      (map_option (\<lambda>i. span (take i bs)) c) =
    best_fit_loop h sz nx (case c' of None \<Rightarrow> m0 | Some i \<Rightarrow> fst (bs ! i))
      (map_option (\<lambda>i. span (take i bs)) c')"
    using nx(1,2) assms(3) k
    by (subst best_fit_loop.simps) (cases c; auto simp: c'_def fits_def smaller_def)
  with IH k show ?case by (simp add: upt_conv_Cons c'_def)
qed

lemma worst_fit_loop_ok:
  assumes "seg h p (span (take k bs)) (drop k bs) None" and "k \<le> length bs"
  shows "worst_fit_loop h sz p (case c of None \<Rightarrow> 0 | Some i \<Rightarrow> fst (bs ! i))
      (map_option (\<lambda>i. span (take i bs)) c) =
    Some (map_option (\<lambda>i. span (take i bs))
      (scan_best (\<lambda>i. fits bs sz i \<and> 0 < fst (bs ! i)) (larger bs) [k..<length bs] c))"
  using assms
proof (induction "length bs - k" arbitrary: k p c)
  case 0
  then show ?case by (simp add: worst_fit_loop.simps)
next
  case (Suc d)
  let ?e = "\<lambda>i. fits bs sz i \<and> 0 < fst (bs ! i)"
  from Suc have k: "k < length bs" by simp
  from Suc.prems(1) k obtain nx where nx: "p = Some (span (take k bs))"
    "h (span (take k bs)) = Some \<lparr>mb_size = fst (bs ! k), mb_is_free = snd (bs ! k), mb_next = nx\<rparr>"
    "seg h nx (span (take (Suc k) bs)) (drop (Suc k) bs) None" by (rule seg_drop)
  define c' where "c' = (if ?e k \<and> (case c of None \<Rightarrow> True | Some i \<Rightarrow> larger bs k i)
    then Some k else c)"
  have "d = length bs - Suc k" using Suc.hyps(2) by simp
  from Suc.hyps(1) [OF this nx(3), of c'] k
  have IH: "worst_fit_loop h sz nx (case c' of None \<Rightarrow> 0 | Some i \<Rightarrow> fst (bs ! i))
      (map_option (\<lambda>i. span (take i bs)) c') =
    Some (map_option (\<lambda>i. span (take i bs)) (scan_best ?e (larger bs) [Suc k..<length bs] c'))"
    by simp
  have "worst_fit_loop h sz p (case c of None \<Rightarrow> 0 | Some i \<Rightarrow> fst (bs ! i))
      (map_option (\<lambda>i. span (take i bs)) c) =
    worst_fit_loop h sz nx (case c' of None \<Rightarrow> 0 | Some i \<Rightarrow> fst (bs ! i))
      (map_option (\<lambda>i. span (take i bs)) c')"
    using nx(1,2) k
    by (subst worst_fit_loop.simps) (cases c; auto simp: c'_def fits_def larger_def)
  with IH k show ?case by (simp add: upt_conv_Cons c'_def)
qed

text \<open>The index each strategy chooses.\<close>

definition chosen :: "AllocationStrategy \<Rightarrow> blocks \<Rightarrow> nat \<Rightarrow> nat option" where
  "chosen strategy bs sz =
     (case strategy of
        FIRST_FIT \<Rightarrow> first_index 0 (length bs) (fits bs sz)
      | BEST_FIT \<Rightarrow> scan_best (fits bs sz) (smaller bs) [0..<length bs] None
      | WORST_FIT \<Rightarrow>
          scan_best (\<lambda>i. fits bs sz i \<and> 0 < fst (bs ! i)) (larger bs) [0..<length bs] None)"

lemma chosen_fits: "chosen strategy bs sz = Some i \<Longrightarrow> i < length bs \<and> fits bs sz i"
  using first_index_SomeD [of 0 "length bs" "fits bs sz" i]
    best_fit.scan_Some [of bs sz "length bs" i] worst_fit.scan_Some [of bs sz "length bs" i]
  by (cases strategy) (simp_all add: chosen_def)

lemma span_nth_le: "i < length bs \<Longrightarrow> fst (bs ! i) + sizeof_Block \<le> span bs"
  by (subst blocks_split [of i bs], assumption) simp

definition alloc_at :: "blocks \<Rightarrow> nat \<Rightarrow> nat \<Rightarrow> blocks" where
  "alloc_at bs i sz = take i bs @
     (if fst (bs ! i) > sz + sizeof_Block + MIN_ALLOCATION
      then [(sz, False), (fst (bs ! i) - sz - sizeof_Block, True)]
      else [(fst (bs ! i), False)]) @ drop (Suc i) bs"

lemma split_block_ok:
  assumes "seg h p 0 bs None" and "i < length bs"
  obtains h' where "split_block h (span (take i bs)) sz = Some (span (take i bs) + sizeof_Block, h')"
    "seg h' p 0 (alloc_at bs i sz) None"
proof -
  obtain s f where b: "bs ! i = (s, f)" by (cases "bs ! i")
  let ?xs = "take i bs" and ?ys = "drop (Suc i) bs"
  let ?a = "span ?xs"
  have "seg h p 0 (?xs @ (s, f) # ?ys) None" using assms blocks_split [OF assms(2)] b by simp
  then obtain nx where nx: "seg h p 0 ?xs (Some ?a)"
    "h ?a = Some \<lparr>mb_size = s, mb_is_free = f, mb_next = nx\<rparr>"
    "seg h nx (?a + sizeof_Block + s) ?ys None" by (rule seg_middle)
  define h' where "h' = snd (the (split_block h ?a sz))"
  have run: "split_block h ?a sz = Some (?a + sizeof_Block, h')"
    by (simp add: h'_def split_block_def nx(2))
  have "h' x = h x" if "x < ?a \<or> ?a + sizeof_Block + s \<le> x" for x
    using that by (auto simp: h'_def split_block_def nx(2) Let_def)
  then have fr: "seg h' p 0 ?xs (Some ?a)" "seg h' nx (?a + sizeof_Block + s) ?ys None"
    by (auto intro: seg_frame [OF nx(1)] seg_frame [OF nx(3)])
  show thesis
  proof (cases "s > sz + sizeof_Block + MIN_ALLOCATION")
    case True
    let ?n = "?a + sizeof_Block + sz"
    have "h' ?a = Some \<lparr>mb_size = sz, mb_is_free = False, mb_next = Some ?n\<rparr>"
      "h' ?n = Some \<lparr>mb_size = s - sz - sizeof_Block, mb_is_free = True, mb_next = nx\<rparr>"
      using True by (simp_all add: h'_def split_block_def nx(2) Let_def)
    moreover have "?n + sizeof_Block + (s - sz - sizeof_Block) = ?a + sizeof_Block + s"
      using True by simp
    ultimately have "seg h' p 0 (alloc_at bs i sz) None"
      using True fr b by (auto simp: alloc_at_def seg_append add.assoc)
    with that run show thesis by blast
  next
    case False
    then have "h' ?a = Some \<lparr>mb_size = s, mb_is_free = False, mb_next = nx\<rparr>"
      by (simp add: h'_def split_block_def nx(2))
    with False fr b have "seg h' p 0 (alloc_at bs i sz) None"
      by (auto simp: alloc_at_def seg_append)
    with that run show thesis by blast
  qed
qed

subsection \<open>Release\<close>

fun merge_next :: "nat \<Rightarrow> blocks \<Rightarrow> blocks" where
  "merge_next s ((s2, True) # ys) = (s + sizeof_Block + s2, True) # ys"
| "merge_next s ys = (s, True) # ys"

definition merge_prev :: "blocks \<Rightarrow> blocks \<Rightarrow> blocks" where
  "merge_prev xs zs =
     (if xs \<noteq> [] \<and> snd (last xs)
      then butlast xs @ (fst (last xs) + sizeof_Block + fst (hd zs), True) # tl zs
      else xs @ zs)"

definition release_at :: "blocks \<Rightarrow> nat \<Rightarrow> blocks" where
  "release_at bs i = merge_prev (take i bs) (merge_next (fst (bs ! i)) (drop (Suc i) bs))"

lemma find_prev_none:
  assumes "seg h p a bs None" and "A \<le> a"
  shows "find_prev h A p = Some None"
  using assms
proof (induction bs arbitrary: p a)
  case Nil
  then show ?case by (simp add: find_prev.simps)
next
  case (Cons b bs)
  obtain s f where b: "b = (s, f)" by (cases b)
  with Cons.prems(1) obtain nx where nx: "p = Some a"
    "h a = Some \<lparr>mb_size = s, mb_is_free = f, mb_next = nx\<rparr>"
    "seg h nx (a + sizeof_Block + s) bs None" by auto
  have "nx \<noteq> Some A" using nx(3) Cons.prems(2) by (cases bs) auto
  with Cons.IH [OF nx(3)] Cons.prems(2) nx(1,2) show ?case by (simp add: find_prev.simps)
qed

lemma find_prev_some:
  assumes "seg h p a (xs @ [(s, f)]) (Some (a + span (xs @ [(s, f)])))"
  shows "find_prev h (a + span (xs @ [(s, f)])) p = Some (Some (a + span xs))"
  using assms
proof (induction xs arbitrary: p a)
  case Nil
  then show ?case by (auto simp: find_prev.simps [of h _ "Some a"] add.assoc)
next
  case (Cons b xs)
  obtain s1 f1 where b: "b = (s1, f1)" by (cases b)
  let ?a = "a + sizeof_Block + s1"
  have A: "a + span ((b # xs) @ [(s, f)]) = ?a + span (xs @ [(s, f)])" by (simp add: b)
  from Cons.prems b obtain nx where nx: "p = Some a"
    "h a = Some \<lparr>mb_size = s1, mb_is_free = f1, mb_next = nx\<rparr>"
    "seg h nx ?a (xs @ [(s, f)]) (Some (?a + span (xs @ [(s, f)])))" unfolding A by auto
  have "nx = Some ?a" using nx(3) by (cases xs) auto
  then have "nx \<noteq> Some (?a + span (xs @ [(s, f)]))" by simp
  with Cons.IH [OF nx(3)] nx(1,2) b show ?case
    unfolding A by (subst find_prev.simps) (simp add: add.assoc)
qed

lemma free_memory_ok:
  assumes "tiling st bs" and "i < length bs"
  obtains st' where "free_memory st (Some (span (take i bs) + sizeof_Block)) = Some st'"
    "tiling st' (release_at bs i)"
proof -
  obtain s f where b: "bs ! i = (s, f)" by (cases "bs ! i")
  let ?h = "ma_heap st" and ?p = "ma_head st" and ?xs = "take i bs" and ?ys = "drop (Suc i) bs"
  let ?A = "span ?xs"
  have bs: "bs = ?xs @ (s, f) # ?ys" using blocks_split [OF assms(2)] b by simp
  have "seg ?h ?p 0 (?xs @ (s, f) # ?ys) None" using assms(1) bs by (simp add: tiling_def)
  then obtain nx where nx: "seg ?h ?p 0 ?xs (Some ?A)"
    "?h ?A = Some \<lparr>mb_size = s, mb_is_free = f, mb_next = nx\<rparr>"
    "seg ?h nx (?A + sizeof_Block + s) ?ys None" by (rule seg_middle)
  define zs where "zs = merge_next s ?ys"
  have "\<exists>s1 nx1 ys1. zs = (s1, True) # ys1 \<and> span zs = sizeof_Block + s + span ?ys \<and>
      absorb_next ?h \<lparr>mb_size = s, mb_is_free = True, mb_next = nx\<rparr> =
        Some \<lparr>mb_size = s1, mb_is_free = True, mb_next = nx1\<rparr> \<and>
      seg ?h nx1 (?A + sizeof_Block + s1) ys1 None"
  proof (cases "(s, ?ys)" rule: merge_next.cases)
    case (1 s' s2 ys')
    with nx(3) show ?thesis by (auto simp: zs_def absorb_next_def add.assoc)
  qed (use nx(3) in \<open>auto simp: zs_def absorb_next_def\<close>)
  then obtain s1 nx1 ys1 where z: "zs = (s1, True) # ys1" "span zs = sizeof_Block + s + span ?ys"
    "absorb_next ?h \<lparr>mb_size = s, mb_is_free = True, mb_next = nx\<rparr> =
        Some \<lparr>mb_size = s1, mb_is_free = True, mb_next = nx1\<rparr>"
    "seg ?h nx1 (?A + sizeof_Block + s1) ys1 None" by blast
  let ?b2 = "\<lparr>mb_size = s1, mb_is_free = True, mb_next = nx1\<rparr>"
  define h2 where "h2 = ?h(?A := Some ?b2)"
  have fr: "seg h2 ?p 0 ?xs (Some ?A)" "seg h2 nx1 (?A + sizeof_Block + s1) ys1 None"
    by (auto intro!: seg_frame [OF nx(1)] seg_frame [OF z(4)] simp: h2_def)
  have step: "free_memory st (Some (?A + sizeof_Block)) = do {
      prev \<leftarrow> find_prev h2 ?A ?p;
      h3 \<leftarrow> absorb_into_prev h2 ?b2 prev;
      Some (st\<lparr>ma_heap := h3\<rparr>)
    }"
    using nx(2) z(3) by (simp add: free_memory_def h2_def Let_def)
  show thesis
  proof (cases ?xs rule: rev_cases)
    case Nil
    with assms(2) have i: "i = 0" by auto
    then have p: "?p = Some 0" using fr(1) by simp
    have z0: "seg h2 ?p 0 zs None" using fr(2) p i by (simp add: z(1) h2_def)
    then have "find_prev h2 ?A ?p = Some None" by (rule find_prev_none) (simp add: i)
    moreover have "release_at bs i = zs" using b by (simp add: release_at_def merge_prev_def i zs_def)
    moreover have "span zs = MEMORY_SIZE"
      using assms(1) arg_cong [OF bs, of span] z(2) by (simp add: tiling_def i)
    ultimately show thesis
      using that step z0 by (auto simp: tiling_def absorb_into_prev_def)
  next
    case (snoc us u)
    obtain sp fp where u: "u = (sp, fp)" by (cases u)
    have fp: "find_prev h2 ?A ?p = Some (Some (span us))"
      using find_prev_some [of h2 ?p 0 us sp fp] fr(1) snoc u by simp
    obtain nxp where P: "seg h2 ?p 0 us (Some (span us))"
      "h2 (span us) = Some \<lparr>mb_size = sp, mb_is_free = fp, mb_next = nxp\<rparr>"
      "nxp = Some ?A"
      using fr(1) snoc u by (auto simp: seg_append)
    let ?h3 = "h2(span us := Some \<lparr>mb_size = sp + sizeof_Block + s1, mb_is_free = True,
      mb_next = nx1\<rparr>)"
    have total: "span us + (sizeof_Block + sp) + span zs = MEMORY_SIZE"
      using assms(1) arg_cong [OF bs, of span] snoc u z(2) by (simp add: tiling_def)
    show thesis
    proof (cases fp)
      case True
      have "seg ?h3 ?p 0 us (Some (span us))" by (rule seg_frame [OF P(1)]) simp
      moreover have "seg ?h3 nx1 (?A + sizeof_Block + s1) ys1 None"
        by (rule seg_frame [OF fr(2)]) (auto simp: snoc u)
      ultimately have "seg ?h3 ?p 0 (us @ (sp + sizeof_Block + s1, True) # ys1) None"
        by (simp add: seg_append snoc u add.assoc)
      moreover have "release_at bs i = us @ (sp + sizeof_Block + s1, True) # ys1"
        using True snoc u b z(1) by (simp add: release_at_def merge_prev_def flip: zs_def)
      ultimately show thesis
        using that step fp P(2) True total z(1)
        by (auto simp: tiling_def absorb_into_prev_def)
    next
      case False
      have "seg h2 ?p 0 (?xs @ zs) None" using fr by (auto simp: seg_append z(1) h2_def)
      moreover have "release_at bs i = ?xs @ zs"
        using False snoc u b by (simp add: release_at_def merge_prev_def flip: zs_def)
      ultimately show thesis
        using that step fp P(2) False total snoc u
        by (auto simp: tiling_def absorb_into_prev_def)
    qed
  qed
qed

subsection \<open>No two neighbouring blocks are free\<close>

lemmas coalesced_simps = coalesced_def successively_append_iff successively_Cons

lemma blocks_at:
  assumes "i < length bs"
  obtains xs s f ys where "bs = xs @ (s, f) # ys" "length xs = i" "bs ! i = (s, f)"
  using blocks_split [OF assms] assms by (metis length_take min.absorb4 surj_pair)

lemma alloc_at_coalesced:
  assumes "coalesced bs" and "i < length bs" and "fits bs sz i"
  shows "coalesced (alloc_at bs i sz)"
proof -
  obtain xs s f ys where bs: "bs = xs @ (s, f) # ys" "length xs = i" "bs ! i = (s, f)"
    using assms(2) by (rule blocks_at)
  then have f: "f" using assms(3) by (auto simp: fits_def)
  show ?thesis
    using assms(1) f bs(2,3) by (simp add: alloc_at_def) (auto simp: bs(1) coalesced_simps)
qed

lemma release_alloc:
  assumes "coalesced bs" and "i < length bs" and "fits bs sz i"
  shows "release_at (alloc_at bs i sz) i = bs"
proof -
  obtain xs s f ys where bs: "bs = xs @ (s, f) # ys" "length xs = i" "bs ! i = (s, f)"
    using assms(2) by (rule blocks_at)
  have f: "f" "sz \<le> s" using assms(3) bs by (auto simp: fits_def)
  have last: "\<not> (xs \<noteq> [] \<and> snd (last xs))"
    using assms(1) f unfolding bs(1) by (auto simp: coalesced_simps)
  have next_used: "merge_next s ys = (s, True) # ys"
    using assms(1) f unfolding bs(1) by (cases "(s, ys)" rule: merge_next.cases) (auto simp: coalesced_simps)
  have a: "alloc_at bs i sz = xs @ (if s > sz + sizeof_Block + MIN_ALLOCATION
      then [(sz, False), (s - sz - sizeof_Block, True)] else [(s, False)]) @ ys"
    using bs(2,3) by (simp add: alloc_at_def) (simp add: bs(1))
  show ?thesis
    unfolding a unfolding bs(2) [symmetric]
    using last next_used f bs(1) by (auto simp: release_at_def merge_prev_def)
qed

lemma merge_next_coalesced:
  assumes "coalesced ys"
  shows "coalesced (merge_next s ys) \<and> merge_next s ys \<noteq> [] \<and> snd (hd (merge_next s ys))"
  using assms by (cases "(s, ys)" rule: merge_next.cases) (auto simp: coalesced_simps)

lemma release_at_coalesced:
  assumes "coalesced bs" and "i < length bs"
  shows "coalesced (release_at bs i)"
proof -
  obtain xs s f ys where bs: "bs = xs @ (s, f) # ys" "length xs = i" "bs ! i = (s, f)"
    using assms(2) by (rule blocks_at)
  have r: "release_at bs i = merge_prev xs (merge_next s ys)"
    using bs(2,3) by (simp add: release_at_def) (simp add: bs(1))
  have c: "coalesced xs" "coalesced ys"
    using assms(1) unfolding bs(1) by (auto simp: coalesced_simps)
  obtain z zs where z: "merge_next s ys = z # zs" "snd z" "coalesced (z # zs)"
    using merge_next_coalesced [OF c(2), of s] by (cases "merge_next s ys") auto
  show ?thesis
  proof (cases xs rule: rev_cases)
    case Nil
    then show ?thesis using z by (simp add: r merge_prev_def)
  next
    case (snoc us u)
    show ?thesis using c(1) z unfolding r snoc z(1)
      by (auto simp: merge_prev_def coalesced_simps)
  qed
qed

subsection \<open>Rounding the requested size\<close>

lemma round_size_eq: "round_size sz = push_bit 4 (drop_bit 4 (sz + 15))"
proof -
  have "of_nat MIN_ALLOCATION - 1 = (mask 4 :: u64)"
    by (simp add: MIN_ALLOCATION_def mask_eq_exp_minus_1)
  moreover have "sz + of_nat MIN_ALLOCATION - 1 = sz + 15"
    by (simp add: MIN_ALLOCATION_def)
  moreover have "(x :: u64) AND NOT (mask 4) = push_bit 4 (drop_bit 4 x)" for x
    by (rule bit_word_eqI) (auto simp: bit_simps)
  ultimately show ?thesis by (simp only: round_size_def)
qed

lemma round_size_small:
  assumes "unat sz \<le> 2 ^ 64 - 16"
  shows "unat (round_size sz) = (unat sz + 15) div 16 * 16"
proof -
  have u: "unat (sz + 15) = unat sz + 15" using assms by (simp add: unat_add_lem [THEN iffD1])
  have lt: "(unat sz + 15) div 16 * 16 < 2 ^ 64"
    using assms by (intro le_less_trans [OF div_times_less_eq_dividend]) simp
  have d: "unat (drop_bit 4 (sz + 15)) = (unat sz + 15) div 16"
    by (simp add: drop_bit_eq_div unat_div u)
  have "unat (push_bit 4 (drop_bit 4 (sz + 15))) = (unat sz + 15) div 16 * 16 mod 2 ^ 64"
    by (simp only: push_bit_eq_mult unat_word_ariths d) simp
  with lt show ?thesis by (simp only: round_size_eq mod_less)
qed

lemma round_size_wraps:
  assumes "2 ^ 64 - 15 \<le> unat sz"
  shows "round_size sz = 0"
proof -
  have lt: "unat sz < 2 ^ 64" using unsigned_less [of sz] by simp
  have "unat (sz + 15) = (unat sz + 15) mod 2 ^ 64" by (simp add: unat_word_ariths)
  also have "\<dots> = unat sz + 15 - 2 ^ 64" using assms lt by (simp add: mod_if)
  finally have "unat (sz + 15) < 16" using lt by simp
  then have "unat (drop_bit 4 (sz + 15)) = 0" by (simp add: drop_bit_eq_div unat_div)
  then have "drop_bit 4 (sz + 15) = 0" by (simp only: unat_eq_zero)
  then show ?thesis by (simp only: round_size_eq push_bit_of_0)
qed

subsection \<open>Allocation refines the block list\<close>

lemma search_ok:
  assumes "tiling st bs"
  shows "(case strategy of
      FIRST_FIT \<Rightarrow> first_fit_loop (ma_heap st) n (ma_head st)
    | BEST_FIT \<Rightarrow> best_fit_loop (ma_heap st) n (ma_head st) (MEMORY_SIZE + 1) None
    | WORST_FIT \<Rightarrow> worst_fit_loop (ma_heap st) n (ma_head st) 0 None) =
    Some (map_option (\<lambda>i. span (take i bs)) (chosen strategy bs n))"
proof -
  have sg: "seg (ma_heap st) (ma_head st) (span (take 0 bs)) (drop 0 bs) None"
    using assms by (simp add: tiling_def)
  have "\<forall>i<length bs. fst (bs ! i) < MEMORY_SIZE + 1"
  proof (intro allI impI)
    fix i assume "i < length bs"
    from span_nth_le [OF this] assms show "fst (bs ! i) < MEMORY_SIZE + 1"
      by (simp add: tiling_def)
  qed
  from first_fit_loop_ok [OF sg] best_fit_loop_ok [OF sg _ this, of n None]
    worst_fit_loop_ok [OF sg, of n None]
  show ?thesis by (cases strategy) (simp_all add: chosen_def)
qed

lemma alloc_at_span:
  assumes "i < length bs" and "fits bs sz i"
  shows "span (alloc_at bs i sz) = span bs"
proof -
  obtain xs s f ys where bs: "bs = xs @ (s, f) # ys" "length xs = i" "bs ! i = (s, f)"
    using assms(1) by (rule blocks_at)
  have "alloc_at bs i sz = xs @ (if s > sz + sizeof_Block + MIN_ALLOCATION
      then [(sz, False), (s - sz - sizeof_Block, True)] else [(s, False)]) @ ys"
    using bs(2,3) by (simp add: alloc_at_def) (simp add: bs(1))
  then show ?thesis by (simp add: bs(1))
qed

lemma allocate_memory_ok:
  assumes "tiling st bs"
  shows "\<exists>r st'. allocate_memory st sz strategy = Some (r, st') \<and>
    (case chosen strategy bs (unat (round_size sz)) of
       None \<Rightarrow> r = None \<and> st' = st
     | Some i \<Rightarrow> r = Some (span (take i bs) + sizeof_Block) \<and>
         tiling st' (alloc_at bs i (unat (round_size sz))))"
proof (cases "chosen strategy bs (unat (round_size sz))")
  case None
  then show ?thesis using search_ok [OF assms] by (simp add: allocate_memory_def Let_def)
next
  case (Some i)
  let ?n = "unat (round_size sz)"
  have i: "i < length bs" "fits bs ?n i" using chosen_fits [OF Some] by simp_all
  have "seg (ma_heap st) (ma_head st) 0 bs None" using assms by (simp add: tiling_def)
  then obtain h where
    h: "split_block (ma_heap st) (span (take i bs)) ?n = Some (span (take i bs) + sizeof_Block, h)"
      "seg h (ma_head st) 0 (alloc_at bs i ?n) None" using i(1) by (rule split_block_ok)
  have "tiling (st\<lparr>ma_heap := h\<rparr>) (alloc_at bs i ?n)"
    using h(2) alloc_at_span [OF i] assms by (simp add: tiling_def)
  with h(1) Some show ?thesis
    using search_ok [OF assms, of ?n strategy] by (simp add: allocate_memory_def Let_def)
qed

subsection \<open>Properties\<close>

definition raw_pool :: ma_state where
  "raw_pool = \<lparr>ma_heap = (\<lambda>_. None), ma_head = None\<rparr>"

lemma init_memory_tiling: "tiling (init_memory st) [(MEMORY_SIZE - sizeof_Block, True)]"
  by (simp add: tiling_def init_memory_def MEMORY_SIZE_def sizeof_Block_def)

text \<open>C23. On a heap whose blocks tile the pool, \<open>allocate_memory\<close> fails exactly when its strategy
  finds no block, and then changes nothing; otherwise it returns the address behind the header of
  the chosen block, which is free and large enough, and the blocks still tile the pool: the chosen
  block is used, split when the rest can hold a header and a minimal block.\<close>

theorem allocate_memory_refines:
  assumes "tiling st bs" and "coalesced bs"
  shows "\<exists>r st'. allocate_memory st sz strategy = Some (r, st') \<and>
    (case chosen strategy bs (unat (round_size sz)) of
       None \<Rightarrow> r = None \<and> st' = st
     | Some i \<Rightarrow> i < length bs \<and> fits bs (unat (round_size sz)) i \<and>
         r = Some (span (take i bs) + sizeof_Block) \<and>
         tiling st' (alloc_at bs i (unat (round_size sz))) \<and>
         coalesced (alloc_at bs i (unat (round_size sz))))"
  using allocate_memory_ok [OF assms(1), of sz strategy] chosen_fits [of strategy bs]
    alloc_at_coalesced [OF assms(2)]
  by (auto split: option.splits)

theorem allocate_memory_refines_witness:
  "\<exists>r st'. allocate_memory (init_memory raw_pool) 100 BEST_FIT = Some (r, st') \<and>
    (case chosen BEST_FIT [(1000, True)] (unat (round_size 100)) of
       None \<Rightarrow> r = None \<and> st' = init_memory raw_pool
     | Some i \<Rightarrow> i < length [(1000 :: nat, True)] \<and> fits [(1000, True)] (unat (round_size 100)) i \<and>
         r = Some (span (take i [(1000, True)]) + sizeof_Block) \<and>
         tiling st' (alloc_at [(1000, True)] i (unat (round_size 100))) \<and>
         coalesced (alloc_at [(1000, True)] i (unat (round_size 100))))"
proof (rule allocate_memory_refines)
  show "tiling (init_memory raw_pool) [(1000, True)]"
    using init_memory_tiling [of raw_pool] by (simp add: MEMORY_SIZE_def sizeof_Block_def)
qed (simp add: coalesced_def)

text \<open>The strategies choose what they are named after: first fit the first fitting block,
  best fit the first of the smallest fitting blocks, worst fit the first of the largest; and first
  and best fit find a block whenever one fits.\<close>

theorem strategies_choose:
  "(case chosen FIRST_FIT bs n of
      None \<Rightarrow> \<nexists>i. i < length bs \<and> fits bs n i
    | Some i \<Rightarrow> i < length bs \<and> fits bs n i \<and> (\<nexists>j. j < i \<and> fits bs n j)) \<and>
   (case chosen BEST_FIT bs n of
      None \<Rightarrow> \<nexists>i. i < length bs \<and> fits bs n i
    | Some i \<Rightarrow> i < length bs \<and> fits bs n i \<and>
        (\<nexists>j. j < length bs \<and> fits bs n j \<and>
          (fst (bs ! j) < fst (bs ! i) \<or> fst (bs ! j) = fst (bs ! i) \<and> j < i))) \<and>
   (case chosen WORST_FIT bs n of
      None \<Rightarrow> \<nexists>i. i < length bs \<and> fits bs n i \<and> 0 < fst (bs ! i)
    | Some i \<Rightarrow> i < length bs \<and> fits bs n i \<and>
        (\<nexists>j. j < length bs \<and> fits bs n j \<and>
          (fst (bs ! i) < fst (bs ! j) \<or> fst (bs ! j) = fst (bs ! i) \<and> j < i)))"
proof (intro conjI)
  show "case chosen FIRST_FIT bs n of
      None \<Rightarrow> \<nexists>i. i < length bs \<and> fits bs n i
    | Some i \<Rightarrow> i < length bs \<and> fits bs n i \<and> (\<nexists>j. j < i \<and> fits bs n j)"
    using first_index_None_iff [of 0 "length bs" "fits bs n"]
      first_index_SomeD [of 0 "length bs" "fits bs n"]
    by (auto simp: chosen_def split: option.splits)
  show "case chosen BEST_FIT bs n of
      None \<Rightarrow> \<nexists>i. i < length bs \<and> fits bs n i
    | Some i \<Rightarrow> i < length bs \<and> fits bs n i \<and>
        (\<nexists>j. j < length bs \<and> fits bs n j \<and>
          (fst (bs ! j) < fst (bs ! i) \<or> fst (bs ! j) = fst (bs ! i) \<and> j < i))"
  proof (cases "chosen BEST_FIT bs n")
    case (Some i)
    note S = best_fit.scan_Some [OF Some [unfolded chosen_def, simplified]]
    from S(1,2) S(3) S(4) show ?thesis unfolding Some by (fastforce simp: not_less)
  next
    case None
    then have "\<forall>i<length bs. \<not> fits bs n i" by (simp add: chosen_def best_fit.scan_None)
    then show ?thesis unfolding None by simp
  qed
  show "case chosen WORST_FIT bs n of
      None \<Rightarrow> \<nexists>i. i < length bs \<and> fits bs n i \<and> 0 < fst (bs ! i)
    | Some i \<Rightarrow> i < length bs \<and> fits bs n i \<and>
        (\<nexists>j. j < length bs \<and> fits bs n j \<and>
          (fst (bs ! i) < fst (bs ! j) \<or> fst (bs ! j) = fst (bs ! i) \<and> j < i))"
  proof (cases "chosen WORST_FIT bs n")
    case (Some i)
    note S = worst_fit.scan_Some [OF Some [unfolded chosen_def, simplified]]
    from S(1,2) S(3) S(4) show ?thesis unfolding Some by (fastforce simp: not_less)
  next
    case None
    then have "\<forall>i<length bs. \<not> (fits bs n i \<and> 0 < fst (bs ! i))"
      by (simp add: chosen_def worst_fit.scan_None)
    then show ?thesis unfolding None by simp
  qed
qed

text \<open>C29. \<open>free_memory\<close> on the address of a block keeps the tiling and merges the block with
  its free neighbours, so that still no two neighbouring blocks are free; and freeing a block just
  allocated restores the block list exactly.\<close>

theorem free_memory_restores:
  assumes "tiling st bs" and "coalesced bs"
    and "i < length bs" and "j < length bs" and "fits bs n j" and "tiling st1 (alloc_at bs j n)"
  shows "(\<exists>st'. free_memory st (Some (span (take i bs) + sizeof_Block)) = Some st' \<and>
      tiling st' (release_at bs i) \<and> coalesced (release_at bs i)) \<and>
    (\<exists>st2. free_memory st1 (Some (span (take j bs) + sizeof_Block)) = Some st2 \<and> tiling st2 bs)"
proof
  obtain st' where "free_memory st (Some (span (take i bs) + sizeof_Block)) = Some st'"
    "tiling st' (release_at bs i)" using assms(1,3) by (rule free_memory_ok)
  with release_at_coalesced [OF assms(2,3)]
  show "\<exists>st'. free_memory st (Some (span (take i bs) + sizeof_Block)) = Some st' \<and>
      tiling st' (release_at bs i) \<and> coalesced (release_at bs i)" by blast
  have j: "j < length (alloc_at bs j n)" "take j (alloc_at bs j n) = take j bs"
    using assms(4) by (simp_all add: alloc_at_def)
  obtain st2 where "free_memory st1 (Some (span (take j (alloc_at bs j n)) + sizeof_Block)) = Some st2"
    "tiling st2 (release_at (alloc_at bs j n) j)" using assms(6) j(1) by (rule free_memory_ok)
  with release_alloc [OF assms(2,4,5)] j(2)
  show "\<exists>st2. free_memory st1 (Some (span (take j bs) + sizeof_Block)) = Some st2 \<and> tiling st2 bs"
    by simp
qed

theorem free_memory_restores_witness:
  "let s1 = snd (the (allocate_memory (init_memory raw_pool) 100 FIRST_FIT))
   in tiling s1 (alloc_at [(1000, True)] 0 112) \<and>
     (\<exists>st2. free_memory s1 (Some 24) = Some st2 \<and> tiling st2 [(1000, True)])"
proof -
  let ?s1 = "snd (the (allocate_memory (init_memory raw_pool) 100 FIRST_FIT))"
  have t0: "tiling (init_memory raw_pool) [(1000, True)]"
    using init_memory_tiling [of raw_pool] by (simp add: MEMORY_SIZE_def sizeof_Block_def)
  have r: "unat (round_size 100) = 112" by (simp add: round_size_small)
  have "chosen FIRST_FIT [(1000, True)] 112 = Some 0"
    by (simp add: chosen_def first_index_def fits_def)
  with allocate_memory_ok [OF t0, of 100 FIRST_FIT] r
  have t1: "tiling ?s1 (alloc_at [(1000, True)] 0 112)" by auto
  with free_memory_restores [OF t0 _ _ _ _ t1, of 0] show ?thesis
    by (simp add: coalesced_def fits_def sizeof_Block_def)
qed

text \<open>Rounding a request up to a multiple of sixteen wraps around for the fifteen largest
  sizes: such a request is treated as a request of zero bytes, and \<open>allocate_memory\<close> hands out the
  first free block as if it were large enough. For every smaller size the rounding is exact.\<close>

theorem round_size_overflow:
  assumes "tiling st bs" and "i < length bs" and "snd (bs ! i)"
  shows "(\<forall>sz. unat sz \<le> 2 ^ 64 - 16 \<longrightarrow> unat (round_size sz) = (unat sz + 15) div 16 * 16) \<and>
    (\<forall>sz. 2 ^ 64 - 15 \<le> unat sz \<longrightarrow>
      (\<exists>p st'. allocate_memory st sz FIRST_FIT = Some (Some p, st')))"
proof (intro conjI allI impI)
  fix sz :: u64 assume "2 ^ 64 - 15 \<le> unat sz"
  then have r: "unat (round_size sz) = 0" by (simp add: round_size_wraps)
  have "chosen FIRST_FIT bs 0 \<noteq> None"
    using assms(2,3) by (auto simp: chosen_def first_index_None_iff fits_def)
  with allocate_memory_ok [OF assms(1), of sz FIRST_FIT]
  show "\<exists>p st'. allocate_memory st sz FIRST_FIT = Some (Some p, st')"
    unfolding r by (auto split: option.splits)
qed (rule round_size_small)

theorem round_size_overflow_witness:
  "\<exists>p st'. allocate_memory (init_memory raw_pool) 18446744073709551615 FIRST_FIT = Some (Some p, st')"
proof -
  have t: "tiling (init_memory raw_pool) [(MEMORY_SIZE - sizeof_Block, True)]"
    by (rule init_memory_tiling)
  have "2 ^ 64 - 15 \<le> unat (18446744073709551615 :: u64)" by simp
  with round_size_overflow [OF t, of 0] show ?thesis by auto
qed

text \<open>The program's test sequence runs without fault, and after all blocks are freed the pool
  is one free block again.\<close>

theorem mem_alloc_main_cleans_up:
  "map_option last (mem_alloc_main raw_pool) = Some ([(0, 1000, True)], 1000, 0)"
  by code_simp

end
