(* ===== verification/Process_Scheduling.thy ===== *)
theory Process_Scheduling
  imports Prelude "HOL-Library.Multiset"
begin

text \<open>
  The process schedulers of \<^verbatim>\<open>os/process/scheduler/\<close>: first come first served
  (\<^verbatim>\<open>firt_come_first_serve.c\<close>), round robin (\<^verbatim>\<open>round_robin.c\<close>) and priority scheduling with
  aging (\<^verbatim>\<open>priority_scheduling.c\<close>).

  The array of processes is a list that the loops update in place. Times are mathematical
  integers. The \<open>while\<close> loops of round robin and priority scheduling need not end, so their models
  take a number of rounds and have the value \<open>None\<close> when it is used up; the theorems give a number
  of rounds that is enough, or show that none is.
\<close>

subsection \<open>First come first served\<close>

record fc_process =
  fc_pid :: int
  fc_arrival_time :: int
  fc_burst_time :: int
  fc_completion_time :: int
  fc_turnaround_time :: int
  fc_waiting_time :: int

fun fcfs_loop :: "int \<Rightarrow> fc_process list \<Rightarrow> fc_process list" where
  "fcfs_loop current_time [] = []"
| "fcfs_loop current_time (p # ps) =
     (let t = (if current_time < fc_arrival_time p then fc_arrival_time p else current_time);
          completion = t + fc_burst_time p;
          turnaround = completion - fc_arrival_time p;
          waiting = turnaround - fc_burst_time p
      in p\<lparr>fc_completion_time := completion, fc_turnaround_time := turnaround,
           fc_waiting_time := waiting\<rparr> # fcfs_loop completion ps)"

definition fcfs_schedule :: "fc_process list \<Rightarrow> fc_process list" where
  "fcfs_schedule processes = fcfs_loop 0 processes"

text \<open>The rows the metrics print, and the sums the averages are computed from.\<close>

definition fc_print_metrics ::
  "fc_process list \<Rightarrow> (int \<times> int \<times> int \<times> int \<times> int \<times> int) list \<times> int \<times> int" where
  "fc_print_metrics ps =
     (map (\<lambda>p. (fc_pid p, fc_arrival_time p, fc_burst_time p, fc_completion_time p,
        fc_turnaround_time p, fc_waiting_time p)) ps,
      sum_list (map fc_turnaround_time ps), sum_list (map fc_waiting_time ps))"

definition fc_main :: "(int \<times> int \<times> int \<times> int \<times> int \<times> int) list \<times> int \<times> int" where
  "fc_main = fc_print_metrics (fcfs_schedule
     [\<lparr>fc_pid = 1, fc_arrival_time = 0, fc_burst_time = 7, fc_completion_time = 0,
       fc_turnaround_time = 0, fc_waiting_time = 0\<rparr>,
      \<lparr>fc_pid = 2, fc_arrival_time = 2, fc_burst_time = 4, fc_completion_time = 0,
       fc_turnaround_time = 0, fc_waiting_time = 0\<rparr>,
      \<lparr>fc_pid = 3, fc_arrival_time = 4, fc_burst_time = 1, fc_completion_time = 0,
       fc_turnaround_time = 0, fc_waiting_time = 0\<rparr>])"

text \<open>A schedule is sequential when each process starts after its arrival and after the completion
  of the one before, and the CPU idles only while it waits for the next arrival.\<close>

fun sequential :: "int \<Rightarrow> fc_process list \<Rightarrow> bool" where
  "sequential t [] \<longleftrightarrow> True"
| "sequential t (p # ps) \<longleftrightarrow>
     (let start = fc_completion_time p - fc_burst_time p
      in t \<le> start \<and> fc_arrival_time p \<le> start \<and> (start = t \<or> start = fc_arrival_time p) \<and>
         fc_turnaround_time p = fc_completion_time p - fc_arrival_time p \<and>
         fc_waiting_time p = start - fc_arrival_time p \<and> 0 \<le> fc_waiting_time p \<and>
         sequential (fc_completion_time p) ps)"

lemma fcfs_loop_sequential: "sequential t (fcfs_loop t ps)"
  by (induction ps arbitrary: t) (simp_all add: Let_def)

lemma fcfs_loop_same:
  "map (\<lambda>p. (fc_pid p, fc_arrival_time p, fc_burst_time p)) (fcfs_loop t ps) =
   map (\<lambda>p. (fc_pid p, fc_arrival_time p, fc_burst_time p)) ps"
  by (induction ps arbitrary: t) (simp_all add: Let_def)

subsection \<open>Round robin\<close>

definition TIME_QUANTUM :: int where
  "TIME_QUANTUM = 2"

record rr_process =
  rr_pid :: int
  rr_arrival_time :: int
  rr_burst_time :: int
  rr_remaining_time :: int
  rr_completion_time :: int
  rr_turnaround_time :: int
  rr_waiting_time :: int

text \<open>One turn of the inner loop, on one process, and the whole inner loop; the other variables are
  \<open>current_time\<close>, \<open>completed\<close> and \<open>any_executed\<close>.\<close>

definition rr_turn ::
  "rr_process \<Rightarrow> int \<times> nat \<times> bool \<Rightarrow> rr_process \<times> int \<times> nat \<times> bool" where
  "rr_turn p = (\<lambda>(current_time, completed, any_executed).
     if rr_remaining_time p > 0 \<and> rr_arrival_time p \<le> current_time then
       (let execution_time =
              (if rr_remaining_time p > TIME_QUANTUM then TIME_QUANTUM else rr_remaining_time p);
            p1 = p\<lparr>rr_remaining_time := rr_remaining_time p - execution_time\<rparr>;
            t = current_time + execution_time
        in if rr_remaining_time p1 = 0
           then (p1\<lparr>rr_completion_time := t, rr_turnaround_time := t - rr_arrival_time p,
                    rr_waiting_time := t - rr_arrival_time p - rr_burst_time p\<rparr>,
                 t, completed + 1, True)
           else (p1, t, completed, True))
     else (p, current_time, completed, any_executed))"

fun rr_pass :: "rr_process list \<Rightarrow> int \<times> nat \<times> bool \<Rightarrow> rr_process list \<times> int \<times> nat \<times> bool" where
  "rr_pass [] s = ([], s)"
| "rr_pass (p # ps) s =
     (let (p', s1) = rr_turn p s; (ps', s2) = rr_pass ps s1 in (p' # ps', s2))"

fun rr_loop :: "nat \<Rightarrow> rr_process list \<Rightarrow> int \<Rightarrow> nat \<Rightarrow> (rr_process list \<times> int) option" where
  "rr_loop fuel processes current_time completed =
     (if completed < length processes then
        (case fuel of
           0 \<Rightarrow> None
         | Suc k \<Rightarrow>
             (let (ps, t, c, any_executed) = rr_pass processes (current_time, completed, False)
              in rr_loop k ps (if any_executed then t else t + 1) c))
      else Some (processes, current_time))"

declare rr_loop.simps [simp del]

definition round_robin_schedule :: "nat \<Rightarrow> rr_process list \<Rightarrow> (rr_process list \<times> int) option" where
  "round_robin_schedule fuel processes = rr_loop fuel processes 0 0"

text \<open>The initialiser lists of \<open>main\<close> have six values for the seven fields of the structure: the
  remaining time and all later fields are zero.\<close>

definition rr_main_processes :: "rr_process list" where
  "rr_main_processes =
     [\<lparr>rr_pid = 1, rr_arrival_time = 0, rr_burst_time = 7, rr_remaining_time = 0,
       rr_completion_time = 0, rr_turnaround_time = 0, rr_waiting_time = 0\<rparr>,
      \<lparr>rr_pid = 2, rr_arrival_time = 2, rr_burst_time = 4, rr_remaining_time = 0,
       rr_completion_time = 0, rr_turnaround_time = 0, rr_waiting_time = 0\<rparr>,
      \<lparr>rr_pid = 3, rr_arrival_time = 4, rr_burst_time = 1, rr_remaining_time = 0,
       rr_completion_time = 0, rr_turnaround_time = 0, rr_waiting_time = 0\<rparr>]"

definition rr_print_metrics ::
  "rr_process list \<Rightarrow> (int \<times> int \<times> int \<times> int \<times> int \<times> int) list \<times> int \<times> int" where
  "rr_print_metrics ps =
     (map (\<lambda>p. (rr_pid p, rr_arrival_time p, rr_burst_time p, rr_completion_time p,
        rr_turnaround_time p, rr_waiting_time p)) ps,
      sum_list (map rr_turnaround_time ps), sum_list (map rr_waiting_time ps))"

definition rr_main :: "nat \<Rightarrow> ((int \<times> int \<times> int \<times> int \<times> int \<times> int) list \<times> int \<times> int) option" where
  "rr_main fuel = map_option (\<lambda>r. rr_print_metrics (fst r)) (round_robin_schedule fuel rr_main_processes)"

text \<open>The invariant of a process at time \<open>t\<close>: what it has executed fits between its arrival and
  now, and once it is finished its metrics are right.\<close>

definition rr_inv :: "int \<Rightarrow> rr_process \<Rightarrow> bool" where
  "rr_inv t p \<longleftrightarrow> 0 \<le> rr_remaining_time p \<and> 0 < rr_burst_time p \<and>
     rr_remaining_time p \<le> rr_burst_time p \<and>
     (rr_remaining_time p < rr_burst_time p \<longrightarrow>
        rr_arrival_time p + (rr_burst_time p - rr_remaining_time p) \<le> t) \<and>
     (rr_remaining_time p = 0 \<longrightarrow>
        rr_completion_time p \<le> t \<and>
        rr_turnaround_time p = rr_completion_time p - rr_arrival_time p \<and>
        rr_waiting_time p = rr_turnaround_time p - rr_burst_time p \<and> 0 \<le> rr_waiting_time p)"

definition rr_id :: "rr_process \<Rightarrow> int \<times> int \<times> int" where
  "rr_id p = (rr_pid p, rr_arrival_time p, rr_burst_time p)"

definition rr_pending :: "rr_process list \<Rightarrow> nat" where
  "rr_pending ps = length (filter (\<lambda>p. 0 < rr_remaining_time p) ps)"

definition rr_open :: "rr_process \<Rightarrow> nat" where
  "rr_open p = (if 0 < rr_remaining_time p then 1 else 0)"

definition rr_work :: "rr_process list \<Rightarrow> nat" where
  "rr_work ps = sum_list (map (\<lambda>p. nat (rr_remaining_time p)) ps)"

lemma rr_inv_mono: "rr_inv t p \<Longrightarrow> t \<le> u \<Longrightarrow> rr_inv u p"
  by (auto simp: rr_inv_def)

lemma rr_inv_done: "rr_inv t p \<Longrightarrow> \<not> 0 < rr_remaining_time p \<Longrightarrow> rr_remaining_time p = 0"
  by (simp add: rr_inv_def)

lemma rr_turn_idle:
  "\<not> (rr_remaining_time p > 0 \<and> rr_arrival_time p \<le> t) \<Longrightarrow> rr_turn p (t, c, a) = (p, t, c, a)"
  by (auto simp: rr_turn_def)

lemma rr_turn_runs:
  assumes "rr_inv t p" and "rr_remaining_time p > 0" and "rr_arrival_time p \<le> t"
  obtains p' u c' where "rr_turn p (t, c, a) = (p', u, c', True)" "rr_inv u p'" "t \<le> u"
    "rr_id p' = rr_id p" "c' + rr_open p' = c + rr_open p"
    "nat (rr_remaining_time p') < nat (rr_remaining_time p)"
proof (cases "rr_remaining_time p \<le> TIME_QUANTUM")
  case True
  let ?u = "t + rr_remaining_time p"
  let ?p = "p\<lparr>rr_remaining_time := 0, rr_completion_time := ?u,
    rr_turnaround_time := ?u - rr_arrival_time p,
    rr_waiting_time := ?u - rr_arrival_time p - rr_burst_time p\<rparr>"
  have "rr_turn p (t, c, a) = (?p, ?u, c + 1, True)"
    using True assms by (simp add: rr_turn_def Let_def)
  moreover have "rr_inv ?u ?p" using assms by (auto simp: rr_inv_def)
  ultimately show thesis
    by (rule that) (use assms in \<open>simp_all add: rr_id_def rr_open_def\<close>)
next
  case False
  let ?p = "p\<lparr>rr_remaining_time := rr_remaining_time p - TIME_QUANTUM\<rparr>"
  have "rr_turn p (t, c, a) = (?p, t + TIME_QUANTUM, c, True)"
    using False assms by (simp add: rr_turn_def Let_def)
  moreover have "rr_inv (t + TIME_QUANTUM) ?p"
    using False assms by (auto simp: rr_inv_def TIME_QUANTUM_def)
  ultimately show thesis
    by (rule that)
      (use False assms in \<open>simp_all add: rr_id_def rr_open_def TIME_QUANTUM_def\<close>)
qed

lemma rr_pending_Cons: "rr_pending (p # ps) = rr_open p + rr_pending ps"
  by (simp add: rr_pending_def rr_open_def)

lemma rr_work_Cons: "rr_work (p # ps) = nat (rr_remaining_time p) + rr_work ps"
  by (simp add: rr_work_def)

definition rr_pass_post :: "rr_process list \<Rightarrow> int \<Rightarrow> nat \<Rightarrow> bool \<Rightarrow> rr_process list \<Rightarrow> int \<Rightarrow> nat \<Rightarrow> bool
    \<Rightarrow> bool" where
  "rr_pass_post ps t c a ps' u c' a' \<longleftrightarrow> t \<le> u \<and> (\<forall>p\<in>set ps'. rr_inv u p) \<and>
    map rr_id ps' = map rr_id ps \<and> c' + rr_pending ps' = c + rr_pending ps \<and>
    rr_work ps' \<le> rr_work ps \<and> (a \<longrightarrow> a') \<and> (a' \<longrightarrow> a \<or> rr_work ps' < rr_work ps) \<and>
    (\<not> a' \<longrightarrow> ps' = ps \<and> u = t \<and> c' = c \<and>
      (\<forall>p\<in>set ps. 0 < rr_remaining_time p \<longrightarrow> t < rr_arrival_time p))"

lemma rr_pass_ok:
  assumes "\<forall>p\<in>set ps. rr_inv t p" and "rr_pass ps (t, c, a) = (ps', u, c', a')"
  shows "rr_pass_post ps t c a ps' u c' a'"
  using assms
proof (induction ps arbitrary: t c a ps')
  case Nil
  then show ?case by (simp add: rr_pass_post_def)
next
  case (Cons p ps)
  show ?case
  proof (cases "rr_remaining_time p > 0 \<and> rr_arrival_time p \<le> t")
    case True
    from Cons.prems(1) True have "rr_inv t p" "rr_remaining_time p > 0" "rr_arrival_time p \<le> t"
      by simp_all
    then obtain p' t1 c1 where
      p': "rr_turn p (t, c, a) = (p', t1, c1, True)" "rr_inv t1 p'" "t \<le> t1" "rr_id p' = rr_id p"
        "c1 + rr_open p' = c + rr_open p"
        "nat (rr_remaining_time p') < nat (rr_remaining_time p)"
      by (rule rr_turn_runs)
    then obtain qs where qs: "rr_pass ps (t1, c1, True) = (qs, u, c', a')" "ps' = p' # qs"
      using Cons.prems(2) by (auto split: prod.splits)
    have "\<forall>q\<in>set ps. rr_inv t1 q" using Cons.prems(1) p'(3) by (auto intro: rr_inv_mono)
    from Cons.IH [OF this qs(1)] have r: "t1 \<le> u" "\<forall>p\<in>set qs. rr_inv u p"
      "map rr_id qs = map rr_id ps" "c' + rr_pending qs = c1 + rr_pending ps"
      "rr_work qs \<le> rr_work ps" "a'" by (simp_all add: rr_pass_post_def)
    have "rr_inv u p'" using p'(2) r(1) by (rule rr_inv_mono)
    moreover have "rr_work (p' # qs) < rr_work (p # ps)"
      unfolding rr_work_Cons using p'(6) r(5) by (rule add_less_le_mono)
    ultimately show ?thesis
      using p'(3-5) r qs(2) by (simp add: rr_pass_post_def rr_pending_Cons)
  next
    case False
    then have "rr_turn p (t, c, a) = (p, t, c, a)" by (rule rr_turn_idle)
    then obtain qs where qs: "rr_pass ps (t, c, a) = (qs, u, c', a')" "ps' = p # qs"
      using Cons.prems(2) by (auto split: prod.splits)
    have "rr_pass_post ps t c a qs u c' a'" using Cons.IH [OF _ qs(1)] Cons.prems(1) by simp
    moreover from this have "rr_inv u p"
      using Cons.prems(1) by (auto simp: rr_pass_post_def intro: rr_inv_mono)
    ultimately show ?thesis using False qs(2)
      by (simp add: rr_pass_post_def rr_pending_Cons rr_work_Cons not_le)
  qed
qed

lemma rr_loop_ok:
  assumes "\<forall>p\<in>set ps. rr_inv t p" and "c + rr_pending ps = length ps"
    and "\<forall>p\<in>set ps. rr_arrival_time p \<le> A" and "rr_work ps + nat (A - t) \<le> fuel"
  shows "\<exists>ps' u. rr_loop fuel ps t c = Some (ps', u) \<and> map rr_id ps' = map rr_id ps \<and>
    (\<forall>p\<in>set ps'. rr_inv u p \<and> rr_remaining_time p = 0)"
  using assms
proof (induction fuel arbitrary: ps t c)
  case 0
  then have "\<forall>p\<in>set ps. nat (rr_remaining_time p) = 0" by (simp add: rr_work_def)
  with 0 have fin: "\<forall>p\<in>set ps. rr_remaining_time p = 0" using rr_inv_done by fastforce
  then have "rr_pending ps = 0" by (simp add: rr_pending_def filter_empty_conv)
  with 0 fin show ?case by (simp add: rr_loop.simps)
next
  case (Suc k)
  show ?case
  proof (cases "c < length ps")
    case False
    with Suc.prems(2) have "rr_pending ps = 0" by simp
    then have "\<forall>p\<in>set ps. \<not> 0 < rr_remaining_time p"
      by (simp add: rr_pending_def filter_empty_conv)
    with Suc.prems(1) have "\<forall>p\<in>set ps. rr_remaining_time p = 0" using rr_inv_done by blast
    with False Suc.prems(1) show ?thesis by (simp add: rr_loop.simps [of "Suc k"])
  next
    case True
    obtain ps' u c' a where r: "rr_pass ps (t, c, False) = (ps', u, c', a)"
      by (metis surj_pair)
    note post = rr_pass_ok [OF Suc.prems(1) this, unfolded rr_pass_post_def]
    from post have r': "t \<le> u" "\<forall>p\<in>set ps'. rr_inv u p" "map rr_id ps' = map rr_id ps"
      "c' + rr_pending ps' = c + rr_pending ps" "a \<longrightarrow> rr_work ps' < rr_work ps"
      "\<not> a \<longrightarrow> ps' = ps \<and> u = t \<and>
        (\<forall>p\<in>set ps. 0 < rr_remaining_time p \<longrightarrow> t < rr_arrival_time p)" by simp_all
    define v where "v = (if a then u else u + 1)"
    have v: "u \<le> v" by (simp add: v_def)
    have inv: "\<forall>p\<in>set ps'. rr_inv v p" using r'(2) v by (auto intro: rr_inv_mono)
    have len: "length ps' = length ps" using map_eq_imp_length_eq [OF r'(3)] .
    have arr: "\<forall>p\<in>set ps'. rr_arrival_time p \<le> A"
    proof
      fix p assume "p \<in> set ps'"
      then have "rr_id p \<in> rr_id ` set ps" by (metis image_eqI list.set_map r'(3))
      with Suc.prems(3) show "rr_arrival_time p \<le> A" by (auto simp: rr_id_def)
    qed
    have "rr_work ps' + nat (A - v) \<le> k"
    proof (cases a)
      case True
      with r'(1,5) v_def Suc.prems(4) show ?thesis by simp
    next
      case False
      from True Suc.prems(2) have "rr_pending ps \<noteq> 0" by simp
      then obtain p where "p \<in> set ps" "0 < rr_remaining_time p"
        by (auto simp: rr_pending_def filter_empty_conv)
      with False r'(6) Suc.prems(3) have "t < A" by force
      with False r'(6) v_def Suc.prems(4) show ?thesis by simp
    qed
    with Suc.IH [of ps' v c'] inv arr r'(4) len Suc.prems(2) obtain qs w where
      "rr_loop k ps' v c' = Some (qs, w)" "map rr_id qs = map rr_id ps'"
      "\<forall>p\<in>set qs. rr_inv w p \<and> rr_remaining_time p = 0" by auto
    with True r r'(3) show ?thesis by (simp add: rr_loop.simps [of "Suc k"] v_def)
  qed
qed

subsection \<open>Priority scheduling with aging\<close>

record pr_process =
  pr_pid :: int
  pr_priority :: int
  pr_age :: int
  pr_burst_time :: int
  pr_remaining_time :: int

definition age_process :: "pr_process \<Rightarrow> pr_process" where
  "age_process p =
     (if pr_remaining_time p > 0
      then (let p1 = p\<lparr>pr_age := pr_age p + 1\<rparr>
            in if pr_age p1 \<ge> 5 then p1\<lparr>pr_priority := pr_priority p1 + 1, pr_age := 0\<rparr> else p1)
      else p)"

definition age_processes :: "pr_process list \<Rightarrow> pr_process list" where
  "age_processes ps = map age_process ps"

fun highest_scan :: "pr_process list \<Rightarrow> nat list \<Rightarrow> int \<times> nat option \<Rightarrow> nat option" where
  "highest_scan ps [] (highest_priority, selected) = selected"
| "highest_scan ps (i # is) (highest_priority, selected) =
     highest_scan ps is
       (if pr_remaining_time (ps ! i) > 0 \<and>
           (selected = None \<or> pr_priority (ps ! i) > highest_priority)
        then (pr_priority (ps ! i), Some i) else (highest_priority, selected))"

definition get_highest_priority_process :: "pr_process list \<Rightarrow> nat option" where
  "get_highest_priority_process ps = highest_scan ps [0..<length ps] (-1, None)"

fun priority_loop :: "nat \<Rightarrow> pr_process list \<Rightarrow> int \<Rightarrow> nat
    \<Rightarrow> ((int \<times> int) list \<times> pr_process list \<times> int) option" where
  "priority_loop fuel ps current_time completed =
     (if completed < length ps then
        (case fuel of
           0 \<Rightarrow> None
         | Suc k \<Rightarrow>
             (let ps1 = age_processes ps in
              case get_highest_priority_process ps1 of
                None \<Rightarrow> priority_loop k ps1 (current_time + 1) completed
              | Some i \<Rightarrow>
                  (let p = (ps1 ! i)\<lparr>pr_remaining_time := pr_remaining_time (ps1 ! i) - 1\<rparr>
                   in if pr_remaining_time p = 0
                      then do { (evs, r) \<leftarrow> priority_loop k (ps1[i := p]) (current_time + 1) (completed + 1);
                                Some ((pr_pid p, current_time + 1) # evs, r) }
                      else priority_loop k (ps1[i := p]) (current_time + 1) completed)))
      else Some ([], ps, current_time))"

declare priority_loop.simps [simp del]

definition priority_schedule_with_aging ::
  "nat \<Rightarrow> pr_process list \<Rightarrow> ((int \<times> int) list \<times> pr_process list \<times> int) option" where
  "priority_schedule_with_aging fuel ps = priority_loop fuel ps 0 0"

definition pr_elig :: "pr_process list \<Rightarrow> nat \<Rightarrow> bool" where
  "pr_elig ps i \<longleftrightarrow> 0 < pr_remaining_time (ps ! i)"

definition pr_better :: "pr_process list \<Rightarrow> nat \<Rightarrow> nat \<Rightarrow> bool" where
  "pr_better ps i k \<longleftrightarrow> pr_priority (ps ! k) < pr_priority (ps ! i)"

interpretation prio: key_scan "pr_elig ps" "pr_better ps" "\<lambda>i. - pr_priority (ps ! i)" for ps
  by unfold_locales (simp add: pr_better_def)

lemma highest_scan_eq:
  "(case c of None \<Rightarrow> True | Some k \<Rightarrow> h = pr_priority (ps ! k)) \<Longrightarrow>
   highest_scan ps is (h, c) = scan_best (pr_elig ps) (pr_better ps) is c"
proof (induction "is" arbitrary: h c)
  case (Cons i "is")
  let ?take = "pr_elig ps i \<and> (case c of None \<Rightarrow> True | Some k \<Rightarrow> pr_better ps i k)"
  have t: "(pr_remaining_time (ps ! i) > 0 \<and> (c = None \<or> pr_priority (ps ! i) > h)) = ?take"
    using Cons.prems by (cases c) (auto simp: pr_elig_def pr_better_def)
  show ?case
    using Cons.IH [of "pr_priority (ps ! i)" "Some i"] Cons.IH [of h c] Cons.prems
    by (auto simp: t)
qed simp

lemma get_highest_None:
  "get_highest_priority_process ps = None \<longleftrightarrow> (\<forall>p\<in>set ps. \<not> 0 < pr_remaining_time p)"
  by (auto simp: get_highest_priority_process_def highest_scan_eq prio.scan_None pr_elig_def
      all_set_conv_all_nth)

lemma get_highest_Some:
  assumes "get_highest_priority_process ps = Some i"
  shows "i < length ps" and "0 < pr_remaining_time (ps ! i)"
    and "\<And>j. j < length ps \<Longrightarrow> 0 < pr_remaining_time (ps ! j) \<Longrightarrow> pr_priority (ps ! j) \<le> pr_priority (ps ! i)"
  using prio.scan_Some [of ps "length ps" i] assms
  by (auto simp: get_highest_priority_process_def highest_scan_eq pr_elig_def)

definition pr_work :: "pr_process list \<Rightarrow> nat" where
  "pr_work ps = sum_list (map (\<lambda>p. nat (pr_remaining_time p)) ps)"

definition pr_pending :: "pr_process list \<Rightarrow> int multiset" where
  "pr_pending ps = mset (map pr_pid (filter (\<lambda>p. 0 < pr_remaining_time p) ps))"

lemma age_processes_same:
  "length (age_processes ps) = length ps" "pr_work (age_processes ps) = pr_work ps"
  "pr_pending (age_processes ps) = pr_pending ps"
  "(\<forall>p\<in>set (age_processes ps). 0 \<le> pr_remaining_time p) = (\<forall>p\<in>set ps. 0 \<le> pr_remaining_time p)"
proof -
  have r: "pr_remaining_time (age_process p) = pr_remaining_time p" "pr_pid (age_process p) = pr_pid p"
    for p by (simp_all add: age_process_def Let_def)
  show "length (age_processes ps) = length ps" "pr_work (age_processes ps) = pr_work ps"
    "(\<forall>p\<in>set (age_processes ps). 0 \<le> pr_remaining_time p) = (\<forall>p\<in>set ps. 0 \<le> pr_remaining_time p)"
    by (simp_all add: age_processes_def pr_work_def comp_def r)
  show "pr_pending (age_processes ps) = pr_pending ps"
    by (induction ps) (simp_all add: age_processes_def pr_pending_def r)
qed

lemma pr_run_one:
  assumes "i < length ps" and "0 < pr_remaining_time (ps ! i)"
    and "p = (ps ! i)\<lparr>pr_remaining_time := pr_remaining_time (ps ! i) - 1\<rparr>"
  shows "pr_work ps = Suc (pr_work (ps[i := p]))"
    and "pr_pending ps = (if pr_remaining_time p = 0 then {#pr_pid p#} else {#}) + pr_pending (ps[i := p])"
proof -
  have ps: "ps = take i ps @ ps ! i # drop (Suc i) ps" using assms(1) by (rule id_take_nth_drop)
  have up: "ps[i := p] = take i ps @ p # drop (Suc i) ps" using assms(1) by (rule upd_conv_take_nth_drop)
  have n: "nat (pr_remaining_time (ps ! i)) = Suc (nat (pr_remaining_time p))"
    using assms(2,3) by (simp add: nat_diff_distrib)
  have "pr_work (take i ps @ ps ! i # drop (Suc i) ps) = Suc (pr_work (take i ps @ p # drop (Suc i) ps))"
    by (simp add: pr_work_def n)
  then show "pr_work ps = Suc (pr_work (ps[i := p]))" using ps up by simp
  have "pr_pending (take i ps @ ps ! i # drop (Suc i) ps) =
      (if pr_remaining_time p = 0 then {#pr_pid p#} else {#}) +
      pr_pending (take i ps @ p # drop (Suc i) ps)"
    using assms(2,3) by (auto simp: pr_pending_def)
  then show "pr_pending ps =
      (if pr_remaining_time p = 0 then {#pr_pid p#} else {#}) + pr_pending (ps[i := p])"
    using ps up by simp
qed

lemma priority_loop_ok:
  assumes "\<forall>p\<in>set ps. 0 \<le> pr_remaining_time p" and "completed + size (pr_pending ps) = length ps"
    and "fuel = pr_work ps"
  shows "\<exists>evs ps'. priority_loop fuel ps t completed = Some (evs, ps', t + int fuel) \<and>
    (\<forall>p\<in>set ps'. pr_remaining_time p = 0) \<and> mset (map fst evs) = pr_pending ps"
  using assms
proof (induction fuel arbitrary: ps t completed)
  case 0
  then have "\<forall>p\<in>set ps. nat (pr_remaining_time p) = 0" by (simp add: pr_work_def)
  with 0 have z: "\<forall>p\<in>set ps. pr_remaining_time p = 0" by fastforce
  then have "pr_pending ps = {#}" by (simp add: pr_pending_def filter_empty_conv)
  with 0 z show ?case by (simp add: priority_loop.simps)
next
  case (Suc k)
  let ?ps = "age_processes ps"
  note same = age_processes_same [of ps]
  have "\<exists>p\<in>set ?ps. 0 < pr_remaining_time p"
  proof (rule ccontr)
    assume "\<not> ?thesis"
    then have "pr_work ?ps = 0" by (simp add: pr_work_def not_less)
    with same(2) Suc.prems(3) show False by simp
  qed
  then obtain i where hi: "get_highest_priority_process ?ps = Some i"
    using get_highest_None [of ?ps] by auto
  note I = get_highest_Some(1,2) [OF hi]
  define p where "p = (?ps ! i)\<lparr>pr_remaining_time := pr_remaining_time (?ps ! i) - 1\<rparr>"
  note one = pr_run_one [OF I p_def]
  have nonneg: "\<forall>q\<in>set (?ps[i := p]). 0 \<le> pr_remaining_time q"
    using Suc.prems(1) same(4) I(2) set_update_subset_insert [of ?ps i p] by (auto simp: p_def)
  have "pr_pending ps \<noteq> {#}"
  proof
    assume "pr_pending ps = {#}"
    then have "\<forall>p\<in>set ?ps. \<not> 0 < pr_remaining_time p"
      using same(3) by (simp add: pr_pending_def filter_empty_conv)
    with I show False by simp
  qed
  then have lt: "completed < length ps" using Suc.prems(2) by (cases "pr_pending ps") simp_all
  have work: "k = pr_work (?ps[i := p])" using one(1) same(2) Suc.prems(3) by simp
  show ?case
  proof (cases "pr_remaining_time p = 0")
    case True
    have "completed + 1 + size (pr_pending (?ps[i := p])) = length (?ps[i := p])"
      using Suc.prems(2) one(2) same True by simp
    from Suc.IH [OF nonneg this work, of "t + 1"] obtain evs qs where
      "priority_loop k (?ps[i := p]) (t + 1) (completed + 1) = Some (evs, qs, t + 1 + int k)"
      "\<forall>p\<in>set qs. pr_remaining_time p = 0" "mset (map fst evs) = pr_pending (?ps[i := p])" by blast
    with True lt hi one(2) same(3) show ?thesis
      by (subst priority_loop.simps) (simp add: Let_def flip: p_def)
  next
    case False
    have "completed + size (pr_pending (?ps[i := p])) = length (?ps[i := p])"
      using Suc.prems(2) one(2) same False by simp
    from Suc.IH [OF nonneg this work, of "t + 1"] obtain evs qs where
      "priority_loop k (?ps[i := p]) (t + 1) completed = Some (evs, qs, t + 1 + int k)"
      "\<forall>p\<in>set qs. pr_remaining_time p = 0" "mset (map fst evs) = pr_pending (?ps[i := p])" by blast
    with False lt hi one(2) same(3) show ?thesis
      by (subst priority_loop.simps) (simp add: Let_def flip: p_def)
  qed
qed

subsection \<open>Properties\<close>

text \<open>First come first served runs the processes one after the other in the order of the
  array: each starts at the completion of the one before or at its own arrival, whichever is
  later, and its turnaround and waiting times are the ones of that schedule; waiting times are
  never negative.\<close>

theorem fcfs_schedule_sequential:
  "sequential 0 (fcfs_schedule ps) \<and>
   map (\<lambda>p. (fc_pid p, fc_arrival_time p, fc_burst_time p)) (fcfs_schedule ps) =
     map (\<lambda>p. (fc_pid p, fc_arrival_time p, fc_burst_time p)) ps"
  by (simp add: fcfs_schedule_def fcfs_loop_sequential fcfs_loop_same)

text \<open>Round robin ends when every process starts with its whole burst outstanding: all
  processes finish, and the completion, turnaround and waiting times are consistent and waiting is
  never negative. The number of passes needed is at most the sum of the bursts plus the latest
  arrival.\<close>

theorem round_robin_completes:
  assumes "\<forall>p\<in>set ps. 0 < rr_burst_time p \<and> rr_remaining_time p = rr_burst_time p \<and>
      rr_arrival_time p \<le> A"
  shows "\<exists>ps' T. round_robin_schedule (rr_work ps + nat A) ps = Some (ps', T) \<and>
    map rr_id ps' = map rr_id ps \<and>
    (\<forall>p\<in>set ps'. rr_remaining_time p = 0 \<and> rr_completion_time p \<le> T \<and>
      rr_turnaround_time p = rr_completion_time p - rr_arrival_time p \<and>
      rr_waiting_time p = rr_turnaround_time p - rr_burst_time p \<and> 0 \<le> rr_waiting_time p)"
proof -
  have "\<forall>p\<in>set ps. rr_inv 0 p" "\<forall>p\<in>set ps. 0 < rr_remaining_time p"
    using assms by (auto simp: rr_inv_def)
  moreover from this(2) have "rr_pending ps = length ps" by (simp add: rr_pending_def)
  ultimately obtain ps' T where "rr_loop (rr_work ps + nat A) ps 0 0 = Some (ps', T)"
    "map rr_id ps' = map rr_id ps" "\<forall>p\<in>set ps'. rr_inv T p \<and> rr_remaining_time p = 0"
    using rr_loop_ok [of ps 0 0 A "rr_work ps + nat A"] assms by auto
  moreover have "rr_completion_time p \<le> T \<and>
      rr_turnaround_time p = rr_completion_time p - rr_arrival_time p \<and>
      rr_waiting_time p = rr_turnaround_time p - rr_burst_time p \<and> 0 \<le> rr_waiting_time p"
    if "rr_inv T p" "rr_remaining_time p = 0" for p using that by (simp add: rr_inv_def)
  ultimately show ?thesis unfolding round_robin_schedule_def by blast
qed

theorem round_robin_completes_witness:
  "\<exists>ps' T. round_robin_schedule
      (rr_work (map (\<lambda>p. p\<lparr>rr_remaining_time := rr_burst_time p\<rparr>) rr_main_processes) + nat 4)
      (map (\<lambda>p. p\<lparr>rr_remaining_time := rr_burst_time p\<rparr>) rr_main_processes) = Some (ps', T)"
  using round_robin_completes
    [of "map (\<lambda>p. p\<lparr>rr_remaining_time := rr_burst_time p\<rparr>) rr_main_processes" 4]
  by (auto simp: rr_main_processes_def)

text \<open>The round robin program itself never ends: its processes start with a remaining time
  of zero, because the initialisers leave out a field, so no process is ever executed or counted
  as completed.\<close>

theorem round_robin_main_diverges:
  "rr_main fuel = None"
proof -
  have pass: "rr_pass ps s = (ps, s)" if "\<forall>p\<in>set ps. rr_remaining_time p = 0" for ps s
    using that by (induction ps) (auto simp: rr_turn_def)
  have "rr_loop fuel ps t 0 = None" if "\<forall>p\<in>set ps. rr_remaining_time p = 0" "ps \<noteq> []" for ps t
    using that
  proof (induction fuel arbitrary: t)
    case (Suc k)
    then show ?case using pass [of ps "(t, 0, False)"] by (subst rr_loop.simps) simp
  qed (simp add: rr_loop.simps)
  from this [of rr_main_processes 0] show ?thesis
    by (simp add: rr_main_def round_robin_schedule_def rr_main_processes_def)
qed

text \<open>Priority scheduling with aging finishes every process exactly once, in exactly as many
  time units as the sum of the remaining times, whatever the priorities: aging changes the order but
  never loses a process or a time unit.\<close>

theorem priority_aging_completes:
  assumes "\<forall>p\<in>set ps. 0 < pr_remaining_time p"
  shows "\<exists>evs ps'. priority_schedule_with_aging (pr_work ps) ps = Some (evs, ps', int (pr_work ps)) \<and>
    (\<forall>p\<in>set ps'. pr_remaining_time p = 0) \<and> mset (map fst evs) = mset (map pr_pid ps)"
proof -
  have "pr_pending ps = mset (map pr_pid ps)" using assms by (simp add: pr_pending_def)
  with priority_loop_ok [of ps 0 "pr_work ps" 0] assms show ?thesis
    by (auto simp: priority_schedule_with_aging_def intro: less_imp_le)
qed

definition pr_proc :: "int \<Rightarrow> int \<Rightarrow> int \<Rightarrow> pr_process" where
  "pr_proc pid prio rem = \<lparr>pr_pid = pid, pr_priority = prio, pr_age = 0, pr_burst_time = rem,
     pr_remaining_time = rem\<rparr>"

theorem priority_aging_completes_witness:
  "\<exists>evs ps'. priority_schedule_with_aging (pr_work [pr_proc 1 3 2, pr_proc 2 9 4])
      [pr_proc 1 3 2, pr_proc 2 9 4] = Some (evs, ps', int (pr_work [pr_proc 1 3 2, pr_proc 2 9 4])) \<and>
    (\<forall>p\<in>set ps'. pr_remaining_time p = 0) \<and>
    mset (map fst evs) = mset (map pr_pid [pr_proc 1 3 2, pr_proc 2 9 4])"
  by (rule priority_aging_completes) (simp add: pr_proc_def)

text \<open>The process chosen for a time unit has work left and no other process with work left
  has a higher priority.\<close>

theorem highest_priority_chosen:
  assumes "get_highest_priority_process ps = Some i"
  shows "i < length ps \<and> 0 < pr_remaining_time (ps ! i) \<and>
    (\<forall>j<length ps. 0 < pr_remaining_time (ps ! j) \<longrightarrow> pr_priority (ps ! j) \<le> pr_priority (ps ! i))"
  using get_highest_Some [OF assms] by blast

theorem highest_priority_chosen_witness:
  "1 < length [pr_proc 1 3 2, pr_proc 2 9 4] \<and>
   0 < pr_remaining_time ([pr_proc 1 3 2, pr_proc 2 9 4] ! 1)"
  using highest_priority_chosen [of "[pr_proc 1 3 2, pr_proc 2 9 4]" 1]
  by (simp add: get_highest_priority_process_def pr_proc_def upt_conv_Cons)

end
