(* ===== verification/Fair_Scheduling.thy ===== *)
theory Fair_Scheduling
  imports Prelude
begin

text \<open>
  The completely fair scheduler (\<^verbatim>\<open>os/process/scheduler/completely_fair_scheduler.c\<close>).

  Virtual run times and weights are \<open>unsigned long\<close>, 64-bit words. A division by a zero weight is
  \<open>None\<close>. The trace of a simulation is the list of the indices run.
\<close>

definition MAX_NICE :: int where
  "MAX_NICE = 19"

record CFSProcess =
  cf_pid :: int
  cf_nice_value :: int
  cf_vruntime :: u64
  cf_weight :: u64

definition calculate_weight :: "int \<Rightarrow> u64" where
  "calculate_weight nice = of_int ((MAX_NICE - nice + 1) * 100)"

definition update_vruntime :: "CFSProcess \<Rightarrow> u64 \<Rightarrow> CFSProcess option" where
  "update_vruntime process runtime =
     (if cf_weight process = 0 then None
      else Some (process\<lparr>cf_vruntime := cf_vruntime process + (runtime * 1024) div cf_weight process\<rparr>))"

fun min_scan :: "CFSProcess list \<Rightarrow> nat list \<Rightarrow> nat \<times> u64 \<Rightarrow> nat" where
  "min_scan processes [] (min_idx, min_vruntime) = min_idx"
| "min_scan processes (i # is) (min_idx, min_vruntime) =
     min_scan processes is
       (if cf_vruntime (processes ! i) < min_vruntime then (i, cf_vruntime (processes ! i))
        else (min_idx, min_vruntime))"

definition find_min_vruntime_process :: "CFSProcess list \<Rightarrow> nat option" where
  "find_min_vruntime_process processes = do {
     p \<leftarrow> c_load processes 0;
     Some (min_scan processes [1..<length processes] (0, cf_vruntime p))
   }"

fun cfs_loop :: "nat \<Rightarrow> CFSProcess list \<Rightarrow> (nat list \<times> CFSProcess list) option" where
  "cfs_loop 0 processes = Some ([], processes)"
| "cfs_loop (Suc n) processes = do {
     next_process \<leftarrow> find_min_vruntime_process processes;
     p \<leftarrow> c_load processes next_process;
     p' \<leftarrow> update_vruntime p 1;
     (trace, final) \<leftarrow> cfs_loop n (processes[next_process := p']);
     Some (next_process # trace, final)
   }"

definition simulate_cfs :: "CFSProcess list \<Rightarrow> nat \<Rightarrow> (nat list \<times> CFSProcess list) option" where
  "simulate_cfs processes simulation_time =
     cfs_loop simulation_time
       (map (\<lambda>p. p\<lparr>cf_weight := calculate_weight (cf_nice_value p), cf_vruntime := 0\<rparr>) processes)"

definition cfs_main :: "(nat list \<times> CFSProcess list) option" where
  "cfs_main = simulate_cfs
     [\<lparr>cf_pid = 1, cf_nice_value = 0, cf_vruntime = 0, cf_weight = 0\<rparr>,
      \<lparr>cf_pid = 2, cf_nice_value = -10, cf_vruntime = 0, cf_weight = 0\<rparr>,
      \<lparr>cf_pid = 3, cf_nice_value = 10, cf_vruntime = 0, cf_weight = 0\<rparr>] 15"

subsection \<open>The choice is a minimum\<close>

definition cf_less :: "CFSProcess list \<Rightarrow> nat \<Rightarrow> nat \<Rightarrow> bool" where
  "cf_less ps i k \<longleftrightarrow> cf_vruntime (ps ! i) < cf_vruntime (ps ! k)"

interpretation cfs: key_scan "\<lambda>_. True" "cf_less ps" "\<lambda>i. cf_vruntime (ps ! i)" for ps
  by unfold_locales (simp add: cf_less_def)

lemma min_scan_eq:
  "scan_best (\<lambda>_. True) (cf_less ps) is (Some k) = Some (min_scan ps is (k, cf_vruntime (ps ! k)))"
proof (induction "is" arbitrary: k)
  case (Cons i "is")
  then show ?case by (cases "cf_less ps i k") (simp_all add: cf_less_def)
qed simp

lemma find_min_ok:
  assumes "ps \<noteq> []"
  obtains k where "find_min_vruntime_process ps = Some k" "k < length ps"
    "\<forall>i<length ps. cf_vruntime (ps ! k) \<le> cf_vruntime (ps ! i)"
    "\<forall>i<k. cf_vruntime (ps ! k) < cf_vruntime (ps ! i)"
proof -
  let ?k = "min_scan ps [1..<length ps] (0, cf_vruntime (ps ! 0))"
  have "[0..<length ps] = 0 # [1..<length ps]" using assms by (simp add: upt_conv_Cons)
  then have s: "scan_best (\<lambda>_. True) (cf_less ps) [0..<length ps] None = Some ?k"
    by (simp add: min_scan_eq)
  note K = cfs.scan_Some [OF s]
  have "find_min_vruntime_process ps = Some ?k"
    using assms by (simp add: find_min_vruntime_process_def)
  with that K show thesis by blast
qed

subsection \<open>Fairness and its failure\<close>

lemma unat_of_int_u64: "0 \<le> k \<Longrightarrow> k < 2 ^ 64 \<Longrightarrow> unat (of_int k :: u64) = nat k"
  by (simp add: unat_eq_nat_uint uint_word_of_int)

lemma calculate_weight_bounds:
  assumes "-20 \<le> nice" "nice \<le> 19"
  shows "unat (calculate_weight nice) = nat ((20 - nice) * 100)"
proof -
  have "0 \<le> (MAX_NICE - nice + 1) * 100" "(MAX_NICE - nice + 1) * 100 < 2 ^ 64"
    using assms by (simp_all add: MAX_NICE_def)
  from unat_of_int_u64 [OF this] show ?thesis
    by (simp only: calculate_weight_def) (simp add: MAX_NICE_def)
qed

text \<open>The weights are those of the nice values, and after \<open>m\<close> steps no virtual run time is more
  than ten per step, nor ten more than another.\<close>

definition cfs_inv :: "nat \<Rightarrow> CFSProcess list \<Rightarrow> bool" where
  "cfs_inv m ps \<longleftrightarrow> ps \<noteq> [] \<and> (\<forall>p\<in>set ps. 100 \<le> unat (cf_weight p) \<and> unat (cf_vruntime p) \<le> 10 * m) \<and>
     (\<forall>p\<in>set ps. \<forall>q\<in>set ps. unat (cf_vruntime p) \<le> unat (cf_vruntime q) + 10)"

lemma update_vruntime_ok:
  assumes "100 \<le> unat (cf_weight p)" and "unat (cf_vruntime p) \<le> 10 * m" and "m < 2 ^ 50"
  obtains p' where "update_vruntime p 1 = Some p'" "cf_weight p' = cf_weight p"
    "unat (cf_vruntime p) \<le> unat (cf_vruntime p')" "unat (cf_vruntime p') \<le> unat (cf_vruntime p) + 10"
proof -
  have d: "unat (1024 div cf_weight p) = 1024 div unat (cf_weight p)" by (simp add: unat_div)
  have "1024 div unat (cf_weight p) \<le> 1024 div 100" using assms(1) by (rule div_le_mono2 [rotated]) simp
  then have le: "unat (1024 div cf_weight p) \<le> 10" by (simp add: d)
  then have "unat (cf_vruntime p) + unat (1024 div cf_weight p) < 2 ^ 64" using assms(2,3) by simp
  then have "unat (cf_vruntime p + 1024 div cf_weight p) =
      unat (cf_vruntime p) + unat (1024 div cf_weight p)" by (simp add: unat_add_lem [THEN iffD1])
  moreover have "cf_weight p \<noteq> 0" using assms(1) by auto
  ultimately show thesis
    using le by (intro that [of "p\<lparr>cf_vruntime := cf_vruntime p + 1024 div cf_weight p\<rparr>"])
      (simp_all add: update_vruntime_def)
qed

lemma cfs_loop_fair:
  assumes "cfs_inv m ps" and "m + n < 2 ^ 50"
  shows "\<exists>trace ps'. cfs_loop n ps = Some (trace, ps') \<and> length trace = n \<and> cfs_inv (m + n) ps'"
  using assms
proof (induction n arbitrary: m ps)
  case (Suc n)
  have ne: "ps \<noteq> []" using Suc.prems(1) by (simp add: cfs_inv_def)
  then obtain k where k: "find_min_vruntime_process ps = Some k" "k < length ps"
    "\<forall>i<length ps. cf_vruntime (ps ! k) \<le> cf_vruntime (ps ! i)" by (rule find_min_ok)
  have mem: "ps ! k \<in> set ps" using k(2) by simp
  have min: "unat (cf_vruntime (ps ! k)) \<le> unat (cf_vruntime q)" if "q \<in> set ps" for q
    using that k(3) by (auto simp: in_set_conv_nth word_le_nat_alt)
  from mem Suc.prems obtain p' where p': "update_vruntime (ps ! k) 1 = Some p'"
    "cf_weight p' = cf_weight (ps ! k)" "unat (cf_vruntime (ps ! k)) \<le> unat (cf_vruntime p')"
    "unat (cf_vruntime p') \<le> unat (cf_vruntime (ps ! k)) + 10"
    using update_vruntime_ok [of "ps ! k" m] by (auto simp: cfs_inv_def)
  have sub: "q = p' \<or> q \<in> set ps" if "q \<in> set (ps[k := p'])" for q
    using that set_update_subset_insert by fastforce
  have inv: "100 \<le> unat (cf_weight q) \<and> unat (cf_vruntime q) \<le> 10 * m" if "q \<in> set ps" for q
    using Suc.prems(1) that by (simp add: cfs_inv_def)
  have gap: "unat (cf_vruntime q) \<le> unat (cf_vruntime r) + 10" if "q \<in> set ps" "r \<in> set ps" for q r
    using Suc.prems(1) that by (simp add: cfs_inv_def)
  have low: "unat (cf_vruntime (ps ! k)) \<le> unat (cf_vruntime q)" if "q \<in> set (ps[k := p'])" for q
    using sub [OF that] p'(3) min by blast
  have high: "unat (cf_vruntime q) \<le> unat (cf_vruntime (ps ! k)) + 10" if "q \<in> set (ps[k := p'])" for q
    using sub [OF that] p'(4) gap [OF _ mem] by blast
  have "cfs_inv (Suc m) (ps[k := p'])"
    unfolding cfs_inv_def
  proof (intro conjI ballI)
    show "ps[k := p'] \<noteq> []" using ne by simp
  next
    fix q assume q: "q \<in> set (ps[k := p'])"
    show "100 \<le> unat (cf_weight q)" using sub [OF q] inv [OF mem] inv p'(2) by auto
    show "unat (cf_vruntime q) \<le> 10 * Suc m" using high [OF q] inv [OF mem] by simp
    fix r assume "r \<in> set (ps[k := p'])"
    with high [OF q] low show "unat (cf_vruntime q) \<le> unat (cf_vruntime r) + 10"
      by (meson add_le_mono1 le_trans)
  qed
  with Suc.IH [of "Suc m" "ps[k := p']"] Suc.prems(2) k(1,2) p'(1) show ?case by auto
qed simp

lemma cfs_loop_starves:
  assumes "ps \<noteq> []" and "\<forall>p\<in>set ps. cf_vruntime p = 0" and "unat (cf_weight (hd ps)) > 1024"
  shows "cfs_loop n ps = Some (replicate n 0, ps)"
  using assms
proof (induction n)
  case (Suc n)
  from Suc.prems(1) obtain k where k: "find_min_vruntime_process ps = Some k" "k < length ps"
    "\<forall>i<k. cf_vruntime (ps ! k) < cf_vruntime (ps ! i)" by (rule find_min_ok)
  have "k = 0"
  proof (rule ccontr)
    assume "k \<noteq> 0"
    with k(2,3) Suc.prems(2) show False by (metis gr0I less_irrefl less_trans nth_mem)
  qed
  have w: "unat (cf_weight (ps ! 0)) > 1024" using Suc.prems by (simp add: hd_conv_nth)
  then have "unat (1024 div cf_weight (ps ! 0)) = 0" by (simp add: unat_div)
  then have "1024 div cf_weight (ps ! 0) = 0" by (simp add: unat_eq_zero)
  moreover have "cf_weight (ps ! 0) \<noteq> 0" using w by auto
  ultimately have "update_vruntime (ps ! 0) 1 = Some (ps ! 0)" by (simp add: update_vruntime_def)
  with Suc k(1) \<open>k = 0\<close> show ?case by simp
qed simp

subsection \<open>Properties\<close>

definition cf_proc :: "int \<Rightarrow> int \<Rightarrow> CFSProcess" where
  "cf_proc pid nice = \<lparr>cf_pid = pid, cf_nice_value = nice, cf_vruntime = 0, cf_weight = 0\<rparr>"

text \<open>With nice values in their documented range the simulation never divides by zero, runs
  one process per time unit, and keeps every two virtual run times within ten units of each other:
  no process is left behind by more than one slice of the lightest weight.\<close>

theorem cfs_bounded_gap:
  assumes "processes \<noteq> []" and "\<forall>p\<in>set processes. -20 \<le> cf_nice_value p \<and> cf_nice_value p \<le> 19"
    and "simulation_time < 2 ^ 50"
  shows "\<exists>trace ps. simulate_cfs processes simulation_time = Some (trace, ps) \<and>
    length trace = simulation_time \<and>
    (\<forall>p\<in>set ps. \<forall>q\<in>set ps. unat (cf_vruntime p) \<le> unat (cf_vruntime q) + 10)"
proof -
  have "cfs_inv 0 (map (\<lambda>p. p\<lparr>cf_weight := calculate_weight (cf_nice_value p), cf_vruntime := 0\<rparr>)
      processes)"
    using assms(1,2) by (auto simp: cfs_inv_def calculate_weight_bounds)
  from cfs_loop_fair [OF this, of simulation_time] assms(3) show ?thesis
    by (auto simp: simulate_cfs_def cfs_inv_def)
qed

theorem cfs_bounded_gap_witness:
  "\<exists>trace ps. simulate_cfs [cf_proc 1 15, cf_proc 2 19] 30 = Some (trace, ps) \<and> length trace = 30 \<and>
    (\<forall>p\<in>set ps. \<forall>q\<in>set ps. unat (cf_vruntime p) \<le> unat (cf_vruntime q) + 10)"
  by (rule cfs_bounded_gap) (simp_all add: cf_proc_def)

text \<open>One time unit adds \<open>1024 / weight\<close> to the virtual run time, in integer arithmetic. For a
  first process with a nice value of at most nine the weight is larger than 1024, so its virtual run
  time stays zero and it is chosen in every step: no other process ever runs.\<close>

theorem cfs_first_process_starves_others:
  assumes "processes \<noteq> []" and "-20 \<le> cf_nice_value (hd processes)" and "cf_nice_value (hd processes) \<le> 9"
  shows "map_option fst (simulate_cfs processes simulation_time) = Some (replicate simulation_time 0)"
proof -
  let ?ps = "map (\<lambda>p. p\<lparr>cf_weight := calculate_weight (cf_nice_value p), cf_vruntime := 0\<rparr>) processes"
  have "unat (cf_weight (hd ?ps)) > 1024"
    using assms by (simp add: list.map_sel(1) calculate_weight_bounds)
  with cfs_loop_starves [of ?ps simulation_time] assms(1) show ?thesis
    by (simp add: simulate_cfs_def)
qed

theorem cfs_first_process_starves_others_witness:
  "map_option fst cfs_main = Some (replicate 15 0)"
  unfolding cfs_main_def by (rule cfs_first_process_starves_others) simp_all

end
