(* ===== verification/Feedback_Queues.thy ===== *)
theory Feedback_Queues
  imports Prelude "HOL-Library.Multiset"
begin

text \<open>
  The multi-level feedback queue (\<^verbatim>\<open>os/process/scheduler/multi_level_queuing.c\<close>), the
  process state machine (\<^verbatim>\<open>process_state.c\<close>) and the preemption timer
  (\<^verbatim>\<open>preemptive_scheduler.c\<close>).

  Each of the three queues is an array of a hundred process pointers with a count. A process is in
  exactly one queue, so the model stores the process itself in the slot; slots from \<open>count\<close> on are
  dead. Adding to a full array is \<open>None\<close>. The simulation loop takes a number of rounds; the theorem
  gives one that is enough.
\<close>

definition MAX_QUEUES :: nat where
  "MAX_QUEUES = 3"

definition MAX_PROCESSES :: nat where
  "MAX_PROCESSES = 100"

record MLFQProcess =
  ml_pid :: int
  ml_burst_time :: int
  ml_remaining_time :: int
  ml_queue_level :: int
  ml_quantum_used :: int

record ml_queue =
  mq_processes :: "MLFQProcess list"
  mq_count :: nat
  mq_quantum :: int

record MLFQ =
  ml_queues :: "ml_queue list"
  ml_current_queue :: nat

definition init_mlfq :: "MLFQProcess list list \<Rightarrow> MLFQ" where
  "init_mlfq storage = \<lparr>ml_queues =
     map (\<lambda>i. \<lparr>mq_processes = storage ! i, mq_count = 0, mq_quantum = 2 ^ i\<rparr>) [0..<MAX_QUEUES],
     ml_current_queue = 0\<rparr>"

definition push_process :: "ml_queue \<Rightarrow> MLFQProcess \<Rightarrow> ml_queue option" where
  "push_process q process = do {
     ps \<leftarrow> c_store (mq_processes q) (mq_count q) process;
     Some (q\<lparr>mq_processes := ps, mq_count := mq_count q + 1\<rparr>)
   }"

definition add_process :: "MLFQ \<Rightarrow> int \<Rightarrow> int \<Rightarrow> MLFQ option" where
  "add_process mlfq pid burst_time = do {
     top_queue \<leftarrow> c_load (ml_queues mlfq) 0;
     q \<leftarrow> push_process top_queue \<lparr>ml_pid = pid, ml_burst_time = burst_time,
       ml_remaining_time = burst_time, ml_queue_level = 0, ml_quantum_used = 0\<rparr>;
     qs \<leftarrow> c_store (ml_queues mlfq) 0 q;
     Some (mlfq\<lparr>ml_queues := qs\<rparr>)
   }"

fun shift_left :: "nat list \<Rightarrow> 'a list \<Rightarrow> 'a list option" where
  "shift_left [] ps = Some ps"
| "shift_left (j # js) ps = do {
     p \<leftarrow> c_load ps (j + 1);
     ps' \<leftarrow> c_store ps j p;
     shift_left js ps'
   }"

definition remove_first :: "ml_queue \<Rightarrow> ml_queue option" where
  "remove_first q = do {
     ps \<leftarrow> shift_left [0..<mq_count q - 1] (mq_processes q);
     Some (q\<lparr>mq_processes := ps, mq_count := mq_count q - 1\<rparr>)
   }"

definition run_first :: "ml_queue \<Rightarrow> (MLFQProcess \<times> ml_queue) option" where
  "run_first q = do {
     p \<leftarrow> c_load (mq_processes q) 0;
     let process = p\<lparr>ml_remaining_time := ml_remaining_time p - 1,
                     ml_quantum_used := ml_quantum_used p + 1\<rparr>;
     ps \<leftarrow> c_store (mq_processes q) 0 process;
     Some (process, q\<lparr>mq_processes := ps\<rparr>)
   }"

text \<open>The trace has one entry per executed slice: process, queue and remaining time.\<close>

fun slice_scan :: "nat list \<Rightarrow> MLFQ \<Rightarrow> ((int \<times> nat \<times> int) list \<times> MLFQ) option" where
  "slice_scan [] mlfq = Some ([], mlfq)"
| "slice_scan (i # is) mlfq = do {
     q \<leftarrow> c_load (ml_queues mlfq) i;
     if mq_count q > 0 then do {
       (process, q1) \<leftarrow> run_first q;
       let ev = (ml_pid process, i, ml_remaining_time process);
       if ml_remaining_time process = 0 then do {
         q2 \<leftarrow> remove_first q1;
         qs \<leftarrow> c_store (ml_queues mlfq) i q2;
         Some ([ev], mlfq\<lparr>ml_queues := qs\<rparr>)
       } else if ml_quantum_used process \<ge> mq_quantum q1 \<and> i < MAX_QUEUES - 1 then do {
         nq \<leftarrow> c_load (ml_queues mlfq) (i + 1);
         nq' \<leftarrow> push_process nq (process\<lparr>ml_queue_level := ml_queue_level process + 1,
           ml_quantum_used := 0\<rparr>);
         q2 \<leftarrow> remove_first q1;
         qs \<leftarrow> c_store (ml_queues mlfq) (i + 1) nq';
         qs' \<leftarrow> c_store qs i q2;
         Some ([ev], mlfq\<lparr>ml_queues := qs'\<rparr>)
       } else do {
         qs \<leftarrow> c_store (ml_queues mlfq) i q1;
         Some ([ev], mlfq\<lparr>ml_queues := qs\<rparr>)
       }
     } else slice_scan is mlfq
   }"

definition execute_time_slice :: "MLFQ \<Rightarrow> ((int \<times> nat \<times> int) list \<times> MLFQ) option" where
  "execute_time_slice mlfq = slice_scan [0..<MAX_QUEUES] mlfq"

text \<open>The outer result is \<open>None\<close> when the rounds do not suffice or an array is left.\<close>

fun run_mlfq :: "nat \<Rightarrow> MLFQ \<Rightarrow> ((int \<times> nat \<times> int) list \<times> MLFQ) option" where
  "run_mlfq fuel mlfq =
     (let processes_remaining = (\<exists>q\<in>set (ml_queues mlfq). mq_count q > 0) in
      if processes_remaining then
        (case fuel of
           0 \<Rightarrow> None
         | Suc k \<Rightarrow> do {
             (ev, m) \<leftarrow> execute_time_slice mlfq;
             (evs, m') \<leftarrow> run_mlfq k m;
             Some (ev @ evs, m')
           })
      else Some ([], mlfq))"

declare run_mlfq.simps [simp del]

definition mlfq_main :: "nat \<Rightarrow> MLFQProcess list list \<Rightarrow> ((int \<times> nat \<times> int) list \<times> MLFQ) option" where
  "mlfq_main fuel storage = do {
     m1 \<leftarrow> add_process (init_mlfq storage) 1 8;
     m2 \<leftarrow> add_process m1 2 4;
     m3 \<leftarrow> add_process m2 3 2;
     run_mlfq fuel m3
   }"

subsection \<open>Queues as lists\<close>

definition mq_list :: "ml_queue \<Rightarrow> MLFQProcess list" where
  "mq_list q = take (mq_count q) (mq_processes q)"

definition mq_ok :: "ml_queue \<Rightarrow> bool" where
  "mq_ok q \<longleftrightarrow> length (mq_processes q) = MAX_PROCESSES \<and> mq_count q \<le> MAX_PROCESSES"

lemma push_process_ok:
  assumes "mq_ok q" and "mq_count q < MAX_PROCESSES"
  obtains q' where "push_process q p = Some q'" "mq_ok q'" "mq_list q' = mq_list q @ [p]"
    "mq_quantum q' = mq_quantum q"
  using assms that [of "q\<lparr>mq_processes := (mq_processes q)[mq_count q := p], mq_count := mq_count q + 1\<rparr>"]
  by (simp add: push_process_def mq_ok_def mq_list_def take_Suc_conv_app_nth)

lemma shift_left_ok:
  assumes "k + n < length ps"
  shows "\<exists>ps'. shift_left [k..<k + n] ps = Some ps' \<and> length ps' = length ps \<and>
    take (k + n) ps' = take k ps @ drop (Suc k) (take (Suc (k + n)) ps)"
  using assms
proof (induction n arbitrary: k ps)
  case 0
  then show ?case by (simp add: take_Suc_conv_app_nth)
next
  case (Suc n)
  let ?ps = "ps[k := ps ! Suc k]"
  from Suc.IH [of "Suc k" ?ps] Suc.prems obtain ps' where
    ps': "shift_left [Suc k..<Suc k + n] ?ps = Some ps'" "length ps' = length ps"
      "take (Suc k + n) ps' = take (Suc k) ?ps @ drop (Suc (Suc k)) (take (Suc (Suc k + n)) ?ps)"
    by auto
  have "take (Suc k) ?ps = take k ps @ [ps ! Suc k]"
    using Suc.prems by (simp add: take_Suc_conv_app_nth)
  moreover have "drop (Suc (Suc k)) (take (Suc (Suc k + n)) ?ps) =
      drop (Suc (Suc k)) (take (Suc (Suc k + n)) ps)"
    by (simp add: take_update_swap)
  moreover have "drop (Suc k) (take (Suc (Suc k + n)) ps) =
      ps ! Suc k # drop (Suc (Suc k)) (take (Suc (Suc k + n)) ps)"
    using Suc.prems by (subst Cons_nth_drop_Suc [symmetric]) simp_all
  moreover have "[k..<k + Suc n] = k # [Suc k..<Suc k + n]" by (simp add: upt_conv_Cons del: upt_Suc)
  ultimately show ?case
    using ps' Suc.prems by (simp del: upt_Suc)
qed

lemma remove_first_ok:
  assumes "mq_ok q" and "0 < mq_count q"
  obtains q' where "remove_first q = Some q'" "mq_ok q'" "mq_list q' = tl (mq_list q)"
    "mq_quantum q' = mq_quantum q"
proof -
  obtain n where n: "mq_count q = Suc n" using assms(2) by (cases "mq_count q") auto
  with shift_left_ok [of 0 n "mq_processes q"] assms(1) obtain ps where
    "shift_left [0..<n] (mq_processes q) = Some ps" "length ps = length (mq_processes q)"
    "take n ps = drop 1 (take (Suc n) (mq_processes q))" by (auto simp: mq_ok_def)
  with assms(1) n that [of "q\<lparr>mq_processes := ps, mq_count := n\<rparr>"] show thesis
    by (simp add: remove_first_def mq_ok_def mq_list_def drop_Suc)
qed

lemma run_first_ok:
  assumes "mq_ok q" and "0 < mq_count q"
  obtains p ps q' where "mq_list q = p # ps" "mq_ok q'" "mq_count q' = mq_count q"
    "mq_quantum q' = mq_quantum q"
    "run_first q = Some (p\<lparr>ml_remaining_time := ml_remaining_time p - 1,
       ml_quantum_used := ml_quantum_used p + 1\<rparr>, q')"
    "mq_list q' = p\<lparr>ml_remaining_time := ml_remaining_time p - 1,
       ml_quantum_used := ml_quantum_used p + 1\<rparr> # ps"
proof -
  from assms obtain p rest where ps: "mq_processes q = p # rest"
    by (cases "mq_processes q") (auto simp: mq_ok_def)
  obtain n where n: "mq_count q = Suc n" using assms(2) by (cases "mq_count q") auto
  let ?p = "p\<lparr>ml_remaining_time := ml_remaining_time p - 1, ml_quantum_used := ml_quantum_used p + 1\<rparr>"
  show thesis
    using assms ps n
    by (intro that [of p "take n rest" "q\<lparr>mq_processes := ?p # rest\<rparr>"])
      (simp_all add: mq_list_def mq_ok_def run_first_def Let_def)
qed

subsection \<open>A time slice does one unit of work\<close>

definition ml_bag :: "MLFQ \<Rightarrow> MLFQProcess multiset" where
  "ml_bag m = sum_list (map (\<lambda>q. mset (mq_list q)) (ml_queues m))"

definition mlfq_ok :: "MLFQ \<Rightarrow> bool" where
  "mlfq_ok m \<longleftrightarrow> length (ml_queues m) = MAX_QUEUES \<and> (\<forall>q\<in>set (ml_queues m). mq_ok q) \<and>
     size (ml_bag m) \<le> MAX_PROCESSES \<and> (\<forall>p\<in>#ml_bag m. 0 < ml_remaining_time p)"

text \<open>What one slice does to the bag of processes: one process of it ran.\<close>

definition slice_ran :: "MLFQProcess \<Rightarrow> MLFQProcess multiset \<Rightarrow> MLFQProcess multiset \<Rightarrow> bool" where
  "slice_ran p B B' \<longleftrightarrow> (\<exists>R. B = add_mset p R \<and>
     (if ml_remaining_time p = 1 then B' = R
      else (\<exists>p'. B' = add_mset p' R \<and> ml_pid p' = ml_pid p \<and>
        ml_remaining_time p' = ml_remaining_time p - 1)))"

lemma mq_list_size: "mq_ok q \<Longrightarrow> length (mq_list q) = mq_count q"
  by (simp add: mq_ok_def mq_list_def)

lemma bag_one:
  assumes "i < length qs"
  obtains S where "sum_list (map f qs) = f (qs ! i) + (S :: 'b multiset)"
    "\<And>q. sum_list (map f (qs[i := q])) = f q + S"
proof
  let ?S = "sum_list (map f (take i qs)) + sum_list (map f (drop (Suc i) qs))"
  show up: "sum_list (map f (qs[i := q])) = f q + ?S" for q
    using assms by (simp add: upd_conv_take_nth_drop ac_simps)
  show "sum_list (map f qs) = f (qs ! i) + ?S" using up [of "qs ! i"] by simp
qed

lemma bag_two:
  assumes "Suc i < length qs"
  obtains S where "sum_list (map f qs) = f (qs ! i) + f (qs ! Suc i) + (S :: 'b multiset)"
    "\<And>a b. sum_list (map f (qs[Suc i := b, i := a])) = f a + f b + S"
proof
  let ?S = "sum_list (map f (take i qs)) + sum_list (map f (drop (Suc (Suc i)) qs))"
  show up: "sum_list (map f (qs[Suc i := b, i := a])) = f a + f b + ?S" for a b
  proof -
    have "qs[Suc i := b, i := a] = take i qs @ a # b # drop (Suc (Suc i)) qs"
      using assms by (simp add: upd_conv_take_nth_drop take_Suc_conv_app_nth list_update_append)
    then show ?thesis by (simp add: ac_simps)
  qed
  show "sum_list (map f qs) = f (qs ! i) + f (qs ! Suc i) + ?S"
    using up [of "qs ! Suc i" "qs ! i"] by simp
qed

lemma slice_scan_ok:
  assumes "mlfq_ok m" and "i < MAX_QUEUES" and "0 < mq_count (ml_queues m ! i)"
  obtains p m' where "slice_scan (i # is) m = Some ([(ml_pid p, i, ml_remaining_time p - 1)], m')"
    "length (ml_queues m') = MAX_QUEUES" "\<forall>q\<in>set (ml_queues m'). mq_ok q" "slice_ran p (ml_bag m) (ml_bag m')"
proof -
  let ?qs = "ml_queues m"
  let ?f = "\<lambda>q. mset (mq_list q)"
  have len: "length ?qs = MAX_QUEUES" "i < length ?qs" and all_ok: "\<forall>x\<in>set ?qs. mq_ok x"
    using assms by (auto simp: mlfq_ok_def)
  then have oks: "mq_ok (?qs ! j)" if "j < length ?qs" for j using that by simp
  let ?q = "?qs ! i"
  obtain p ps q1 where r: "mq_list ?q = p # ps" "mq_ok q1" "mq_count q1 = mq_count ?q"
    "mq_quantum q1 = mq_quantum ?q"
    "run_first ?q = Some (p\<lparr>ml_remaining_time := ml_remaining_time p - 1,
       ml_quantum_used := ml_quantum_used p + 1\<rparr>, q1)"
    "mq_list q1 = p\<lparr>ml_remaining_time := ml_remaining_time p - 1,
       ml_quantum_used := ml_quantum_used p + 1\<rparr> # ps"
    using oks [OF len(2)] assms(3) by (rule run_first_ok)
  let ?p = "p\<lparr>ml_remaining_time := ml_remaining_time p - 1, ml_quantum_used := ml_quantum_used p + 1\<rparr>"
  have pos: "0 < mq_count q1" using r(3) assms(3) by simp
  from r(2) pos obtain q2 where q2: "remove_first q1 = Some q2" "mq_ok q2" "mq_list q2 = tl (mq_list q1)"
    by (rule remove_first_ok)
  have upd_ok: "\<forall>x\<in>set (qs[j := y]). mq_ok x" if "\<forall>x\<in>set qs. mq_ok x" "mq_ok y" for qs j y
    using that set_update_subset_insert [of qs j y] by auto
  obtain S where S: "sum_list (map ?f ?qs) = ?f ?q + S" "\<And>x. sum_list (map ?f (?qs[i := x])) = ?f x + S"
    using bag_one [OF len(2), of ?f] by blast
  show thesis
  proof (cases "ml_remaining_time ?p = 0")
    case True
    let ?m = "m\<lparr>ml_queues := ?qs[i := q2]\<rparr>"
    have "slice_scan (i # is) m = Some ([(ml_pid p, i, ml_remaining_time p - 1)], ?m)"
      using True r(5) q2(1) assms(3) len by (simp add: Let_def)
    moreover have "slice_ran p (ml_bag m) (ml_bag ?m)"
      using True S r(1,6) q2(3) by (simp add: slice_ran_def ml_bag_def)
    ultimately show thesis
      using that [of p ?m] upd_ok [OF all_ok q2(2), of i] len(1) by simp
  next
    case nz: False
    show thesis
    proof (cases "ml_quantum_used ?p \<ge> mq_quantum q1 \<and> i < MAX_QUEUES - 1")
      case True
      then have i1: "Suc i < length ?qs" using len by (simp add: less_diff_conv)
      obtain S2 where S2: "sum_list (map ?f ?qs) = ?f ?q + ?f (?qs ! Suc i) + S2"
        "\<And>a b. sum_list (map ?f (?qs[Suc i := b, i := a])) = ?f a + ?f b + S2"
        using bag_two [OF i1, of ?f] by blast
      have "mq_count (?qs ! Suc i) < MAX_PROCESSES"
        using S2(1) assms(1) r(1) mq_list_size [OF oks [OF i1]] by (simp add: mlfq_ok_def ml_bag_def)
      with oks [OF i1] obtain nq where nq: "push_process (?qs ! Suc i)
          (?p\<lparr>ml_queue_level := ml_queue_level ?p + 1, ml_quantum_used := 0\<rparr>) = Some nq" "mq_ok nq"
        "mq_list nq = mq_list (?qs ! Suc i) @
          [?p\<lparr>ml_queue_level := ml_queue_level ?p + 1, ml_quantum_used := 0\<rparr>]"
        by (rule push_process_ok)
      let ?m = "m\<lparr>ml_queues := ?qs[Suc i := nq, i := q2]\<rparr>"
      have "slice_scan (i # is) m = Some ([(ml_pid p, i, ml_remaining_time p - 1)], ?m)"
        using True nz r(5) q2(1) assms(3) len nq(1) i1 by (simp add: Let_def)
      moreover have "slice_ran p (ml_bag m) (ml_bag ?m)"
        using nz S2 r(1,6) q2(3) nq(3) by (simp add: slice_ran_def ml_bag_def)
      ultimately show thesis
        using that [of p ?m] upd_ok [OF upd_ok [OF all_ok nq(2)] q2(2), of "Suc i" i] len(1) by simp
    next
      case False
      let ?m = "m\<lparr>ml_queues := ?qs[i := q1]\<rparr>"
      have "slice_scan (i # is) m = Some ([(ml_pid p, i, ml_remaining_time p - 1)], ?m)"
        using False nz r(5) assms(3) len by (auto simp: Let_def)
      moreover have "slice_ran p (ml_bag m) (ml_bag ?m)"
        using nz S r(1,6) by (auto simp: slice_ran_def ml_bag_def)
      ultimately show thesis
        using that [of p ?m] upd_ok [OF all_ok r(2), of i] len(1) by simp
    qed
  qed
qed

lemma execute_time_slice_ok:
  assumes "mlfq_ok m" and "\<exists>q\<in>set (ml_queues m). 0 < mq_count q"
  obtains p i m' where "execute_time_slice m = Some ([(ml_pid p, i, ml_remaining_time p - 1)], m')"
    "mlfq_ok m'" "slice_ran p (ml_bag m) (ml_bag m')" "0 < ml_remaining_time p"
proof -
  have len: "length (ml_queues m) = MAX_QUEUES" using assms(1) by (simp add: mlfq_ok_def)
  let ?busy = "\<lambda>i. 0 < mq_count (ml_queues m ! i)"
  have "\<exists>i. i < MAX_QUEUES \<and> ?busy i" using assms(2) len by (metis in_set_conv_nth)
  then obtain i where i: "i < MAX_QUEUES" "?busy i" "\<forall>j<i. \<not> ?busy j"
    using exists_least_iff [of "\<lambda>i. i < MAX_QUEUES \<and> ?busy i"] by (metis less_trans)
  have skip: "slice_scan [k..<MAX_QUEUES] m = slice_scan [i..<MAX_QUEUES] m" if "k \<le> i" for k
    using that
  proof (induction "i - k" arbitrary: k)
    case (Suc d)
    then have k: "k < i" "d = i - Suc k" by simp_all
    have up: "[k..<MAX_QUEUES] = k # [Suc k..<MAX_QUEUES]" using k i(1) by (simp add: upt_conv_Cons)
    have "slice_scan [k..<MAX_QUEUES] m = slice_scan [Suc k..<MAX_QUEUES] m"
      using k i(1,3) len unfolding up by simp
    with Suc.hyps(1) [OF k(2)] k(1) show ?case by simp
  qed simp
  obtain p m' where r: "slice_scan (i # [Suc i..<MAX_QUEUES]) m =
      Some ([(ml_pid p, i, ml_remaining_time p - 1)], m')" "length (ml_queues m') = MAX_QUEUES"
    "\<forall>q\<in>set (ml_queues m'). mq_ok q" "slice_ran p (ml_bag m) (ml_bag m')"
    using assms(1) i(1,2) by (rule slice_scan_ok)
  have "execute_time_slice m = Some ([(ml_pid p, i, ml_remaining_time p - 1)], m')"
    using r(1) skip [of 0] i(1) by (simp add: execute_time_slice_def upt_conv_Cons)
  moreover have pos: "0 < ml_remaining_time p"
    using assms(1) r(4) by (auto simp: mlfq_ok_def slice_ran_def)
  moreover have "mlfq_ok m'"
    using assms(1) r(2-4) pos by (auto simp: mlfq_ok_def slice_ran_def split: if_splits)
  ultimately show thesis using that r(4) by blast
qed

subsection \<open>The simulation serves every process its burst\<close>

definition ml_work :: "MLFQProcess multiset \<Rightarrow> nat" where
  "ml_work B = (\<Sum>p\<in>#B. nat (ml_remaining_time p))"

definition ml_demand :: "int \<Rightarrow> MLFQProcess multiset \<Rightarrow> nat" where
  "ml_demand x B = (\<Sum>p\<in>#B. if ml_pid p = x then nat (ml_remaining_time p) else 0)"

definition slices_of :: "int \<Rightarrow> (int \<times> nat \<times> int) list \<Rightarrow> nat" where
  "slices_of x evs = length (filter (\<lambda>e. fst e = x) evs)"

lemma ran_work:
  assumes "slice_ran p B B'" and "0 < ml_remaining_time p"
  shows "ml_work B = Suc (ml_work B')"
    and "ml_demand x B = (if ml_pid p = x then 1 else 0) + ml_demand x B'"
proof -
  have n: "nat (ml_remaining_time p) = Suc (nat (ml_remaining_time p - 1))" using assms(2) by simp
  show "ml_work B = Suc (ml_work B')" "ml_demand x B = (if ml_pid p = x then 1 else 0) + ml_demand x B'"
    using assms(1) n by (auto simp: slice_ran_def ml_work_def ml_demand_def split: if_splits)
qed

lemma bag_empty: "sum_list (map f qs) = {#} \<Longrightarrow> q \<in> set qs \<Longrightarrow> f q = {#}"
  by (induction qs) auto

lemma bag_zero: "\<forall>q\<in>set qs. f q = {#} \<Longrightarrow> sum_list (map f qs) = {#}"
  by (induction qs) auto

lemma run_mlfq_ok:
  assumes "mlfq_ok m" and "ml_work (ml_bag m) = fuel"
  shows "\<exists>evs m'. run_mlfq fuel m = Some (evs, m') \<and> ml_bag m' = {#} \<and> mlfq_ok m' \<and>
    length evs = fuel \<and> (\<forall>x. slices_of x evs = ml_demand x (ml_bag m))"
  using assms
proof (induction fuel arbitrary: m)
  case 0
  have "ml_bag m = {#}"
  proof (rule ccontr)
    assume "ml_bag m \<noteq> {#}"
    then obtain p B where "ml_bag m = add_mset p B" by (metis multiset_cases)
    with 0 show False by (auto simp: ml_work_def mlfq_ok_def)
  qed
  moreover have "mq_count q = 0" if "q \<in> set (ml_queues m)" for q
    using bag_empty [OF calculation [unfolded ml_bag_def] that] mq_list_size [of q] 0(1) that
    by (simp add: mlfq_ok_def)
  ultimately show ?case using 0
    by (subst run_mlfq.simps) (auto simp: slices_of_def ml_demand_def)
next
  case (Suc k)
  have "\<exists>q\<in>set (ml_queues m). 0 < mq_count q"
  proof (rule ccontr)
    assume "\<not> ?thesis"
    then have "\<forall>q\<in>set (ml_queues m). mq_list q = []" by (simp add: mq_list_def)
    then have "ml_bag m = {#}" unfolding ml_bag_def by (intro bag_zero) simp
    with Suc.prems(2) show False by (simp add: ml_work_def)
  qed
  note busy = this
  from Suc.prems(1) this obtain p i m1 where
    e: "execute_time_slice m = Some ([(ml_pid p, i, ml_remaining_time p - 1)], m1)" "mlfq_ok m1"
      "slice_ran p (ml_bag m) (ml_bag m1)" "0 < ml_remaining_time p" by (rule execute_time_slice_ok)
  note w = ran_work [OF e(3,4)]
  have "ml_work (ml_bag m1) = k" using w(1) Suc.prems(2) by simp
  from Suc.IH [OF e(2) this] obtain evs m' where
    "run_mlfq k m1 = Some (evs, m')" "ml_bag m' = {#}" "mlfq_ok m'" "length evs = k"
    "\<forall>x. slices_of x evs = ml_demand x (ml_bag m1)" by blast
  with busy e(1) w(2) show ?case
    by (subst run_mlfq.simps) (simp add: slices_of_def)
qed

subsection \<open>The process state machine\<close>

datatype ProcessState = CREATED | RUNNING | WAITING | READY | TERMINATED

record st_process =
  st_pid :: int
  st_state :: ProcessState
  st_cpu_burst_time :: int
  st_io_burst_time :: int

definition create_process :: "int \<Rightarrow> int \<Rightarrow> int \<Rightarrow> st_process" where
  "create_process pid cpu_time io_time =
     \<lparr>st_pid = pid, st_state = CREATED, st_cpu_burst_time = cpu_time, st_io_burst_time = io_time\<rparr>"

definition transition_state ::
  "ProcessState \<Rightarrow> (ProcessState \<times> ProcessState) list \<times> st_process
    \<Rightarrow> (ProcessState \<times> ProcessState) list \<times> st_process" where
  "transition_state new_state = (\<lambda>(out, p). (out @ [(st_state p, new_state)], p\<lparr>st_state := new_state\<rparr>))"

definition simulate_process :: "st_process \<Rightarrow> (ProcessState \<times> ProcessState) list \<times> st_process" where
  "simulate_process p =
     (let s1 = transition_state RUNNING (transition_state READY ([], p));
          s2 = (if st_io_burst_time (snd s1) > 0
                then transition_state RUNNING (transition_state READY (transition_state WAITING s1))
                else s1)
      in transition_state TERMINATED s2)"

text \<open>The diagram the simulation follows.\<close>

inductive state_step :: "ProcessState \<Rightarrow> ProcessState \<Rightarrow> bool" where
  admit: "state_step CREATED READY"
| dispatch: "state_step READY RUNNING"
| block: "state_step RUNNING WAITING"
| wake: "state_step WAITING READY"
| finish: "state_step RUNNING TERMINATED"

inductive_cases terminated_step: "state_step TERMINATED s"
inductive_simps running_step: "state_step RUNNING s"

fun state_path :: "ProcessState \<Rightarrow> (ProcessState \<times> ProcessState) list \<Rightarrow> ProcessState \<Rightarrow> bool" where
  "state_path s [] t \<longleftrightarrow> s = t"
| "state_path s ((a, b) # es) t \<longleftrightarrow> s = a \<and> state_step a b \<and> state_path b es t"

lemma simulate_process_path:
  "state_path CREATED (fst (simulate_process (create_process pid cpu io))) TERMINATED \<and>
   ((RUNNING, WAITING) \<in> set (fst (simulate_process (create_process pid cpu io))) \<longleftrightarrow> 0 < io)"
  by (auto simp: simulate_process_def create_process_def transition_state_def Let_def
      intro: state_step.intros)

subsection \<open>The preemption timer\<close>

definition QUANTUM_MS :: int where
  "QUANTUM_MS = 100"

record Task =
  tk_pid :: int
  tk_remaining_time :: int

definition create_task :: "int \<Rightarrow> int \<Rightarrow> Task" where
  "create_task pid execution_time = \<lparr>tk_pid = pid, tk_remaining_time = execution_time\<rparr>"

definition timer_handler :: "Task option \<Rightarrow> Task option" where
  "timer_handler current_task =
     (case current_task of
        None \<Rightarrow> None
      | Some t \<Rightarrow>
          (let t' = t\<lparr>tk_remaining_time := tk_remaining_time t - QUANTUM_MS\<rparr>
           in if tk_remaining_time t' \<le> 0 then None else Some t'))"

text \<open>A task of \<open>t\<close> milliseconds is finished by the first timer signal at or after its time.\<close>

lemma timer_handler_iterate:
  assumes "0 < tk_remaining_time t"
  shows "(timer_handler ^^ n) (Some t) = None \<longleftrightarrow> tk_remaining_time t \<le> int n * QUANTUM_MS"
  using assms
proof (induction n arbitrary: t)
  case (Suc n)
  have "timer_handler None = None" by (simp add: timer_handler_def)
  then have none: "(timer_handler ^^ m) None = None" for m by (induction m) simp_all
  let ?t = "t\<lparr>tk_remaining_time := tk_remaining_time t - QUANTUM_MS\<rparr>"
  have "(timer_handler ^^ Suc n) (Some t) = (timer_handler ^^ n) (timer_handler (Some t))"
    by (simp only: funpow_Suc_right comp_def)
  also have "timer_handler (Some t) = (if tk_remaining_time ?t \<le> 0 then None else Some ?t)"
    by (simp add: timer_handler_def)
  finally show ?case
    using Suc.IH [of ?t] none by (auto simp: algebra_simps QUANTUM_MS_def)
qed simp

subsection \<open>Properties\<close>

text \<open>The multi-level feedback queue stops with all queues empty, and gives every process
  exactly as many time slices as its remaining time asks for, whatever moves between the queues it
  makes; no queue overflows while there are at most \<open>MAX_PROCESSES\<close> processes in all.\<close>

theorem mlfq_serves_every_burst:
  assumes "mlfq_ok m"
  shows "\<exists>evs m'. run_mlfq (ml_work (ml_bag m)) m = Some (evs, m') \<and> ml_bag m' = {#} \<and>
    length evs = ml_work (ml_bag m) \<and> (\<forall>x. slices_of x evs = ml_demand x (ml_bag m))"
  using run_mlfq_ok [OF assms refl] by blast

definition ml_blank :: "MLFQProcess list list" where
  "ml_blank = replicate 3 (replicate 100 \<lparr>ml_pid = 0, ml_burst_time = 0, ml_remaining_time = 0,
     ml_queue_level = 0, ml_quantum_used = 0\<rparr>)"

definition ml_example :: MLFQ where
  "ml_example = the (do { m \<leftarrow> add_process (init_mlfq ml_blank) 1 8; add_process m 2 4 })"

theorem mlfq_serves_every_burst_witness:
  "mlfq_ok ml_example \<and> (\<exists>evs m'. run_mlfq 12 ml_example = Some (evs, m') \<and> slices_of 2 evs = 4)"
proof -
  let ?p = "\<lambda>x b. \<lparr>ml_pid = x, ml_burst_time = b, ml_remaining_time = b, ml_queue_level = 0,
    ml_quantum_used = 0\<rparr>"
  have bag: "ml_bag ml_example = {#?p 1 8, ?p 2 4#}"
    by (simp add: ml_bag_def ml_example_def add_process_def init_mlfq_def ml_blank_def push_process_def
        MAX_QUEUES_def upt_conv_Cons mq_list_def numeral_3_eq_3 take_Suc_conv_app_nth)
  have ok: "mlfq_ok ml_example"
    unfolding mlfq_ok_def bag
    by (simp add: ml_example_def add_process_def init_mlfq_def ml_blank_def push_process_def
        MAX_QUEUES_def MAX_PROCESSES_def upt_conv_Cons mq_ok_def numeral_3_eq_3)
  have "ml_work (ml_bag ml_example) = 12" "ml_demand 2 (ml_bag ml_example) = 4"
    unfolding bag by (simp_all add: ml_work_def ml_demand_def)
  with mlfq_serves_every_burst [OF ok] ok show ?thesis by auto
qed

end
