(* ===== verification/Buffer_Manager.thy ===== *)
theory Buffer_Manager
  imports Ring_Fifo "HOL-Library.Multiset"
begin

text \<open>
  The buffer manager (\<^verbatim>\<open>os/filesystem/CustomBufferManagementSystem.c\<close>): a pool of page
  frames, a page table that is a hash table with linear probing, a list of free frames and the clock
  replacement algorithm. The global variables are the state \<open>buf_mgr\<close>.

  \<open>-1\<close> marks an empty slot and an unused frame, as in the code. A page's data is the number of the
  page whose text was read into it. The disk operations are an event list; the clock reading of
  \<open>gettimeofday\<close> is an argument. The probing loops may run for ever and are partial functions; the
  clock algorithm takes a number of rounds. Pin counts are integers without bounds; those of the program would
  overflow after some two thousand million fetches of one page that is never released.

  The locale \<open>page_map\<close> is the contract of a page table: a lookup after an insertion. The table
  keeps it as long as nothing is removed; that removal breaks it is a theorem.
\<close>

subsection \<open>The state\<close>

definition BUFFER_POOL_SIZE :: nat where
  "BUFFER_POOL_SIZE = 1024"

definition PAGE_TABLE_SIZE :: nat where
  "PAGE_TABLE_SIZE = 2048"

record Page =
  pg_data :: "int option"
  pg_page_id :: int
  pg_is_dirty :: bool
  pg_pin_count :: int
  pg_last_used :: int

record PageTableEntry =
  pe_page_id :: int
  pe_frame_id :: int

type_synonym page_table = "PageTableEntry list"

record buf_mgr =
  buffer_pool :: "Page list"
  page_table :: page_table
  free_list :: "nat list"
  clock_hand :: nat
  reference_bits :: "bool list"

datatype disk_event = ReadPage int | WritePage int

fun init_pool_loop :: "nat list \<Rightarrow> buf_mgr \<Rightarrow> buf_mgr option" where
  "init_pool_loop [] s = Some s"
| "init_pool_loop (i # is) s = do {
     p \<leftarrow> c_load (buffer_pool s) i;
     pool \<leftarrow> c_store (buffer_pool s) i (p\<lparr>pg_page_id := -1, pg_is_dirty := False, pg_pin_count := 0\<rparr>);
     refs \<leftarrow> c_store (reference_bits s) i False;
     init_pool_loop is (s\<lparr>buffer_pool := pool, free_list := i # free_list s, reference_bits := refs\<rparr>)
   }"

definition init_buffer_pool :: "buf_mgr \<Rightarrow> buf_mgr option" where
  "init_buffer_pool s = do {
     s1 \<leftarrow> init_pool_loop [0..<BUFFER_POOL_SIZE] s;
     t \<leftarrow> update_each (\<lambda>_. \<lparr>pe_page_id = -1, pe_frame_id = -1\<rparr>) [0..<PAGE_TABLE_SIZE] (page_table s1);
     Some (s1\<lparr>page_table := t\<rparr>)
   }"

subsection \<open>The page table\<close>

text \<open>C's remainder keeps the sign of the page number; a negative index leaves the table.\<close>

definition hash_function :: "int \<Rightarrow> int" where
  "hash_function page_id = page_id smod int PAGE_TABLE_SIZE"

definition pt_load :: "page_table \<Rightarrow> int \<Rightarrow> PageTableEntry option" where
  "pt_load t h = (if h < 0 then None else c_load t (nat h))"

definition pt_store :: "page_table \<Rightarrow> int \<Rightarrow> PageTableEntry \<Rightarrow> page_table option" where
  "pt_store t h e = (if h < 0 then None else c_store t (nat h) e)"

partial_function (option) lookup_loop :: "page_table \<Rightarrow> int \<Rightarrow> int \<Rightarrow> int option" where
  "lookup_loop t page_id h = do {
     e \<leftarrow> pt_load t h;
     if pe_page_id e \<noteq> -1 then
       (if pe_page_id e = page_id then Some (pe_frame_id e)
        else lookup_loop t page_id ((h + 1) mod int PAGE_TABLE_SIZE))
     else Some (-1)
   }"

definition lookup_page :: "page_table \<Rightarrow> int \<Rightarrow> int option" where
  "lookup_page t page_id = lookup_loop t page_id (hash_function page_id)"

partial_function (option) insert_loop :: "page_table \<Rightarrow> int \<Rightarrow> int \<Rightarrow> int \<Rightarrow> page_table option" where
  "insert_loop t page_id frame_id h = do {
     e \<leftarrow> pt_load t h;
     if pe_page_id e \<noteq> -1 then insert_loop t page_id frame_id ((h + 1) mod int PAGE_TABLE_SIZE)
     else pt_store t h \<lparr>pe_page_id = page_id, pe_frame_id = frame_id\<rparr>
   }"

definition insert_into_page_table :: "page_table \<Rightarrow> int \<Rightarrow> int \<Rightarrow> page_table option" where
  "insert_into_page_table t page_id frame_id = insert_loop t page_id frame_id (hash_function page_id)"

partial_function (option) remove_loop :: "page_table \<Rightarrow> int \<Rightarrow> int \<Rightarrow> page_table option" where
  "remove_loop t page_id h = do {
     e \<leftarrow> pt_load t h;
     if pe_page_id e \<noteq> page_id then remove_loop t page_id ((h + 1) mod int PAGE_TABLE_SIZE)
     else pt_store t h \<lparr>pe_page_id = -1, pe_frame_id = -1\<rparr>
   }"

definition remove_from_page_table :: "page_table \<Rightarrow> int \<Rightarrow> page_table option" where
  "remove_from_page_table t page_id = remove_loop t page_id (hash_function page_id)"

lemmas page_table_loops [code] = lookup_loop.simps insert_loop.simps remove_loop.simps

subsection \<open>Replacement and the page operations\<close>

fun find_victim_page :: "nat \<Rightarrow> Page list \<Rightarrow> bool list \<Rightarrow> nat \<Rightarrow> (nat \<times> bool list \<times> nat) option" where
  "find_victim_page 0 pool refs hand = None"
| "find_victim_page (Suc k) pool refs hand = do {
     p \<leftarrow> c_load pool hand;
     r \<leftarrow> c_load refs hand;
     if pg_pin_count p = 0 then
       (if r then do { refs' \<leftarrow> c_store refs hand False;
                       find_victim_page k pool refs' ((hand + 1) mod BUFFER_POOL_SIZE) }
        else Some (hand, refs, (hand + 1) mod BUFFER_POOL_SIZE))
     else find_victim_page k pool refs ((hand + 1) mod BUFFER_POOL_SIZE)
   }"

definition victim_rounds :: nat where
  "victim_rounds = 2 * BUFFER_POOL_SIZE"

definition frame_page :: "buf_mgr \<Rightarrow> int \<Rightarrow> Page option" where
  "frame_page s f = (if f < 0 then None else c_load (buffer_pool s) (nat f))"

text \<open>The frame for a missing page: a free one, or a victim, whose page is written back when it is
  dirty and removed from the table.\<close>

definition take_frame :: "buf_mgr \<Rightarrow> (disk_event list \<times> nat \<times> buf_mgr) option" where
  "take_frame s =
     (case free_list s of
        f # rest \<Rightarrow> Some ([], f, s\<lparr>free_list := rest\<rparr>)
      | [] \<Rightarrow> do {
          (f, refs, hand) \<leftarrow> find_victim_page victim_rounds (buffer_pool s) (reference_bits s) (clock_hand s);
          p \<leftarrow> c_load (buffer_pool s) f;
          t \<leftarrow> remove_from_page_table (page_table s) (pg_page_id p);
          Some (if pg_is_dirty p then [WritePage (pg_page_id p)] else [], f,
                s\<lparr>reference_bits := refs, clock_hand := hand, page_table := t\<rparr>)
        })"

definition fetch_page :: "int \<Rightarrow> int \<Rightarrow> buf_mgr \<Rightarrow> (disk_event list \<times> int \<times> buf_mgr) option" where
  "fetch_page now page_id s = do {
     frame_id \<leftarrow> lookup_page (page_table s) page_id;
     if frame_id \<noteq> -1 then do {
       p \<leftarrow> frame_page s frame_id;
       pool \<leftarrow> c_store (buffer_pool s) (nat frame_id)
         (p\<lparr>pg_pin_count := pg_pin_count p + 1, pg_last_used := now\<rparr>);
       refs \<leftarrow> c_store (reference_bits s) (nat frame_id) True;
       Some ([], frame_id, s\<lparr>buffer_pool := pool, reference_bits := refs\<rparr>)
     } else do {
       (ev, f, s1) \<leftarrow> take_frame s;
       pool \<leftarrow> c_store (buffer_pool s1) f
         \<lparr>pg_data = Some page_id, pg_page_id = page_id, pg_is_dirty = False, pg_pin_count = 1,
          pg_last_used = now\<rparr>;
       refs \<leftarrow> c_store (reference_bits s1) f True;
       t \<leftarrow> insert_into_page_table (page_table s1) page_id (int f);
       Some (ev @ [ReadPage page_id], int f,
             s1\<lparr>buffer_pool := pool, reference_bits := refs, page_table := t\<rparr>)
     }
   }"

definition unpin_page :: "int \<Rightarrow> buf_mgr \<Rightarrow> buf_mgr option" where
  "unpin_page page_id s = do {
     frame_id \<leftarrow> lookup_page (page_table s) page_id;
     if frame_id \<noteq> -1 then do {
       p \<leftarrow> frame_page s frame_id;
       if pg_pin_count p > 0 then do {
         pool \<leftarrow> c_store (buffer_pool s) (nat frame_id) (p\<lparr>pg_pin_count := pg_pin_count p - 1\<rparr>);
         Some (s\<lparr>buffer_pool := pool\<rparr>)
       } else Some s
     } else Some s
   }"

definition mark_page_dirty :: "int \<Rightarrow> buf_mgr \<Rightarrow> buf_mgr option" where
  "mark_page_dirty page_id s = do {
     frame_id \<leftarrow> lookup_page (page_table s) page_id;
     if frame_id \<noteq> -1 then do {
       p \<leftarrow> frame_page s frame_id;
       pool \<leftarrow> c_store (buffer_pool s) (nat frame_id) (p\<lparr>pg_is_dirty := True\<rparr>);
       Some (s\<lparr>buffer_pool := pool\<rparr>)
     } else Some s
   }"

definition flush_dirty_pages :: "buf_mgr \<Rightarrow> (disk_event list \<times> buf_mgr) option" where
  "flush_dirty_pages s = do {
     pool \<leftarrow> update_each (\<lambda>p. p\<lparr>pg_is_dirty := False\<rparr>) [0..<BUFFER_POOL_SIZE] (buffer_pool s);
     Some (map (\<lambda>p. WritePage (pg_page_id p)) (filter pg_is_dirty (take BUFFER_POOL_SIZE (buffer_pool s))),
           s\<lparr>buffer_pool := pool\<rparr>)
   }"

definition print_buffer_pool_stats :: "buf_mgr \<Rightarrow> nat \<times> nat \<times> nat" where
  "print_buffer_pool_stats s =
     (let used = filter (\<lambda>p. pg_page_id p \<noteq> -1) (buffer_pool s)
      in (length used, length (filter pg_is_dirty used),
          length (filter (\<lambda>p. pg_pin_count p > 0) used)))"

definition print_page_table :: "buf_mgr \<Rightarrow> (nat \<times> int \<times> int) list" where
  "print_page_table s =
     map (\<lambda>i. (i, pe_page_id (page_table s ! i), pe_frame_id (page_table s ! i)))
       (filter (\<lambda>i. pe_page_id (page_table s ! i) \<noteq> -1) [0..<length (page_table s)])"

fun buffer_scenario :: "nat list \<Rightarrow> buf_mgr \<Rightarrow> (disk_event list \<times> buf_mgr) option" where
  "buffer_scenario [] s = Some ([], s)"
| "buffer_scenario (i # is) s = do {
     (ev, f, s1) \<leftarrow> fetch_page 0 (int i) s;
     s2 \<leftarrow> (if i mod 3 = 0 then mark_page_dirty (int i) s1 else Some s1);
     s3 \<leftarrow> (if i mod 5 \<noteq> 0 then unpin_page (int i) s2 else Some s2);
     (evs, s4) \<leftarrow> buffer_scenario is s3;
     Some (ev @ evs, s4)
   }"

definition buffer_main :: "buf_mgr \<Rightarrow> (disk_event list \<times> buf_mgr) option" where
  "buffer_main s = do {
     s1 \<leftarrow> init_buffer_pool s;
     (ev, s2) \<leftarrow> buffer_scenario [0..<BUFFER_POOL_SIZE + 10] s1;
     (ev', s3) \<leftarrow> flush_dirty_pages s2;
     Some (ev @ ev', s3)
   }"

subsection \<open>The contract of a page table\<close>

text \<open>
  \<open>cells t\<close> is what the table maps to what; \<open>room t\<close> is how many more pages it can take.
  The client lemma is about filling a table with many pages.
\<close>

fun insert_all :: "('t \<Rightarrow> int \<Rightarrow> int \<Rightarrow> 't option) \<Rightarrow> 't \<Rightarrow> (int \<times> int) list \<Rightarrow> 't option" where
  "insert_all ins t [] = Some t"
| "insert_all ins t ((p, f) # xs) = Option.bind (ins t p f) (\<lambda>t'. insert_all ins t' xs)"

locale page_map =
  fixes lookup :: "'t \<Rightarrow> int \<Rightarrow> int option"
    and insert :: "'t \<Rightarrow> int \<Rightarrow> int \<Rightarrow> 't option"
    and ok :: "'t \<Rightarrow> bool"
    and cells :: "'t \<Rightarrow> int \<rightharpoonup> int"
    and room :: "'t \<Rightarrow> nat"
  assumes lookup_cells: "ok t \<Longrightarrow> 0 \<le> p \<Longrightarrow> lookup t p = Some (case cells t p of None \<Rightarrow> -1 | Some f \<Rightarrow> f)"
    and insert_ok: "ok t \<Longrightarrow> 0 \<le> p \<Longrightarrow> cells t p = None \<Longrightarrow> 0 < room t \<Longrightarrow>
      \<exists>t'. insert t p f = Some t' \<and> ok t' \<and> cells t' = (cells t)(p \<mapsto> f) \<and> room t' = room t - 1"
begin

lemma insert_all_cells:
  assumes "ok t" "distinct (map fst xs)" "\<forall>(p, f)\<in>set xs. 0 \<le> p \<and> cells t p = None" "length xs \<le> room t"
  shows "\<exists>t'. insert_all insert t xs = Some t' \<and> ok t' \<and> cells t' = cells t ++ map_of xs"
  using assms
proof (induction xs arbitrary: t)
  case (Cons x xs)
  obtain p f where x: "x = (p, f)" by force
  with Cons.prems obtain t' where t': "insert t p f = Some t'" "ok t'" "cells t' = (cells t)(p \<mapsto> f)"
      "room t' = room t - 1"
    using insert_ok [of t p f] by auto
  have "\<forall>(q, g)\<in>set xs. 0 \<le> q \<and> cells t' q = None"
    using Cons.prems x t'(3) by (force simp: image_iff)
  moreover have "distinct (map fst xs)" "length xs \<le> room t'"
    using Cons.prems t'(4) by auto
  ultimately obtain t2 where
    t2: "insert_all insert t' xs = Some t2" "ok t2" "cells t2 = (cells t)(p \<mapsto> f) ++ map_of xs"
    using Cons.IH [OF t'(2)] unfolding t'(3) by blast
  moreover from Cons.prems x have "p \<notin> dom (map_of xs)" by (simp add: dom_map_of_conv_image_fst)
  ultimately show ?case
    using t' t2 x by (auto simp: map_add_upd_left [symmetric] map_add_def fun_eq_iff split: option.splits)
qed simp

lemma insert_all_lookup:
  assumes "ok t" "distinct (map fst xs)" "\<forall>(p, f)\<in>set xs. 0 \<le> p \<and> cells t p = None" "length xs \<le> room t"
    "(p, f) \<in> set xs"
  shows "\<exists>t'. insert_all insert t xs = Some t' \<and> lookup t' p = Some f"
proof -
  obtain t' where t': "insert_all insert t xs = Some t'" "ok t'" "cells t' = cells t ++ map_of xs"
    using insert_all_cells [OF assms(1-4)] by blast
  have "cells t' p = Some f" using assms(2,5) t'(3) by simp
  with lookup_cells [OF t'(2), of p] assms(3,5) t'(1) show ?thesis by auto
qed

end

subsection \<open>Linear probing\<close>

definition probe :: "page_table \<Rightarrow> nat \<Rightarrow> nat \<Rightarrow> PageTableEntry" where
  "probe t h k = t ! ((h + k) mod PAGE_TABLE_SIZE)"

definition home :: "int \<Rightarrow> nat" where
  "home p = nat p mod PAGE_TABLE_SIZE"

lemma PAGE_TABLE_SIZE_pos [simp]: "0 < PAGE_TABLE_SIZE"
  by (simp add: PAGE_TABLE_SIZE_def)

lemma home_less [simp]: "home p < PAGE_TABLE_SIZE"
  by (simp add: home_def)

lemma hash_function_home: "0 \<le> p \<Longrightarrow> hash_function p = int (home p)"
  by (simp add: hash_function_def home_def signed_modulo_int_def zmod_int sgn_if)

lemma next_slot: "(int ((h + k) mod PAGE_TABLE_SIZE) + 1) mod int PAGE_TABLE_SIZE =
    int ((h + Suc k) mod PAGE_TABLE_SIZE)"
  by (metis add_Suc_right mod_Suc_eq of_nat_Suc of_nat_mod add.commute)

lemma pt_load_probe [simp]:
  "length t = PAGE_TABLE_SIZE \<Longrightarrow> pt_load t (int ((h + k) mod PAGE_TABLE_SIZE)) = Some (probe t h k)"
  by (simp add: pt_load_def probe_def)

lemma lookup_loop_probe:
  assumes "length t = PAGE_TABLE_SIZE" "j \<le> d"
    "\<forall>k<d. pe_page_id (probe t h k) \<noteq> -1 \<and> pe_page_id (probe t h k) \<noteq> p"
    "pe_page_id (probe t h d) = -1 \<or> pe_page_id (probe t h d) = p" "p \<noteq> -1"
  shows "lookup_loop t p (int ((h + j) mod PAGE_TABLE_SIZE)) =
    Some (if pe_page_id (probe t h d) = p then pe_frame_id (probe t h d) else -1)"
  using assms(2)
proof (induction "d - j" arbitrary: j)
  case 0
  then have "j = d" by simp
  then show ?case using assms by (subst lookup_loop.simps) auto
next
  case (Suc n)
  then have "j < d" by simp
  with Suc.hyps(1) [of "Suc j"] Suc.hyps(2) assms(1,3) show ?case
    by (subst lookup_loop.simps) (simp add: next_slot)
qed

lemma insert_loop_probe:
  assumes "length t = PAGE_TABLE_SIZE" "j \<le> d" "\<forall>k<d. pe_page_id (probe t h k) \<noteq> -1"
    "pe_page_id (probe t h d) = -1"
  shows "insert_loop t p f (int ((h + j) mod PAGE_TABLE_SIZE)) =
    Some (t[(h + d) mod PAGE_TABLE_SIZE := \<lparr>pe_page_id = p, pe_frame_id = f\<rparr>])"
  using assms(2)
proof (induction "d - j" arbitrary: j)
  case 0
  then have "j = d" by simp
  then show ?case using assms by (subst insert_loop.simps) (simp add: pt_store_def)
next
  case (Suc n)
  then have "j < d" by simp
  with Suc.hyps(1) [of "Suc j"] Suc.hyps(2) assms(1,3) show ?case
    by (subst insert_loop.simps) (simp add: next_slot)
qed

lemma remove_loop_probe:
  assumes "length t = PAGE_TABLE_SIZE" "j \<le> d" "\<forall>k<d. pe_page_id (probe t h k) \<noteq> p"
    "pe_page_id (probe t h d) = p"
  shows "remove_loop t p (int ((h + j) mod PAGE_TABLE_SIZE)) =
    Some (t[(h + d) mod PAGE_TABLE_SIZE := \<lparr>pe_page_id = -1, pe_frame_id = -1\<rparr>])"
  using assms(2)
proof (induction "d - j" arbitrary: j)
  case 0
  then have "j = d" by simp
  then show ?case using assms by (subst remove_loop.simps) (simp add: pt_store_def)
next
  case (Suc n)
  then have "j < d" by simp
  with Suc.hyps(1) [of "Suc j"] Suc.hyps(2) assms(1,3) show ?case
    by (subst remove_loop.simps) (simp add: next_slot)
qed

subsection \<open>The invariant of the table and its contract\<close>

definition used :: "PageTableEntry \<Rightarrow> bool" where
  "used e \<longleftrightarrow> pe_page_id e \<noteq> -1"

text \<open>An entry is reachable when no slot between the home of its page and itself is empty.\<close>

definition reachable :: "page_table \<Rightarrow> nat \<Rightarrow> bool" where
  "reachable t i \<longleftrightarrow> (\<exists>d<PAGE_TABLE_SIZE. i = (home (pe_page_id (t ! i)) + d) mod PAGE_TABLE_SIZE \<and>
     (\<forall>k<d. used (probe t (home (pe_page_id (t ! i))) k)))"

definition holes :: "page_table \<Rightarrow> nat set" where
  "holes t = {i. i < PAGE_TABLE_SIZE \<and> \<not> used (t ! i)}"

definition pt_ok :: "page_table \<Rightarrow> bool" where [inv_defs]:
  "pt_ok t \<longleftrightarrow> length t = PAGE_TABLE_SIZE \<and> holes t \<noteq> {} \<and>
     (\<forall>i<PAGE_TABLE_SIZE. used (t ! i) \<longrightarrow> 0 \<le> pe_page_id (t ! i) \<and> reachable t i) \<and>
     (\<forall>i<PAGE_TABLE_SIZE. \<forall>j<PAGE_TABLE_SIZE.
        used (t ! i) \<longrightarrow> pe_page_id (t ! i) = pe_page_id (t ! j) \<longrightarrow> i = j)"

definition pt_cells :: "page_table \<Rightarrow> int \<rightharpoonup> int" where
  "pt_cells t p = map_option pe_frame_id (List.find (\<lambda>e. used e \<and> pe_page_id e = p) t)"

definition pt_room :: "page_table \<Rightarrow> nat" where
  "pt_room t = card (holes t) - 1"

lemma finite_holes [simp]: "finite (holes t)"
  by (simp add: holes_def)

lemma pt_cells_None: "pt_ok t \<Longrightarrow> pt_cells t p = None \<longleftrightarrow>
    (\<forall>i<PAGE_TABLE_SIZE. used (t ! i) \<longrightarrow> pe_page_id (t ! i) \<noteq> p)"
  by (auto simp: pt_cells_def pt_ok_def find_None_iff in_set_conv_nth)

lemma pt_cells_Some: "pt_ok t \<Longrightarrow> pt_cells t p = Some f \<longleftrightarrow>
    (\<exists>i<PAGE_TABLE_SIZE. used (t ! i) \<and> pe_page_id (t ! i) = p \<and> pe_frame_id (t ! i) = f)"
proof -
  assume ok: "pt_ok t"
  have "pt_cells t p = Some f"
    if i: "i < PAGE_TABLE_SIZE" "used (t ! i)" "pe_page_id (t ! i) = p" "pe_frame_id (t ! i) = f" for i
  proof (cases "List.find (\<lambda>e. used e \<and> pe_page_id e = p) t")
    case None
    with i ok show ?thesis by (auto simp: find_None_iff in_set_conv_nth pt_ok_def)
  next
    case (Some e)
    then obtain j where "j < PAGE_TABLE_SIZE" "used (t ! j)" "pe_page_id (t ! j) = p" "e = t ! j"
      using ok by (auto simp: find_Some_iff pt_ok_def)
    with i ok have "e = t ! i" unfolding pt_ok_def by metis
    with Some i show ?thesis by (simp add: pt_cells_def)
  qed
  then show ?thesis
    using ok by (auto simp: pt_cells_def find_Some_iff pt_ok_def)
qed

lemma offset_of:
  assumes "i < PAGE_TABLE_SIZE"
  shows "\<exists>d<PAGE_TABLE_SIZE. i = (h + d) mod PAGE_TABLE_SIZE"
proof (intro exI conjI)
  let ?N = PAGE_TABLE_SIZE
  let ?d = "(i + (?N - h mod ?N)) mod ?N"
  show "?d < ?N" by simp
  have "h mod ?N + (i + (?N - h mod ?N)) = i + ?N"
    using mod_less_divisor [OF PAGE_TABLE_SIZE_pos, of h] by linarith
  then have "(h + ?d) mod ?N = (i + ?N) mod ?N"
    by (metis mod_add_left_eq mod_add_right_eq)
  with assms show "i = (h + ?d) mod ?N" by simp
qed

text \<open>The first empty slot at or after a home.\<close>

lemma first_hole:
  assumes "pt_ok t"
  obtains d where "d < PAGE_TABLE_SIZE" "\<not> used (probe t h d)" "\<forall>k<d. used (probe t h k)"
proof -
  from assms obtain i where "i < PAGE_TABLE_SIZE" "\<not> used (t ! i)"
    by (auto simp: pt_ok_def holes_def)
  moreover then obtain d where "d < PAGE_TABLE_SIZE" "i = (h + d) mod PAGE_TABLE_SIZE"
    using offset_of by blast
  ultimately have d: "d < PAGE_TABLE_SIZE" "\<not> used (probe t h d)" by (simp_all add: probe_def)
  define m where "m = (LEAST k. \<not> used (probe t h k))"
  have "\<not> used (probe t h m)" unfolding m_def using d(2) by (rule LeastI)
  moreover have "m \<le> d" unfolding m_def using d(2) by (rule Least_le)
  moreover have "\<forall>k<m. used (probe t h k)" unfolding m_def using not_less_Least by blast
  ultimately show ?thesis using d(1) by (intro that [of m]) auto
qed

lemma lookup_page_cells:
  assumes ok: "pt_ok t" and p: "0 \<le> p"
  shows "lookup_page t p = Some (case pt_cells t p of None \<Rightarrow> -1 | Some f \<Rightarrow> f)"
proof (cases "pt_cells t p")
  case None
  obtain d where d: "\<not> used (probe t (home p) d)" "\<forall>k<d. used (probe t (home p) k)"
    using first_hole [OF ok] by blast
  from None ok have "\<forall>k<d. pe_page_id (probe t (home p) k) \<noteq> p"
    using d(2) by (auto simp: pt_cells_None probe_def)
  with d ok p lookup_loop_probe [of t 0 d "home p" p] show ?thesis
    using None by (auto simp: lookup_page_def hash_function_home used_def pt_ok_def)
next
  case (Some f)
  with ok obtain i where i: "i < PAGE_TABLE_SIZE" "used (t ! i)" "pe_page_id (t ! i) = p" "pe_frame_id (t ! i) = f"
    by (auto simp: pt_cells_Some)
  with ok obtain d where d: "d < PAGE_TABLE_SIZE" "i = (home p + d) mod PAGE_TABLE_SIZE"
      "\<forall>k<d. used (probe t (home p) k)"
    unfolding pt_ok_def reachable_def by metis
  have "pe_page_id (probe t (home p) k) \<noteq> p" if "k < d" for k
  proof
    assume eq: "pe_page_id (probe t (home p) k) = p"
    from ok i eq have "i = (home p + k) mod PAGE_TABLE_SIZE"
      unfolding pt_ok_def probe_def by (metis PAGE_TABLE_SIZE_pos mod_less_divisor)
    with d(2) have "(home p + k) mod PAGE_TABLE_SIZE = (home p + d) mod PAGE_TABLE_SIZE" by simp
    from mod_offset_inj [OF _ d(1) this] that d(1) show False by simp
  qed
  moreover have "probe t (home p) d = t ! i" using d(2) by (simp add: probe_def)
  ultimately show ?thesis
    using lookup_loop_probe [of t 0 d "home p" p] d(3) ok p i Some
    by (auto simp: lookup_page_def hash_function_home used_def pt_ok_def)
qed

lemma probe_update:
  "length t = PAGE_TABLE_SIZE \<Longrightarrow>
    probe (t[x := e]) h k = (if (h + k) mod PAGE_TABLE_SIZE = x then e else probe t h k)"
  by (auto simp: probe_def)

lemma holes_fill:
  assumes "length t = PAGE_TABLE_SIZE" "x \<in> holes t" "used e"
  shows "holes (t[x := e]) = holes t - {x}"
  using assms by (auto simp: holes_def nth_list_update)

lemma pt_ok_fill:
  assumes ok: "pt_ok t" and p: "0 \<le> p" "pt_cells t p = None"
    and d: "d < PAGE_TABLE_SIZE" "\<not> used (probe t (home p) d)" "\<forall>k<d. used (probe t (home p) k)"
    and room: "0 < pt_room t"
    and x: "x = (home p + d) mod PAGE_TABLE_SIZE" and e: "e = \<lparr>pe_page_id = p, pe_frame_id = f\<rparr>"
  shows "pt_ok (t[x := e])"
proof -
  let ?t = "t[x := e]"
  have len: "length t = PAGE_TABLE_SIZE" using ok by (simp add: pt_ok_def)
  have xh: "x \<in> holes t" using d(2) by (simp add: x holes_def probe_def)
  have ue: "used e" using p(1) by (simp add: e used_def)
  have keep: "used (probe ?t h k)" if "used (probe t h k)" for h k
    using that ue by (simp add: probe_update [OF len])
  have "card (holes ?t) = card (holes t) - 1"
    using holes_fill [OF len xh ue] xh by (simp add: card_Diff_singleton)
  with room have "card (holes ?t) \<noteq> 0" by (simp add: pt_room_def)
  then have "holes ?t \<noteq> {}" by (metis card.empty)
  moreover have "0 \<le> pe_page_id (?t ! i) \<and> reachable ?t i"
    if i: "i < PAGE_TABLE_SIZE" "used (?t ! i)" for i
  proof (cases "i = x")
    case True
    then have "?t ! i = e" using i len by simp
    moreover from this have "reachable ?t i" unfolding reachable_def
      using d(1,3) x True keep by (intro exI [of _ d]) (simp add: e)
    ultimately show ?thesis using p(1) by (simp add: e)
  next
    case False
    then have ti: "?t ! i = t ! i" by simp
    with ok i have "0 \<le> pe_page_id (t ! i)" "reachable t i" by (simp_all add: pt_ok_def)
    with keep ti show ?thesis unfolding reachable_def by auto
  qed
  moreover have "i = j" if "i < PAGE_TABLE_SIZE" "j < PAGE_TABLE_SIZE" "used (?t ! i)"
      "pe_page_id (?t ! i) = pe_page_id (?t ! j)" for i j
  proof -
    have fresh: "pe_page_id (t ! k) \<noteq> p" if "k < PAGE_TABLE_SIZE" for k
      using that p pt_cells_None [OF ok] by (auto simp: used_def)
    show ?thesis
    proof (cases "i = x \<or> j = x")
      case True
      with that fresh [of i] fresh [of j] len show ?thesis by (auto simp: nth_list_update e split: if_splits)
    next
      case False
      with that ok show ?thesis unfolding pt_ok_def by simp
    qed
  qed
  ultimately show ?thesis using len unfolding pt_ok_def by auto
qed

lemma insert_into_page_table_ok:
  assumes ok: "pt_ok t" and p: "0 \<le> p" "pt_cells t p = None" and room: "0 < pt_room t"
  shows "\<exists>t'. insert_into_page_table t p f = Some t' \<and> pt_ok t' \<and>
    pt_cells t' = (pt_cells t)(p \<mapsto> f) \<and> pt_room t' = pt_room t - 1"
proof -
  obtain d where d: "d < PAGE_TABLE_SIZE" "\<not> used (probe t (home p) d)" "\<forall>k<d. used (probe t (home p) k)"
    using first_hole [OF ok] by blast
  define x where "x = (home p + d) mod PAGE_TABLE_SIZE"
  define e where "e = \<lparr>pe_page_id = p, pe_frame_id = f\<rparr>"
  let ?t = "t[x := e]"
  have len: "length t = PAGE_TABLE_SIZE" using ok by (simp add: pt_ok_def)
  have xh: "x \<in> holes t" using d(2) by (simp add: x_def holes_def probe_def)
  then have xN: "x < PAGE_TABLE_SIZE" "\<not> used (t ! x)" by (simp_all add: holes_def)
  have ue: "used e" using p(1) by (simp add: e_def used_def)
  have ins: "insert_into_page_table t p f = Some ?t"
    using insert_loop_probe [of t 0 d "home p" p f] d(2,3) len p(1)
    by (simp add: insert_into_page_table_def hash_function_home used_def x_def e_def)
  have ok': "pt_ok ?t" by (rule pt_ok_fill [OF ok p d room x_def e_def])
  have iff: "pt_cells ?t q = Some g \<longleftrightarrow> ((pt_cells t)(p \<mapsto> f)) q = Some g" for q g
  proof (cases "q = p")
    case True
    then show ?thesis using pt_cells_Some [OF ok', of q g] p len xN ue pt_cells_None [OF ok, of p]
      by (auto simp: nth_list_update e_def)
  next
    case False
    then show ?thesis using pt_cells_Some [OF ok', of q g] pt_cells_Some [OF ok, of q g] len xN
      by (auto simp: nth_list_update e_def)
  qed
  have "pt_cells ?t q = ((pt_cells t)(p \<mapsto> f)) q" for q
  proof (cases "pt_cells ?t q")
    case None
    with iff [of q] show ?thesis by (cases "((pt_cells t)(p \<mapsto> f)) q") simp_all
  next
    case (Some g)
    with iff [of q g] show ?thesis by simp
  qed
  then have "pt_cells ?t = (pt_cells t)(p \<mapsto> f)" by (rule ext)
  moreover have "pt_room ?t = pt_room t - 1"
    using holes_fill [OF len xh ue] xh by (simp add: pt_room_def card_Diff_singleton)
  ultimately show ?thesis using ins ok' by blast
qed

interpretation pt: page_map lookup_page insert_into_page_table pt_ok pt_cells pt_room
  by unfold_locales (rule lookup_page_cells insert_into_page_table_ok; assumption)+

subsection \<open>Insertion, lookup and removal\<close>

definition empty_entry :: PageTableEntry where
  "empty_entry = \<lparr>pe_page_id = -1, pe_frame_id = -1\<rparr>"

definition empty_table :: page_table where
  "empty_table = replicate PAGE_TABLE_SIZE empty_entry"

lemma empty_table_ok [simp]: "pt_ok empty_table" "pt_cells empty_table p = None" "pt_room empty_table = 2047"
proof -
  have holes: "holes empty_table = {..<PAGE_TABLE_SIZE}"
    by (auto simp: holes_def empty_table_def empty_entry_def used_def)
  then show ok: "pt_ok empty_table"
    by (auto simp: pt_ok_def empty_table_def empty_entry_def used_def lessThan_empty_iff)
  from holes show "pt_room empty_table = 2047"
    by (simp add: pt_room_def PAGE_TABLE_SIZE_def)
  show "pt_cells empty_table p = None"
    unfolding pt_cells_None [OF ok] by (simp add: empty_table_def empty_entry_def used_def)
qed

text \<open>The page table is a map: any number of distinct absent pages that leaves one slot empty can
  be inserted one after the other without a probe loop running for ever, and afterwards a lookup of each
  of them returns its frame.\<close>

theorem page_table_is_a_map:
  assumes "pt_ok t" "distinct (map fst xs)" "\<forall>(p, f)\<in>set xs. 0 \<le> p \<and> pt_cells t p = None"
    "length xs \<le> pt_room t" "(p, f) \<in> set xs"
  shows "\<exists>t'. insert_all insert_into_page_table t xs = Some t' \<and> lookup_page t' p = Some f"
  using assms by (rule pt.insert_all_lookup)

theorem page_table_is_a_map_witness:
  "\<exists>t'. insert_all insert_into_page_table empty_table [(5, 0), (2053, 1), (4101, 2)] = Some t' \<and>
     lookup_page t' 2053 = Some 1"
  by (rule page_table_is_a_map) simp_all

lemma removal_slots:
  assumes ok: "pt_ok t" and p: "0 \<le> p" "pt_cells t p = None" and q: "0 \<le> q" "pt_cells t q = None"
    and pq: "p \<noteq> q" "home p = home q" and room: "1 < pt_room t"
  obtains x y where "x < PAGE_TABLE_SIZE" "y < PAGE_TABLE_SIZE" "x \<noteq> y"
    "insert_into_page_table t p f = Some (t[x := \<lparr>pe_page_id = p, pe_frame_id = f\<rparr>])"
    "insert_into_page_table (t[x := \<lparr>pe_page_id = p, pe_frame_id = f\<rparr>]) q g =
       Some (t[x := \<lparr>pe_page_id = p, pe_frame_id = f\<rparr>, y := \<lparr>pe_page_id = q, pe_frame_id = g\<rparr>])"
    "\<exists>d<PAGE_TABLE_SIZE. x = (home p + d) mod PAGE_TABLE_SIZE \<and>
       (\<forall>k<d. used (probe t (home p) k) \<and> (home p + k) mod PAGE_TABLE_SIZE \<notin> {x, y})"
proof -
  define N where "N = PAGE_TABLE_SIZE"
  let ?h = "home p"
  let ?e = "\<lparr>pe_page_id = p, pe_frame_id = f\<rparr>"
  obtain d where d: "d < N" "\<not> used (probe t ?h d)" "\<forall>k<d. used (probe t ?h k)"
    unfolding N_def using first_hole [OF ok] by blast
  define x where "x = (?h + d) mod N"
  let ?t = "t[x := ?e]"
  have len: "length t = N" using ok by (simp add: pt_ok_def N_def)
  have ok1: "pt_ok ?t"
    by (rule pt_ok_fill [OF ok p d(1)[unfolded N_def] d(2,3) _ x_def[unfolded N_def] refl]) (use room in simp)
  obtain d2 where d2: "d2 < N" "\<not> used (probe ?t ?h d2)" "\<forall>k<d2. used (probe ?t ?h k)"
    unfolding N_def using first_hole [OF ok1] by blast
  have "used (probe ?t ?h k)" if "k \<le> d" for k
    using that d p(1) len by (cases "k = d") (auto simp: probe_update N_def x_def used_def)
  with d2(2) have less: "d < d2" by (meson not_le)
  define y where "y = (?h + d2) mod N"
  have apart: "(?h + k) mod N \<noteq> (?h + l) mod N" if "k < N" "l < N" "k \<noteq> l" for k l
    using mod_offset_inj [OF that(1,2)] that(3) by blast
  show thesis
  proof (rule that [of x y])
    show "x < PAGE_TABLE_SIZE" "y < PAGE_TABLE_SIZE" by (simp_all add: x_def y_def N_def)
    show "x \<noteq> y" unfolding x_def y_def using apart d d2 less by simp
    show "insert_into_page_table t p f = Some ?t"
      using insert_loop_probe [of t 0 d ?h p f] d len p(1)
      by (simp add: insert_into_page_table_def hash_function_home used_def x_def N_def)
    show "insert_into_page_table ?t q g = Some (?t[y := \<lparr>pe_page_id = q, pe_frame_id = g\<rparr>])"
      using insert_loop_probe [of ?t 0 d2 ?h q g] d2 len q(1) pq(2)
      by (simp add: insert_into_page_table_def hash_function_home used_def y_def N_def)
    show "\<exists>d<PAGE_TABLE_SIZE. x = (?h + d) mod PAGE_TABLE_SIZE \<and>
        (\<forall>k<d. used (probe t ?h k) \<and> (?h + k) mod PAGE_TABLE_SIZE \<notin> {x, y})"
      unfolding x_def y_def N_def [symmetric] using d d2(1) less apart by (intro exI [of _ d]) auto
  qed
qed

text \<open>Removing a page clears its slot and nothing else, so a page that was placed behind it in the
  same probe chain is lost: whatever the table holds, after two pages with the same hash are inserted and
  the first is removed, a lookup of the second returns \<open>-1\<close> although its entry is still in the table.\<close>

theorem removal_hides_pages:
  assumes "pt_ok t" "0 \<le> p" "0 \<le> q" "p \<noteq> q" "home p = home q" "pt_cells t p = None" "pt_cells t q = None"
    "1 < pt_room t"
  shows "\<exists>t1 t2 t3. insert_into_page_table t p f = Some t1 \<and> insert_into_page_table t1 q g = Some t2 \<and>
    remove_from_page_table t2 p = Some t3 \<and> lookup_page t3 q = Some (-1) \<and>
    \<lparr>pe_page_id = q, pe_frame_id = g\<rparr> \<in> set t3"
proof -
  let ?e = "\<lparr>pe_page_id = p, pe_frame_id = f\<rparr>" and ?e' = "\<lparr>pe_page_id = q, pe_frame_id = g\<rparr>"
  obtain x y d where xy: "x < PAGE_TABLE_SIZE" "y < PAGE_TABLE_SIZE" "x \<noteq> y"
    and ins: "insert_into_page_table t p f = Some (t[x := ?e])"
      "insert_into_page_table (t[x := ?e]) q g = Some (t[x := ?e, y := ?e'])"
    and d: "d < PAGE_TABLE_SIZE" "x = (home p + d) mod PAGE_TABLE_SIZE"
      "\<forall>k<d. used (probe t (home p) k) \<and> (home p + k) mod PAGE_TABLE_SIZE \<notin> {x, y}"
    using removal_slots [OF assms(1,2,6,3,7,4,5,8), of f g] by metis
  have len: "length t = PAGE_TABLE_SIZE" using assms(1) by (simp add: pt_ok_def)
  have before: "probe (t[x := a, y := b]) (home p) k = probe t (home p) k" if "k < d" for k a b
    using that d(3) by (simp add: probe_update len)
  have fresh: "pe_page_id (probe t (home p) k) \<noteq> r" if "k < d" "pt_cells t r = None" for k r
    using that d(3) pt_cells_None [OF assms(1)] by (auto simp: probe_def)
  let ?t3 = "t[x := \<lparr>pe_page_id = -1, pe_frame_id = -1\<rparr>, y := ?e']"
  have "remove_from_page_table (t[x := ?e, y := ?e']) p = Some ?t3"
    using remove_loop_probe [of "t[x := ?e, y := ?e']" 0 d "home p" p] before fresh assms(2,6) xy d(2) len
    by (simp add: remove_from_page_table_def hash_function_home probe_update list_update_swap)
  moreover have "lookup_page ?t3 q = Some (-1)"
    using lookup_loop_probe [of ?t3 0 d "home p" q] before fresh assms(3,5,7) xy d(2,3) len
    by (simp add: lookup_page_def hash_function_home probe_update used_def)
  moreover have "?e' \<in> set ?t3" using xy len by (simp add: set_update_memI)
  ultimately show ?thesis using ins by blast
qed

theorem removal_hides_pages_witness:
  "\<exists>t1 t2 t3. insert_into_page_table empty_table 0 7 = Some t1 \<and> insert_into_page_table t1 2048 8 = Some t2 \<and>
    remove_from_page_table t2 0 = Some t3 \<and> lookup_page t3 2048 = Some (-1) \<and>
    \<lparr>pe_page_id = 2048, pe_frame_id = 8\<rparr> \<in> set t3"
  by (rule removal_hides_pages) (simp_all add: home_def PAGE_TABLE_SIZE_def)

subsection \<open>The clock\<close>

definition clock_ok :: "Page list \<Rightarrow> bool list \<Rightarrow> nat \<Rightarrow> bool" where [inv_defs]:
  "clock_ok pool refs hand \<longleftrightarrow>
     length pool = BUFFER_POOL_SIZE \<and> length refs = BUFFER_POOL_SIZE \<and> hand < BUFFER_POOL_SIZE"

definition unpinned :: "Page list \<Rightarrow> nat \<Rightarrow> bool" where
  "unpinned pool i \<longleftrightarrow> i < BUFFER_POOL_SIZE \<and> pg_pin_count (pool ! i) = 0"

lemma BUFFER_POOL_SIZE_pos [simp]: "0 < BUFFER_POOL_SIZE"
  by (simp add: BUFFER_POOL_SIZE_def)

text \<open>The reference bits after the hand has passed \<open>m\<close> frames.\<close>

definition swept :: "Page list \<Rightarrow> bool list \<Rightarrow> nat \<Rightarrow> nat \<Rightarrow> bool list" where
  "swept pool refs h m = map (\<lambda>i. refs ! i \<and> \<not> (unpinned pool i \<and> (\<exists>k<m. i = (h + k) mod BUFFER_POOL_SIZE)))
     [0..<BUFFER_POOL_SIZE]"

lemma length_swept [simp]: "length (swept pool refs h m) = BUFFER_POOL_SIZE"
  by (simp add: swept_def)

lemma swept_nth: "i < BUFFER_POOL_SIZE \<Longrightarrow> swept pool refs h m ! i \<longleftrightarrow>
    refs ! i \<and> \<not> (unpinned pool i \<and> (\<exists>k<m. i = (h + k) mod BUFFER_POOL_SIZE))"
  by (simp add: swept_def)

lemma swept_Suc:
  assumes "clock_ok pool refs hand"
  shows "swept pool refs h (Suc m) =
    (let i = (h + m) mod BUFFER_POOL_SIZE
     in if unpinned pool i then (swept pool refs h m)[i := False] else swept pool refs h m)"
  by (rule nth_equalityI) (auto simp: swept_nth nth_list_update less_Suc_eq Let_def)

lemma find_victim_sweep:
  assumes ok: "clock_ok pool refs h" and m: "m \<le> BUFFER_POOL_SIZE"
    and pass: "\<forall>k<m. unpinned pool ((h + k) mod BUFFER_POOL_SIZE) \<longrightarrow> refs ! ((h + k) mod BUFFER_POOL_SIZE)"
  shows "find_victim_page (m + r) pool refs h =
    find_victim_page r pool (swept pool refs h m) ((h + m) mod BUFFER_POOL_SIZE)"
  using m pass
proof (induction m arbitrary: r)
  case 0
  have "swept pool refs h 0 = refs" using ok by (intro nth_equalityI) (auto simp: swept_nth clock_ok_def)
  with ok show ?case by (simp add: clock_ok_def)
next
  case (Suc m)
  let ?i = "(h + m) mod BUFFER_POOL_SIZE"
  have i: "?i < BUFFER_POOL_SIZE" by simp
  have "swept pool refs h m ! ?i" if "unpinned pool ?i"
  proof -
    have "refs ! ?i" using Suc.prems that by simp
    moreover have "?i \<noteq> (h + k) mod BUFFER_POOL_SIZE" if "k < m" for k
      using mod_offset_inj [of m BUFFER_POOL_SIZE k h] that Suc.prems by auto
    ultimately show ?thesis using i by (auto simp: swept_nth)
  qed
  moreover have "find_victim_page (Suc m + r) pool refs h =
      find_victim_page (Suc r) pool (swept pool refs h m) ?i"
    using Suc.IH [of "Suc r"] Suc.prems by simp
  ultimately show ?case
    using ok i unfolding swept_Suc [OF ok]
    by (auto simp: clock_ok_def unpinned_def Let_def mod_Suc_eq)
qed

lemma find_victim_stop:
  assumes "clock_ok pool refs h" "unpinned pool h" "\<not> refs ! h"
  shows "find_victim_page (Suc r) pool refs h = Some (h, refs, (h + 1) mod BUFFER_POOL_SIZE)"
  using assms by (simp add: clock_ok_def unpinned_def)

lemma swept_clock_ok: "clock_ok pool refs h \<Longrightarrow> clock_ok pool (swept pool refs h m) ((h + m) mod BUFFER_POOL_SIZE)"
  by (simp add: clock_ok_def)

lemma frame_offset:
  assumes "P i" "i < BUFFER_POOL_SIZE" "h < BUFFER_POOL_SIZE"
  obtains m where "m < BUFFER_POOL_SIZE" "P ((h + m) mod BUFFER_POOL_SIZE)"
    "\<forall>k<m. \<not> P ((h + k) mod BUFFER_POOL_SIZE)"
proof -
  let ?Q = "\<lambda>k. P ((h + k) mod BUFFER_POOL_SIZE)"
  have "\<exists>d<BUFFER_POOL_SIZE. (h + d) mod BUFFER_POOL_SIZE = i"
    using assms(2,3) by (intro exI [of _ "if h \<le> i then i - h else BUFFER_POOL_SIZE + i - h"]) auto
  then obtain d where d: "d < BUFFER_POOL_SIZE" "?Q d" using assms(1) by auto
  show ?thesis
    by (rule that [of "LEAST k. ?Q k"]) (use d LeastI [of ?Q d] Least_le [of ?Q d] not_less_Least [of _ ?Q] in auto)
qed

lemma find_victim_clear:
  assumes ok: "clock_ok pool refs h" and i: "unpinned pool i" "\<not> refs ! i"
    and r: "BUFFER_POOL_SIZE \<le> r"
  shows "\<exists>v m. find_victim_page r pool refs h = Some (v, swept pool refs h m, (v + 1) mod BUFFER_POOL_SIZE) \<and>
    unpinned pool v \<and> \<not> refs ! v"
proof -
  obtain m where m: "m < BUFFER_POOL_SIZE"
      "unpinned pool ((h + m) mod BUFFER_POOL_SIZE) \<and> \<not> refs ! ((h + m) mod BUFFER_POOL_SIZE)"
      "\<forall>k<m. \<not> (unpinned pool ((h + k) mod BUFFER_POOL_SIZE) \<and> \<not> refs ! ((h + k) mod BUFFER_POOL_SIZE))"
    using frame_offset [of "\<lambda>i. unpinned pool i \<and> \<not> refs ! i" i h] i ok
    by (auto simp: unpinned_def clock_ok_def)
  let ?v = "(h + m) mod BUFFER_POOL_SIZE"
  obtain r' where "r = m + Suc r'" using r m(1) by (metis add_Suc_right less_le_trans less_imp_Suc_add)
  then have "find_victim_page r pool refs h = find_victim_page (Suc r') pool (swept pool refs h m) ?v"
    using find_victim_sweep [OF ok, of m "Suc r'"] m by auto
  also have "\<dots> = Some (?v, swept pool refs h m, (?v + 1) mod BUFFER_POOL_SIZE)"
    by (rule find_victim_stop [OF swept_clock_ok [OF ok]]) (use m(2) in \<open>simp_all add: swept_nth\<close>)
  finally show ?thesis using m(2) by blast
qed

lemma find_victim_all_pinned:
  assumes "clock_ok pool refs h" "\<forall>i. \<not> unpinned pool i"
  shows "find_victim_page r pool refs h = None"
  using assms by (induction r arbitrary: h) (auto simp: clock_ok_def unpinned_def)

text \<open>The clock algorithm gives a second chance: when some frame is not pinned it ends within two
  turns of the hand, with a frame that is not pinned; that frame's reference bit was clear unless the bits
  of all unpinned frames were set; no reference bit becomes set. When every frame is pinned, it runs for
  ever.\<close>

theorem clock_second_chance:
  assumes "clock_ok pool refs hand"
  shows "if \<exists>i. unpinned pool i then
      \<exists>v refs'. find_victim_page victim_rounds pool refs hand = Some (v, refs', (v + 1) mod BUFFER_POOL_SIZE) \<and>
        unpinned pool v \<and> (refs ! v \<longrightarrow> (\<forall>i. unpinned pool i \<longrightarrow> refs ! i)) \<and>
        length refs' = BUFFER_POOL_SIZE \<and> (\<forall>i<BUFFER_POOL_SIZE. refs' ! i \<longrightarrow> refs ! i)
    else \<forall>rounds. find_victim_page rounds pool refs hand = None"
proof (cases "\<exists>i. unpinned pool i \<and> \<not> refs ! i")
  case True
  then obtain i where i: "unpinned pool i" "\<not> refs ! i" by blast
  have "BUFFER_POOL_SIZE \<le> victim_rounds" by (simp add: victim_rounds_def)
  from find_victim_clear [OF assms i this] i show ?thesis by (auto simp: swept_nth)
next
  case False
  show ?thesis
  proof (cases "\<exists>i. unpinned pool i")
    case True
    then obtain i where i: "unpinned pool i" by blast
    let ?refs = "swept pool refs hand BUFFER_POOL_SIZE"
    have hand: "hand < BUFFER_POOL_SIZE" using assms by (simp add: clock_ok_def)
    have i': "i < BUFFER_POOL_SIZE" using i by (simp add: unpinned_def)
    obtain d where "d < BUFFER_POOL_SIZE" "(hand + d) mod BUFFER_POOL_SIZE = i"
      by (rule frame_offset [of "\<lambda>k. k = i" i hand]) (use i' hand in auto)
    then have clear: "\<not> ?refs ! i" using i i' by (auto simp: swept_nth)
    have ok: "clock_ok pool ?refs hand"
      using swept_clock_ok [OF assms, of BUFFER_POOL_SIZE] hand by simp
    have "find_victim_page victim_rounds pool refs hand = find_victim_page BUFFER_POOL_SIZE pool ?refs hand"
      using find_victim_sweep [OF assms, of BUFFER_POOL_SIZE BUFFER_POOL_SIZE] False hand
      by (auto simp: victim_rounds_def mult_2)
    with find_victim_clear [OF ok i clear le_refl] False i show ?thesis by (auto simp: swept_nth)
  next
    case none: False
    then show ?thesis using find_victim_all_pinned [OF assms] by auto
  qed
qed

theorem clock_second_chance_witness:
  "let pool = replicate BUFFER_POOL_SIZE \<lparr>pg_data = None, pg_page_id = 3, pg_is_dirty = False, pg_pin_count = 0, pg_last_used = 0\<rparr>
   in \<exists>v refs'. find_victim_page victim_rounds pool (replicate BUFFER_POOL_SIZE True) 9 =
        Some (v, refs', (v + 1) mod BUFFER_POOL_SIZE) \<and> unpinned pool v"
proof -
  let ?pool = "replicate BUFFER_POOL_SIZE \<lparr>pg_data = None, pg_page_id = 3, pg_is_dirty = False, pg_pin_count = 0, pg_last_used = 0\<rparr>"
  have "clock_ok ?pool (replicate BUFFER_POOL_SIZE True) 9" by (simp add: clock_ok_def BUFFER_POOL_SIZE_def)
  moreover have "unpinned ?pool 0" by (simp add: unpinned_def)
  ultimately show ?thesis
    using clock_second_chance [of ?pool "replicate BUFFER_POOL_SIZE True" 9] by (auto split: if_splits)
qed

subsection \<open>Fetching pages\<close>

definition resident :: "Page list \<Rightarrow> int \<Rightarrow> int \<Rightarrow> bool" where
  "resident pool p f \<longleftrightarrow> 0 \<le> f \<and> nat f < BUFFER_POOL_SIZE \<and>
     pg_page_id (pool ! nat f) = p \<and> pg_data (pool ! nat f) = Some p \<and>
     0 \<le> pg_pin_count (pool ! nat f)"

definition bm_ok :: "buf_mgr \<Rightarrow> bool" where [inv_defs]:
  "bm_ok s \<longleftrightarrow> clock_ok (buffer_pool s) (reference_bits s) (clock_hand s) \<and> pt_ok (page_table s) \<and>
     distinct (free_list s) \<and> set (free_list s) \<subseteq> {..<BUFFER_POOL_SIZE} \<and>
     length (free_list s) \<le> pt_room (page_table s) \<and>
     (\<forall>p f. pt_cells (page_table s) p = Some f \<longrightarrow> resident (buffer_pool s) p f \<and> nat f \<notin> set (free_list s))"

lemma init_pool_loop_upto:
  assumes "k \<le> n" "length (buffer_pool s) = n" "length (reference_bits s) = n"
  shows "\<exists>pool. length pool = n \<and> init_pool_loop [k..<n] s = Some (s\<lparr>buffer_pool := pool,
    free_list := rev [k..<n] @ free_list s, reference_bits := take k (reference_bits s) @ replicate (n - k) False\<rparr>)"
  using assms
proof (induction "n - k" arbitrary: k s)
  case (Suc d)
  then have k: "k < n" "d = n - Suc k" by simp_all
  let ?s = "s\<lparr>buffer_pool := (buffer_pool s)[k := (buffer_pool s ! k)\<lparr>pg_page_id := -1, pg_is_dirty := False, pg_pin_count := 0\<rparr>],
    free_list := k # free_list s, reference_bits := (reference_bits s)[k := False]\<rparr>"
  have "take (Suc k) ((reference_bits s)[k := False]) = take k (reference_bits s) @ [False]"
    using k Suc.prems by (simp add: take_Suc_conv_app_nth)
  moreover have "replicate (n - k) False = False # replicate (n - Suc k) False"
    using k(1) by (simp add: Suc_diff_Suc flip: replicate_Suc)
  ultimately show ?case
    using Suc.hyps(1) [of "Suc k" ?s] Suc.prems k by (auto simp: upt_conv_Cons)
qed auto

lemma init_buffer_pool_ok:
  assumes "length (buffer_pool s) = BUFFER_POOL_SIZE" "length (reference_bits s) = BUFFER_POOL_SIZE"
    "length (page_table s) = PAGE_TABLE_SIZE" "free_list s = []" "clock_hand s = 0"
  shows "\<exists>s'. init_buffer_pool s = Some s' \<and> bm_ok s' \<and> free_list s' = rev [0..<BUFFER_POOL_SIZE] \<and>
    page_table s' = empty_table"
proof -
  obtain pool where pool: "length pool = BUFFER_POOL_SIZE"
    "init_pool_loop [0..<BUFFER_POOL_SIZE] s = Some (s\<lparr>buffer_pool := pool,
       free_list := rev [0..<BUFFER_POOL_SIZE], reference_bits := replicate BUFFER_POOL_SIZE False\<rparr>)"
    using init_pool_loop_upto [of 0 BUFFER_POOL_SIZE s] assms(1,2,4) by auto
  have "map (\<lambda>_. empty_entry) (page_table s) = empty_table"
    by (simp add: empty_table_def assms(3) map_replicate_const)
  with pool have "init_buffer_pool s = Some (s\<lparr>buffer_pool := pool, free_list := rev [0..<BUFFER_POOL_SIZE],
      reference_bits := replicate BUFFER_POOL_SIZE False, page_table := empty_table\<rparr>)"
    using assms(3) by (simp add: init_buffer_pool_def update_each_upto empty_entry_def)
  moreover have "BUFFER_POOL_SIZE \<le> 2047" by (simp add: BUFFER_POOL_SIZE_def)
  ultimately show ?thesis
    using pool(1) assms(5) by (auto simp: bm_ok_def clock_ok_def)
qed

lemma fetch_hit:
  assumes ok: "bm_ok s" and p: "0 \<le> p" "pt_cells (page_table s) p = Some f"
  defines "pg \<equiv> buffer_pool s ! nat f"
  shows "fetch_page now p s = Some ([], f,
      s\<lparr>buffer_pool := (buffer_pool s)[nat f := pg\<lparr>pg_pin_count := pg_pin_count pg + 1, pg_last_used := now\<rparr>],
        reference_bits := (reference_bits s)[nat f := True]\<rparr>)"
proof -
  have "resident (buffer_pool s) p f" using ok p by (simp add: bm_ok_def)
  then have f: "0 \<le> f" "nat f < BUFFER_POOL_SIZE" "f \<noteq> -1" by (auto simp: resident_def)
  have "lookup_page (page_table s) p = Some f"
    using ok p by (simp add: pt.lookup_cells bm_ok_def)
  with f ok show ?thesis by (simp add: fetch_page_def frame_page_def bm_ok_def clock_ok_def pg_def)
qed

lemma fetch_free:
  assumes ok: "bm_ok s" and p: "0 \<le> p" "pt_cells (page_table s) p = None" and free: "free_list s = f # rest"
  shows "\<exists>t. fetch_page now p s = Some ([ReadPage p], int f,
      s\<lparr>buffer_pool := (buffer_pool s)[f := \<lparr>pg_data = Some p, pg_page_id = p, pg_is_dirty = False,
           pg_pin_count = 1, pg_last_used = now\<rparr>],
        free_list := rest, reference_bits := (reference_bits s)[f := True], page_table := t\<rparr>) \<and>
      pt_ok t \<and> pt_cells t = (pt_cells (page_table s))(p \<mapsto> int f) \<and> pt_room t = pt_room (page_table s) - 1"
proof -
  have f: "f < BUFFER_POOL_SIZE" using ok free by (simp add: bm_ok_def)
  have "0 < pt_room (page_table s)" using ok free by (simp add: bm_ok_def)
  with pt.insert_ok [of "page_table s" p "int f"] ok p obtain t where
    t: "insert_into_page_table (page_table s) p (int f) = Some t" "pt_ok t"
      "pt_cells t = (pt_cells (page_table s))(p \<mapsto> int f)" "pt_room t = pt_room (page_table s) - 1"
    by (auto simp: bm_ok_def)
  have "lookup_page (page_table s) p = Some (-1)"
    using ok p by (simp add: pt.lookup_cells bm_ok_def)
  with f ok free t show ?thesis
    by (intro exI [of _ t]) (simp add: fetch_page_def take_frame_def bm_ok_def clock_ok_def)
qed

lemma bm_ok_hit:
  assumes ok: "bm_ok s" and "pt_cells (page_table s) p = Some f" "pg_page_id pg = p" "pg_data pg = Some p" "0 \<le> pg_pin_count pg"
  shows "bm_ok (s\<lparr>buffer_pool := (buffer_pool s)[nat f := pg], reference_bits := (reference_bits s)[i := b]\<rparr>)"
proof -
  have f: "0 \<le> f" "nat f < BUFFER_POOL_SIZE" "pg_page_id (buffer_pool s ! nat f) = p"
    using ok assms(2) by (auto simp: bm_ok_def resident_def)
  have "resident ((buffer_pool s)[nat f := pg]) q g" if "resident (buffer_pool s) q g" for q g
    using that f assms(3-) ok by (cases "nat g = nat f") (auto simp: resident_def bm_ok_def clock_ok_def)
  with ok show ?thesis by (auto simp: bm_ok_def clock_ok_def)
qed

lemma bm_ok_free:
  assumes ok: "bm_ok s" and p: "pt_cells (page_table s) p = None" "free_list s = f # rest"
    and t: "pt_ok t" "pt_cells t = (pt_cells (page_table s))(p \<mapsto> int f)" "pt_room t = pt_room (page_table s) - 1"
    and pg: "pg_page_id pg = p" "pg_data pg = Some p" "0 \<le> pg_pin_count pg"
  shows "bm_ok (s\<lparr>buffer_pool := (buffer_pool s)[f := pg], free_list := rest,
    reference_bits := (reference_bits s)[i := b], page_table := t\<rparr>)"
proof -
  have f: "f < BUFFER_POOL_SIZE" "f \<notin> set rest" "length (buffer_pool s) = BUFFER_POOL_SIZE"
    using ok p(2) by (simp_all add: bm_ok_def clock_ok_def)
  have "resident ((buffer_pool s)[f := pg]) q g \<and> nat g \<notin> set rest" if "pt_cells t q = Some g" for q g
  proof (cases "q = p")
    case True
    with that t(2) have "g = int f" by simp
    with True f pg show ?thesis by (simp add: resident_def)
  next
    case False
    with that t(2) ok p(2) have "resident (buffer_pool s) q g" "nat g \<notin> set rest" "nat g \<noteq> f"
      by (auto simp: bm_ok_def)
    then show ?thesis by (simp add: resident_def)
  qed
  moreover have "Suc (length rest) \<le> pt_room (page_table s)" using ok p(2) by (simp add: bm_ok_def)
  then have "length rest \<le> pt_room t" using t(3) by simp
  ultimately show ?thesis using ok p(2) t(1) by (auto simp: bm_ok_def clock_ok_def)
qed

text \<open>C26. While a page is resident or a frame is free, fetching a page works: it reads the page from the
  disk exactly when it is not resident, returns a frame that holds the page and is pinned, changes the page
  table for no other page, and keeps the invariant of the buffer manager; a second fetch returns the same
  frame without a disk access.\<close>

theorem fetch_page_correct:
  assumes ok: "bm_ok s" and p: "0 \<le> p" and room: "pt_cells (page_table s) p \<noteq> None \<or> free_list s \<noteq> []"
  shows "\<exists>f s'. fetch_page now p s = Some (if pt_cells (page_table s) p = None then [ReadPage p] else [], f, s') \<and>
    bm_ok s' \<and> pt_cells (page_table s') = (pt_cells (page_table s))(p \<mapsto> f) \<and>
    resident (buffer_pool s') p f \<and> 0 < pg_pin_count (buffer_pool s' ! nat f) \<and>
    (\<exists>s''. fetch_page now' p s' = Some ([], f, s''))"
proof (cases "pt_cells (page_table s) p")
  case (Some f)
  define pg where "pg = buffer_pool s ! nat f"
  define s' where "s' = s\<lparr>buffer_pool := (buffer_pool s)[nat f := pg\<lparr>pg_pin_count := pg_pin_count pg + 1, pg_last_used := now\<rparr>],
        reference_bits := (reference_bits s)[nat f := True]\<rparr>"
  have res: "resident (buffer_pool s) p f" using ok Some by (simp add: bm_ok_def)
  then have ok': "bm_ok s'"
    unfolding s'_def by (intro bm_ok_hit [OF ok Some]) (simp_all add: resident_def pg_def)
  have pool: "length (buffer_pool s) = BUFFER_POOL_SIZE" using ok by (simp add: bm_ok_def clock_ok_def)
  have cells: "pt_cells (page_table s') p = Some f" using Some by (simp add: s'_def)
  have fetch: "fetch_page now p s = Some ([], f, s')"
    using fetch_hit [OF ok p Some, of now] by (simp add: s'_def pg_def)
  have "resident (buffer_pool s') p f" using ok' cells by (simp add: bm_ok_def)
  moreover have "0 < pg_pin_count (buffer_pool s' ! nat f)"
    using res pool by (simp add: s'_def resident_def pg_def)
  moreover have "pt_cells (page_table s') = (pt_cells (page_table s))(p \<mapsto> f)"
    using Some by (auto simp: s'_def)
  ultimately show ?thesis using fetch ok' fetch_hit [OF ok' p cells, of now'] Some by auto
next
  case None
  with room obtain f rest where free: "free_list s = f # rest" by (cases "free_list s") auto
  define pg where "pg = \<lparr>pg_data = Some p, pg_page_id = p, pg_is_dirty = False, pg_pin_count = 1, pg_last_used = now\<rparr>"
  obtain t where t: "pt_ok t" "pt_cells t = (pt_cells (page_table s))(p \<mapsto> int f)"
      "pt_room t = pt_room (page_table s) - 1"
    and fetch: "fetch_page now p s = Some ([ReadPage p], int f, s\<lparr>buffer_pool := (buffer_pool s)[f := pg],
        free_list := rest, reference_bits := (reference_bits s)[f := True], page_table := t\<rparr>)"
    using fetch_free [OF ok p None free, of now] unfolding pg_def by blast
  define s' where "s' = s\<lparr>buffer_pool := (buffer_pool s)[f := pg], free_list := rest,
    reference_bits := (reference_bits s)[f := True], page_table := t\<rparr>"
  have ok': "bm_ok s'" unfolding s'_def by (rule bm_ok_free [OF ok None free t]) (simp_all add: pg_def)
  have cells: "pt_cells (page_table s') p = Some (int f)" using t(2) by (simp add: s'_def)
  have "f < length (buffer_pool s)" using ok free by (simp add: bm_ok_def clock_ok_def)
  then have "resident (buffer_pool s') p (int f)" "0 < pg_pin_count (buffer_pool s' ! f)"
    using ok' cells by (simp_all add: bm_ok_def s'_def pg_def)
  then show ?thesis
    using fetch ok' fetch_hit [OF ok' p cells, of now'] None t(2) by (auto simp: s'_def)
qed

definition zero_pool :: buf_mgr where
  "zero_pool = \<lparr>buffer_pool = replicate BUFFER_POOL_SIZE
       \<lparr>pg_data = None, pg_page_id = 0, pg_is_dirty = False, pg_pin_count = 0, pg_last_used = 0\<rparr>,
     page_table = replicate PAGE_TABLE_SIZE \<lparr>pe_page_id = 0, pe_frame_id = 0\<rparr>,
     free_list = [], clock_hand = 0, reference_bits = replicate BUFFER_POOL_SIZE False\<rparr>"

theorem fetch_page_correct_witness:
  "\<exists>s f s'. init_buffer_pool zero_pool = Some s \<and> fetch_page 1 3000 s = Some ([ReadPage 3000], f, s') \<and> bm_ok s'"
proof -
  obtain s where s: "init_buffer_pool zero_pool = Some s" "bm_ok s" "free_list s \<noteq> []" "page_table s = empty_table"
    using init_buffer_pool_ok [of zero_pool] by (auto simp: zero_pool_def)
  then show ?thesis using fetch_page_correct [OF s(2), of 3000 1 2] by auto
qed

text \<open>The other operations keep the invariant too, and flushing leaves no dirty page and writes each
  dirty page once.\<close>

theorem page_operations_keep_invariant:
  assumes ok: "bm_ok s" and p: "0 \<le> p"
  shows "\<exists>s1 s2 ev s3. unpin_page p s = Some s1 \<and> bm_ok s1 \<and> mark_page_dirty p s = Some s2 \<and> bm_ok s2 \<and>
    flush_dirty_pages s = Some (ev, s3) \<and> bm_ok s3 \<and>
    ev = map (\<lambda>pg. WritePage (pg_page_id pg)) (filter pg_is_dirty (buffer_pool s)) \<and>
    (\<forall>pg\<in>set (buffer_pool s3). \<not> pg_is_dirty pg)"
proof -
  have len: "length (buffer_pool s) = BUFFER_POOL_SIZE" using ok by (simp add: bm_ok_def clock_ok_def)
  have lookup: "lookup_page (page_table s) p = Some (case pt_cells (page_table s) p of None \<Rightarrow> -1 | Some f \<Rightarrow> f)"
    using ok p by (simp add: pt.lookup_cells bm_ok_def)
  have two: "(\<exists>s1. unpin_page p s = Some s1 \<and> bm_ok s1) \<and> (\<exists>s2. mark_page_dirty p s = Some s2 \<and> bm_ok s2)"
  proof (cases "pt_cells (page_table s) p")
    case None
    with lookup ok show ?thesis by (simp add: unpin_page_def mark_page_dirty_def)
  next
    case (Some f)
    with ok have res: "resident (buffer_pool s) p f" by (simp add: bm_ok_def)
    then have f: "0 \<le> f" "nat f < length (buffer_pool s)" "f \<noteq> -1" using len by (auto simp: resident_def)
    have "bm_ok (s\<lparr>buffer_pool := (buffer_pool s)[nat f := pg]\<rparr>)"
      if "pg_page_id pg = p" "pg_data pg = Some p" "0 \<le> pg_pin_count pg" for pg
      using bm_ok_hit [OF ok Some that, of 0 "reference_bits s ! 0"] by simp
    with res f lookup Some ok show ?thesis
      by (simp add: unpin_page_def mark_page_dirty_def frame_page_def resident_def)
  qed
  let ?s3 = "s\<lparr>buffer_pool := map (\<lambda>pg. pg\<lparr>pg_is_dirty := False\<rparr>) (buffer_pool s)\<rparr>"
  have "flush_dirty_pages s = Some (map (\<lambda>pg. WritePage (pg_page_id pg)) (filter pg_is_dirty (buffer_pool s)), ?s3)"
    using len by (simp add: flush_dirty_pages_def update_each_upto)
  moreover have "bm_ok ?s3" using ok by (auto simp: bm_ok_def clock_ok_def resident_def)
  ultimately show ?thesis using two by auto
qed

theorem page_operations_keep_invariant_witness:
  "\<exists>s s1. init_buffer_pool zero_pool = Some s \<and> unpin_page 4 s = Some s1 \<and> bm_ok s1"
proof -
  obtain s where s: "init_buffer_pool zero_pool = Some s" "bm_ok s"
    using init_buffer_pool_ok [of zero_pool] by (auto simp: zero_pool_def)
  then show ?thesis using page_operations_keep_invariant [OF s(2), of 4] by auto
qed

end
