(* ===== verification/Pipelined_Cpu.thy ===== *)
theory Pipelined_Cpu
  imports Prelude
begin

text \<open>
  The five-stage processor (\<^verbatim>\<open>os/cpu/cpu.c\<close>): fetch, execute and write-back work on the
  pipeline registers, which move forward once a cycle. The registers and the memory are machine words and
  bytes; a register number outside the register file leaves the array.

  The theorems relate the pipeline to the sequential execution of the program in memory: a cycle
  computes with registers that miss the results of the two preceding instructions (\<open>committed\<close>), and
  for programs without such hazards the pipeline is the sequential machine, five cycles late.
\<close>

unbundle bit_operations_syntax

subsection \<open>The machine\<close>

definition CPU_MEMORY_SIZE :: nat where
  "CPU_MEMORY_SIZE = 1024"

definition NUM_REGISTERS :: nat where
  "NUM_REGISTERS = 16"

definition PIPELINE_STAGES :: nat where
  "PIPELINE_STAGES = 5"

definition OP_ADD :: u8 where
  "OP_ADD = 0x00"

record cpu_instruction =
  ci_opcode :: u8
  ci_rd :: u8
  ci_rs :: u8
  ci_rt :: u8
  ci_immediate :: u16

record PipelineStage =
  st_pc :: u32
  st_inst :: cpu_instruction
  st_result :: u32
  st_valid :: bool

record CPUState =
  programCounter :: u32
  registers :: "u32 list"
  memory :: "u8 list"
  pipeline :: "PipelineStage list"

definition empty_stage :: PipelineStage where
  "empty_stage = \<lparr>st_pc = 0,
     st_inst = \<lparr>ci_opcode = 0, ci_rd = 0, ci_rs = 0, ci_rt = 0, ci_immediate = 0\<rparr>,
     st_result = 0, st_valid = False\<rparr>"

text \<open>The two arguments say whether the two allocations succeed.\<close>

definition initCPU :: "bool \<Rightarrow> bool \<Rightarrow> CPUState option" where
  "initCPU got_cpu got_memory =
     (if \<not> got_cpu then None
      else if \<not> got_memory then None
      else Some \<lparr>programCounter = 0, registers = replicate NUM_REGISTERS 0,
                 memory = replicate CPU_MEMORY_SIZE 0, pipeline = replicate PIPELINE_STAGES empty_stage\<rparr>)"

definition pack_bytes :: "u8 \<Rightarrow> u8 \<Rightarrow> u8 \<Rightarrow> u8 \<Rightarrow> u32" where
  "pack_bytes b0 b1 b2 b3 =
     push_bit 24 (ucast b0) OR push_bit 16 (ucast b1) OR push_bit 8 (ucast b2) OR ucast b3"

definition fetch_word :: "u8 list \<Rightarrow> nat \<Rightarrow> u32 option" where
  "fetch_word mem pc = do {
     b0 \<leftarrow> c_load mem pc;
     b1 \<leftarrow> c_load mem (pc + 1);
     b2 \<leftarrow> c_load mem (pc + 2);
     b3 \<leftarrow> c_load mem (pc + 3);
     Some (pack_bytes b0 b1 b2 b3)
   }"

definition fetchStage :: "CPUState \<Rightarrow> CPUState option" where
  "fetchStage cpu =
     (if programCounter cpu \<ge> of_nat (CPU_MEMORY_SIZE - 3) then Some cpu
      else do {
        w \<leftarrow> fetch_word (memory cpu) (unat (programCounter cpu));
        s \<leftarrow> c_load (pipeline cpu) 0;
        p \<leftarrow> c_store (pipeline cpu) 0
          (s\<lparr>st_pc := programCounter cpu,
             st_inst := (st_inst s)\<lparr>ci_opcode := ucast (drop_bit 24 w AND 0xFF),
                                    ci_rd := ucast (drop_bit 16 w AND 0xFF),
                                    ci_rs := ucast (drop_bit 8 w AND 0xFF),
                                    ci_rt := ucast (w AND 0xFF)\<rparr>,
             st_valid := True\<rparr>);
        Some (cpu\<lparr>pipeline := p, programCounter := programCounter cpu + 4\<rparr>)
      })"

definition execute_result :: "u32 list \<Rightarrow> cpu_instruction \<Rightarrow> u32 option" where
  "execute_result regs inst =
     (if ci_opcode inst = OP_ADD then do {
        a \<leftarrow> c_load regs (unat (ci_rs inst));
        b \<leftarrow> c_load regs (unat (ci_rt inst));
        Some (a + b)
      } else Some 0)"

definition executeStage :: "CPUState \<Rightarrow> CPUState option" where
  "executeStage cpu = do {
     s \<leftarrow> c_load (pipeline cpu) 2;
     if \<not> st_valid s then Some cpu
     else do {
       r \<leftarrow> execute_result (registers cpu) (st_inst s);
       p \<leftarrow> c_store (pipeline cpu) 2 (s\<lparr>st_result := r\<rparr>);
       Some (cpu\<lparr>pipeline := p\<rparr>)
     }
   }"

definition writebackStage :: "CPUState \<Rightarrow> CPUState option" where
  "writebackStage cpu = do {
     s \<leftarrow> c_load (pipeline cpu) 4;
     if \<not> st_valid s then Some cpu
     else if ci_opcode (st_inst s) = OP_ADD then do {
       regs \<leftarrow> c_store (registers cpu) (unat (ci_rd (st_inst s))) (st_result s);
       Some (cpu\<lparr>registers := regs\<rparr>)
     } else Some cpu
   }"

text \<open>The loop \<^verbatim>\<open>for (i = PIPELINE_STAGES - 1; i > 0; i--) pipeline[i] = pipeline[i-1];\<close>\<close>

fun move_forward :: "nat \<Rightarrow> 'a list \<Rightarrow> 'a list option" where
  "move_forward 0 p = Some p"
| "move_forward (Suc i) p = do {
     s \<leftarrow> c_load p i;
     p' \<leftarrow> c_store p (Suc i) s;
     move_forward i p'
   }"

definition pipelineCycle :: "CPUState \<Rightarrow> CPUState option" where
  "pipelineCycle cpu = do {
     cpu1 \<leftarrow> writebackStage cpu;
     p \<leftarrow> move_forward (PIPELINE_STAGES - 1) (pipeline cpu1);
     cpu2 \<leftarrow> fetchStage (cpu1\<lparr>pipeline := p\<rparr>);
     executeStage cpu2
   }"

fun pipelineCycles :: "nat \<Rightarrow> CPUState \<Rightarrow> CPUState option" where
  "pipelineCycles 0 cpu = Some cpu"
| "pipelineCycles (Suc n) cpu = Option.bind (pipelineCycles n cpu) pipelineCycle"

definition cpu_main_state :: "CPUState option" where
  "cpu_main_state = do {
     cpu \<leftarrow> initCPU True True;
     m0 \<leftarrow> c_store (memory cpu) 0 0x00;
     m1 \<leftarrow> c_store m0 1 0x01;
     m2 \<leftarrow> c_store m1 2 0x02;
     m3 \<leftarrow> c_store m2 3 0x03;
     r2 \<leftarrow> c_store (registers cpu) 2 5;
     r3 \<leftarrow> c_store r2 3 3;
     Some (cpu\<lparr>memory := m3, registers := r3\<rparr>)
   }"

definition cpu_main :: "nat \<Rightarrow> CPUState option" where
  "cpu_main cycles = Option.bind cpu_main_state (pipelineCycles cycles)"

subsection \<open>Fetching\<close>

lemma word_bytes [simp]:
  "(ucast (drop_bit 24 (pack_bytes b0 b1 b2 b3) AND 0xFF) :: u8) = b0"
  "(ucast (drop_bit 16 (pack_bytes b0 b1 b2 b3) AND 0xFF) :: u8) = b1"
  "(ucast (drop_bit 8 (pack_bytes b0 b1 b2 b3) AND 0xFF) :: u8) = b2"
  "(ucast (pack_bytes b0 b1 b2 b3 AND 0xFF) :: u8) = b3"
proof -
  have ff: "(0xFF :: u32) = mask 8" by (simp add: mask_eq_exp_minus_1)
  show "(ucast (drop_bit 24 (pack_bytes b0 b1 b2 b3) AND 0xFF) :: u8) = b0"
    "(ucast (drop_bit 16 (pack_bytes b0 b1 b2 b3) AND 0xFF) :: u8) = b1"
    "(ucast (drop_bit 8 (pack_bytes b0 b1 b2 b3) AND 0xFF) :: u8) = b2"
    "(ucast (pack_bytes b0 b1 b2 b3 AND 0xFF) :: u8) = b3"
    unfolding pack_bytes_def ff
    by (rule bit_word_eqI; auto simp: bit_simps dest: bit_imp_le_length)+
qed

text \<open>The instruction at an address, and the address of the \<open>i\<close>-th instruction.\<close>

definition instr_at :: "u8 list \<Rightarrow> nat \<Rightarrow> cpu_instruction" where
  "instr_at mem i = \<lparr>ci_opcode = mem ! (4 * i), ci_rd = mem ! (4 * i + 1), ci_rs = mem ! (4 * i + 2),
     ci_rt = mem ! (4 * i + 3), ci_immediate = 0\<rparr>"

lemma fetchStage_eq:
  assumes "length (memory cpu) = CPU_MEMORY_SIZE" "programCounter cpu = of_nat (4 * i)" "i < 256"
    "pipeline cpu = s # ps" "ci_immediate (st_inst s) = 0"
  shows "fetchStage cpu = Some (cpu\<lparr>pipeline := s\<lparr>st_pc := of_nat (4 * i), st_inst := instr_at (memory cpu) i,
    st_valid := True\<rparr> # ps, programCounter := of_nat (4 * Suc i)\<rparr>)"
proof -
  have small: "4 * i < 1021" using assms(3) by simp
  then have unat: "unat (of_nat (4 * i) :: u32) = 4 * i"
    by (simp only: unat_of_nat) (simp add: take_bit_nat_eq_self)
  have "\<not> (of_nat (CPU_MEMORY_SIZE - 3) :: u32) \<le> of_nat (4 * i)"
    using small unfolding word_le_nat_alt unat by (simp add: CPU_MEMORY_SIZE_def)
  moreover have "4 * i + 3 < length (memory cpu)" using assms(1,3) by (simp add: CPU_MEMORY_SIZE_def)
  ultimately show ?thesis
    unfolding fetchStage_def assms(2) unat fetch_word_def
    using assms(4,5) by (simp add: instr_at_def)
qed

lemma move_forward_5: "move_forward 4 [a, b, c, d, e] = Some [a, a, b, c, d]"
  by (simp add: eval_nat_numeral)

subsection \<open>The pipeline and the sequential machine\<close>

definition run_instr :: "cpu_instruction \<Rightarrow> u32 list \<Rightarrow> u32 list \<Rightarrow> u32 list" where
  "run_instr inst src regs =
     (if ci_opcode inst = OP_ADD
      then regs[unat (ci_rd inst) := src ! unat (ci_rs inst) + src ! unat (ci_rt inst)] else regs)"

text \<open>The sequential execution of the first instructions, and the registers as the pipeline writes them:
  an instruction's operands miss the results of the two before it.\<close>

fun seq_registers :: "u8 list \<Rightarrow> u32 list \<Rightarrow> nat \<Rightarrow> u32 list" where
  "seq_registers mem regs 0 = regs"
| "seq_registers mem regs (Suc j) =
     run_instr (instr_at mem j) (seq_registers mem regs j) (seq_registers mem regs j)"

fun committed :: "u8 list \<Rightarrow> u32 list \<Rightarrow> nat \<Rightarrow> u32 list" where
  "committed mem regs 0 = regs"
| "committed mem regs (Suc j) =
     run_instr (instr_at mem j) (committed mem regs (j - 2)) (committed mem regs j)"

definition instr_ok :: "cpu_instruction \<Rightarrow> bool" where
  "instr_ok inst \<longleftrightarrow> (ci_opcode inst = OP_ADD \<longrightarrow>
     unat (ci_rd inst) < NUM_REGISTERS \<and> unat (ci_rs inst) < NUM_REGISTERS \<and> unat (ci_rt inst) < NUM_REGISTERS)"

definition alu_result :: "u8 list \<Rightarrow> u32 list \<Rightarrow> nat \<Rightarrow> u32" where
  "alu_result mem regs i = (let inst = instr_at mem i; src = committed mem regs (i - 2)
     in if ci_opcode inst = OP_ADD then src ! unat (ci_rs inst) + src ! unat (ci_rt inst) else 0)"

text \<open>Stage \<open>k\<close> after \<open>n\<close> cycles.\<close>

definition stage_ok :: "u8 list \<Rightarrow> u32 list \<Rightarrow> nat \<Rightarrow> nat \<Rightarrow> PipelineStage \<Rightarrow> bool" where
  "stage_ok mem regs n k s \<longleftrightarrow> ci_immediate (st_inst s) = 0 \<and>
     (if k < n then st_valid s \<and> st_inst s = instr_at mem (n - 1 - k) \<and>
        (2 \<le> k \<longrightarrow> st_result s = alu_result mem regs (n - 1 - k))
      else \<not> st_valid s)"

definition pipe_inv :: "u8 list \<Rightarrow> u32 list \<Rightarrow> nat \<Rightarrow> CPUState \<Rightarrow> bool" where [inv_defs]:
  "pipe_inv mem regs n cpu \<longleftrightarrow> memory cpu = mem \<and> programCounter cpu = of_nat (4 * n) \<and>
     registers cpu = committed mem regs (n - 5) \<and>
     (\<exists>a b c d e. pipeline cpu = [a, b, c, d, e] \<and> stage_ok mem regs n 0 a \<and> stage_ok mem regs n 1 b \<and>
        stage_ok mem regs n 2 c \<and> stage_ok mem regs n 3 d \<and> stage_ok mem regs n 4 e)"

lemma length_committed [simp]: "length (committed mem regs j) = length regs"
  by (induction mem regs j rule: committed.induct) (simp_all add: run_instr_def)

lemma stage_ok_move: "stage_ok mem regs n k s \<Longrightarrow> k \<noteq> 1 \<Longrightarrow> stage_ok mem regs (Suc n) (Suc k) s"
  by (auto simp: stage_ok_def)

lemma writebackStage_inv:
  assumes "pipeline cpu = [a, b, c, d, e]" "stage_ok mem regs n 4 e" "registers cpu = committed mem regs (n - 5)"
    "length regs = NUM_REGISTERS" "\<forall>i<n. instr_ok (instr_at mem i)"
  shows "writebackStage cpu = Some (cpu\<lparr>registers := committed mem regs (Suc n - 5)\<rparr>)"
proof (cases "4 < n")
  case True
  then obtain m where n: "n = Suc (m + 4)" by (metis add.commute less_imp_Suc_add)
  then have "instr_ok (instr_at mem m)" using assms(5) by simp
  with n assms show ?thesis
    by (simp add: writebackStage_def stage_ok_def run_instr_def alu_result_def instr_ok_def Let_def)
next
  case False
  then have "\<not> st_valid e" "n - 5 = 0" "n - 4 = 0" using assms(2) by (simp_all add: stage_ok_def)
  with assms show ?thesis by (simp add: writebackStage_def)
qed

lemma executeStage_inv:
  assumes "pipeline cpu = [a, b, c, d, e]" "stage_ok mem regs n 1 c" "registers cpu = committed mem regs (n - 4)"
    "length regs = NUM_REGISTERS" "\<forall>i<n. instr_ok (instr_at mem i)"
  shows "\<exists>c'. executeStage cpu = Some (cpu\<lparr>pipeline := [a, b, c', d, e]\<rparr>) \<and> stage_ok mem regs (Suc n) 2 c'"
proof (cases "1 < n")
  case True
  define m where "m = n - 2"
  with True have n: "n = Suc (Suc m)" by simp
  have inst: "st_valid c" "st_inst c = instr_at mem m" using assms(2) n by (simp_all add: stage_ok_def)
  have regs: "registers cpu = committed mem regs (m - 2)" using assms(3) n by (simp add: eval_nat_numeral)
  have "instr_ok (instr_at mem m)" using assms(5) n by simp
  then have "execute_result (registers cpu) (st_inst c) = Some (alu_result mem regs m)"
    using inst(2) regs assms(4) by (simp add: execute_result_def alu_result_def instr_ok_def Let_def)
  then show ?thesis
    using assms(1,2) inst n
    by (intro exI [of _ "c\<lparr>st_result := alu_result mem regs m\<rparr>"]) (simp add: executeStage_def stage_ok_def)
next
  case False
  then have "\<not> st_valid c" "ci_immediate (st_inst c) = 0" using assms(2) by (simp_all add: stage_ok_def)
  with assms False show ?thesis
    by (intro exI [of _ c]) (cases cpu; simp add: executeStage_def stage_ok_def)
qed

lemma pipelineCycle_inv:
  assumes inv: "pipe_inv mem regs n cpu" and n: "n < 256" and mem: "length mem = CPU_MEMORY_SIZE"
    and regs: "length regs = NUM_REGISTERS" and ok: "\<forall>i<n. instr_ok (instr_at mem i)"
  shows "\<exists>cpu'. pipelineCycle cpu = Some cpu' \<and> pipe_inv mem regs (Suc n) cpu'"
proof -
  obtain a b c d e where p: "pipeline cpu = [a, b, c, d, e]" and st: "stage_ok mem regs n 0 a"
      "stage_ok mem regs n 1 b" "stage_ok mem regs n 2 c" "stage_ok mem regs n 3 d" "stage_ok mem regs n 4 e"
    using inv by (auto simp: pipe_inv_def)
  define a' where "a' = a\<lparr>st_pc := of_nat (4 * n), st_inst := instr_at mem n, st_valid := True\<rparr>"
  define cpu1 where "cpu1 = cpu\<lparr>registers := committed mem regs (Suc n - 5), pipeline := [a, a, b, c, d]\<rparr>"
  define cpu2 where "cpu2 = cpu1\<lparr>pipeline := [a', a, b, c, d], programCounter := of_nat (4 * Suc n)\<rparr>"
  have "writebackStage cpu = Some (cpu\<lparr>registers := committed mem regs (Suc n - 5)\<rparr>)"
    by (rule writebackStage_inv [OF p st(5) _ regs ok]) (use inv in \<open>simp add: pipe_inv_def\<close>)
  moreover have "fetchStage cpu1 = Some cpu2"
    using fetchStage_eq [of cpu1 n a "[a, b, c, d]"] inv mem n st(1)
    by (simp add: cpu1_def cpu2_def a'_def pipe_inv_def stage_ok_def)
  moreover obtain c' where "executeStage cpu2 = Some (cpu2\<lparr>pipeline := [a', a, c', c, d]\<rparr>)"
      and c': "stage_ok mem regs (Suc n) 2 c'"
    using executeStage_inv [of cpu2 a' a b c d mem regs n] st(2) regs ok
    by (auto simp: cpu2_def cpu1_def)
  ultimately have "pipelineCycle cpu = Some (cpu2\<lparr>pipeline := [a', a, c', c, d]\<rparr>)"
    using p by (simp add: pipelineCycle_def PIPELINE_STAGES_def move_forward_5 cpu1_def)
  moreover have "stage_ok mem regs (Suc n) 0 a'" by (simp add: stage_ok_def a'_def instr_at_def)
  moreover have "stage_ok mem regs (Suc n) 1 a" "stage_ok mem regs (Suc n) 3 c" "stage_ok mem regs (Suc n) 4 d"
    using stage_ok_move [OF st(1)] stage_ok_move [OF st(3)] stage_ok_move [OF st(4)]
    by (simp_all add: eval_nat_numeral)
  ultimately show ?thesis using c' inv by (auto simp: pipe_inv_def cpu2_def cpu1_def)
qed

definition start_state :: "u8 list \<Rightarrow> u32 list \<Rightarrow> CPUState" where
  "start_state mem regs = \<lparr>programCounter = 0, registers = regs, memory = mem,
     pipeline = replicate PIPELINE_STAGES empty_stage\<rparr>"

lemma pipelineCycles_inv:
  assumes "n \<le> 256" "length mem = CPU_MEMORY_SIZE" "length regs = NUM_REGISTERS" "\<forall>i<n. instr_ok (instr_at mem i)"
  shows "\<exists>cpu. pipelineCycles n (start_state mem regs) = Some cpu \<and> pipe_inv mem regs n cpu"
  using assms(1,4)
proof (induction n)
  case 0
  have "replicate 5 empty_stage = [empty_stage, empty_stage, empty_stage, empty_stage, empty_stage]"
    by (simp add: eval_nat_numeral)
  then show ?case
    by (simp add: pipe_inv_def start_state_def PIPELINE_STAGES_def stage_ok_def empty_stage_def)
next
  case (Suc n)
  then obtain cpu where "pipelineCycles n (start_state mem regs) = Some cpu" "pipe_inv mem regs n cpu"
    by auto
  with pipelineCycle_inv [of mem regs n cpu] Suc.prems assms(2,3) show ?case by auto
qed

text \<open>A hazard: an instruction that reads a register which one of the two instructions before it writes.\<close>

definition reads_after :: "cpu_instruction \<Rightarrow> cpu_instruction \<Rightarrow> bool" where
  "reads_after x y \<longleftrightarrow> ci_opcode x = OP_ADD \<and> ci_opcode y = OP_ADD \<and> (ci_rd x = ci_rs y \<or> ci_rd x = ci_rt y)"

definition hazard_free :: "u8 list \<Rightarrow> nat \<Rightarrow> bool" where
  "hazard_free mem n \<longleftrightarrow>
     list_all (\<lambda>j. list_all (\<lambda>i. \<not> reads_after (instr_at mem i) (instr_at mem j)) [j - 2..<j]) [0..<n]"

lemma committed_operand:
  assumes "list_all (\<lambda>i. \<not> reads_after (instr_at mem i) inst) [j - 2..<j]" "ci_opcode inst = OP_ADD"
    and r: "r = ci_rs inst \<or> r = ci_rt inst"
  shows "committed mem regs j ! unat r = committed mem regs (j - 2) ! unat r"
proof -
  have one: "committed mem regs (Suc i) ! unat r = committed mem regs i ! unat r"
    if "\<not> reads_after (instr_at mem i) inst" for i
  proof (cases "ci_opcode (instr_at mem i) = OP_ADD")
    case True
    with that assms(2) r have "unat (ci_rd (instr_at mem i)) \<noteq> unat r"
      by (auto simp: reads_after_def word_unat_eq_iff)
    then show ?thesis by (simp add: run_instr_def)
  qed (simp add: run_instr_def)
  consider "j = 0" | "j = 1" | k where "j = Suc (Suc k)" by (metis One_nat_def not0_implies_Suc)
  then show ?thesis
    using assms(1) by cases (simp_all add: one del: committed.simps(2))
qed

lemma committed_sequential: "hazard_free mem n \<Longrightarrow> committed mem regs n = seq_registers mem regs n"
proof (induction n)
  case (Suc n)
  then have IH: "committed mem regs n = seq_registers mem regs n"
    and h: "list_all (\<lambda>i. \<not> reads_after (instr_at mem i) (instr_at mem n)) [n - 2..<n]"
    by (simp_all add: hazard_free_def)
  have "committed mem regs (n - 2) ! unat r = seq_registers mem regs n ! unat r"
    if "ci_opcode (instr_at mem n) = OP_ADD" "r = ci_rs (instr_at mem n) \<or> r = ci_rt (instr_at mem n)" for r
    using committed_operand [OF h that, of regs] IH by simp
  with IH show ?case by (simp add: run_instr_def)
qed simp

text \<open>C27. The pipeline refines the sequential machine: for a program whose first instructions name existing
  registers and have no hazard, the registers after \<open>n\<close> cycles are those after executing the first
  \<open>n - 5\<close> instructions one after the other; no array is left.\<close>

theorem pipeline_refines_sequential:
  assumes "n \<le> 256" "length mem = CPU_MEMORY_SIZE" "length regs = NUM_REGISTERS"
    "\<forall>i<n. instr_ok (instr_at mem i)" "hazard_free mem (n - 5)"
  shows "map_option registers (pipelineCycles n (start_state mem regs)) = Some (seq_registers mem regs (n - 5))"
  using pipelineCycles_inv [OF assms(1-4)] committed_sequential [OF assms(5), of regs]
  by (auto simp: pipe_inv_def)

definition demo_memory :: "u8 list" where
  "demo_memory = [0, 1, 2, 3,  0, 4, 2, 3,  0, 5, 2, 2] @ replicate 1012 0"

theorem pipeline_refines_sequential_witness:
  "map_option registers (pipelineCycles 8 (start_state demo_memory ([0, 0, 5, 3] @ replicate 12 0))) =
    Some (seq_registers demo_memory ([0, 0, 5, 3] @ replicate 12 0) 3)"
proof -
  have "\<forall>i<8. instr_ok (instr_at demo_memory i)"
  proof (intro allI impI)
    fix i :: nat assume "i < 8"
    then have "i \<in> {0, 1, 2, 3, 4, 5, 6, 7}" by auto
    then show "instr_ok (instr_at demo_memory i)"
      by (auto simp: instr_ok_def instr_at_def demo_memory_def NUM_REGISTERS_def nth_append)
  qed
  moreover have "hazard_free demo_memory 3" by code_simp
  ultimately show ?thesis
    using pipeline_refines_sequential [of 8 demo_memory "[0, 0, 5, 3] @ replicate 12 0"]
    by (simp add: demo_memory_def CPU_MEMORY_SIZE_def NUM_REGISTERS_def)
qed

text \<open>The demonstration program stops one cycle too early: after its five cycles the sum is still
  in the last pipeline register and R1 is 0; a sixth cycle would write 8 to R1.\<close>

theorem cpu_main_misses_writeback:
  "map_option (\<lambda>cpu. registers cpu ! 1) (cpu_main PIPELINE_STAGES) = Some 0 \<and>
   map_option (\<lambda>cpu. st_result (pipeline cpu ! 4)) (cpu_main PIPELINE_STAGES) = Some 8 \<and>
   map_option (\<lambda>cpu. registers cpu ! 1) (cpu_main (Suc PIPELINE_STAGES)) = Some 8"
  by code_simp

end
