(* ===== verification/Processor_Sim.thy ===== *)
theory Processor_Sim
  imports Prelude
begin

text \<open>
  The instruction-set simulator (\<^verbatim>\<open>unix/processor_sim.c\<close>) and the decoder of x86 prefixes
  (\<^verbatim>\<open>unix/decode.c\<close>).

  The simulator decodes 32-bit words into ALU instructions on 64 registers. \<open>None\<close> is a shift by the
  width of the operand or more, which C leaves undefined, or a register outside the file. The decoder
  reads a byte sequence; \<open>None\<close> is a read behind its end.

  The theorems: encoding and decoding are inverse for the documented format; the ALU computes the
  arithmetic it should, with the carry flag telling when it wraps; the decoder's reads are in bounds for
  exactly the sequences long enough for the bytes they announce.
\<close>

unbundle bit_operations_syntax

subsection \<open>The state and the instructions\<close>

definition REG_COUNT :: nat where
  "REG_COUNT = 64"

definition RAM_SIZE :: nat where
  "RAM_SIZE = 1024"

datatype InstructionType = INST_ALU | INST_LOAD | INST_STORE | INST_BRANCH | INST_MULTIPLY

datatype AluOperation = ALU_ADD | ALU_SUB | ALU_AND | ALU_OR | ALU_XOR | ALU_SHL | ALU_SHR

record Flags =
  fl_zero :: bool
  fl_carry :: bool
  fl_negative :: bool
  fl_overflow :: bool

record ProcessorState =
  sim_registers :: "u32 list"
  sim_ram :: "u8 list"
  sim_pc :: u32
  sim_flags :: Flags
  instruction_register :: u32

text \<open>The field \<open>in_alu_op\<close> is \<open>None\<close> for the one three-bit number that is no operation.\<close>

record sim_instruction =
  in_type :: InstructionType
  in_alu_op :: "AluOperation option"
  in_rd :: u8
  in_rs1 :: u8
  in_rs2 :: u8
  in_immediate :: u16

definition initialize_processor :: ProcessorState where
  "initialize_processor = \<lparr>sim_registers = replicate REG_COUNT 0, sim_ram = replicate RAM_SIZE 0, sim_pc = 0,
     sim_flags = \<lparr>fl_zero = False, fl_carry = False, fl_negative = False, fl_overflow = False\<rparr>,
     instruction_register = 0\<rparr>"

definition shift_by :: "(nat \<Rightarrow> u32 \<Rightarrow> u32) \<Rightarrow> u32 \<Rightarrow> u32 \<Rightarrow> u32 option" where
  "shift_by f a b = (if unat b < 32 then Some (f (unat b) a) else None)"

definition alu_value :: "u32 \<Rightarrow> u32 \<Rightarrow> AluOperation option \<Rightarrow> u32 option" where
  "alu_value a b op = (case op of
       None \<Rightarrow> Some 0
     | Some ALU_ADD \<Rightarrow> Some (a + b)
     | Some ALU_SUB \<Rightarrow> Some (a - b)
     | Some ALU_AND \<Rightarrow> Some (a AND b)
     | Some ALU_OR \<Rightarrow> Some (a OR b)
     | Some ALU_XOR \<Rightarrow> Some (a XOR b)
     | Some ALU_SHL \<Rightarrow> shift_by push_bit a b
     | Some ALU_SHR \<Rightarrow> shift_by drop_bit a b)"

definition perform_alu_operation :: "u32 \<Rightarrow> u32 \<Rightarrow> AluOperation option \<Rightarrow> Flags \<Rightarrow> (u32 \<times> Flags) option" where
  "perform_alu_operation a b op fl = do {
     r \<leftarrow> alu_value a b op;
     let fl1 = (case op of Some ALU_ADD \<Rightarrow> fl\<lparr>fl_carry := r < a\<rparr>
                         | Some ALU_SUB \<Rightarrow> fl\<lparr>fl_carry := a < b\<rparr>
                         | _ \<Rightarrow> fl);
     Some (r, fl1\<lparr>fl_zero := r = 0, fl_negative := r AND 0x80000000 \<noteq> 0\<rparr>)
   }"

definition execute_alu_operation :: "sim_instruction \<Rightarrow> ProcessorState \<Rightarrow> ProcessorState option" where
  "execute_alu_operation inst st = do {
     op1 \<leftarrow> c_load (sim_registers st) (unat (in_rs1 inst));
     op2 \<leftarrow> (if unat (in_rs2 inst) < REG_COUNT then c_load (sim_registers st) (unat (in_rs2 inst))
             else Some (ucast (in_immediate inst)));
     (r, fl) \<leftarrow> perform_alu_operation op1 op2 (in_alu_op inst) (sim_flags st);
     regs \<leftarrow> c_store (sim_registers st) (unat (in_rd inst)) r;
     Some (st\<lparr>sim_registers := regs, sim_flags := fl\<rparr>)
   }"

definition alu_op_of :: "u32 \<Rightarrow> AluOperation option" where
  "alu_op_of n = (if n = 0 then Some ALU_ADD else if n = 1 then Some ALU_SUB else if n = 2 then Some ALU_AND
     else if n = 3 then Some ALU_OR else if n = 4 then Some ALU_XOR else if n = 5 then Some ALU_SHL
     else if n = 6 then Some ALU_SHR else None)"

definition decode_instruction :: "u32 \<Rightarrow> sim_instruction" where
  "decode_instruction w = \<lparr>in_type = INST_ALU, in_alu_op = alu_op_of (drop_bit 26 w AND 0x7),
     in_rd = ucast (drop_bit 21 w AND 0x1F), in_rs1 = ucast (drop_bit 16 w AND 0x1F),
     in_rs2 = ucast (drop_bit 11 w AND 0x1F), in_immediate = ucast (w AND 0x7FF)\<rparr>"

definition execute_instruction :: "sim_instruction \<Rightarrow> ProcessorState \<Rightarrow> ProcessorState option" where
  "execute_instruction inst st =
     (case in_type inst of INST_ALU \<Rightarrow> execute_alu_operation inst st | _ \<Rightarrow> Some st)"

text \<open>What \<open>print_processor_state\<close> prints: the program counter, the flags and the registers 1 to 7
  that are not zero.\<close>

definition print_processor_state :: "ProcessorState \<Rightarrow> u32 \<times> Flags \<times> (nat \<times> u32) list" where
  "print_processor_state st = (sim_pc st, sim_flags st,
     map (\<lambda>i. (i, sim_registers st ! i)) (filter (\<lambda>i. sim_registers st ! i \<noteq> 0) [1..<8]))"

fun run_sim_program :: "u32 list \<Rightarrow> ProcessorState \<Rightarrow> ProcessorState option" where
  "run_sim_program [] st = Some st"
| "run_sim_program (w # ws) st = do {
     st1 \<leftarrow> execute_instruction (decode_instruction w) (st\<lparr>instruction_register := w\<rparr>);
     run_sim_program ws (st1\<lparr>sim_pc := sim_pc st1 + 4\<rparr>)
   }"

definition sample_program :: "u32 list" where
  "sample_program = [0x00001820, 0x00002022, 0x00002824, 0x00003026, 0x00003828]"

definition sim_main :: "ProcessorState option" where
  "sim_main = do {
     r1 \<leftarrow> c_store (sim_registers initialize_processor) 1 0x0A;
     r2 \<leftarrow> c_store r1 2 0x05;
     run_sim_program sample_program (initialize_processor\<lparr>sim_registers := r2\<rparr>)
   }"

subsection \<open>The instruction format\<close>

text \<open>The documented layout: operation in bits 26 to 31, the three registers below it, the immediate value
  in bits 0 to 10.\<close>

definition encode_instruction :: "u32 \<Rightarrow> u8 \<Rightarrow> u8 \<Rightarrow> u8 \<Rightarrow> u16 \<Rightarrow> u32" where
  "encode_instruction op rd rs1 rs2 imm =
     push_bit 26 op OR push_bit 21 (ucast rd) OR push_bit 16 (ucast rs1) OR push_bit 11 (ucast rs2) OR ucast imm"

definition fields_ok :: "u32 \<Rightarrow> u8 \<Rightarrow> u8 \<Rightarrow> u8 \<Rightarrow> u16 \<Rightarrow> bool" where
  "fields_ok op rd rs1 rs2 imm \<longleftrightarrow> take_bit 3 op = op \<and> take_bit 5 rd = rd \<and> take_bit 5 rs1 = rs1 \<and>
     take_bit 5 rs2 = rs2 \<and> take_bit 11 imm = imm"

lemma bit_narrow: "take_bit n (w :: 'a::len word) = w \<Longrightarrow> bit w k \<Longrightarrow> k < n"
  by (metis bit_take_bit_iff)

lemma field_masks: "(0x7 :: u32) = mask 3" "(0x1F :: u32) = mask 5" "(0x7FF :: u32) = mask 11"
  by (simp_all add: mask_eq_exp_minus_1)

lemma decode_fields:
  assumes "fields_ok op rd rs1 rs2 imm"
  defines "w \<equiv> encode_instruction op rd rs1 rs2 imm"
  shows "drop_bit 26 w AND 0x7 = op" "(ucast (drop_bit 21 w AND 0x1F) :: u8) = rd"
    "(ucast (drop_bit 16 w AND 0x1F) :: u8) = rs1" "(ucast (drop_bit 11 w AND 0x1F) :: u8) = rs2"
    "(ucast (w AND 0x7FF) :: u16) = imm"
proof -
  have op: "take_bit 3 op = op" and rd: "take_bit 5 rd = rd" and r1: "take_bit 5 rs1 = rs1"
    and r2: "take_bit 5 rs2 = rs2" and im: "take_bit 11 imm = imm"
    using assms(1) by (simp_all add: fields_ok_def)
  note narrow = bit_narrow [OF op] bit_narrow [OF rd] bit_narrow [OF r1] bit_narrow [OF r2] bit_narrow [OF im]
  show "drop_bit 26 w AND 0x7 = op"
    unfolding w_def encode_instruction_def field_masks
    by (rule bit_word_eqI) (auto simp: bit_simps dest: narrow)
  show "(ucast (drop_bit 21 w AND 0x1F) :: u8) = rd"
    unfolding w_def encode_instruction_def field_masks
    by (rule bit_word_eqI) (auto simp: bit_simps dest: narrow)
  show "(ucast (drop_bit 16 w AND 0x1F) :: u8) = rs1"
    unfolding w_def encode_instruction_def field_masks
    by (rule bit_word_eqI) (auto simp: bit_simps dest: narrow)
  show "(ucast (drop_bit 11 w AND 0x1F) :: u8) = rs2"
    unfolding w_def encode_instruction_def field_masks
    by (rule bit_word_eqI) (auto simp: bit_simps dest: narrow)
  show "(ucast (w AND 0x7FF) :: u16) = imm"
    unfolding w_def encode_instruction_def field_masks
    by (rule bit_word_eqI) (auto simp: bit_simps dest: narrow)
qed

text \<open>Decoding inverts the documented encoding: an instruction word assembled from a three-bit
  operation, three five-bit registers and an eleven-bit immediate decodes to exactly these fields.\<close>

theorem decode_encode_roundtrip:
  assumes "fields_ok op rd rs1 rs2 imm"
  shows "decode_instruction (encode_instruction op rd rs1 rs2 imm) =
    \<lparr>in_type = INST_ALU, in_alu_op = alu_op_of op, in_rd = rd, in_rs1 = rs1, in_rs2 = rs2, in_immediate = imm\<rparr>"
  by (simp add: decode_instruction_def decode_fields [OF assms])

theorem decode_encode_roundtrip_witness:
  "decode_instruction (encode_instruction 1 4 1 2 7) =
    \<lparr>in_type = INST_ALU, in_alu_op = Some ALU_SUB, in_rd = 4, in_rs1 = 1, in_rs2 = 2, in_immediate = 7\<rparr>"
  using decode_encode_roundtrip [of 1 4 1 2 7] by (simp add: fields_ok_def alu_op_of_def)

subsection \<open>Execution\<close>

lemma sign_bit: "(r AND 0x80000000 \<noteq> 0) \<longleftrightarrow> sint (r :: u32) < 0"
proof -
  have "(0x80000000 :: u32) = push_bit 31 1" by simp
  then have "(r AND 0x80000000 \<noteq> 0) \<longleftrightarrow> bit r 31"
    by (metis and_exp_eq_0_iff_not_bit push_bit_of_1)
  also have "\<dots> \<longleftrightarrow> sint r < 0" using bit_last_iff [of r] by simp
  finally show ?thesis .
qed

lemma add_carry: "(a + b < (a :: u32)) \<longleftrightarrow> 2 ^ 32 \<le> unat a + unat b"
proof -
  have "unat a < 2 ^ 32" "unat b < 2 ^ 32" using unsigned_less [of a] unsigned_less [of b] by simp_all
  then show ?thesis
    unfolding word_less_nat_alt unat_word_ariths
    by (cases "unat a + unat b < 2 ^ 32") (simp_all add: mod_if [of "unat a + unat b"])
qed

text \<open>The ALU returns a result exactly when a shift amount is below 32. Then the zero and negative
  flags describe the result as a signed number, the overflow flag is left alone, and for an addition
  (a subtraction) the result is the sum (difference) modulo \<open>2 ^ 32\<close> and the carry flag says whether it
  wrapped.\<close>

theorem alu_operation_correct:
  "(case perform_alu_operation a b op fl of
      None \<Rightarrow> (op = Some ALU_SHL \<or> op = Some ALU_SHR) \<and> unat b \<ge> 32
    | Some (r, fl') \<Rightarrow>
        (fl_zero fl' \<longleftrightarrow> r = 0) \<and> (fl_negative fl' \<longleftrightarrow> sint r < 0) \<and> fl_overflow fl' = fl_overflow fl \<and>
        (if op = Some ALU_ADD then
           unat r = (unat a + unat b) mod 2 ^ 32 \<and> (fl_carry fl' \<longleftrightarrow> 2 ^ 32 \<le> unat a + unat b)
         else if op = Some ALU_SUB then
           uint r = (uint a - uint b) mod 2 ^ 32 \<and> (fl_carry fl' \<longleftrightarrow> uint a - uint b < 0)
         else fl_carry fl' = fl_carry fl) \<and>
        (op = Some ALU_SHL \<longrightarrow> unat b < 32 \<and> unat r = unat a * 2 ^ unat b mod 2 ^ 32) \<and>
        (op = Some ALU_SHR \<longrightarrow> unat b < 32 \<and> unat r = unat a div 2 ^ unat b))"
proof -
  have shl: "unat (push_bit n w) = unat w * 2 ^ n mod 2 ^ 32" for n and w :: u32
  proof -
    have "unat (push_bit n w) = take_bit 32 (push_bit n (unat w))"
      by (rule bit_eqI) (auto simp: bit_simps)
    then show ?thesis by (simp only: push_bit_eq_mult take_bit_eq_mod)
  qed
  have shr: "unat (drop_bit n w) = unat w div 2 ^ n" for n and w :: u32
    unfolding unat_drop_bit_eq by (rule drop_bit_eq_div)
  show ?thesis
  proof (cases op)
    case None
    then show ?thesis by (simp add: perform_alu_operation_def alu_value_def Let_def)
  next
    case (Some o1)
    show ?thesis
    proof (cases "o1 = ALU_SUB")
      case True
      with Some show ?thesis
        by (simp add: perform_alu_operation_def alu_value_def Let_def sign_bit uint_word_ariths word_less_alt)
    next
      case False
      with Some show ?thesis
        by (cases o1)
          (simp_all add: perform_alu_operation_def alu_value_def shift_by_def Let_def sign_bit add_carry
            shl shr unat_word_ariths)
    qed
  qed
qed

theorem alu_operation_correct_witness:
  "perform_alu_operation 0xFFFFFFFF 2 (Some ALU_ADD) (sim_flags initialize_processor) =
     Some (1, \<lparr>fl_zero = False, fl_carry = True, fl_negative = False, fl_overflow = False\<rparr>) \<and>
   2 ^ 32 \<le> unat (0xFFFFFFFF :: u32) + unat (2 :: u32)"
  using alu_operation_correct [where a = "0xFFFFFFFF" and b = 2 and op = "Some ALU_ADD"
      and fl = "sim_flags initialize_processor"]
  by (simp add: perform_alu_operation_def alu_value_def Let_def initialize_processor_def)

text \<open>The sample program does not do what its comments say: every word decodes to an addition to
  register 0, so the five instructions change no register; the registers 3 to 7 stay 0.\<close>

theorem sample_program_has_no_effect:
  "map decode_instruction sample_program =
     map (\<lambda>(rs2, imm). \<lparr>in_type = INST_ALU, in_alu_op = Some ALU_ADD, in_rd = 0, in_rs1 = 0, in_rs2 = rs2,
        in_immediate = imm\<rparr>) [(3, 0x20), (4, 0x22), (5, 0x24), (6, 0x26), (7, 0x28)] \<and>
   map_option (\<lambda>st. (sim_registers st, sim_pc st)) sim_main =
     Some ((replicate REG_COUNT 0)[1 := 10, 2 := 5], 20)"
  by code_simp

subsection \<open>Decoding x86 prefixes\<close>

record x86_instruction =
  has_rex :: u8
  rex_w :: u8
  rex_r :: u8
  rex_x :: u8
  rex_b :: u8
  modrm :: u8
  sib :: u8
  opcode :: u8

definition is_rex :: "u8 \<Rightarrow> bool" where
  "is_rex b \<longleftrightarrow> b AND 0xF0 = 0x40"

definition decode_rex :: "u8 \<Rightarrow> x86_instruction \<Rightarrow> x86_instruction" where
  "decode_rex b inst = inst\<lparr>has_rex := 1, rex_w := drop_bit 3 (b AND 0x08), rex_r := drop_bit 2 (b AND 0x04),
     rex_x := drop_bit 1 (b AND 0x02), rex_b := b AND 0x01\<rparr>"

definition has_sib :: "u8 \<Rightarrow> bool" where
  "has_sib m \<longleftrightarrow> drop_bit 6 m AND 0x03 \<noteq> 0x03 \<and> m AND 0x07 = 0x04"

definition decode_x86 :: "u8 list \<Rightarrow> nat \<Rightarrow> x86_instruction \<Rightarrow> x86_instruction option" where
  "decode_x86 bytes len inst = do {
     b \<leftarrow> c_load bytes 0;
     let (i, inst1) = (if is_rex b then (1, decode_rex b inst) else (0, inst));
     opc \<leftarrow> c_load bytes i;
     let inst2 = inst1\<lparr>opcode := opc\<rparr>;
     if i + 1 < len then do {
       m \<leftarrow> c_load bytes (i + 1);
       let inst3 = inst2\<lparr>modrm := m\<rparr>;
       if has_sib m then do {
         s \<leftarrow> c_load bytes (i + 2);
         Some (inst3\<lparr>sib := s\<rparr>)
       } else Some inst3
     } else Some inst2
   }"

definition x86_zero :: x86_instruction where
  "x86_zero = \<lparr>has_rex = 0, rex_w = 0, rex_r = 0, rex_x = 0, rex_b = 0, modrm = 0, sib = 0, opcode = 0\<rparr>"

definition x86_main :: "x86_instruction option" where
  "x86_main = decode_x86 [0x48, 0x89, 0xC8] 3 x86_zero"

text \<open>C40. The decoder reads behind the end of the byte sequence exactly when the sequence is empty,
  consists of a REX prefix only, or ends with a ModRM byte that announces a SIB byte; the demonstration
  instruction is decoded correctly.\<close>

theorem decode_x86_bounds:
  "(let i = (if bytes \<noteq> [] \<and> is_rex (hd bytes) then 1 else 0) in
     decode_x86 bytes (length bytes) inst = None \<longleftrightarrow>
       length bytes \<le> i \<or> length bytes = i + 2 \<and> has_sib (bytes ! (i + 1))) \<and>
   x86_main = Some (x86_zero\<lparr>has_rex := 1, rex_w := 1, opcode := 0x89, modrm := 0xC8\<rparr>)"
proof
  show "let i = (if bytes \<noteq> [] \<and> is_rex (hd bytes) then 1 else 0) in
     decode_x86 bytes (length bytes) inst = None \<longleftrightarrow>
       length bytes \<le> i \<or> length bytes = i + 2 \<and> has_sib (bytes ! (i + 1))"
  proof (cases bytes)
    case (Cons b bs)
    then show ?thesis
      by (cases bs; cases "tl bs") (auto simp: decode_x86_def Let_def c_load_def split: if_splits)
  qed (simp add: decode_x86_def)
  show "x86_main = Some (x86_zero\<lparr>has_rex := 1, rex_w := 1, opcode := 0x89, modrm := 0xC8\<rparr>)"
    by code_simp
qed

end
