(* ===== verification/Rwlock_Buffer.thy ===== *)
theory Rwlock_Buffer
  imports Ring_Fifo
begin

text \<open>
  Readers and writers (\<^verbatim>\<open>concurrency/threads/rwlock-buffer/rwlock_buffer.c\<close>): a read-write lock
  made of two mutexes and a reader count, a bounded buffer with two condition variables, five reader and
  two writer threads and the signal handler that asks them to stop.

  The threads interleave: \<open>rw_step\<close> is one atomic step of one thread, or the signal handler. A
  thread's control point is a value of \<open>pc\<close>; every function of the code is one definition that gives
  the step at each of its control points, and \<open>None\<close> when the thread is blocked. An access outside the
  memory of the buffer is a step to the control point \<open>Crashed\<close>, from which there is no way on; that
  none is ever there is part of what is shown. A mutex is its owner.
  \<open>pthread_cond_wait\<close> releases the mutex and waits; it may wake at any time, since POSIX allows
  spurious wake-ups, and has to take the mutex again, so that the condition variables carry no state
  and the signals of the code need no steps. The numbers drawn by \<open>rand\<close> are arguments of the step.
  The lists \<open>produced\<close> and \<open>consumed\<close> record what went through the buffer; no step reads them.
\<close>

subsection \<open>The state\<close>

definition NUM_READERS :: nat where
  "NUM_READERS = 5"

definition NUM_WRITERS :: nat where
  "NUM_WRITERS = 2"

definition BUFFER_SIZE :: nat where
  "BUFFER_SIZE = 10"

definition NUM_ITERATIONS :: nat where
  "NUM_ITERATIONS = 20"

datatype thread = Reader nat | Writer nat

datatype pc =
    Head | Finished | Crashed
  | RLEnter | RLCount | RLFirst | RLLeave
  | Reading
  | RUEnter | RUCount | RULast | RULeave
  | BCEnter | BCTest | BCWait | BCTake | BCLeave
  | WLEnter | Writing | WULeave
  | BPEnter | BPTest | BPWait | BPPut | BPLeave

record rwlock_t =
  counter_lock :: "thread option"
  write_lock :: "thread option"
  read_count :: int

record bounded_buffer_t =
  bb_mutex :: "thread option"
  bb_buffer :: "int list"
  bb_size :: nat
  bb_count :: nat
  bb_in :: nat
  bb_out :: nat

record rw_state =
  rw_lock :: rwlock_t
  rw_buf :: bounded_buffer_t
  shared_data :: int
  running :: bool
  pc_of :: "thread \<Rightarrow> pc"
  iter :: "thread \<Rightarrow> nat"
  item :: "thread \<Rightarrow> int"
  produced :: "int list"
  consumed :: "int list"

definition goto :: "thread \<Rightarrow> pc \<Rightarrow> rw_state \<Rightarrow> rw_state" where
  "goto t p s = s\<lparr>pc_of := (pc_of s)(t := p)\<rparr>"

definition handle_signal :: "rw_state \<Rightarrow> rw_state" where
  "handle_signal s = s\<lparr>running := False\<rparr>"

definition rwlock_init :: rwlock_t where
  "rwlock_init = \<lparr>counter_lock = None, write_lock = None, read_count = 0\<rparr>"

definition bb_init :: "int list \<Rightarrow> nat \<Rightarrow> bounded_buffer_t" where
  "bb_init mem n = \<lparr>bb_mutex = None, bb_buffer = mem, bb_size = n, bb_count = 0, bb_in = 0, bb_out = 0\<rparr>"

subsection \<open>The steps of the functions\<close>

definition rwlock_read_lock :: "thread \<Rightarrow> rw_state \<Rightarrow> rw_state option" where
  "rwlock_read_lock t s = (let l = rw_lock s in
     case pc_of s t of
       RLEnter \<Rightarrow> if counter_lock l = None then Some (goto t RLCount (s\<lparr>rw_lock := l\<lparr>counter_lock := Some t\<rparr>\<rparr>)) else None
     | RLCount \<Rightarrow> let n = read_count l + 1
                 in Some (goto t (if n = 1 then RLFirst else RLLeave) (s\<lparr>rw_lock := l\<lparr>read_count := n\<rparr>\<rparr>))
     | RLFirst \<Rightarrow> if write_lock l = None then Some (goto t RLLeave (s\<lparr>rw_lock := l\<lparr>write_lock := Some t\<rparr>\<rparr>)) else None
     | RLLeave \<Rightarrow> Some (goto t Reading (s\<lparr>rw_lock := l\<lparr>counter_lock := None\<rparr>\<rparr>))
     | _ \<Rightarrow> None)"

definition rwlock_read_unlock :: "thread \<Rightarrow> rw_state \<Rightarrow> rw_state option" where
  "rwlock_read_unlock t s = (let l = rw_lock s in
     case pc_of s t of
       RUEnter \<Rightarrow> if counter_lock l = None then Some (goto t RUCount (s\<lparr>rw_lock := l\<lparr>counter_lock := Some t\<rparr>\<rparr>)) else None
     | RUCount \<Rightarrow> let n = read_count l - 1
                 in Some (goto t (if n = 0 then RULast else RULeave) (s\<lparr>rw_lock := l\<lparr>read_count := n\<rparr>\<rparr>))
     | RULast \<Rightarrow> Some (goto t RULeave (s\<lparr>rw_lock := l\<lparr>write_lock := None\<rparr>\<rparr>))
     | RULeave \<Rightarrow> Some (goto t BCEnter (s\<lparr>rw_lock := l\<lparr>counter_lock := None\<rparr>\<rparr>))
     | _ \<Rightarrow> None)"

definition rwlock_write_lock :: "thread \<Rightarrow> rw_state \<Rightarrow> rw_state option" where
  "rwlock_write_lock t s = (let l = rw_lock s in
     case pc_of s t of
       WLEnter \<Rightarrow> if write_lock l = None then Some (goto t Writing (s\<lparr>rw_lock := l\<lparr>write_lock := Some t\<rparr>\<rparr>)) else None
     | _ \<Rightarrow> None)"

definition rwlock_write_unlock :: "thread \<Rightarrow> rw_state \<Rightarrow> rw_state option" where
  "rwlock_write_unlock t s = (let l = rw_lock s in
     case pc_of s t of
       WULeave \<Rightarrow> Some (goto t BPEnter (s\<lparr>rw_lock := l\<lparr>write_lock := None\<rparr>\<rparr>))
     | _ \<Rightarrow> None)"

text \<open>\<open>BPWait\<close> is inside \<open>pthread_cond_wait\<close>, without the mutex; leaving it takes the mutex.\<close>

definition bb_produce :: "thread \<Rightarrow> rw_state \<Rightarrow> rw_state option" where
  "bb_produce t s = (let b = rw_buf s in
     case pc_of s t of
       BPEnter \<Rightarrow> if bb_mutex b = None then Some (goto t BPTest (s\<lparr>rw_buf := b\<lparr>bb_mutex := Some t\<rparr>\<rparr>)) else None
     | BPTest \<Rightarrow> if bb_count b = bb_size b \<and> running s
                then Some (goto t BPWait (s\<lparr>rw_buf := b\<lparr>bb_mutex := None\<rparr>\<rparr>))
                else Some (goto t BPPut s)
     | BPWait \<Rightarrow> if bb_mutex b = None then Some (goto t BPTest (s\<lparr>rw_buf := b\<lparr>bb_mutex := Some t\<rparr>\<rparr>)) else None
     | BPPut \<Rightarrow> if \<not> running s then Some (goto t BPLeave s)
               else (case c_store (bb_buffer b) (bb_in b) (item s t) of
                   None \<Rightarrow> Some (goto t Crashed s)
                 | Some a \<Rightarrow> Some (goto t BPLeave (s\<lparr>rw_buf := b\<lparr>bb_buffer := a, bb_in := (bb_in b + 1) mod bb_size b,
                     bb_count := bb_count b + 1\<rparr>, produced := produced s @ [item s t]\<rparr>)))
     | BPLeave \<Rightarrow> Some (goto t Head (s\<lparr>rw_buf := b\<lparr>bb_mutex := None\<rparr>, iter := (iter s)(t := iter s t + 1)\<rparr>))
     | _ \<Rightarrow> None)"

definition bb_consume :: "thread \<Rightarrow> rw_state \<Rightarrow> rw_state option" where
  "bb_consume t s = (let b = rw_buf s in
     case pc_of s t of
       BCEnter \<Rightarrow> if bb_mutex b = None then Some (goto t BCTest (s\<lparr>rw_buf := b\<lparr>bb_mutex := Some t\<rparr>\<rparr>)) else None
     | BCTest \<Rightarrow> if bb_count b = 0 \<and> running s
                then Some (goto t BCWait (s\<lparr>rw_buf := b\<lparr>bb_mutex := None\<rparr>\<rparr>))
                else Some (goto t BCTake s)
     | BCWait \<Rightarrow> if bb_mutex b = None then Some (goto t BCTest (s\<lparr>rw_buf := b\<lparr>bb_mutex := Some t\<rparr>\<rparr>)) else None
     | BCTake \<Rightarrow> if \<not> running s then Some (goto t BCLeave (s\<lparr>item := (item s)(t := -1)\<rparr>))
                else (case c_load (bb_buffer b) (bb_out b) of
                    None \<Rightarrow> Some (goto t Crashed s)
                  | Some x \<Rightarrow> Some (goto t BCLeave (s\<lparr>rw_buf := b\<lparr>bb_out := (bb_out b + 1) mod bb_size b,
                      bb_count := bb_count b - 1\<rparr>, item := (item s)(t := x), consumed := consumed s @ [x]\<rparr>)))
     | BCLeave \<Rightarrow> Some (goto t Head (s\<lparr>rw_buf := b\<lparr>bb_mutex := None\<rparr>, iter := (iter s)(t := iter s t + 1)\<rparr>))
     | _ \<Rightarrow> None)"

definition reader_thread :: "thread \<Rightarrow> rw_state \<Rightarrow> rw_state option" where
  "reader_thread t s =
     (case pc_of s t of
        Head \<Rightarrow> Some (goto t (if iter s t < NUM_ITERATIONS \<and> running s then RLEnter else Finished) s)
      | Reading \<Rightarrow> Some (goto t RUEnter (s\<lparr>item := (item s)(t := shared_data s)\<rparr>))
      | p \<Rightarrow> if p \<in> {RLEnter, RLCount, RLFirst, RLLeave} then rwlock_read_lock t s
            else if p \<in> {RUEnter, RUCount, RULast, RULeave} then rwlock_read_unlock t s
            else bb_consume t s)"

definition writer_thread :: "nat \<Rightarrow> thread \<Rightarrow> rw_state \<Rightarrow> rw_state option" where
  "writer_thread rnd t s =
     (case pc_of s t of
        Head \<Rightarrow> Some (goto t (if iter s t < NUM_ITERATIONS \<and> running s then WLEnter else Finished)
                  (s\<lparr>item := (item s)(t := int (rnd mod 100))\<rparr>))
      | WLEnter \<Rightarrow> rwlock_write_lock t s
      | Writing \<Rightarrow> Some (goto t WULeave (s\<lparr>shared_data := item s t\<rparr>))
      | WULeave \<Rightarrow> rwlock_write_unlock t s
      | _ \<Rightarrow> bb_produce t s)"

fun thread_step :: "nat \<Rightarrow> thread \<Rightarrow> rw_state \<Rightarrow> rw_state option" where
  "thread_step rnd (Reader r) s = (if r < NUM_READERS then reader_thread (Reader r) s else None)"
| "thread_step rnd (Writer w) s = (if w < NUM_WRITERS then writer_thread rnd (Writer w) s else None)"

text \<open>The state \<open>main\<close> builds before it starts the threads; \<open>mem\<close> is the memory of the buffer.\<close>

definition rw_start :: "int list \<Rightarrow> rw_state" where
  "rw_start mem = \<lparr>rw_lock = rwlock_init, rw_buf = bb_init mem BUFFER_SIZE, shared_data = 0, running = True,
     pc_of = (\<lambda>_. Head), iter = (\<lambda>_. 0), item = (\<lambda>_. 0), produced = [], consumed = []\<rparr>"

text \<open>\<open>main\<close> returns once all threads have finished.\<close>

definition rw_main_returns :: "rw_state \<Rightarrow> bool" where
  "rw_main_returns s \<longleftrightarrow> list_all (\<lambda>r. pc_of s (Reader r) = Finished) [0..<NUM_READERS] \<and>
     list_all (\<lambda>w. pc_of s (Writer w) = Finished) [0..<NUM_WRITERS]"

inductive rw_step :: "rw_state \<Rightarrow> rw_state \<Rightarrow> bool" where
  thread: "thread_step rnd t s = Some s' \<Longrightarrow> rw_step s s'"
| signal: "rw_step s (handle_signal s)"

inductive_cases rw_stepE: "rw_step s s'"

inductive rw_reachable :: "int list \<Rightarrow> rw_state \<Rightarrow> bool" for mem where
  start: "rw_reachable mem (rw_start mem)"
| step: "rw_reachable mem s \<Longrightarrow> rw_step s s' \<Longrightarrow> rw_reachable mem s'"

text \<open>A schedule: who moves, with which random number.\<close>

fun rw_run :: "(nat \<times> thread) list \<Rightarrow> rw_state \<Rightarrow> rw_state option" where
  "rw_run [] s = Some s"
| "rw_run ((rnd, t) # xs) s = Option.bind (thread_step rnd t s) (rw_run xs)"

lemma rw_run_reachable: "rw_reachable mem s \<Longrightarrow> rw_run xs s = Some s' \<Longrightarrow> rw_reachable mem s'"
proof (induction xs arbitrary: s)
  case (Cons x xs)
  obtain rnd t where x: "x = (rnd, t)" by force
  with Cons.prems(2) obtain s1 where s1: "thread_step rnd t s = Some s1" "rw_run xs s1 = Some s'"
    by (auto split: Option.bind_splits)
  from Cons.prems(1) rw_step.thread [OF s1(1)] have "rw_reachable mem s1" by (rule rw_reachable.step)
  from Cons.IH [OF this s1(2)] show ?case .
qed simp

subsection \<open>Counting threads\<close>

definition readers_at :: "(pc \<Rightarrow> bool) \<Rightarrow> (thread \<Rightarrow> pc) \<Rightarrow> nat" where
  "readers_at P pcs = (\<Sum>r<NUM_READERS. of_bool (P (pcs (Reader r))))"

lemma sum_fun_upd:
  fixes f :: "nat \<Rightarrow> nat"
  assumes "k < n"
  shows "(\<Sum>i<n. if i = k then v else f i) + f k = (\<Sum>i<n. f i) + v"
proof -
  have "(\<Sum>i<n. if i = k then v else f i) = v + (\<Sum>i\<in>{..<n} - {k}. f i)"
    using assms by (simp add: sum.remove [of _ k])
  moreover have "(\<Sum>i<n. f i) = f k + (\<Sum>i\<in>{..<n} - {k}. f i)"
    using assms by (simp add: sum.remove [of _ k])
  ultimately show ?thesis by simp
qed

lemma readers_at_upd:
  assumes "r < NUM_READERS"
  shows "readers_at P (pcs(Reader r := p)) + of_bool (P (pcs (Reader r))) = readers_at P pcs + of_bool (P p)"
proof -
  have "readers_at P (pcs(Reader r := p)) =
      (\<Sum>i<NUM_READERS. if i = r then of_bool (P p) else of_bool (P (pcs (Reader i))))"
    unfolding readers_at_def by (rule sum.cong) auto
  then show ?thesis
    using sum_fun_upd [OF assms, of "of_bool (P p)" "\<lambda>i. of_bool (P (pcs (Reader i)))"]
    by (simp add: readers_at_def)
qed

lemma readers_at_writer [simp]: "readers_at P (pcs(Writer w := p)) = readers_at P pcs"
  by (simp add: readers_at_def)

lemma readers_at_pos:
  assumes "r < NUM_READERS" "P (pcs (Reader r))"
  shows "0 < readers_at P pcs"
  using assms sum_pos2 [of "{..<NUM_READERS}" r "\<lambda>r. of_bool (P (pcs (Reader r))) :: nat"]
  by (simp add: readers_at_def)

lemma readers_at_two:
  assumes "r < NUM_READERS" "q < NUM_READERS" "r \<noteq> q" "P (pcs (Reader r))" "P (pcs (Reader q))"
  shows "1 < readers_at P pcs"
proof -
  define pcs' where "pcs' = pcs(Reader r := (SOME p. \<not> P p))"
  show ?thesis
  proof (cases "\<exists>p. \<not> P p")
    case True
    then have "\<not> P (SOME p. \<not> P p)" by (rule someI_ex)
    then have "readers_at P pcs' + 1 = readers_at P pcs"
      using readers_at_upd [OF assms(1), of P pcs "SOME p. \<not> P p"] assms(4) by (simp add: pcs'_def)
    moreover have "0 < readers_at P pcs'"
      by (rule readers_at_pos [OF assms(2)]) (use assms in \<open>simp add: pcs'_def\<close>)
    ultimately show ?thesis by simp
  next
    case False
    then show ?thesis by (simp add: readers_at_def NUM_READERS_def)
  qed
qed

subsection \<open>The invariant of the lock\<close>

definition holds_counter :: "pc \<Rightarrow> bool" where
  "holds_counter p \<longleftrightarrow> p \<in> {RLCount, RLFirst, RLLeave, RUCount, RULast, RULeave}"

definition counted :: "pc \<Rightarrow> bool" where
  "counted p \<longleftrightarrow> p \<in> {RLFirst, RLLeave, Reading, RUEnter, RUCount}"

definition reader_pc :: "pc \<Rightarrow> bool" where
  "reader_pc p \<longleftrightarrow> p \<in> {Head, Finished, RLEnter, RLCount, RLFirst, RLLeave, Reading, RUEnter, RUCount, RULast,
     RULeave, BCEnter, BCTest, BCWait, BCTake, BCLeave}"

definition writer_pc :: "pc \<Rightarrow> bool" where
  "writer_pc p \<longleftrightarrow> p \<in> {Head, Finished, WLEnter, Writing, WULeave, BPEnter, BPTest, BPWait, BPPut, BPLeave}"

definition write_section :: "pc \<Rightarrow> bool" where
  "write_section p \<longleftrightarrow> p \<in> {Writing, WULeave}"

definition some_at :: "pc \<Rightarrow> (thread \<Rightarrow> pc) \<Rightarrow> bool" where
  "some_at p pcs \<longleftrightarrow> (\<exists>r<NUM_READERS. pcs (Reader r) = p)"

lemma some_atI: "r < NUM_READERS \<Longrightarrow> pcs (Reader r) = p \<Longrightarrow> some_at p pcs"
  by (auto simp: some_at_def)

lemma some_at_upd: "pcs (Reader r) \<noteq> x \<Longrightarrow> p \<noteq> x \<Longrightarrow> some_at x (pcs(Reader r := p)) = some_at x pcs"
  unfolding some_at_def by (metis fun_upd_apply thread.inject(1))

lemma some_at_writer [simp]: "some_at x (pcs(Writer w := p)) = some_at x pcs"
  by (simp add: some_at_def)

text \<open>The readers hold the write lock together: from the moment the first one has taken it until the last
  one has given it back.\<close>

definition readers_hold :: "rwlock_t \<Rightarrow> (thread \<Rightarrow> pc) \<Rightarrow> bool" where
  "readers_hold l pcs \<longleftrightarrow> 0 < read_count l \<and> \<not> some_at RLFirst pcs \<or> some_at RULast pcs"

definition counter_owned :: "rwlock_t \<Rightarrow> (thread \<Rightarrow> pc) \<Rightarrow> bool" where
  "counter_owned l pcs \<longleftrightarrow>
     (\<forall>r<NUM_READERS. holds_counter (pcs (Reader r)) \<longrightarrow> counter_lock l = Some (Reader r))"

definition lock_inv :: "rwlock_t \<Rightarrow> (thread \<Rightarrow> pc) \<Rightarrow> bool" where [inv_defs]:
  "lock_inv l pcs \<longleftrightarrow> counter_owned l pcs \<and>
     read_count l = int (readers_at counted pcs) \<and>
     (some_at RLFirst pcs \<longrightarrow> read_count l = 1) \<and>
     (some_at RULast pcs \<longrightarrow> read_count l = 0) \<and>
     (readers_hold l pcs \<longrightarrow> write_lock l \<noteq> None) \<and>
     (\<forall>w<NUM_WRITERS. write_section (pcs (Writer w)) \<longrightarrow> write_lock l = Some (Writer w) \<and> \<not> readers_hold l pcs)"

lemmas pc_classes = holds_counter_def counted_def write_section_def

lemma others_not_holding:
  assumes "counter_owned l pcs" "r < NUM_READERS" "holds_counter (pcs (Reader r))" "q < NUM_READERS" "q \<noteq> r"
  shows "\<not> holds_counter (pcs (Reader q))"
proof
  assume "holds_counter (pcs (Reader q))"
  with assms have "counter_lock l = Some (Reader q)" "counter_lock l = Some (Reader r)"
    unfolding counter_owned_def by blast+
  with assms(5) show False by simp
qed

text \<open>While a reader owns the counter lock, no other reader is at a point that needs it.\<close>

lemma owner_only:
  assumes "counter_owned l pcs" "r < NUM_READERS" "holds_counter (pcs (Reader r))"
    and "holds_counter x" "pcs (Reader r) \<noteq> x"
  shows "\<not> some_at x pcs"
  using others_not_holding [OF assms(1-3)] assms(4,5) by (auto simp: some_at_def)

lemma owner_moves:
  assumes "counter_owned l pcs" "r < NUM_READERS" "holds_counter (pcs (Reader r))" "counter_lock l' = counter_lock l"
  shows "counter_owned l' (pcs(Reader r := p))"
  using others_not_holding [OF assms(1-3)] assms by (auto simp: counter_owned_def)

lemma owner_leaves:
  assumes "counter_owned l pcs" "r < NUM_READERS" "holds_counter (pcs (Reader r))" "\<not> holds_counter p"
  shows "counter_owned l' (pcs(Reader r := p))"
  using others_not_holding [OF assms(1-3)] assms by (auto simp: counter_owned_def)

lemma owner_enters:
  assumes "counter_owned l pcs" "r < NUM_READERS" "counter_lock l = None"
  shows "counter_owned (l\<lparr>counter_lock := Some (Reader r)\<rparr>) (pcs(Reader r := p))"
  using assms by (auto simp: counter_owned_def)

lemma lock_inv_neutral:
  assumes inv: "lock_inv l pcs" and r: "r < NUM_READERS"
    and p: "counted p = counted (pcs (Reader r))" "\<not> holds_counter p" "\<not> holds_counter (pcs (Reader r))"
  shows "lock_inv l (pcs(Reader r := p))"
proof -
  have "readers_at counted (pcs(Reader r := p)) = readers_at counted pcs"
    using readers_at_upd [OF r, of counted pcs p] p(1) by simp
  moreover have "some_at x (pcs(Reader r := p)) = some_at x pcs" if "holds_counter x" for x
    using that p(2,3) by (intro some_at_upd) auto
  moreover have "holds_counter RLFirst" "holds_counter RULast" by (simp_all add: holds_counter_def)
  moreover have "counter_owned l (pcs(Reader r := p))"
    using inv p(2) by (simp add: lock_inv_def counter_owned_def)
  ultimately show ?thesis using inv by (auto simp: lock_inv_def readers_hold_def)
qed

lemma lock_inv_acquire:
  assumes inv: "lock_inv l pcs" and r: "r < NUM_READERS" and free: "counter_lock l = None"
    and p: "pcs (Reader r) = RLEnter \<and> p = RLCount \<or> pcs (Reader r) = RUEnter \<and> p = RUCount"
  shows "lock_inv (l\<lparr>counter_lock := Some (Reader r)\<rparr>) (pcs(Reader r := p))"
proof -
  have "readers_at counted (pcs(Reader r := p)) = readers_at counted pcs"
    using readers_at_upd [OF r, of counted pcs p] p by (auto simp: counted_def)
  moreover have "some_at RLFirst (pcs(Reader r := p)) = some_at RLFirst pcs"
    "some_at RULast (pcs(Reader r := p)) = some_at RULast pcs"
    using p by (intro some_at_upd; auto)+
  moreover have "counter_owned (l\<lparr>counter_lock := Some (Reader r)\<rparr>) (pcs(Reader r := p))"
    by (rule owner_enters [OF _ r free]) (use inv in \<open>simp add: lock_inv_def\<close>)
  ultimately show ?thesis using inv by (auto simp: lock_inv_def readers_hold_def)
qed

lemma lock_inv_release:
  assumes inv: "lock_inv l pcs" and r: "r < NUM_READERS"
    and p: "pcs (Reader r) = RLLeave \<and> p = Reading \<or> pcs (Reader r) = RULeave \<and> p = BCEnter"
  shows "lock_inv (l\<lparr>counter_lock := None\<rparr>) (pcs(Reader r := p))"
proof -
  have "readers_at counted (pcs(Reader r := p)) = readers_at counted pcs"
    using readers_at_upd [OF r, of counted pcs p] p by (auto simp: counted_def)
  moreover have "some_at RLFirst (pcs(Reader r := p)) = some_at RLFirst pcs"
    "some_at RULast (pcs(Reader r := p)) = some_at RULast pcs"
    using p by (intro some_at_upd; auto)+
  moreover have "counter_owned (l\<lparr>counter_lock := None\<rparr>) (pcs(Reader r := p))"
    by (rule owner_leaves [of l, OF _ r]) (use inv p in \<open>auto simp: lock_inv_def holds_counter_def\<close>)
  ultimately show ?thesis using inv by (auto simp: lock_inv_def readers_hold_def)
qed

lemma lock_inv_enter:
  assumes inv: "lock_inv l pcs" and r: "r < NUM_READERS" and p: "pcs (Reader r) = RLCount"
  defines "n \<equiv> read_count l + 1"
  shows "lock_inv (l\<lparr>read_count := n\<rparr>) (pcs(Reader r := if n = 1 then RLFirst else RLLeave))"
proof -
  let ?p = "if n = 1 then RLFirst else RLLeave"
  have own: "counter_owned l pcs" "holds_counter (pcs (Reader r))"
    using inv p by (simp_all add: lock_inv_def holds_counter_def)
  have cnt: "readers_at counted (pcs(Reader r := ?p)) = Suc (readers_at counted pcs)"
    using readers_at_upd [OF r, of counted pcs ?p] p by (auto simp: counted_def split: if_splits)
  have none: "\<not> some_at RLFirst pcs" "\<not> some_at RULast pcs"
    using owner_only [OF own(1) r own(2)] p by (auto simp: holds_counter_def)
  have first: "some_at RLFirst (pcs(Reader r := ?p)) \<longleftrightarrow> n = 1"
    using none(1) r p by (cases "n = 1") (auto intro: some_atI simp: some_at_upd)
  have last: "\<not> some_at RULast (pcs(Reader r := ?p))"
    using none(2) p by (subst some_at_upd) auto
  have "0 \<le> read_count l" using inv by (simp add: lock_inv_def)
  moreover have "counter_owned (l\<lparr>read_count := n\<rparr>) (pcs(Reader r := ?p))"
    by (rule owner_moves [OF own(1) r own(2)]) simp
  ultimately show ?thesis
    using inv cnt first last none by (auto simp: lock_inv_def readers_hold_def n_def)
qed

lemma lock_inv_first:
  assumes inv: "lock_inv l pcs" and r: "r < NUM_READERS" and p: "pcs (Reader r) = RLFirst"
    and free: "write_lock l = None"
  shows "lock_inv (l\<lparr>write_lock := Some (Reader r)\<rparr>) (pcs(Reader r := RLLeave))"
proof -
  let ?pcs = "pcs(Reader r := RLLeave)"
  have own: "counter_owned l pcs" "holds_counter (pcs (Reader r))"
    using inv p by (simp_all add: lock_inv_def holds_counter_def)
  have owned: "counter_owned (l\<lparr>write_lock := Some (Reader r)\<rparr>) ?pcs"
    by (rule owner_moves [OF own(1) r own(2)]) simp
  have "\<not> some_at RLFirst ?pcs" "\<not> some_at RULast ?pcs"
    using owner_only [OF owned r] by (auto simp: holds_counter_def)
  moreover have "readers_at counted ?pcs = readers_at counted pcs"
    using readers_at_upd [OF r, of counted pcs RLLeave] p by (auto simp: counted_def)
  moreover have "\<not> write_section (pcs (Writer w))" if "w < NUM_WRITERS" for w
    using that inv free by (auto simp: lock_inv_def)
  ultimately show ?thesis using inv owned by (simp add: lock_inv_def)
qed

lemma lock_inv_exit:
  assumes inv: "lock_inv l pcs" and r: "r < NUM_READERS" and p: "pcs (Reader r) = RUCount"
  defines "n \<equiv> read_count l - 1"
  shows "lock_inv (l\<lparr>read_count := n\<rparr>) (pcs(Reader r := if n = 0 then RULast else RULeave))"
proof -
  let ?p = "if n = 0 then RULast else RULeave"
  have own: "counter_owned l pcs" "holds_counter (pcs (Reader r))"
    using inv p by (simp_all add: lock_inv_def holds_counter_def)
  have cnt: "Suc (readers_at counted (pcs(Reader r := ?p))) = readers_at counted pcs"
    using readers_at_upd [OF r, of counted pcs ?p] p by (auto simp: counted_def split: if_splits)
  have none: "\<not> some_at RLFirst pcs" "\<not> some_at RULast pcs"
    using owner_only [OF own(1) r own(2)] p by (auto simp: holds_counter_def)
  have last: "some_at RULast (pcs(Reader r := ?p)) \<longleftrightarrow> n = 0"
    using none(2) r p by (cases "n = 0") (auto intro: some_atI simp: some_at_upd)
  have first: "\<not> some_at RLFirst (pcs(Reader r := ?p))"
    using none(1) p by (subst some_at_upd) auto
  have "0 < read_count l" using inv cnt by (simp add: lock_inv_def)
  moreover have "counter_owned (l\<lparr>read_count := n\<rparr>) (pcs(Reader r := ?p))"
    by (rule owner_moves [OF own(1) r own(2)]) simp
  ultimately show ?thesis
    using inv cnt first last none by (auto simp: lock_inv_def readers_hold_def n_def)
qed

lemma lock_inv_last:
  assumes inv: "lock_inv l pcs" and r: "r < NUM_READERS" and p: "pcs (Reader r) = RULast"
  shows "lock_inv (l\<lparr>write_lock := None\<rparr>) (pcs(Reader r := RULeave))"
proof -
  let ?pcs = "pcs(Reader r := RULeave)"
  have own: "counter_owned l pcs" "holds_counter (pcs (Reader r))"
    using inv p by (simp_all add: lock_inv_def holds_counter_def)
  have owned: "counter_owned (l\<lparr>write_lock := None\<rparr>) ?pcs"
    by (rule owner_moves [OF own(1) r own(2)]) simp
  have "\<not> some_at RLFirst ?pcs" "\<not> some_at RULast ?pcs"
    using owner_only [OF owned r] by (auto simp: holds_counter_def)
  moreover have "readers_at counted ?pcs = readers_at counted pcs"
    using readers_at_upd [OF r, of counted pcs RULeave] p by (auto simp: counted_def)
  moreover have at: "some_at RULast pcs" using r p by (rule some_atI)
  moreover from at have "\<not> write_section (pcs (Writer w))" if "w < NUM_WRITERS" for w
    using that inv by (auto simp: lock_inv_def readers_hold_def)
  ultimately show ?thesis using inv owned by (simp add: lock_inv_def readers_hold_def)
qed

lemma counter_owned_writer [simp]: "counter_owned l (pcs(Writer w := p)) = counter_owned l pcs"
  by (simp add: counter_owned_def)

lemma counter_owned_write_lock [simp]: "counter_owned (l\<lparr>write_lock := x\<rparr>) pcs = counter_owned l pcs"
  by (simp add: counter_owned_def)

lemma readers_hold_writer [simp]:
  "readers_hold l (pcs(Writer w := p)) = readers_hold l pcs"
  "readers_hold (l\<lparr>write_lock := x\<rparr>) pcs = readers_hold l pcs"
  by (simp_all add: readers_hold_def)

lemma lock_inv_writer:
  assumes inv: "lock_inv l pcs" and p: "write_section p \<longrightarrow> write_section (pcs (Writer w))"
  shows "lock_inv l (pcs(Writer w := p))"
  using assms by (auto simp: lock_inv_def)

lemma lock_inv_write_lock:
  assumes inv: "lock_inv l pcs" and free: "write_lock l = None"
  shows "lock_inv (l\<lparr>write_lock := Some (Writer w)\<rparr>) (pcs(Writer w := Writing))"
  using assms by (auto simp: lock_inv_def)

lemma lock_inv_write_unlock:
  assumes inv: "lock_inv l pcs" and w: "w < NUM_WRITERS" "pcs (Writer w) = WULeave"
  shows "lock_inv (l\<lparr>write_lock := None\<rparr>) (pcs(Writer w := BPEnter))"
proof -
  from inv w have "write_lock l = Some (Writer w)" "\<not> readers_hold l pcs"
    by (auto simp: lock_inv_def write_section_def)
  with inv show ?thesis by (auto simp: lock_inv_def write_section_def)
qed

lemmas step_defs = reader_thread_def writer_thread_def rwlock_read_lock_def rwlock_read_unlock_def
  rwlock_write_lock_def rwlock_write_unlock_def bb_produce_def bb_consume_def goto_def Let_def

lemma lock_inv_reader_step:
  assumes inv: "lock_inv (rw_lock s) (pc_of s)" and r: "r < NUM_READERS"
    and step: "reader_thread (Reader r) s = Some s'"
  shows "lock_inv (rw_lock s') (pc_of s')"
proof (cases "pc_of s (Reader r)")
  case RLEnter
  with step lock_inv_acquire [OF inv r, of RLCount] show ?thesis by (auto simp: step_defs split: if_splits)
next
  case RLCount
  with step lock_inv_enter [OF inv r] show ?thesis by (auto simp: step_defs)
next
  case RLFirst
  with step lock_inv_first [OF inv r] show ?thesis by (auto simp: step_defs split: if_splits)
next
  case RLLeave
  with step lock_inv_release [OF inv r, of Reading] show ?thesis by (auto simp: step_defs)
next
  case RUEnter
  with step lock_inv_acquire [OF inv r, of RUCount] show ?thesis by (auto simp: step_defs split: if_splits)
next
  case RUCount
  with step lock_inv_exit [OF inv r] show ?thesis by (auto simp: step_defs)
next
  case RULast
  with step lock_inv_last [OF inv r] show ?thesis by (auto simp: step_defs)
next
  case RULeave
  with step lock_inv_release [OF inv r, of BCEnter] show ?thesis by (auto simp: step_defs)
qed (use step in \<open>auto simp: step_defs pc_classes split: if_splits option.splits
  intro!: lock_inv_neutral [OF inv r]\<close>)

lemma lock_inv_writer_step:
  assumes inv: "lock_inv (rw_lock s) (pc_of s)" and w: "w < NUM_WRITERS"
    and step: "writer_thread rnd (Writer w) s = Some s'"
  shows "lock_inv (rw_lock s') (pc_of s')"
proof (cases "pc_of s (Writer w)")
  case WLEnter
  with step lock_inv_write_lock [OF inv] show ?thesis by (auto simp: step_defs split: if_splits)
next
  case WULeave
  with step lock_inv_write_unlock [OF inv w] show ?thesis by (auto simp: step_defs)
qed (use step in \<open>auto simp: step_defs pc_classes split: if_splits option.splits
  intro!: lock_inv_writer [OF inv]\<close>)

lemma lock_inv_step:
  assumes "lock_inv (rw_lock s) (pc_of s)" "rw_step s s'"
  shows "lock_inv (rw_lock s') (pc_of s')"
  using assms(2)
proof (cases rule: rw_step.cases)
  case (thread rnd t)
  with assms(1) show ?thesis
    by (cases t) (auto split: if_splits intro: lock_inv_reader_step lock_inv_writer_step)
qed (use assms(1) in \<open>simp add: handle_signal_def\<close>)

lemma lock_inv_reachable: "rw_reachable mem s \<Longrightarrow> lock_inv (rw_lock s) (pc_of s)"
proof (induction rule: rw_reachable.induct)
  case start
  show ?case
    by (auto simp: rw_start_def lock_inv_def counter_owned_def readers_hold_def readers_at_def some_at_def
      rwlock_init_def pc_classes)
next
  case (step s s')
  then show ?case by (blast intro: lock_inv_step)
qed

text \<open>C5. Mutual exclusion of the read-write lock: in every interleaving, when a writer is in its critical
  section no reader is reading and no other writer is in its critical section.\<close>

theorem rwlock_mutual_exclusion:
  assumes "rw_reachable mem s" "w < NUM_WRITERS" "write_section (pc_of s (Writer w))"
  shows "(\<forall>r<NUM_READERS. pc_of s (Reader r) \<noteq> Reading) \<and>
    (\<forall>v<NUM_WRITERS. v \<noteq> w \<longrightarrow> \<not> write_section (pc_of s (Writer v)))"
proof
  have inv: "lock_inv (rw_lock s) (pc_of s)" using assms(1) by (rule lock_inv_reachable)
  then have hold: "write_lock (rw_lock s) = Some (Writer w)" "\<not> readers_hold (rw_lock s) (pc_of s)"
    using assms(2,3) by (auto simp: lock_inv_def)
  show "\<forall>v<NUM_WRITERS. v \<noteq> w \<longrightarrow> \<not> write_section (pc_of s (Writer v))"
    using inv hold(1) by (auto simp: lock_inv_def)
  show "\<forall>r<NUM_READERS. pc_of s (Reader r) \<noteq> Reading"
  proof (intro allI impI notI)
    fix r assume r: "r < NUM_READERS" "pc_of s (Reader r) = Reading"
    have "0 < readers_at counted (pc_of s)" by (rule readers_at_pos [OF r(1)]) (simp add: r(2) counted_def)
    then have pos: "0 < read_count (rw_lock s)" using inv by (simp add: lock_inv_def)
    with hold(2) have first: "some_at RLFirst (pc_of s)" by (auto simp: readers_hold_def)
    then obtain q where q: "q < NUM_READERS" "pc_of s (Reader q) = RLFirst" by (auto simp: some_at_def)
    with r have "r \<noteq> q" by auto
    with q r have "1 < readers_at counted (pc_of s)"
      using readers_at_two [of r q counted "pc_of s"] by (simp add: counted_def)
    with inv first show False by (auto simp: lock_inv_def)
  qed
qed

theorem rwlock_mutual_exclusion_witness:
  "\<exists>s. rw_reachable (replicate 10 0) s \<and> pc_of s (Writer 1) = Writing \<and> pc_of s (Reader 0) = RLFirst \<and>
     (\<forall>r<NUM_READERS. pc_of s (Reader r) \<noteq> Reading)"
proof -
  let ?run = "[(7, Writer 1), (7, Writer 1), (0, Reader 0), (0, Reader 0), (0, Reader 0)]"
  have "map_option (\<lambda>s. (pc_of s (Writer 1), pc_of s (Reader 0))) (rw_run ?run (rw_start (replicate 10 0))) =
      Some (Writing, RLFirst)" by code_simp
  then obtain s where s: "rw_run ?run (rw_start (replicate 10 0)) = Some s"
    and pc: "pc_of s (Writer 1) = Writing" "pc_of s (Reader 0) = RLFirst"
    unfolding map_option_eq_Some prod.inject by blast
  have reach: "rw_reachable (replicate 10 0) s" by (rule rw_run_reachable [OF rw_reachable.start s])
  have w: "1 < NUM_WRITERS" by (simp add: NUM_WRITERS_def)
  have ws: "write_section (pc_of s (Writer 1))" by (simp only: pc write_section_def) simp
  from rwlock_mutual_exclusion [OF reach w ws] reach pc show ?thesis by blast
qed

subsection \<open>The invariant of the buffer\<close>

definition holds_buffer :: "pc \<Rightarrow> bool" where
  "holds_buffer p \<longleftrightarrow> p \<in> {BPTest, BPPut, BPLeave, BCTest, BCTake, BCLeave}"

text \<open>What went in is what came out followed by what is in the circular array.\<close>

definition ring_ok :: "bounded_buffer_t \<Rightarrow> int list \<Rightarrow> int list \<Rightarrow> bool" where
  "ring_ok b xs ys \<longleftrightarrow> length (bb_buffer b) = bb_size b \<and> 0 < bb_size b \<and> bb_out b < bb_size b \<and>
     bb_count b \<le> bb_size b \<and> bb_in b = (bb_out b + bb_count b) mod bb_size b \<and>
     xs = ys @ ring_list (bb_buffer b) (bb_out b) (bb_count b)"

definition may_move :: "bounded_buffer_t \<Rightarrow> bool \<Rightarrow> pc \<Rightarrow> bool" where
  "may_move b run p \<longleftrightarrow> (p = BPPut \<longrightarrow> run \<longrightarrow> bb_count b < bb_size b) \<and> (p = BCTake \<longrightarrow> run \<longrightarrow> 0 < bb_count b)"

definition buf_inv :: "bounded_buffer_t \<Rightarrow> (thread \<Rightarrow> pc) \<Rightarrow> bool \<Rightarrow> int list \<Rightarrow> int list \<Rightarrow> bool" where [inv_defs]:
  "buf_inv b pcs run xs ys \<longleftrightarrow> ring_ok b xs ys \<and>
     (\<forall>t. (holds_buffer (pcs t) \<longrightarrow> bb_mutex b = Some t) \<and> may_move b run (pcs t))"

lemma may_move_simps [simp]:
  "\<not> holds_buffer p \<Longrightarrow> may_move b run p" "may_move b False p" "may_move (b\<lparr>bb_mutex := m\<rparr>) run p = may_move b run p"
  "may_move b run BPTest" "may_move b run BCTest" "may_move b run BPLeave" "may_move b run BCLeave"
  by (auto simp: may_move_def holds_buffer_def)

lemma ring_ok_mutex [simp]: "ring_ok (b\<lparr>bb_mutex := m\<rparr>) xs ys = ring_ok b xs ys"
  by (simp add: ring_ok_def)

lemma buf_inv_neutral:
  assumes "buf_inv b pcs run xs ys" "\<not> holds_buffer p"
  shows "buf_inv b (pcs(t := p)) run xs ys"
  using assms by (auto simp: buf_inv_def)

lemma buf_inv_acquire:
  assumes "buf_inv b pcs run xs ys" "bb_mutex b = None" "p = BPTest \<or> p = BCTest"
  shows "buf_inv (b\<lparr>bb_mutex := Some t\<rparr>) (pcs(t := p)) run xs ys"
  using assms by (auto simp: buf_inv_def)

lemma one_buffer_owner:
  assumes "buf_inv b pcs run xs ys" "holds_buffer (pcs t)" "u \<noteq> t"
  shows "\<not> holds_buffer (pcs u)"
proof
  assume "holds_buffer (pcs u)"
  with assms(1,2) have "bb_mutex b = Some u" "bb_mutex b = Some t" unfolding buf_inv_def by blast+
  with assms(3) show False by simp
qed

lemma buf_inv_release:
  assumes inv: "buf_inv b pcs run xs ys" and t: "holds_buffer (pcs t)" and p: "\<not> holds_buffer p"
  shows "buf_inv (b\<lparr>bb_mutex := None\<rparr>) (pcs(t := p)) run xs ys"
  using one_buffer_owner [OF inv t] inv p by (auto simp: buf_inv_def)

lemma buf_inv_change:
  assumes inv: "buf_inv b pcs run xs ys" and t: "holds_buffer (pcs t)"
    and new: "bb_mutex b' = bb_mutex b" "ring_ok b' xs' ys'" "may_move b' run p"
  shows "buf_inv b' (pcs(t := p)) run xs' ys'"
  using one_buffer_owner [OF inv t] inv t new by (auto simp: buf_inv_def)

lemma buf_inv_move:
  assumes "buf_inv b pcs run xs ys" "holds_buffer (pcs t)" "may_move b run p"
  shows "buf_inv b (pcs(t := p)) run xs ys"
  by (rule buf_inv_change [OF assms(1,2) refl _ assms(3)]) (use assms(1) in \<open>simp add: buf_inv_def\<close>)

lemma ring_ok_put:
  assumes "ring_ok b xs ys" "bb_count b < bb_size b"
  shows "ring_ok (b\<lparr>bb_buffer := (bb_buffer b)[bb_in b := x], bb_in := (bb_in b + 1) mod bb_size b,
    bb_count := bb_count b + 1\<rparr>) (xs @ [x]) ys"
  using assms ring_list_snoc [of "bb_count b" "bb_buffer b" "bb_out b" x]
  by (simp add: ring_ok_def mod_Suc_eq)

lemma ring_ok_take:
  assumes "ring_ok b xs ys" "0 < bb_count b"
  shows "ring_ok (b\<lparr>bb_out := (bb_out b + 1) mod bb_size b, bb_count := bb_count b - 1\<rparr>) xs
    (ys @ [bb_buffer b ! bb_out b])"
proof -
  obtain n where n: "bb_count b = Suc n" using assms(2) by (cases "bb_count b") auto
  have "ring_list (bb_buffer b) (bb_out b) (Suc n) =
      bb_buffer b ! bb_out b # ring_list (bb_buffer b) (Suc (bb_out b) mod length (bb_buffer b)) n"
    using ring_list_Cons [of "Suc n" "bb_out b" "bb_buffer b"] assms(1) n by (simp add: ring_ok_def)
  with assms(1) n show ?thesis by (simp add: ring_ok_def mod_add_left_eq)
qed

lemma buf_inv_put:
  assumes inv: "buf_inv b pcs True xs ys" and t: "pcs t = BPPut"
  shows "bb_in b < length (bb_buffer b) \<and>
    buf_inv (b\<lparr>bb_buffer := (bb_buffer b)[bb_in b := x], bb_in := (bb_in b + 1) mod bb_size b,
      bb_count := bb_count b + 1\<rparr>) (pcs(t := BPLeave)) True (xs @ [x]) ys"
proof
  have ring: "ring_ok b xs ys" and room: "bb_count b < bb_size b"
    using inv t by (auto simp: buf_inv_def may_move_def)
  then show "bb_in b < length (bb_buffer b)" by (simp add: ring_ok_def)
  show "buf_inv (b\<lparr>bb_buffer := (bb_buffer b)[bb_in b := x], bb_in := (bb_in b + 1) mod bb_size b,
      bb_count := bb_count b + 1\<rparr>) (pcs(t := BPLeave)) True (xs @ [x]) ys"
    by (rule buf_inv_change [OF inv _ _ ring_ok_put [OF ring room]]) (simp_all add: t holds_buffer_def)
qed

lemma buf_inv_take:
  assumes inv: "buf_inv b pcs True xs ys" and t: "pcs t = BCTake"
  shows "bb_out b < length (bb_buffer b) \<and>
    buf_inv (b\<lparr>bb_out := (bb_out b + 1) mod bb_size b, bb_count := bb_count b - 1\<rparr>) (pcs(t := BCLeave)) True xs
      (ys @ [bb_buffer b ! bb_out b])"
proof
  have ring: "ring_ok b xs ys" and pos: "0 < bb_count b"
    using inv t by (auto simp: buf_inv_def may_move_def)
  then show "bb_out b < length (bb_buffer b)" by (simp add: ring_ok_def)
  show "buf_inv (b\<lparr>bb_out := (bb_out b + 1) mod bb_size b, bb_count := bb_count b - 1\<rparr>) (pcs(t := BCLeave)) True xs
      (ys @ [bb_buffer b ! bb_out b])"
    by (rule buf_inv_change [OF inv _ _ ring_ok_take [OF ring pos]]) (simp_all add: t holds_buffer_def)
qed

definition state_buf_inv :: "rw_state \<Rightarrow> bool" where [inv_defs]:
  "state_buf_inv s \<longleftrightarrow> buf_inv (rw_buf s) (pc_of s) (running s) (produced s) (consumed s)"

lemma buf_inv_ring: "buf_inv b pcs run xs ys \<Longrightarrow> ring_ok b xs ys"
  by (simp add: buf_inv_def)

lemma bb_produce_inv:
  assumes inv: "state_buf_inv s" and step: "bb_produce t s = Some s'"
  shows "state_buf_inv s'"
proof -
  let ?b = "rw_buf s"
  have inv': "buf_inv ?b (pc_of s) (running s) (produced s) (consumed s)"
    using inv by (simp add: state_buf_inv_def)
  show ?thesis
  proof (cases "pc_of s t = BPPut \<and> running s")
    case True
    with buf_inv_put [of ?b "pc_of s" "produced s" "consumed s" t "item s t"] inv' step show ?thesis
      by (simp add: state_buf_inv_def step_defs) auto
  next
    case False
    have "may_move ?b (running s) BPPut" if "\<not> (bb_count ?b = bb_size ?b \<and> running s)"
      using that buf_inv_ring [OF inv'] by (auto simp: may_move_def ring_ok_def)
    moreover have "may_move ?b (running s) BPLeave" by simp
    ultimately show ?thesis
      using False step inv' buf_inv_acquire [OF inv', of BPTest t] buf_inv_move [OF inv', of t]
        buf_inv_release [OF inv', of t]
      by (cases "pc_of s t") (auto simp: state_buf_inv_def step_defs holds_buffer_def split: if_splits)
  qed
qed

lemma bb_consume_inv:
  assumes inv: "state_buf_inv s" and step: "bb_consume t s = Some s'"
  shows "state_buf_inv s'"
proof -
  let ?b = "rw_buf s"
  have inv': "buf_inv ?b (pc_of s) (running s) (produced s) (consumed s)"
    using inv by (simp add: state_buf_inv_def)
  show ?thesis
  proof (cases "pc_of s t = BCTake \<and> running s")
    case True
    with buf_inv_take [of ?b "pc_of s" "produced s" "consumed s" t] inv' step show ?thesis
      by (simp add: state_buf_inv_def step_defs) auto
  next
    case False
    have "may_move ?b (running s) BCTake" if "\<not> (bb_count ?b = 0 \<and> running s)"
      using that by (auto simp: may_move_def)
    moreover have "may_move ?b (running s) BCLeave" by simp
    ultimately show ?thesis
      using False step inv' buf_inv_acquire [OF inv', of BCTest t] buf_inv_move [OF inv', of t]
        buf_inv_release [OF inv', of t]
      by (cases "pc_of s t") (auto simp: state_buf_inv_def step_defs holds_buffer_def split: if_splits)
  qed
qed

lemma state_buf_inv_reader:
  assumes inv: "state_buf_inv s" and step: "reader_thread t s = Some s'"
  shows "state_buf_inv s'"
proof (cases "holds_buffer (pc_of s t) \<or> pc_of s t \<in> {BCEnter, BCWait}")
  case True
  then have "reader_thread t s = bb_consume t s"
    by (cases "pc_of s t") (auto simp: reader_thread_def holds_buffer_def)
  with bb_consume_inv [OF inv] step show ?thesis by simp
next
  case False
  with step inv show ?thesis
    by (cases "pc_of s t")
      (auto simp: step_defs state_buf_inv_def holds_buffer_def split: if_splits intro!: buf_inv_neutral)
qed

lemma state_buf_inv_writer:
  assumes inv: "state_buf_inv s" and step: "writer_thread rnd t s = Some s'"
  shows "state_buf_inv s'"
proof (cases "holds_buffer (pc_of s t) \<or> pc_of s t \<in> {BPEnter, BPWait}")
  case True
  then have "writer_thread rnd t s = bb_produce t s"
    by (cases "pc_of s t") (auto simp: writer_thread_def holds_buffer_def)
  with bb_produce_inv [OF inv] step show ?thesis by simp
next
  case False
  with step inv show ?thesis
    by (cases "pc_of s t")
      (auto simp: step_defs state_buf_inv_def holds_buffer_def split: if_splits intro!: buf_inv_neutral)
qed

lemma state_buf_inv_reachable:
  assumes "rw_reachable mem s" "length mem = BUFFER_SIZE"
  shows "state_buf_inv s \<and> bb_size (rw_buf s) = BUFFER_SIZE"
  using assms(1)
proof (induction rule: rw_reachable.induct)
  case start
  show ?case
    using assms(2)
    by (auto simp: state_buf_inv_def buf_inv_def ring_ok_def rw_start_def bb_init_def BUFFER_SIZE_def
      holds_buffer_def may_move_def)
next
  case (step s s')
  from step.hyps(2) show ?case
  proof (cases rule: rw_step.cases)
    case (thread rnd t)
    then have "state_buf_inv s'"
      using step.IH by (cases t) (auto split: if_splits intro: state_buf_inv_reader state_buf_inv_writer)
    moreover from thread have "bb_size (rw_buf s') = bb_size (rw_buf s)"
      by (cases t; cases "pc_of s t") (auto simp: step_defs split: if_splits option.splits)
    ultimately show ?thesis using step.IH by simp
  qed (use step.IH in \<open>auto simp: handle_signal_def state_buf_inv_def buf_inv_def\<close>)
qed

text \<open>Both indices are inside the array whenever a thread uses them, so no step is an access outside it.\<close>

lemma no_crash_step:
  assumes inv: "state_buf_inv s" and step: "thread_step rnd t s = Some s'" and ok: "pc_of s u \<noteq> Crashed"
  shows "pc_of s' u \<noteq> Crashed"
proof -
  have "bb_in (rw_buf s) < length (bb_buffer (rw_buf s))" "bb_out (rw_buf s) < length (bb_buffer (rw_buf s))"
    using inv by (auto simp: state_buf_inv_def buf_inv_def ring_ok_def)
  with step ok show ?thesis
    by (cases t; cases "pc_of s t") (auto simp: step_defs split: if_splits)
qed

lemma no_crash_reachable:
  assumes "rw_reachable mem s" "length mem = BUFFER_SIZE"
  shows "pc_of s t \<noteq> Crashed"
  using assms(1)
proof (induction rule: rw_reachable.induct)
  case start
  show ?case by (simp add: rw_start_def)
next
  case (step s s')
  from step.hyps(2) show ?case
  proof (cases rule: rw_step.cases)
    case (thread rnd u)
    with no_crash_step [of s rnd u s' t] state_buf_inv_reachable [OF step.hyps(1) assms(2)] step.IH
    show ?thesis by blast
  qed (use step.IH in \<open>simp add: handle_signal_def\<close>)
qed

text \<open>C6. The bounded buffer is a bounded queue in every interleaving: no thread ever accesses memory outside
  the buffer, whose two indices stay below \<open>BUFFER_SIZE\<close>; it never holds more than \<open>BUFFER_SIZE\<close> items; and
  the items that were consumed so far, followed by the items in the array, are exactly the items that were
  produced, in their order; nothing is lost, duplicated or overtaken.\<close>

theorem bounded_buffer_fifo:
  assumes "rw_reachable mem s" "length mem = BUFFER_SIZE"
  shows "(\<forall>t. pc_of s t \<noteq> Crashed) \<and> length (bb_buffer (rw_buf s)) = BUFFER_SIZE \<and>
    bb_in (rw_buf s) < BUFFER_SIZE \<and> bb_out (rw_buf s) < BUFFER_SIZE \<and> bb_count (rw_buf s) \<le> BUFFER_SIZE \<and>
    produced s = consumed s @ ring_list (bb_buffer (rw_buf s)) (bb_out (rw_buf s)) (bb_count (rw_buf s))"
  using state_buf_inv_reachable [OF assms] no_crash_reachable [OF assms]
  by (auto simp: state_buf_inv_def buf_inv_def ring_ok_def)

theorem bounded_buffer_fifo_witness:
  "\<exists>s. rw_reachable (replicate 10 0) s \<and> consumed s = [] \<and> produced s = [7] \<and> bb_in (rw_buf s) < BUFFER_SIZE \<and>
     produced s = ring_list (bb_buffer (rw_buf s)) (bb_out (rw_buf s)) (bb_count (rw_buf s))"
proof -
  let ?run = "replicate 7 (7, Writer 1)"
  have "map_option (\<lambda>s. (consumed s, produced s)) (rw_run ?run (rw_start (replicate 10 0))) = Some ([], [7])"
    by code_simp
  then obtain s where s: "rw_run ?run (rw_start (replicate 10 0)) = Some s"
    and lists: "consumed s = []" "produced s = [7]"
    unfolding map_option_eq_Some prod.inject by blast
  have reach: "rw_reachable (replicate 10 0) s" by (rule rw_run_reachable [OF rw_reachable.start s])
  have "length (replicate 10 (0::int)) = BUFFER_SIZE" by (simp add: BUFFER_SIZE_def)
  from bounded_buffer_fifo [OF reach this] lists have
    "bb_in (rw_buf s) < BUFFER_SIZE"
    "produced s = ring_list (bb_buffer (rw_buf s)) (bb_out (rw_buf s)) (bb_count (rw_buf s))"
    by (simp_all only: append.simps)
  with reach lists show ?thesis by blast
qed

subsection \<open>Why the program does not end\<close>

text \<open>The items a thread has moved so far: one for each complete iteration, and one when it is just
  leaving the buffer.\<close>

definition taken :: "rw_state \<Rightarrow> nat \<Rightarrow> nat" where
  "taken s r = iter s (Reader r) + of_bool (pc_of s (Reader r) = BCLeave)"

definition put :: "rw_state \<Rightarrow> nat \<Rightarrow> nat" where
  "put s w = iter s (Writer w) + of_bool (pc_of s (Writer w) = BPLeave)"

definition count_inv :: "rw_state \<Rightarrow> bool" where [inv_defs]:
  "count_inv s \<longleftrightarrow>
     (running s \<longrightarrow> length (consumed s) = (\<Sum>r<NUM_READERS. taken s r) \<and>
        length (produced s) = (\<Sum>w<NUM_WRITERS. put s w)) \<and>
     (\<forall>t. iter s t + of_bool (pc_of s t \<notin> {Head, Finished}) \<le> NUM_ITERATIONS \<and>
        (running s \<longrightarrow> pc_of s t = Finished \<longrightarrow> iter s t = NUM_ITERATIONS))"

lemma sum_change:
  fixes f g :: "nat \<Rightarrow> nat"
  assumes "k < n" "\<And>i. i \<noteq> k \<Longrightarrow> g i = f i"
  shows "(\<Sum>i<n. g i) + f k = (\<Sum>i<n. f i) + g k"
proof -
  have "(\<Sum>i<n. g i) = (\<Sum>i<n. if i = k then g k else f i)"
    using assms(2) by (intro sum.cong) auto
  with sum_fun_upd [OF assms(1), of "g k" f] show ?thesis by simp
qed

lemma reader_progress:
  assumes "reader_thread (Reader r) s = Some s'"
  shows "running s' = running s \<and> produced s' = produced s \<and> put s' = put s \<and>
    (\<forall>q. q \<noteq> r \<longrightarrow> taken s' q = taken s q) \<and>
    (running s \<longrightarrow> taken s' r + length (consumed s) = taken s r + length (consumed s'))"
  using assms
  by (cases "pc_of s (Reader r)") (auto simp: step_defs taken_def put_def split: if_splits option.splits)

lemma writer_progress:
  assumes "writer_thread rnd (Writer w) s = Some s'"
  shows "running s' = running s \<and> consumed s' = consumed s \<and> taken s' = taken s \<and>
    (\<forall>v. v \<noteq> w \<longrightarrow> put s' v = put s v) \<and>
    (running s \<longrightarrow> put s' w + length (produced s) = put s w + length (produced s'))"
  using assms
  by (cases "pc_of s (Writer w)") (auto simp: step_defs taken_def put_def split: if_splits option.splits)

lemma iterations_step:
  assumes step: "thread_step rnd t s = Some s'"
    and inv: "\<forall>t. iter s t + of_bool (pc_of s t \<notin> {Head, Finished}) \<le> NUM_ITERATIONS \<and>
        (running s \<longrightarrow> pc_of s t = Finished \<longrightarrow> iter s t = NUM_ITERATIONS)"
  shows "iter s' u + of_bool (pc_of s' u \<notin> {Head, Finished}) \<le> NUM_ITERATIONS \<and>
        (running s' \<longrightarrow> pc_of s' u = Finished \<longrightarrow> iter s' u = NUM_ITERATIONS)"
proof (cases "u = t")
  case True
  have "iter s t + of_bool (pc_of s t \<notin> {Head, Finished}) \<le> NUM_ITERATIONS"
    "running s \<longrightarrow> pc_of s t = Finished \<longrightarrow> iter s t = NUM_ITERATIONS" using inv by auto
  with step True show ?thesis
    by (cases t; cases "pc_of s t") (auto simp: step_defs split: if_splits option.splits)
next
  case False
  then have "iter s' u = iter s u" "pc_of s' u = pc_of s u" "running s' = running s"
    using step by (cases t; cases "pc_of s t"; auto simp: step_defs split: if_splits option.splits)+
  with inv show ?thesis by simp
qed

lemma count_inv_step:
  assumes inv: "count_inv s" and step: "thread_step rnd t s = Some s'"
  shows "count_inv s'"
proof -
  have "length (consumed s') = (\<Sum>r<NUM_READERS. taken s' r) \<and> length (produced s') = (\<Sum>w<NUM_WRITERS. put s' w)"
    if run: "running s'"
  proof (cases t)
    case (Reader r)
    with step have r: "r < NUM_READERS" and st: "reader_thread (Reader r) s = Some s'" by (auto split: if_splits)
    note prog = reader_progress [OF st]
    have "sum (taken s') {..<NUM_READERS} + taken s r = sum (taken s) {..<NUM_READERS} + taken s' r"
      using prog by (intro sum_change [OF r]) auto
    with prog inv run show ?thesis by (auto simp: count_inv_def)
  next
    case (Writer w)
    with step have w: "w < NUM_WRITERS" and st: "writer_thread rnd (Writer w) s = Some s'" by (auto split: if_splits)
    note prog = writer_progress [OF st]
    have "sum (put s') {..<NUM_WRITERS} + put s w = sum (put s) {..<NUM_WRITERS} + put s' w"
      using prog by (intro sum_change [OF w]) auto
    with prog inv run show ?thesis by (auto simp: count_inv_def)
  qed
  with iterations_step [OF step] inv show ?thesis by (simp add: count_inv_def)
qed

lemma count_inv_reachable: "rw_reachable mem s \<Longrightarrow> count_inv s"
proof (induction rule: rw_reachable.induct)
  case start
  show ?case by (simp add: count_inv_def rw_start_def taken_def put_def)
next
  case (step s s')
  from step.hyps(2) show ?case
  proof (cases rule: rw_step.cases)
    case (thread rnd t)
    with count_inv_step [OF step.IH] show ?thesis by blast
  qed (use step.IH in \<open>simp add: handle_signal_def count_inv_def\<close>)
qed

lemma put_bound:
  assumes "count_inv s"
  shows "(\<Sum>w<NUM_WRITERS. put s w) \<le> NUM_WRITERS * NUM_ITERATIONS"
proof -
  have "put s w \<le> NUM_ITERATIONS" for w
  proof -
    have "iter s (Writer w) + of_bool (pc_of s (Writer w) \<notin> {Head, Finished}) \<le> NUM_ITERATIONS"
      using assms by (simp add: count_inv_def)
    then show ?thesis by (cases "pc_of s (Writer w)") (auto simp: put_def)
  qed
  then have "(\<Sum>w<NUM_WRITERS. put s w) \<le> (\<Sum>w<NUM_WRITERS. NUM_ITERATIONS)" by (intro sum_mono)
  then show ?thesis by simp
qed

text \<open>Without an interrupt the program does not end: five readers want twenty items each and two writers
  produce twenty items each, so in no interleaving are all threads finished while \<open>running\<close> is set; the
  message that the simulation has completed is printed only after the signal handler has run.\<close>

theorem readers_never_all_finish:
  assumes "rw_reachable mem s" "length mem = BUFFER_SIZE" "running s"
  shows "\<not> rw_main_returns s"
proof
  assume fin: "rw_main_returns s"
  have inv: "count_inv s" using assms(1) by (rule count_inv_reachable)
  have "taken s r = NUM_ITERATIONS" if "r < NUM_READERS" for r
    using that fin inv assms(3) by (auto simp: rw_main_returns_def list_all_iff count_inv_def taken_def)
  then have "(\<Sum>r<NUM_READERS. taken s r) = NUM_READERS * NUM_ITERATIONS" by simp
  with inv assms(3) have "length (consumed s) = NUM_READERS * NUM_ITERATIONS" by (simp add: count_inv_def)
  moreover have "length (produced s) \<le> NUM_WRITERS * NUM_ITERATIONS"
    using inv assms(3) put_bound [OF inv] by (simp add: count_inv_def)
  moreover have "length (consumed s) \<le> length (produced s)"
    using state_buf_inv_reachable [OF assms(1,2)] by (simp add: state_buf_inv_def buf_inv_def ring_ok_def)
  ultimately show False by (simp add: NUM_READERS_def NUM_WRITERS_def NUM_ITERATIONS_def)
qed

theorem readers_never_all_finish_witness:
  "rw_reachable (replicate 10 0) (rw_start (replicate 10 0)) \<and> \<not> rw_main_returns (rw_start (replicate 10 0))"
  using readers_never_all_finish [OF rw_reachable.start, of "replicate 10 0"] rw_reachable.start [of "replicate 10 0"]
  by (simp add: BUFFER_SIZE_def rw_start_def)

text \<open>The write lock is given back by a thread that does not own it: with two readers, the first takes
  the write lock and the last one unlocks it, which POSIX leaves undefined for this kind of mutex.\<close>

theorem write_lock_unlocked_by_other:
  "\<exists>s. rw_reachable (replicate 10 0) s \<and> pc_of s (Reader 1) = RULast \<and>
     write_lock (rw_lock s) = Some (Reader 0)"
proof -
  let ?run = "replicate 5 (0, Reader 0) @ replicate 4 (0, Reader 1) @ replicate 4 (0, Reader 0) @ replicate 3 (0, Reader 1)"
  have "map_option (\<lambda>s. (pc_of s (Reader 1), write_lock (rw_lock s))) (rw_run ?run (rw_start (replicate 10 0))) =
      Some (RULast, Some (Reader 0))" by code_simp
  then obtain s where s: "rw_run ?run (rw_start (replicate 10 0)) = Some s"
    and st: "pc_of s (Reader 1) = RULast" "write_lock (rw_lock s) = Some (Reader 0)"
    unfolding map_option_eq_Some prod.inject by blast
  have "rw_reachable (replicate 10 0) s" by (rule rw_run_reachable [OF rw_reachable.start s])
  with st show ?thesis by blast
qed

end
