(* ===== verification/Context_Switch.thy ===== *)
theory Context_Switch
  imports Ring_Fifo
begin

text \<open>
  The context switch simulation (\<^verbatim>\<open>concurrency/threads/contextSwitch/contextSwitchHandler.c\<close>): process
  control blocks, a round-robin choice of the next process, the switch with its accounting and the timer
  interrupt that causes it.

  The records keep the fields that the program reads or writes. \<open>current_process\<close> is an index into the
  table. Everything the program takes from outside during a timer interrupt is the argument \<open>tick_env\<close>: the
  random numbers and the three readings of the clock. Division by zero and an index outside the table are
  \<open>None\<close>.
\<close>

subsection \<open>The state\<close>

definition CS_MAX_PROCESSES :: nat where
  "CS_MAX_PROCESSES = 4"

record cpu_registers =
  rax :: u64
  rbx :: u64
  rcx :: u64
  fpu_used :: bool
  mxcsr :: u32

record mm_context =
  pgd :: u64

record sched_info =
  priority :: nat
  time_slice :: u64
  total_time :: u64
  last_ran :: u64

datatype process_state =
  TASK_RUNNING | TASK_INTERRUPTIBLE | TASK_UNINTERRUPTIBLE | TASK_STOPPED | TASK_ZOMBIE

record pcb =
  pcb_pid :: int
  pcb_name :: string
  state :: process_state
  regs :: cpu_registers
  mm :: mm_context
  sched :: sched_info
  voluntary_switches :: u64
  involuntary_switches :: u64

record perf_stats =
  context_switches :: u64
  avg_switch_time :: u64
  max_switch_time :: u64

record cs_state =
  global_stats :: perf_stats
  current_process :: nat
  processes :: "pcb list"
  num_processes :: nat
  current_index :: nat

record tick_env =
  te_coin :: nat
  te_rand1 :: nat
  te_rand2 :: nat
  te_rand3 :: nat
  te_start :: u64
  te_account :: u64
  te_end :: u64

subsection \<open>The operations\<close>

definition calculate_time_slice :: "pcb \<Rightarrow> u64" where
  "calculate_time_slice p = 5 - of_nat (priority (sched p) mod 5)"

definition save_cpu_state :: "tick_env \<Rightarrow> cpu_registers \<Rightarrow> cpu_registers" where
  "save_cpu_state e r = r\<lparr>rax := of_nat (te_rand1 e mod 1000), rbx := of_nat (te_rand2 e mod 1000),
     rcx := of_nat (te_rand3 e mod 1000)\<rparr>"

definition save_fpu_state :: "cpu_registers \<Rightarrow> cpu_registers" where
  "save_fpu_state r = (if fpu_used r then r\<lparr>mxcsr := 0x1F80\<rparr> else r)"

text \<open>The memory contexts are only compared for a message; this is whether it is printed.\<close>

definition switch_mm_context :: "pcb \<Rightarrow> pcb \<Rightarrow> bool" where
  "switch_mm_context prev next \<longleftrightarrow> pgd (mm prev) \<noteq> pgd (mm next)"

text \<open>The \<open>do ... while\<close> loop; \<open>continue\<close> goes to the test of the condition. It makes at most
  \<open>num_processes\<close> rounds.\<close>

fun select_loop :: "nat \<Rightarrow> pcb list \<Rightarrow> nat \<Rightarrow> nat \<Rightarrow> nat \<Rightarrow> (nat option \<times> nat) option" where
  "select_loop 0 ps n start cur = None"
| "select_loop (Suc k) ps n start cur =
     (if n = 0 then None
      else let c = (cur + 1) mod n in do {
        p \<leftarrow> c_load ps c;
        if state p \<noteq> TASK_RUNNING
        then (if c \<noteq> start then select_loop k ps n start c else Some (None, c))
        else Some (Some c, c)
      })"

definition scheduler_select_next :: "cs_state \<Rightarrow> (nat \<times> cs_state) option" where
  "scheduler_select_next s = do {
     (r, c) \<leftarrow> select_loop (num_processes s) (processes s) (num_processes s) (current_index s) (current_index s);
     Some (case r of Some i \<Rightarrow> i | None \<Rightarrow> current_process s, s\<lparr>current_index := c\<rparr>)
   }"

definition update_process_accounting :: "tick_env \<Rightarrow> nat \<Rightarrow> nat \<Rightarrow> pcb list \<Rightarrow> pcb list option" where
  "update_process_accounting e prev next ps = do {
     p \<leftarrow> c_load ps prev;
     ps1 \<leftarrow> c_store ps prev
       (p\<lparr>sched := (sched p)\<lparr>total_time := total_time (sched p) + (te_account e - last_ran (sched p))\<rparr>\<rparr>);
     q \<leftarrow> c_load ps1 next;
     ps2 \<leftarrow> c_store ps1 next
       (q\<lparr>sched := (sched q)\<lparr>last_ran := te_account e, time_slice := calculate_time_slice q\<rparr>\<rparr>);
     p2 \<leftarrow> c_load ps2 prev;
     c_store ps2 prev
       (if state p2 = TASK_INTERRUPTIBLE then p2\<lparr>voluntary_switches := voluntary_switches p2 + 1\<rparr>
        else p2\<lparr>involuntary_switches := involuntary_switches p2 + 1\<rparr>)
   }"

definition update_perf_stats :: "u64 \<Rightarrow> u64 \<Rightarrow> perf_stats \<Rightarrow> perf_stats" where
  "update_perf_stats start_time end_time g =
     (let t = end_time - start_time;
          n = context_switches g + 1;
          g1 = g\<lparr>context_switches := n, avg_switch_time := (avg_switch_time g * (n - 1) + t) div n\<rparr>
      in if t > max_switch_time g1 then g1\<lparr>max_switch_time := t\<rparr> else g1)"

definition context_switch :: "tick_env \<Rightarrow> nat \<Rightarrow> nat \<Rightarrow> cs_state \<Rightarrow> cs_state option" where
  "context_switch e prev next s = do {
     p \<leftarrow> c_load (processes s) prev;
     ps1 \<leftarrow> c_store (processes s) prev
       (p\<lparr>regs := save_fpu_state (save_cpu_state e (regs p)), state := TASK_INTERRUPTIBLE\<rparr>);
     q \<leftarrow> c_load ps1 next;
     ps2 \<leftarrow> c_store ps1 next (q\<lparr>state := TASK_RUNNING\<rparr>);
     ps3 \<leftarrow> update_process_accounting e prev next ps2;
     Some (s\<lparr>processes := ps3, current_process := next,
             global_stats := update_perf_stats (te_start e) (te_end e) (global_stats s)\<rparr>)
   }"

definition set_time_slice :: "nat \<Rightarrow> u64 \<Rightarrow> pcb list \<Rightarrow> pcb list option" where
  "set_time_slice i v ps = do {
     p \<leftarrow> c_load ps i;
     c_store ps i (p\<lparr>sched := (sched p)\<lparr>time_slice := v\<rparr>\<rparr>)
   }"

definition timer_interrupt_handler :: "tick_env \<Rightarrow> cs_state \<Rightarrow> cs_state option" where
  "timer_interrupt_handler e s = (let prev = current_process s in do {
     p \<leftarrow> c_load (processes s) prev;
     ps \<leftarrow> set_time_slice prev (time_slice (sched p) - 1) (processes s);
     let s1 = s\<lparr>processes := ps\<rparr>;
     if time_slice (sched p) - 1 = 0 \<or> te_coin e mod 3 = 0 then do {
       (nxt, s2) \<leftarrow> scheduler_select_next s1;
       if nxt \<noteq> prev then context_switch e prev nxt s2
       else do {
         ps' \<leftarrow> set_time_slice prev (calculate_time_slice p) (processes s2);
         Some (s2\<lparr>processes := ps'\<rparr>)
       }
     } else Some s1
   })"

text \<open>\<open>snprintf\<close> keeps the first 15 characters of the name.\<close>

definition initialize_process :: "int \<Rightarrow> u64 \<Rightarrow> u64 \<Rightarrow> bool \<Rightarrow> nat \<Rightarrow> string \<Rightarrow> nat \<Rightarrow> cs_state \<Rightarrow> cs_state option" where
  "initialize_process pid now page_dir fpu i name prio s = do {
     p \<leftarrow> c_load (processes s) i;
     let p1 = p\<lparr>pcb_pid := pid + int (num_processes s), pcb_name := take 15 name, state := TASK_RUNNING,
                sched := (sched p)\<lparr>priority := prio\<rparr>\<rparr>;
     ps \<leftarrow> c_store (processes s) i
       (p1\<lparr>sched := (sched p1)\<lparr>time_slice := calculate_time_slice p1, last_ran := now\<rparr>,
           mm := \<lparr>pgd = page_dir\<rparr>, regs := (regs p1)\<lparr>fpu_used := fpu\<rparr>\<rparr>);
     Some (s\<lparr>processes := ps, num_processes := num_processes s + 1\<rparr>)
   }"

fun run_ticks :: "tick_env list \<Rightarrow> cs_state \<Rightarrow> cs_state option" where
  "run_ticks [] s = Some s"
| "run_ticks (e # es) s = Option.bind (timer_interrupt_handler e s) (run_ticks es)"

definition zero_pcb :: pcb where
  "zero_pcb = \<lparr>pcb_pid = 0, pcb_name = '''', state = TASK_RUNNING,
     regs = \<lparr>rax = 0, rbx = 0, rcx = 0, fpu_used = False, mxcsr = 0\<rparr>, mm = \<lparr>pgd = 0\<rparr>,
     sched = \<lparr>priority = 0, time_slice = 0, total_time = 0, last_ran = 0\<rparr>,
     voluntary_switches = 0, involuntary_switches = 0\<rparr>"

definition cs_zero :: cs_state where
  "cs_zero = \<lparr>global_stats = \<lparr>context_switches = 0, avg_switch_time = 0, max_switch_time = 0\<rparr>,
     current_process = 0, processes = replicate CS_MAX_PROCESSES zero_pcb, num_processes = 0, current_index = 0\<rparr>"

text \<open>The process identifier, and for each process the time, page directory and FPU flag drawn for it.\<close>

definition cs_setup :: "int \<Rightarrow> (nat \<Rightarrow> u64 \<times> u64 \<times> bool) \<Rightarrow> cs_state option" where
  "cs_setup pid env = do {
     let ini = (\<lambda>i name prio s. case env i of (now, dir, fpu) \<Rightarrow> initialize_process pid now dir fpu i name prio s);
     s0 \<leftarrow> ini 0 ''Init'' 2 cs_zero;
     s1 \<leftarrow> ini 1 ''Web_Server'' 1 s0;
     s2 \<leftarrow> ini 2 ''Database'' 0 s1;
     s3 \<leftarrow> ini 3 ''Backup'' 3 s2;
     Some (s3\<lparr>current_process := 0\<rparr>)
   }"

definition cs_main :: "int \<Rightarrow> (nat \<Rightarrow> u64 \<times> u64 \<times> bool) \<Rightarrow> tick_env list \<Rightarrow> cs_state option" where
  "cs_main pid env es = Option.bind (cs_setup pid env) (run_ticks es)"

subsection \<open>The choice of the next process\<close>

definition is_running :: "pcb list \<Rightarrow> nat \<Rightarrow> bool" where
  "is_running ps i \<longleftrightarrow> state (ps ! i) = TASK_RUNNING"

lemma select_loop_first:
  assumes "n \<le> length ps" "j < d" "d \<le> n" "is_running ps ((start + d) mod n)"
    "\<forall>i. j < i \<longrightarrow> i < d \<longrightarrow> \<not> is_running ps ((start + i) mod n)" "start < n" "d - j \<le> k"
  shows "select_loop k ps n start ((start + j) mod n) = Some (Some ((start + d) mod n), (start + d) mod n)"
  using assms(2,5,7)
proof (induction k arbitrary: j)
  case (Suc k)
  let ?c = "(start + Suc j) mod n"
  have n: "0 < n" using assms(6) by simp
  have c: "((start + j) mod n + 1) mod n = ?c" by (simp add: mod_Suc_eq)
  have len: "?c < length ps" using n assms(1) by (meson less_le_trans mod_less_divisor)
  show ?case
  proof (cases "Suc j = d")
    case True
    with c len n assms(4) show ?thesis by (simp add: is_running_def Let_def)
  next
    case False
    with Suc.prems have j: "Suc j < d" by simp
    then have "\<not> is_running ps ?c" using Suc.prems(2) [rule_format, of "Suc j"] by simp
    moreover have "?c \<noteq> start"
      using mod_offset_inj [of "Suc j" n 0 start] j assms(3,6) by auto
    ultimately show ?thesis
      using Suc.IH [of "Suc j"] Suc.prems j c len n by (simp add: is_running_def Let_def)
  qed
qed simp

lemma scheduler_select_next_ok:
  assumes "num_processes s = length (processes s)" "current_index s < num_processes s"
    "is_running (processes s) (current_index s)"
  shows "\<exists>d. 0 < d \<and> d \<le> num_processes s \<and>
    (\<forall>i. 0 < i \<longrightarrow> i < d \<longrightarrow> \<not> is_running (processes s) ((current_index s + i) mod num_processes s)) \<and>
    is_running (processes s) ((current_index s + d) mod num_processes s) \<and>
    scheduler_select_next s = Some ((current_index s + d) mod num_processes s,
      s\<lparr>current_index := (current_index s + d) mod num_processes s\<rparr>)"
proof -
  let ?n = "num_processes s" and ?c = "current_index s"
  let ?P = "\<lambda>d. 0 < d \<and> is_running (processes s) ((?c + d) mod ?n)"
  have n: "0 < ?n" "?P ?n" using assms by auto
  define d where "d = (LEAST d. ?P d)"
  have d: "?P d" unfolding d_def using n(2) by (rule LeastI)
  have dn: "d \<le> ?n" unfolding d_def using n(2) by (rule Least_le)
  have first: "\<not> is_running (processes s) ((?c + i) mod ?n)" if "0 < i" "i < d" for i
    using not_less_Least [of i ?P] that by (auto simp: d_def)
  have "select_loop ?n (processes s) ?n ?c ((?c + 0) mod ?n) = Some (Some ((?c + d) mod ?n), (?c + d) mod ?n)"
    by (rule select_loop_first) (use assms d dn first in auto)
  with assms(2) have "scheduler_select_next s = Some ((?c + d) mod ?n, s\<lparr>current_index := (?c + d) mod ?n\<rparr>)"
    by (simp add: scheduler_select_next_def)
  with d dn first show ?thesis by blast
qed

subsection \<open>The invariant\<close>

definition running_count :: "pcb list \<Rightarrow> nat" where
  "running_count ps = count_list (map state ps) TASK_RUNNING"

lemma count_list_update:
  "i < length xs \<Longrightarrow> count_list (xs[i := y]) a + of_bool (xs ! i = a) = count_list xs a + of_bool (y = a)"
proof (induction xs arbitrary: i)
  case (Cons x xs)
  show ?case
  proof (cases i)
    case (Suc j)
    with Cons.IH [of j] Cons.prems show ?thesis by auto
  qed auto
qed simp

definition cs_inv :: "cs_state \<Rightarrow> bool" where [inv_defs]:
  "cs_inv s \<longleftrightarrow> num_processes s = length (processes s) \<and> current_process s < length (processes s) \<and>
     current_index s = current_process s \<and> is_running (processes s) (current_process s) \<and>
     time_slice (sched (processes s ! current_process s)) \<noteq> 0 \<and>
     (\<forall>p\<in>set (processes s). involuntary_switches p = 0)"

lemma time_slice_pos: "calculate_time_slice p \<noteq> 0"
proof -
  have "priority (sched p) mod 5 < 5" by simp
  then consider "priority (sched p) mod 5 = 0" | "priority (sched p) mod 5 = 1" | "priority (sched p) mod 5 = 2"
    | "priority (sched p) mod 5 = 3" | "priority (sched p) mod 5 = 4" by linarith
  then show ?thesis by cases (simp_all add: calculate_time_slice_def)
qed

lemma running_count_pos: "i < length ps \<Longrightarrow> is_running ps i \<Longrightarrow> 0 < running_count ps"
proof -
  assume i: "i < length ps" "is_running ps i"
  then have "map state ps ! i = TASK_RUNNING" by (simp add: is_running_def)
  then have "TASK_RUNNING \<in> set (map state ps)" using i(1) by (metis length_map nth_mem)
  then show ?thesis 
    using count_list_0_iff [of "map state ps" TASK_RUNNING] unfolding running_count_def by (metis gr0I)
qed

lemma context_switch_ok:
  assumes "prev < length (processes s)" "next < length (processes s)" "prev \<noteq> next"
    "is_running (processes s) prev" "is_running (processes s) next" "\<forall>p\<in>set (processes s). involuntary_switches p = 0"
  shows "\<exists>s'. context_switch e prev next s = Some s' \<and> num_processes s' = num_processes s \<and>
    length (processes s') = length (processes s) \<and> current_process s' = next \<and> current_index s' = current_index s \<and>
    is_running (processes s') next \<and> time_slice (sched (processes s' ! next)) \<noteq> 0 \<and>
    (\<forall>p\<in>set (processes s'). involuntary_switches p = 0) \<and>
    context_switches (global_stats s') = context_switches (global_stats s) + 1 \<and>
    running_count (processes s') + 1 = running_count (processes s)"
proof -
  let ?ps = "processes s"
  define p where "p = (?ps ! prev)\<lparr>regs := save_fpu_state (save_cpu_state e (regs (?ps ! prev))),
    state := TASK_INTERRUPTIBLE,
    sched := (sched (?ps ! prev))\<lparr>total_time := total_time (sched (?ps ! prev)) + (te_account e - last_ran (sched (?ps ! prev)))\<rparr>,
    voluntary_switches := voluntary_switches (?ps ! prev) + 1\<rparr>"
  define q where "q = (?ps ! next)\<lparr>state := TASK_RUNNING,
    sched := (sched (?ps ! next))\<lparr>last_ran := te_account e, time_slice := calculate_time_slice (?ps ! next)\<rparr>\<rparr>"
  let ?s = "s\<lparr>processes := ?ps[prev := p, next := q], current_process := next,
    global_stats := update_perf_stats (te_start e) (te_end e) (global_stats s)\<rparr>"
  have eq: "context_switch e prev next s = Some ?s"
    using assms(1-3)
    by (simp add: context_switch_def update_process_accounting_def p_def q_def calculate_time_slice_def
        list_update_swap list_update_overwrite)
  have "involuntary_switches p = 0" "involuntary_switches q = 0"
    using assms(1,2,6) by (simp_all add: p_def q_def)
  then have inv: "\<forall>x\<in>set (?ps[prev := p, next := q]). involuntary_switches x = 0"
    using assms(6) by (auto dest!: set_update_subset_insert [THEN subsetD])
  have "running_count (?ps[prev := p, next := q]) + 1 = running_count ?ps"
    using count_list_update [of prev "map state ?ps" "state p" TASK_RUNNING]
      count_list_update [of "next" "(map state ?ps)[prev := state p]" "state q" TASK_RUNNING] assms
    by (simp add: running_count_def map_update p_def q_def is_running_def)
  with eq inv assms(1-3) show ?thesis
    by (simp add: is_running_def q_def time_slice_pos update_perf_stats_def Let_def)
qed

lemma timer_interrupt_inv:
  assumes inv: "cs_inv s"
  shows "\<exists>s'. timer_interrupt_handler e s = Some s' \<and> cs_inv s' \<and> length (processes s') = length (processes s) \<and>
    context_switches (global_stats s') + of_nat (running_count (processes s')) =
    context_switches (global_stats s) + of_nat (running_count (processes s))"
proof -
  let ?cur = "current_process s" and ?p = "processes s ! current_process s"
  let ?v = "time_slice (sched ?p) - 1"
  define ps where "ps = (processes s)[?cur := ?p\<lparr>sched := (sched ?p)\<lparr>time_slice := ?v\<rparr>\<rparr>]"
  have cur: "?cur < length (processes s)" using inv by (simp add: cs_inv_def)
  have set: "set_time_slice ?cur ?v (processes s) = Some ps"
    using cur by (simp add: set_time_slice_def ps_def)
  have states: "map state ps = map state (processes s)"
    using cur by (simp add: ps_def map_update list_update_same_conv)
  have rc: "running_count ps = running_count (processes s)" by (simp add: running_count_def states)
  have run: "is_running ps i = is_running (processes s) i" if "i < length (processes s)" for i
    using that by (cases "i = ?cur") (simp_all add: is_running_def ps_def)
  have invol: "\<forall>p\<in>set ps. involuntary_switches p = 0"
    using inv cur by (auto simp: cs_inv_def ps_def dest!: set_update_subset_insert [THEN subsetD])
  have len: "length ps = length (processes s)" by (simp add: ps_def)
  show ?thesis
  proof (cases "?v = 0 \<or> te_coin e mod 3 = 0")
    case False
    have "timer_interrupt_handler e s = Some (s\<lparr>processes := ps\<rparr>)"
      using False cur set by (simp add: timer_interrupt_handler_def Let_def)
    moreover have "cs_inv (s\<lparr>processes := ps\<rparr>)"
      using inv invol run [OF cur] len False cur by (simp add: cs_inv_def) (simp add: ps_def)
    ultimately show ?thesis using rc len by simp
  next
    case True
    let ?s1 = "s\<lparr>processes := ps\<rparr>"
    obtain d where d: "is_running ps ((?cur + d) mod length ps)"
      and sel: "scheduler_select_next ?s1 = Some ((?cur + d) mod length ps, ?s1\<lparr>current_index := (?cur + d) mod length ps\<rparr>)"
      using scheduler_select_next_ok [of ?s1] inv run [OF cur] len by (auto simp: cs_inv_def)
    define nxt where "nxt = (?cur + d) mod length ps"
    have nxt: "nxt < length ps" using cur len unfolding nxt_def by (intro mod_less_divisor) auto
    let ?s2 = "?s1\<lparr>current_index := nxt\<rparr>"
    have step: "timer_interrupt_handler e s =
        (if nxt \<noteq> ?cur then context_switch e ?cur nxt ?s2
         else map_option (\<lambda>ps'. ?s2\<lparr>processes := ps'\<rparr>) (set_time_slice ?cur (calculate_time_slice ?p) ps))"
      using True cur set sel
      by (auto simp: timer_interrupt_handler_def Let_def nxt_def map_conv_bind_option comp_def)
    show ?thesis
    proof (cases "nxt = ?cur")
      case False
      from context_switch_ok [of ?cur ?s2 nxt e] obtain s' where
        "context_switch e ?cur nxt ?s2 = Some s'" "cs_inv s'" "length (processes s') = length ps"
        "context_switches (global_stats s') = context_switches (global_stats s) + 1"
        "running_count (processes s') + 1 = running_count ps"
        using False cur len nxt run [OF cur] inv d invol by (auto simp: cs_inv_def nxt_def)
      with step False rc len show ?thesis by (auto simp flip: of_nat_Suc)
    next
      case True
      let ?ps = "(processes s)[?cur := ?p\<lparr>sched := (sched ?p)\<lparr>time_slice := calculate_time_slice ?p\<rparr>\<rparr>]"
      have "set_time_slice ?cur (calculate_time_slice ?p) ps = Some ?ps"
        using cur by (simp add: set_time_slice_def ps_def)
      then have "timer_interrupt_handler e s = Some (?s2\<lparr>processes := ?ps\<rparr>)" using step True by simp
      moreover have "cs_inv (?s2\<lparr>processes := ?ps\<rparr>)"
        using inv cur True
        by (auto simp: cs_inv_def is_running_def time_slice_pos dest!: set_update_subset_insert [THEN subsetD])
      moreover have "map state ?ps = map state (processes s)"
        using cur by (simp add: map_update list_update_same_conv)
      then have "running_count ?ps = running_count (processes s)" by (simp only: running_count_def)
      ultimately show ?thesis by simp
    qed
  qed
qed

lemma run_ticks_inv:
  assumes "cs_inv s"
  shows "\<exists>s'. run_ticks es s = Some s' \<and> cs_inv s' \<and> length (processes s') = length (processes s) \<and>
    context_switches (global_stats s') + of_nat (running_count (processes s')) =
    context_switches (global_stats s) + of_nat (running_count (processes s))"
  using assms
proof (induction es arbitrary: s)
  case (Cons e es)
  obtain s1 where s1: "timer_interrupt_handler e s = Some s1" "cs_inv s1" "length (processes s1) = length (processes s)"
    "context_switches (global_stats s1) + of_nat (running_count (processes s1)) =
     context_switches (global_stats s) + of_nat (running_count (processes s))"
    using timer_interrupt_inv [OF Cons.prems] by blast
  with Cons.IH [OF s1(2)] show ?case by auto
qed simp

subsection \<open>The program\<close>

lemma cs_setup_ok:
  "\<exists>s. cs_setup pid env = Some s \<and> cs_inv s \<and> length (processes s) = 4 \<and> running_count (processes s) = 4 \<and>
     context_switches (global_stats s) = 0"
proof -
  obtain a0 b0 c0 a1 b1 c1 a2 b2 c2 a3 b3 c3 where env: "env 0 = (a0, b0, c0)" "env (Suc 0) = (a1, b1, c1)"
    "env (Suc (Suc 0)) = (a2, b2, c2)" "env (Suc (Suc (Suc 0))) = (a3, b3, c3)" by (metis prod_cases3)
  show ?thesis
    by (simp add: cs_setup_def env cs_zero_def CS_MAX_PROCESSES_def initialize_process_def Let_def zero_pcb_def
      numeral_eq_Suc cs_inv_def is_running_def running_count_def time_slice_pos)
qed

text \<open>C7. The simulation stops switching: whatever the random numbers and the clock, and however many timer
  interrupts arrive, no array is left, the current process is runnable with a positive time slice, there are at
  most three context switches altogether, because a process that was switched away from is never made runnable
  again, and no switch is ever counted as involuntary.\<close>

theorem context_switches_stop:
  "\<exists>s. cs_main pid env es = Some s \<and> context_switches (global_stats s) \<le> 3 \<and>
     context_switches (global_stats s) = of_nat (4 - running_count (processes s)) \<and>
     is_running (processes s) (current_process s) \<and>
     0 < time_slice (sched (processes s ! current_process s)) \<and>
     list_all (\<lambda>p. involuntary_switches p = 0) (processes s)"
proof -
  obtain s0 where s0: "cs_setup pid env = Some s0" "cs_inv s0" "length (processes s0) = 4"
    "running_count (processes s0) = 4" "context_switches (global_stats s0) = 0"
    using cs_setup_ok by blast
  obtain s where s: "run_ticks es s0 = Some s" "cs_inv s" "length (processes s) = length (processes s0)"
    "context_switches (global_stats s) + of_nat (running_count (processes s)) =
      context_switches (global_stats s0) + of_nat (running_count (processes s0))"
    using run_ticks_inv [OF s0(2)] by blast
  have pos: "0 < running_count (processes s)"
    using s(2) by (intro running_count_pos [of "current_process s"]) (auto simp: cs_inv_def)
  have "running_count (processes s) \<le> length (map state (processes s))"
    unfolding running_count_def by (rule count_le_length)
  then have le: "running_count (processes s) \<le> 4" using s(3) s0(3) by simp
  have "context_switches (global_stats s) + of_nat (running_count (processes s)) = of_nat 4"
    using s(4) s0(4,5) by simp
  then have eq: "context_switches (global_stats s) = of_nat (4 - running_count (processes s))"
    using le by (simp add: of_nat_diff eq_diff_eq)
  have "4 - running_count (processes s) \<in> {0, 1, 2, 3}" using pos by auto
  then have "context_switches (global_stats s) \<le> 3" unfolding eq by auto
  moreover have "cs_main pid env es = Some s" using s0(1) s(1) by (simp add: cs_main_def)
  ultimately show ?thesis using eq s(2) by (auto simp: cs_inv_def word_neq_0_conv list_all_iff)
qed

end
