(* ===== verification/Matrix_Multiply.thy ===== *)
theory Matrix_Multiply
  imports Prelude "HOL-Library.Multiset"
begin

text \<open>
  The three matrix multiplications of \<^verbatim>\<open>utils/matrixMul\<close>: the triple loop (\<^verbatim>\<open>matrix_basic.c\<close>), the
  cache-blocked one (\<^verbatim>\<open>matrix_cache.c\<close>) and the blocked one with vector instructions and parallel
  blocks (\<^verbatim>\<open>matrix_optimized.c\<close>, \<^verbatim>\<open>matrixOptimized.c\<close>).

  The matrices hold floating point numbers, whose addition is not associative. The arithmetic is
  therefore a parameter without any laws: \<open>mac c a b\<close> is the new value of \<open>c += a * b\<close>, or of
  the fused multiply-add. The theorems say that the optimised loops compute the same numbers bit by bit,
  because they add the products of every entry in the same order.

  The locale \<open>grid\<close> is the interface of a matrix in memory; it is interpreted for the array of rows
  and for the flat array. Accesses are checked, so the theorems include that no access is out of range.
\<close>

subsection \<open>Loops\<close>

fun for_each :: "('i \<Rightarrow> 's \<Rightarrow> 's option) \<Rightarrow> 'i list \<Rightarrow> 's \<Rightarrow> 's option" where
  "for_each f [] s = Some s"
| "for_each f (i # is) s = Option.bind (f i s) (for_each f is)"

lemma for_each_append: "for_each f (xs @ ys) s = Option.bind (for_each f xs s) (for_each f ys)"
  by (induction xs arbitrary: s) (auto split: Option.bind_splits)

lemma for_each_concat: "for_each f (concat xss) s = for_each (for_each f) xss s"
  by (induction xss arbitrary: s) (auto simp: for_each_append split: Option.bind_splits)

lemma for_each_map: "for_each f (map g xs) s = for_each (\<lambda>i. f (g i)) xs s"
  by (induction xs arbitrary: s) (auto split: Option.bind_splits)

text \<open>The same as equations between functions, for loops inside loops.\<close>

lemma for_each_nested:
  "for_each f (concat xss) = for_each (for_each f) xss"
  "for_each f (map g zs) = for_each (\<lambda>i. f (g i)) zs"
  "for_each f (x # xs) = (\<lambda>s. Option.bind (f x s) (for_each f xs))"
  "for_each f (xs @ ys) = (\<lambda>s. Option.bind (for_each f xs s) (for_each f ys))"
  by (rule ext, simp add: for_each_concat for_each_map for_each_append)+

lemma for_each_cong: "(\<And>i s. i \<in> set xs \<Longrightarrow> f i s = g i s) \<Longrightarrow> for_each f xs s = for_each g xs s"
  by (induction xs arbitrary: s) (auto split: Option.bind_splits)

text \<open>The values of \<open>i\<close> in \<^verbatim>\<open>for (i = lo; i < hi; i += b)\<close>.\<close>

function up_by :: "nat \<Rightarrow> nat \<Rightarrow> nat \<Rightarrow> nat list" where
  "up_by b lo hi = (if lo < hi \<and> 0 < b then lo # up_by b (lo + b) hi else [])"
  by auto
termination by (relation "measure (\<lambda>(b, lo, hi). hi - lo)") auto

declare up_by.simps [simp del]

definition block :: "nat \<Rightarrow> nat \<Rightarrow> nat \<Rightarrow> nat list" where
  "block b n i = [i..<min (i + b) n]"

subsection \<open>Matrices in memory\<close>

definition row_get :: "'a list list \<Rightarrow> nat \<Rightarrow> nat \<Rightarrow> 'a option" where
  "row_get m i j = Option.bind (c_load m i) (\<lambda>r. c_load r j)"

definition row_put :: "'a list list \<Rightarrow> nat \<Rightarrow> nat \<Rightarrow> 'a \<Rightarrow> 'a list list option" where
  "row_put m i j v = do { r \<leftarrow> c_load m i; r' \<leftarrow> c_store r j v; c_store m i r' }"

definition rows_ok :: "nat \<Rightarrow> 'a list list \<Rightarrow> bool" where
  "rows_ok n m \<longleftrightarrow> length m = n \<and> (\<forall>r\<in>set m. length r = n)"

definition flat_get :: "nat \<Rightarrow> 'a list \<Rightarrow> nat \<Rightarrow> nat \<Rightarrow> 'a option" where
  "flat_get n m i j = c_load m (i * n + j)"

definition flat_put :: "nat \<Rightarrow> 'a list \<Rightarrow> nat \<Rightarrow> nat \<Rightarrow> 'a \<Rightarrow> 'a list option" where
  "flat_put n m i j v = c_store m (i * n + j) v"

text \<open>The entry \<open>C[i][j] = 0\<close> and the entry \<open>C[i][j] += A[i][k] * B[k][j]\<close>.\<close>

datatype entry_op = Clear nat nat | Mac nat nat nat

fun exec_entry ::
  "('m \<Rightarrow> nat \<Rightarrow> nat \<Rightarrow> 'a option) \<Rightarrow> ('m \<Rightarrow> nat \<Rightarrow> nat \<Rightarrow> 'a \<Rightarrow> 'm option) \<Rightarrow> 'a \<Rightarrow> ('a \<Rightarrow> 'a \<Rightarrow> 'a \<Rightarrow> 'a) \<Rightarrow>
    'm \<Rightarrow> 'm \<Rightarrow> entry_op \<Rightarrow> 'm \<Rightarrow> 'm option" where
  "exec_entry get put zero mac A B (Clear i j) C = put C i j zero"
| "exec_entry get put zero mac A B (Mac i k j) C = do {
     c \<leftarrow> get C i j;
     a \<leftarrow> get A i k;
     b \<leftarrow> get B k j;
     put C i j (mac c a b)
   }"

fun touches :: "nat \<Rightarrow> nat \<Rightarrow> entry_op \<Rightarrow> bool" where
  "touches i j (Clear i' j') \<longleftrightarrow> i' = i \<and> j' = j"
| "touches i j (Mac i' k j') \<longleftrightarrow> i' = i \<and> j' = j"

fun in_range :: "nat \<Rightarrow> entry_op \<Rightarrow> bool" where
  "in_range n (Clear i j) \<longleftrightarrow> i < n \<and> j < n"
| "in_range n (Mac i k j) \<longleftrightarrow> i < n \<and> k < n \<and> j < n"

fun entry_value :: "'a \<Rightarrow> ('a \<Rightarrow> 'a \<Rightarrow> 'a \<Rightarrow> 'a) \<Rightarrow> (nat \<Rightarrow> nat \<Rightarrow> 'a) \<Rightarrow> (nat \<Rightarrow> nat \<Rightarrow> 'a) \<Rightarrow> 'a \<Rightarrow> entry_op \<Rightarrow> 'a" where
  "entry_value zero mac a b c (Clear i j) = zero"
| "entry_value zero mac a b c (Mac i k j) = mac c (a i k) (b k j)"

text \<open>The dot product with the additions from left to right.\<close>

definition dot :: "'a \<Rightarrow> ('a \<Rightarrow> 'a \<Rightarrow> 'a \<Rightarrow> 'a) \<Rightarrow> (nat \<Rightarrow> nat \<Rightarrow> 'a) \<Rightarrow> (nat \<Rightarrow> nat \<Rightarrow> 'a) \<Rightarrow> nat \<Rightarrow> nat \<Rightarrow> nat \<Rightarrow> 'a" where
  "dot zero mac a b n i j = foldl (\<lambda>c k. mac c (a i k) (b k j)) zero [0..<n]"

locale grid =
  fixes get :: "'m \<Rightarrow> nat \<Rightarrow> nat \<Rightarrow> 'a option"
    and put :: "'m \<Rightarrow> nat \<Rightarrow> nat \<Rightarrow> 'a \<Rightarrow> 'm option"
    and ok :: "'m \<Rightarrow> bool"
    and n :: nat
  assumes get_ok: "ok m \<Longrightarrow> i < n \<Longrightarrow> j < n \<Longrightarrow> get m i j \<noteq> None"
    and put_ok: "ok m \<Longrightarrow> i < n \<Longrightarrow> j < n \<Longrightarrow> \<exists>m'. put m i j v = Some m' \<and> ok m' \<and>
      (\<forall>i'<n. \<forall>j'<n. get m' i' j' = (if i' = i \<and> j' = j then Some v else get m i' j'))"
begin

lemma exec_entry_ok:
  assumes "ok A" "ok B" "ok C" "in_range n x" "\<forall>i<n. \<forall>j<n. get C i j = Some (c i j)"
    and a: "\<forall>i<n. \<forall>j<n. get A i j = Some (a i j)" and b: "\<forall>i<n. \<forall>j<n. get B i j = Some (b i j)"
  shows "\<exists>C'. exec_entry get put zero mac A B x C = Some C' \<and> ok C' \<and>
    (\<forall>i<n. \<forall>j<n. get C' i j = Some (if touches i j x then entry_value zero mac a b (c i j) x else c i j))"
proof (cases x)
  case (Clear i j)
  with assms put_ok [OF assms(3), of i j zero] show ?thesis by auto
next
  case (Mac i k j)
  with assms have "exec_entry get put zero mac A B x C = put C i j (mac (c i j) (a i k) (b k j))" by simp
  with Mac assms put_ok [OF assms(3), of i j "mac (c i j) (a i k) (b k j)"] show ?thesis by auto
qed

text \<open>An entry after a sequence of operations depends on the operations that touch it, in their order.\<close>

lemma run_entries:
  assumes "ok A" "ok B" "ok C" "\<forall>x\<in>set xs. in_range n x" "\<forall>i<n. \<forall>j<n. get C i j = Some (c i j)"
    and a: "\<forall>i<n. \<forall>j<n. get A i j = Some (a i j)" and b: "\<forall>i<n. \<forall>j<n. get B i j = Some (b i j)"
  shows "\<exists>C'. for_each (exec_entry get put zero mac A B) xs C = Some C' \<and> ok C' \<and>
    (\<forall>i<n. \<forall>j<n. get C' i j = Some (foldl (entry_value zero mac a b) (c i j) (filter (touches i j) xs)))"
  using assms(3-5)
proof (induction xs arbitrary: C c)
  case (Cons x xs)
  obtain C1 where C1: "exec_entry get put zero mac A B x C = Some C1" "ok C1"
    "\<forall>i<n. \<forall>j<n. get C1 i j = Some (if touches i j x then entry_value zero mac a b (c i j) x else c i j)"
    using exec_entry_ok [OF assms(1,2) Cons.prems(1) _ Cons.prems(3) a b] Cons.prems(2) by fastforce
  obtain C2 where "for_each (exec_entry get put zero mac A B) xs C1 = Some C2" "ok C2"
    "\<forall>i<n. \<forall>j<n. get C2 i j = Some (foldl (entry_value zero mac a b)
       (if touches i j x then entry_value zero mac a b (c i j) x else c i j) (filter (touches i j) xs))"
    using Cons.IH [OF C1(2) _ C1(3)] Cons.prems(2) by fastforce
  with C1(1) show ?case by auto
qed auto

text \<open>The client lemma: a sequence of operations that clears every entry and then adds its products in
  ascending order multiplies the matrices, whatever it does in between to other entries.\<close>

lemma multiplies:
  assumes "ok A" "ok B" "ok C" "\<forall>x\<in>set xs. in_range n x"
    and order: "\<And>i j. i < n \<Longrightarrow> j < n \<Longrightarrow>
      filter (touches i j) xs = Clear i j # map (\<lambda>k. Mac i k j) [0..<n]"
  shows "\<exists>C'. for_each (exec_entry get put zero mac A B) xs C = Some C' \<and> ok C' \<and>
    (\<forall>i<n. \<forall>j<n. get C' i j = Some (dot zero mac (\<lambda>i j. the (get A i j)) (\<lambda>i j. the (get B i j)) n i j))"
proof -
  let ?v = "\<lambda>m i j. the (get m i j)"
  have val: "\<forall>i<n. \<forall>j<n. get m i j = Some (?v m i j)" if "ok m" for m
    using get_ok [OF that] by auto
  from run_entries [OF assms(1-4) val [OF assms(3)] val [OF assms(1)] val [OF assms(2)], of zero mac]
  obtain C' where C': "for_each (exec_entry get put zero mac A B) xs C = Some C'" "ok C'"
    "\<forall>i<n. \<forall>j<n. get C' i j = Some (foldl (entry_value zero mac (?v A) (?v B)) (?v C i j) (filter (touches i j) xs))"
    by blast
  have "foldl (entry_value zero mac (?v A) (?v B)) (?v C i j) (filter (touches i j) xs) =
      dot zero mac (?v A) (?v B) n i j" if "i < n" "j < n" for i j
    by (simp add: order [OF that] dot_def foldl_map)
  with C' show ?thesis by auto
qed

end

interpretation rows: grid row_get row_put "rows_ok n" n for n
proof unfold_locales
  fix m :: "'b list list" and i j assume "rows_ok n m" "i < n" "j < n"
  then show "row_get m i j \<noteq> None" by (simp add: rows_ok_def row_get_def)
next
  fix m :: "'b list list" and i j v assume *: "rows_ok n m" "i < n" "j < n"
  then have len: "length (m ! i) = n" by (simp add: rows_ok_def)
  have "row_put m i j v = Some (m[i := (m ! i)[j := v]])" using * len by (simp add: row_put_def rows_ok_def)
  moreover have "rows_ok n (m[i := (m ! i)[j := v]])"
    using * len by (auto simp: rows_ok_def dest!: set_update_subset_insert [THEN subsetD])
  moreover have "row_get (m[i := (m ! i)[j := v]]) i' j' = (if i' = i \<and> j' = j then Some v else row_get m i' j')"
    if "i' < n" "j' < n" for i' j'
    using that * len by (auto simp: row_get_def rows_ok_def nth_list_update)
  ultimately show "\<exists>m'. row_put m i j v = Some m' \<and> rows_ok n m' \<and>
    (\<forall>i'<n. \<forall>j'<n. row_get m' i' j' = (if i' = i \<and> j' = j then Some v else row_get m i' j'))" by blast
qed

lemma flat_index:
  fixes i j n :: nat
  assumes "i < n" "j < n"
  shows "i * n + j < n * n" and "j' < n \<Longrightarrow> i * n + j = i' * n + j' \<longleftrightarrow> i = i' \<and> j = j'"
proof -
  have "Suc i * n \<le> n * n" using assms by (intro mult_le_mono1) simp
  with assms(2) show "i * n + j < n * n" by simp
  assume j': "j' < n"
  show "i * n + j = i' * n + j' \<longleftrightarrow> i = i' \<and> j = j'"
  proof
    assume eq: "i * n + j = i' * n + j'"
    then have "(i * n + j) div n = (i' * n + j') div n" "(i * n + j) mod n = (i' * n + j') mod n" by simp_all
    with assms(2) j' show "i = i' \<and> j = j'" by simp
  qed simp
qed

interpretation flat: grid "flat_get n" "flat_put n" "\<lambda>m. length m = n * n" n for n
proof unfold_locales
  fix m :: "'b list" and i j assume "length m = n * n" "i < n" "j < n"
  then show "flat_get n m i j \<noteq> None" by (simp add: flat_get_def flat_index)
next
  fix m :: "'b list" and i j v assume *: "length m = n * n" "i < n" "j < n"
  then show "\<exists>m'. flat_put n m i j v = Some m' \<and> length m' = n * n \<and>
    (\<forall>i'<n. \<forall>j'<n. flat_get n m' i' j' = (if i' = i \<and> j' = j then Some v else flat_get n m i' j'))"
    by (auto simp: flat_put_def flat_get_def flat_index nth_list_update)
qed

subsection \<open>The programs\<close>

text \<open>\<open>n\<close> is \<open>N\<close> and \<open>b\<close> is \<open>BLOCK_SIZE\<close>.\<close>

definition matrix_multiply ::
  "nat \<Rightarrow> 'a \<Rightarrow> ('a \<Rightarrow> 'a \<Rightarrow> 'a \<Rightarrow> 'a) \<Rightarrow> 'a list list \<Rightarrow> 'a list list \<Rightarrow> 'a list list \<Rightarrow> 'a list list option" where
  "matrix_multiply n zero mac A B C = (let exec = exec_entry row_get row_put zero mac A B in
     for_each (\<lambda>i. for_each (\<lambda>j C. do {
       C1 \<leftarrow> exec (Clear i j) C;
       for_each (\<lambda>k. exec (Mac i k j)) [0..<n] C1
     }) [0..<n]) [0..<n] C)"

definition matrix_multiply_blocked ::
  "nat \<Rightarrow> nat \<Rightarrow> 'a \<Rightarrow> ('a \<Rightarrow> 'a \<Rightarrow> 'a \<Rightarrow> 'a) \<Rightarrow> 'a list list \<Rightarrow> 'a list list \<Rightarrow> 'a list list \<Rightarrow> 'a list list option" where
  "matrix_multiply_blocked n b zero mac A B C = (let exec = exec_entry row_get row_put zero mac A B in do {
     C1 \<leftarrow> for_each (\<lambda>i. for_each (\<lambda>j. exec (Clear i j)) [0..<n]) [0..<n] C;
     for_each (\<lambda>i. for_each (\<lambda>k. for_each (\<lambda>j.
       for_each (\<lambda>ii. for_each (\<lambda>kk. for_each (\<lambda>jj. exec (Mac ii kk jj))
         (block b n j)) (block b n k)) (block b n i))
       (up_by b 0 n)) (up_by b 0 n)) (up_by b 0 n) C1
   })"

text \<open>The body of the parallel loop for one pair of blocks. A vector instruction works on four lanes, which
  do not depend on each other. \<open>guarded\<close> is whether the test \<open>jj + 4 <= N\<close> is there, as in
  \<^verbatim>\<open>matrix_optimized.c\<close>.\<close>

definition block_task ::
  "bool \<Rightarrow> nat \<Rightarrow> nat \<Rightarrow> (entry_op \<Rightarrow> 'm \<Rightarrow> 'm option) \<Rightarrow> nat \<times> nat \<Rightarrow> 'm \<Rightarrow> 'm option" where
  "block_task guarded n b exec = (\<lambda>(i, j).
     for_each (\<lambda>k. for_each (\<lambda>ii. for_each (\<lambda>kk. for_each (\<lambda>jj C.
         if guarded \<and> \<not> jj + 4 \<le> n then Some C
         else for_each (\<lambda>l. exec (Mac ii kk (jj + l))) [0..<4] C)
       (up_by 4 j (min (j + b) n))) (block b n k)) (block b n i)) (up_by b 0 n))"

definition block_pairs :: "nat \<Rightarrow> nat \<Rightarrow> (nat \<times> nat) list" where
  "block_pairs n b = List.product (up_by b 0 n) (up_by b 0 n)"

text \<open>\<open>order\<close> is the order in which the threads take the pairs of blocks.\<close>

definition matrix_multiply_optimized ::
  "bool \<Rightarrow> (nat \<times> nat) list \<Rightarrow> nat \<Rightarrow> nat \<Rightarrow> 'a \<Rightarrow> ('a \<Rightarrow> 'a \<Rightarrow> 'a \<Rightarrow> 'a) \<Rightarrow> 'a list \<Rightarrow> 'a list \<Rightarrow> 'a list \<Rightarrow> 'a list option" where
  "matrix_multiply_optimized guarded order n b zero fma A B C =
     (if length C < n * n then None
      else for_each (block_task guarded n b (exec_entry (flat_get n) (flat_put n) zero fma A B)) order
             (replicate (n * n) zero @ drop (n * n) C))"

text \<open>The number of entries of the leading five-by-five corner that differ from the dot product; \<open>differ\<close>
  is the comparison of two floating point numbers.\<close>

definition validate_result ::
  "nat \<Rightarrow> 'a \<Rightarrow> ('a \<Rightarrow> 'a \<Rightarrow> 'a \<Rightarrow> 'a) \<Rightarrow> ('a \<Rightarrow> 'a \<Rightarrow> bool) \<Rightarrow> 'a list \<Rightarrow> 'a list \<Rightarrow> 'a list \<Rightarrow> nat" where
  "validate_result n zero mac differ A B C =
     length (filter (\<lambda>(i, j). differ
         (foldl (\<lambda>sum k. mac sum (A ! (i * n + k)) (B ! (k * n + j))) zero [0..<n]) (C ! (i * n + j)))
       (List.product [0..<min 5 n] [0..<min 5 n]))"

text \<open>\<open>rnd\<close> is the sequence of random numbers, already scaled.\<close>

definition create_matrix :: "nat \<Rightarrow> (nat \<Rightarrow> 'a) \<Rightarrow> 'a list list" where
  "create_matrix n rnd = map (\<lambda>i. map (\<lambda>j. rnd (i * n + j)) [0..<n]) [0..<n]"

definition initialize_matrix :: "nat \<Rightarrow> (nat \<Rightarrow> 'a) \<Rightarrow> 'a list" where
  "initialize_matrix n rnd = map rnd [0..<n * n]"

definition basic_main :: "'a \<Rightarrow> ('a \<Rightarrow> 'a \<Rightarrow> 'a \<Rightarrow> 'a) \<Rightarrow> (nat \<Rightarrow> nat \<Rightarrow> 'a) \<Rightarrow> 'a list list option" where
  "basic_main zero mac rnd =
     matrix_multiply 1024 zero mac (create_matrix 1024 (rnd 0)) (create_matrix 1024 (rnd 1)) (create_matrix 1024 (rnd 2))"

definition cache_main :: "'a \<Rightarrow> ('a \<Rightarrow> 'a \<Rightarrow> 'a \<Rightarrow> 'a) \<Rightarrow> (nat \<Rightarrow> nat \<Rightarrow> 'a) \<Rightarrow> 'a list list option" where
  "cache_main zero mac rnd =
     matrix_multiply_blocked 1024 32 zero mac
       (create_matrix 1024 (rnd 0)) (create_matrix 1024 (rnd 1)) (create_matrix 1024 (rnd 2))"

text \<open>The exit code, and the number of entries that fail the validation; \<open>got\<close> is whether all three
  allocations succeed. The program is \<open>optimized_main True 1024 32\<close>.\<close>

definition optimized_main ::
  "bool \<Rightarrow> nat \<Rightarrow> nat \<Rightarrow> bool \<Rightarrow> (nat \<times> nat) list \<Rightarrow> 'a \<Rightarrow> ('a \<Rightarrow> 'a \<Rightarrow> 'a \<Rightarrow> 'a) \<Rightarrow> ('a \<Rightarrow> 'a \<Rightarrow> 'a \<Rightarrow> 'a) \<Rightarrow>
    ('a \<Rightarrow> 'a \<Rightarrow> bool) \<Rightarrow> (nat \<Rightarrow> nat \<Rightarrow> 'a) \<Rightarrow> (int \<times> nat) option" where
  "optimized_main guarded n b got order zero mac fma differ rnd =
     (if \<not> got then Some (1, 0)
      else let A = initialize_matrix n (rnd 0); B = initialize_matrix n (rnd 1); C = initialize_matrix n (rnd 2) in do {
        R \<leftarrow> matrix_multiply_optimized guarded order n b zero fma A B C;
        Some (0, validate_result n zero mac differ A B R)
      })"

text \<open>The larger program, \<^verbatim>\<open>matrixOptimized.c\<close>, has other sizes and no guard.\<close>

definition large_multiply ::
  "(nat \<times> nat) list \<Rightarrow> 'a \<Rightarrow> ('a \<Rightarrow> 'a \<Rightarrow> 'a \<Rightarrow> 'a) \<Rightarrow> 'a list \<Rightarrow> 'a list \<Rightarrow> 'a list \<Rightarrow> 'a list option" where
  "large_multiply order = matrix_multiply_optimized False order 4096 64"

definition large_main ::
  "bool \<Rightarrow> (nat \<times> nat) list \<Rightarrow> 'a \<Rightarrow> ('a \<Rightarrow> 'a \<Rightarrow> 'a \<Rightarrow> 'a) \<Rightarrow> ('a \<Rightarrow> 'a \<Rightarrow> 'a \<Rightarrow> 'a) \<Rightarrow>
    ('a \<Rightarrow> 'a \<Rightarrow> bool) \<Rightarrow> (nat \<Rightarrow> nat \<Rightarrow> 'a) \<Rightarrow> (int \<times> nat) option" where
  "large_main = optimized_main False 4096 64"

subsection \<open>The order of the operations\<close>

lemma concat_pick:
  "distinct xs \<Longrightarrow> concat (map (\<lambda>i. if i = x then g i else []) xs) = (if x \<in> set xs then g x else [])"
  by (induction xs) auto

lemma up_by_pick:
  assumes "0 < b"
  shows "concat (map (\<lambda>i. if i \<le> x \<and> x < min (i + b) n then g else []) (up_by b lo n)) =
    (if lo \<le> x \<and> x < n then g else [])"
  using assms
proof (induction b lo n rule: up_by.induct)
  case (1 b lo hi)
  then show ?case by (subst up_by.simps) (auto simp: not_less)
qed

lemma block_pick:
  assumes "0 < b" "x < n"
  shows "concat (map (\<lambda>i. if x \<in> set (block b n i) then g else []) (up_by b 0 n)) = g"
proof -
  have "(x \<in> set (block b n i)) = (i \<le> x \<and> x < min (i + b) n)" for i by (auto simp: block_def)
  then show ?thesis using up_by_pick [OF assms(1), of x n g 0] assms(2) by (simp cong: if_cong)
qed

lemma blocks_cover: "0 < b \<Longrightarrow> lo \<le> n \<Longrightarrow> concat (map (block b n) (up_by b lo n)) = [lo..<n]"
proof (induction b lo n rule: up_by.induct)
  case (1 b lo hi)
  show ?case
  proof (cases "lo + b \<le> hi")
    case True
    with 1 have "concat (map (block b hi) (up_by b (lo + b) hi)) = [lo + b..<hi]" by auto
    moreover have "[lo..<lo + b] @ [lo + b..<hi] = [lo..<hi]"
      using True by (metis le_add1 le_add_diff_inverse upt_add_eq_append)
    ultimately show ?thesis using 1 True by (subst up_by.simps) (auto simp: block_def [of b hi lo])
  next
    case False
    then have "up_by b (lo + b) hi = []" by (subst up_by.simps) simp
    with False 1 show ?thesis by (subst up_by.simps) (auto simp: block_def)
  qed
qed

lemma up_by_less: "i \<in> set (up_by b lo n) \<Longrightarrow> i < n"
proof (induction b lo n rule: up_by.induct)
  case (1 b lo hi)
  from 1(2) show ?case by (subst (asm) up_by.simps) (auto split: if_splits intro: 1(1))
qed

lemma distinct_up_by: "distinct (up_by b lo n) \<and> (\<forall>i\<in>set (up_by b lo n). lo \<le> i)"
proof (induction b lo n rule: up_by.induct)
  case (1 b lo hi)
  then show ?case by (subst (1 2) up_by.simps) fastforce
qed

lemma block_simps [simp]: "distinct (block b n i)" "x \<in> set (block b n i) \<longleftrightarrow> i \<le> x \<and> x < i + b \<and> x < n"
  by (auto simp: block_def)

definition mac_ops :: "nat list \<Rightarrow> nat list \<Rightarrow> nat list \<Rightarrow> entry_op list" where
  "mac_ops is ks js = concat (map (\<lambda>ii. concat (map (\<lambda>kk. map (\<lambda>jj. Mac ii kk jj) js) ks)) is)"

lemma filter_touches_row:
  "distinct js \<Longrightarrow> filter (touches i j) (map (\<lambda>jj. Mac ii kk jj) js) = (if ii = i \<and> j \<in> set js then [Mac i kk j] else [])"
  by (induction js) auto

lemma filter_mac_ops:
  assumes "distinct is" "distinct js"
  shows "filter (touches i j) (mac_ops is ks js) =
    (if i \<in> set is \<and> j \<in> set js then map (\<lambda>k. Mac i k j) ks else [])"
proof -
  have "concat (map (\<lambda>kk. filter (touches i j) (map (\<lambda>jj. Mac ii kk jj) js)) ks) =
      (if ii = i then if j \<in> set js then map (\<lambda>k. Mac i k j) ks else [] else [])" for ii
    using filter_touches_row [OF assms(2)] by (induction ks) auto
  then have "filter (touches i j) (mac_ops is ks js) =
      concat (map (\<lambda>ii. if ii = i then if j \<in> set js then map (\<lambda>k. Mac i k j) ks else [] else []) is)"
    by (simp add: mac_ops_def filter_concat comp_def)
  with concat_pick [OF assms(1), of i "\<lambda>_. if j \<in> set js then map (\<lambda>k. Mac i k j) ks else []"] show ?thesis
    by simp
qed

lemma set_mac_ops: "x \<in> set (mac_ops is ks js) \<longleftrightarrow> (\<exists>i\<in>set is. \<exists>k\<in>set ks. \<exists>j\<in>set js. x = Mac i k j)"
  by (auto simp: mac_ops_def)

subsection \<open>The programs as sequences of operations\<close>

definition basic_ops :: "nat \<Rightarrow> entry_op list" where
  "basic_ops n = concat (map (\<lambda>i. concat (map (\<lambda>j. Clear i j # map (\<lambda>k. Mac i k j) [0..<n]) [0..<n])) [0..<n])"

definition clear_ops :: "nat \<Rightarrow> entry_op list" where
  "clear_ops n = concat (map (\<lambda>i. map (\<lambda>j. Clear i j) [0..<n]) [0..<n])"

definition blocked_ops :: "nat \<Rightarrow> nat \<Rightarrow> entry_op list" where
  "blocked_ops n b = concat (map (\<lambda>i. concat (map (\<lambda>k. concat (map (\<lambda>j.
     mac_ops (block b n i) (block b n k) (block b n j)) (up_by b 0 n))) (up_by b 0 n))) (up_by b 0 n))"

lemma matrix_multiply_ops:
  "matrix_multiply n zero mac A B C = for_each (exec_entry row_get row_put zero mac A B) (basic_ops n) C"
  by (simp add: matrix_multiply_def basic_ops_def for_each_nested Let_def)

lemma for_each_mac_ops:
  "for_each f (mac_ops is ks js) = for_each (\<lambda>ii. for_each (\<lambda>kk. for_each (\<lambda>jj. f (Mac ii kk jj)) js) ks) is"
  by (simp add: mac_ops_def for_each_nested)

lemma matrix_multiply_blocked_ops:
  "matrix_multiply_blocked n b zero mac A B C =
     for_each (exec_entry row_get row_put zero mac A B) (clear_ops n @ blocked_ops n b) C"
  by (simp add: matrix_multiply_blocked_def clear_ops_def blocked_ops_def for_each_nested for_each_mac_ops Let_def)

lemma filter_basic_ops:
  assumes "i < n" "j < n"
  shows "filter (touches i j) (basic_ops n) = Clear i j # map (\<lambda>k. Mac i k j) [0..<n]"
proof -
  have row: "filter (touches i j) (map (\<lambda>k. Mac i' k j') [0..<n]) =
      (if i' = i \<and> j' = j then map (\<lambda>k. Mac i k j) [0..<n] else [])" for i' j'
    by (auto simp: filter_map comp_def)
  let ?g = "Clear i j # map (\<lambda>k. Mac i k j) [0..<n]"
  have "concat (map (\<lambda>j'. filter (touches i j) (Clear i' j' # map (\<lambda>k. Mac i' k j') [0..<n])) [0..<n]) =
      concat (map (\<lambda>j'. if j' = j then if i' = i then ?g else [] else []) [0..<n])" for i'
    using row by (intro arg_cong [where f = concat] map_cong) auto
  also have "\<dots> i' = (if i' = i then ?g else [])" for i'
    using concat_pick [of "[0..<n]" j "\<lambda>_. if i' = i then ?g else []"] assms(2) by simp
  finally have "filter (touches i j) (basic_ops n) = concat (map (\<lambda>i'. if i' = i then ?g else []) [0..<n])"
    unfolding basic_ops_def filter_concat map_map comp_def by simp
  also have "\<dots> = ?g" using concat_pick [of "[0..<n]" i "\<lambda>_. ?g"] assms(1) by simp
  finally show ?thesis .
qed

lemma filter_clear_ops:
  assumes "i < n" "j < n"
  shows "filter (touches i j) (clear_ops n) = [Clear i j]"
proof -
  have "filter (touches i j) (map (\<lambda>j'. Clear i' j') xs) = (if i' = i \<and> j \<in> set xs then [Clear i j] else [])"
    if "distinct xs" for i' xs
    using that by (induction xs) auto
  then have "filter (touches i j) (clear_ops n) = concat (map (\<lambda>i'. if i' = i then [Clear i j] else []) [0..<n])"
    using assms(2) by (simp add: clear_ops_def filter_concat comp_def)
  with concat_pick [of "[0..<n]" i "\<lambda>_. [Clear i j]"] assms(1) show ?thesis by simp
qed

text \<open>Blocking keeps the order of the products of every entry.\<close>

lemma filter_blocked_ops:
  assumes "i < n" "j < n" "0 < b"
  shows "filter (touches i j) (blocked_ops n b) = map (\<lambda>k. Mac i k j) [0..<n]"
proof -
  let ?U = "up_by b 0 n" and ?m = "\<lambda>k. map (\<lambda>k. Mac i k j) (block b n k)"
  have j: "concat (map (\<lambda>j'. filter (touches i j) (mac_ops (block b n i') (block b n k) (block b n j'))) ?U) =
      (if i \<in> set (block b n i') then ?m k else [])" for i' k
  proof -
    have "map (\<lambda>j'. filter (touches i j) (mac_ops (block b n i') (block b n k) (block b n j'))) ?U =
        map (\<lambda>j'. if j \<in> set (block b n j') then if i \<in> set (block b n i') then ?m k else [] else []) ?U"
      by (intro map_cong refl) (simp add: filter_mac_ops del: block_simps(2))
    then show ?thesis by (simp only: block_pick [OF assms(3,2)])
  qed
  have cover: "concat (map ?m ?U) = map (\<lambda>k. Mac i k j) [0..<n]"
    using map_concat [of "\<lambda>k. Mac i k j" "map (block b n) ?U"] blocks_cover [OF assms(3), of 0 n]
    by (simp add: comp_def)
  have k: "concat (map (\<lambda>k. if i \<in> set (block b n i') then ?m k else []) ?U) =
      (if i \<in> set (block b n i') then map (\<lambda>k. Mac i k j) [0..<n] else [])" for i'
    using cover by (cases "i \<in> set (block b n i')") (simp_all del: block_simps(2))
  have "filter (touches i j) (blocked_ops n b) =
      concat (map (\<lambda>i'. if i \<in> set (block b n i') then map (\<lambda>k. Mac i k j) [0..<n] else []) ?U)"
    unfolding blocked_ops_def filter_concat map_map comp_def j k ..
  also have "\<dots> = map (\<lambda>k. Mac i k j) [0..<n]" by (rule block_pick [OF assms(3,1)])
  finally show ?thesis .
qed

lemma ops_in_range:
  "\<forall>x\<in>set (basic_ops n). in_range n x" "\<forall>x\<in>set (clear_ops n @ blocked_ops n b). in_range n x"
  by (auto simp: basic_ops_def clear_ops_def blocked_ops_def set_mac_ops)

lemma rows_eqI:
  assumes "rows_ok n X" "rows_ok n Y" "\<forall>i<n. \<forall>j<n. row_get X i j = row_get Y i j"
  shows "X = Y"
proof (rule nth_equalityI)
  show "length X = length Y" using assms by (simp add: rows_ok_def)
  fix i assume "i < length X"
  then have i: "i < n" "length (X ! i) = n" "length (Y ! i) = n" using assms by (auto simp: rows_ok_def)
  show "X ! i = Y ! i"
    using i assms by (intro nth_equalityI) (auto simp: rows_ok_def row_get_def)
qed

text \<open>C16. The cache-blocked multiplication is equivalent to the triple loop, entry by entry and without any
  law of the arithmetic: both stay inside the matrices and every entry of the result is the same left-to-right
  sum of the same products.\<close>

theorem blocked_equals_basic:
  assumes "rows_ok n A" "rows_ok n B" "rows_ok n C" "0 < b"
  shows "\<exists>R. matrix_multiply_blocked n b zero mac A B C = Some R \<and> matrix_multiply n zero mac A B C = Some R \<and>
    (\<forall>i<n. \<forall>j<n. row_get R i j =
       Some (dot zero mac (\<lambda>i k. the (row_get A i k)) (\<lambda>k j. the (row_get B k j)) n i j))"
proof -
  let ?d = "dot zero mac (\<lambda>i k. the (row_get A i k)) (\<lambda>k j. the (row_get B k j)) n"
  obtain R where R: "matrix_multiply n zero mac A B C = Some R" "rows_ok n R" "\<forall>i<n. \<forall>j<n. row_get R i j = Some (?d i j)"
    using rows.multiplies [OF assms(1-3) ops_in_range(1) filter_basic_ops, of zero mac]
    unfolding matrix_multiply_ops by blast
  obtain S where S: "matrix_multiply_blocked n b zero mac A B C = Some S" "rows_ok n S"
      "\<forall>i<n. \<forall>j<n. row_get S i j = Some (?d i j)"
    using rows.multiplies [OF assms(1-3) ops_in_range(2) [of n b], of zero mac] assms(4)
    unfolding matrix_multiply_blocked_ops by (auto simp: filter_clear_ops filter_blocked_ops)
  have "S = R" using R S by (intro rows_eqI [of n]) auto
  with R S show ?thesis by auto
qed

theorem blocked_equals_basic_witness:
  "matrix_multiply_blocked 3 2 0 (\<lambda>c a b. c + a * b) [[1, 2, 3], [4, 5, 6], [7, 8, 9]]
      [[1, 0, 2], [0, 1, 0], [1, 0, (1::int)]] [[9, 9, 9], [9, 9, 9], [9, 9, 9]] =
   matrix_multiply 3 0 (\<lambda>c a b. c + a * b) [[1, 2, 3], [4, 5, 6], [7, 8, 9]]
      [[1, 0, 2], [0, 1, 0], [1, 0, (1::int)]] [[9, 9, 9], [9, 9, 9], [9, 9, 9]]"
  using blocked_equals_basic [of 3 "[[1, 2, 3], [4, 5, 6], [7, 8, 9]]" "[[1, 0, 2], [0, 1, 0], [1, 0, (1::int)]]"
    "[[9, 9, 9], [9, 9, 9], [9, 9, 9]]" 2 0 "\<lambda>c a b. c + a * b"]
  by (auto simp: rows_ok_def)

subsection \<open>The vectorised program\<close>

lemma up_by_dvd: "i \<in> set (up_by b lo hi) \<Longrightarrow> lo \<le> i \<and> i < hi \<and> b dvd i - lo"
proof (induction b lo hi rule: up_by.induct)
  case (1 b lo hi)
  from 1(2) have "lo < hi \<and> 0 < b" "i = lo \<or> i \<in> set (up_by b (lo + b) hi)"
    by (subst (asm) up_by.simps, auto split: if_splits)+
  moreover have "b dvd i - lo" if "lo + b \<le> i" "b dvd i - (lo + b)"
  proof -
    have "i - lo = (i - (lo + b)) + b" using that(1) by simp
    with that(2) show ?thesis by (metis dvd_add dvd_refl)
  qed
  ultimately show ?case using 1(1) by auto
qed

lemma lanes_cover:
  assumes "4 dvd hi - lo" "lo \<le> hi"
  shows "concat (map (\<lambda>jj. map (\<lambda>l. jj + l) [0..<4]) (up_by 4 lo hi)) = [lo..<hi]"
proof -
  have "map (\<lambda>l. jj + l) [0..<4] = block 4 hi jj" if "jj \<in> set (up_by 4 lo hi)" for jj
  proof -
    from up_by_dvd [OF that] assms have "jj + 4 \<le> hi" by presburger
    then show ?thesis using map_add_upt [of jj 4] by (simp add: block_def add.commute [of jj] min_def)
  qed
  then have "map (\<lambda>jj. map (\<lambda>l. jj + l) [0..<4]) (up_by 4 lo hi) = map (block 4 hi) (up_by 4 lo hi)"
    by (intro map_cong) auto
  moreover have "concat (map (block 4 hi) (up_by 4 lo hi)) = [lo..<hi]"
    by (rule blocks_cover) (use assms(2) in simp_all)
  ultimately show ?thesis by (simp only:)
qed

definition task_ops :: "nat \<Rightarrow> nat \<Rightarrow> nat \<times> nat \<Rightarrow> entry_op list" where
  "task_ops n b = (\<lambda>(i, j). concat (map (\<lambda>k. mac_ops (block b n i) (block b n k) (block b n j)) (up_by b 0 n)))"

lemma block_task_ops:
  assumes "4 dvd n" "4 dvd b" "p \<in> set (block_pairs n b)"
  shows "block_task guarded n b exec p = for_each exec (task_ops n b p)"
proof -
  obtain i j where p: "p = (i, j)" "j \<in> set (up_by b 0 n)" using assms(3) by (auto simp: block_pairs_def)
  then have j: "j < n" "b dvd j" using up_by_dvd [OF p(2)] by auto
  then have div: "4 dvd min (j + b) n - j" "j \<le> min (j + b) n"
    using assms(1,2) by (auto simp: min_def dvd_diff_nat intro: dvd_trans)
  have vec: "for_each (\<lambda>jj C. if guarded \<and> \<not> jj + 4 \<le> n then Some C
        else for_each (\<lambda>l. exec (Mac ii kk (jj + l))) [0..<4] C) (up_by 4 j (min (j + b) n)) =
      for_each (\<lambda>jj. exec (Mac ii kk jj)) (block b n j)" for ii kk
  proof
    fix C
    have "jj + 4 \<le> n" if "jj \<in> set (up_by 4 j (min (j + b) n))" for jj
      using up_by_dvd [OF that] div by presburger
    then have "for_each (\<lambda>jj C. if guarded \<and> \<not> jj + 4 \<le> n then Some C
        else for_each (\<lambda>l. exec (Mac ii kk (jj + l))) [0..<4] C) (up_by 4 j (min (j + b) n)) C =
      for_each (\<lambda>jj. for_each (\<lambda>l. exec (Mac ii kk (jj + l))) [0..<4]) (up_by 4 j (min (j + b) n)) C"
      by (intro for_each_cong) auto
    also have "\<dots> = for_each (\<lambda>jj. exec (Mac ii kk jj))
        (concat (map (\<lambda>jj. map (\<lambda>l. jj + l) [0..<4]) (up_by 4 j (min (j + b) n)))) C"
      by (simp only: for_each_nested)
    also have "\<dots> = for_each (\<lambda>jj. exec (Mac ii kk jj)) (block b n j) C"
      using lanes_cover [OF div] by (simp add: block_def)
    finally show "for_each (\<lambda>jj C. if guarded \<and> \<not> jj + 4 \<le> n then Some C
        else for_each (\<lambda>l. exec (Mac ii kk (jj + l))) [0..<4] C) (up_by 4 j (min (j + b) n)) C =
      for_each (\<lambda>jj. exec (Mac ii kk jj)) (block b n j) C" .
  qed
  show ?thesis
    unfolding p(1) block_task_def task_ops_def prod.case vec for_each_nested for_each_mac_ops ..
qed

lemma concat_perm:
  assumes "mset xs = mset ys"
  shows "concat (map (\<lambda>x. if P x then g else []) xs) = concat (map (\<lambda>x. if P x then g else []) ys)"
proof -
  have rep: "concat (map (\<lambda>x. if P x then g else []) zs) = concat (replicate (length (filter P zs)) g)" for zs
    by (induction zs) auto
  have "length (filter P xs) = length (filter P ys)"
    using assms by (metis mset_filter size_mset)
  then show ?thesis by (simp only: rep)
qed

lemma filter_task_ops:
  assumes "0 < b"
  shows "filter (touches i j) (task_ops n b (i', j')) =
    (if i \<in> set (block b n i') \<and> j \<in> set (block b n j') then map (\<lambda>k. Mac i k j) [0..<n] else [])"
proof -
  let ?U = "up_by b 0 n" and ?in = "i \<in> set (block b n i') \<and> j \<in> set (block b n j')"
  have "concat (map (\<lambda>k. map (\<lambda>k. Mac i k j) (block b n k)) ?U) = map (\<lambda>k. Mac i k j) [0..<n]"
    using map_concat [of "\<lambda>k. Mac i k j" "map (block b n) ?U"] blocks_cover [OF assms, of 0 n]
    by (simp add: comp_def)
  moreover have "filter (touches i j) (task_ops n b (i', j')) =
      concat (map (\<lambda>k. if ?in then map (\<lambda>k. Mac i k j) (block b n k) else []) ?U)"
    by (simp add: task_ops_def filter_concat comp_def filter_mac_ops del: block_simps(2))
  ultimately show ?thesis by (cases ?in) (auto simp del: block_simps(2))
qed

lemma concat_concat_map: "concat (concat (map f xs)) = concat (map (\<lambda>x. concat (f x)) xs)"
  by (induction xs) auto

lemma filter_all_tasks:
  assumes "0 < b" "i < n" "j < n" "mset order = mset (block_pairs n b)"
  shows "filter (touches i j) (concat (map (task_ops n b) order)) = map (\<lambda>k. Mac i k j) [0..<n]"
proof -
  let ?g = "map (\<lambda>k. Mac i k j) [0..<n]" and ?U = "up_by b 0 n"
  let ?P = "\<lambda>x. i \<in> set (block b n (fst x)) \<and> j \<in> set (block b n (snd x))"
  have "filter (touches i j) (concat (map (task_ops n b) order)) = concat (map (\<lambda>x. if ?P x then ?g else []) order)"
    using filter_task_ops [OF assms(1), of i j n]
    by (auto simp: filter_concat comp_def simp del: block_simps(2) intro!: arg_cong [where f = concat] map_cong)
  also have "\<dots> = concat (map (\<lambda>x. if ?P x then ?g else []) (block_pairs n b))"
    by (rule concat_perm [OF assms(4)])
  also have "\<dots> = concat (map (\<lambda>i'. concat (map (\<lambda>j'. if j \<in> set (block b n j')
      then if i \<in> set (block b n i') then ?g else [] else []) ?U)) ?U)"
    by (simp add: block_pairs_def product_concat_map map_concat concat_concat_map comp_def if_if_eq_conj conj_commute
      del: block_simps(2))
  also have "\<dots> = ?g" by (simp only: block_pick [OF assms(1,3)] block_pick [OF assms(1,2)])
  finally show ?thesis .
qed

lemma tasks_in_range:
  assumes "set order \<subseteq> set (block_pairs n b)"
  shows "\<forall>x\<in>set (concat (map (task_ops n b) order)). in_range n x"
  using assms by (auto simp: task_ops_def set_mac_ops)

lemma optimized_ops:
  assumes "4 dvd n" "4 dvd b" "length C = n * n" "set order \<subseteq> set (block_pairs n b)"
  shows "matrix_multiply_optimized guarded order n b zero fma A B C =
    for_each (exec_entry (flat_get n) (flat_put n) zero fma A B) (concat (map (task_ops n b) order)) (replicate (n * n) zero)"
proof -
  let ?exec = "exec_entry (flat_get n) (flat_put n) zero fma A B"
  have "for_each (block_task guarded n b ?exec) order (replicate (n * n) zero) =
      for_each (\<lambda>p. for_each ?exec (task_ops n b p)) order (replicate (n * n) zero)"
  proof (rule for_each_cong)
    fix p C assume "p \<in> set order"
    with assms(4) have "p \<in> set (block_pairs n b)" by blast
    then show "block_task guarded n b ?exec p C = for_each ?exec (task_ops n b p) C"
      by (simp only: block_task_ops [OF assms(1,2)])
  qed
  then show ?thesis using assms(3) by (simp add: matrix_multiply_optimized_def for_each_nested)
qed

lemma optimized_result:
  assumes "4 dvd n" "4 dvd b" "0 < b" "length A = n * n" "length B = n * n" "length C = n * n"
    "mset order = mset (block_pairs n b)"
  shows "\<exists>R. matrix_multiply_optimized guarded order n b zero fma A B C = Some R \<and> length R = n * n \<and>
    (\<forall>i<n. \<forall>j<n. R ! (i * n + j) = dot zero fma (\<lambda>i k. A ! (i * n + k)) (\<lambda>k j. B ! (k * n + j)) n i j)"
proof -
  have get: "flat_get n m i j = Some (m ! (i * n + j))" if "length m = n * n" "i < n" "j < n" for m :: "'a list" and i j
    using that by (simp add: flat_get_def flat_index)
  have sub: "set order \<subseteq> set (block_pairs n b)" using assms(7) by (metis set_mset_mset subset_refl)
  have zero: "\<forall>i<n. \<forall>j<n. flat_get n (replicate (n * n) zero) i j = Some zero"
    using get [of "replicate (n * n) zero"] by (simp add: flat_index)
  obtain R where R: "matrix_multiply_optimized guarded order n b zero fma A B C = Some R" "length R = n * n"
    "\<forall>i<n. \<forall>j<n. flat_get n R i j = Some (foldl (entry_value zero fma (\<lambda>i k. A ! (i * n + k)) (\<lambda>k j. B ! (k * n + j)))
       zero (filter (touches i j) (concat (map (task_ops n b) order))))"
    unfolding optimized_ops [OF assms(1,2,6) sub]
    using flat.run_entries [OF assms(4,5) _ tasks_in_range [OF sub] zero, of "\<lambda>i k. A ! (i * n + k)"
      "\<lambda>k j. B ! (k * n + j)" zero fma] get [OF assms(4)] get [OF assms(5)] by auto
  have "R ! (i * n + j) = dot zero fma (\<lambda>i k. A ! (i * n + k)) (\<lambda>k j. B ! (k * n + j)) n i j"
    if "i < n" "j < n" for i j
    using R(3) that get [OF R(2) that] filter_all_tasks [OF assms(3) that assms(7)]
    by (simp add: dot_def foldl_map)
  with R show ?thesis by blast
qed

text \<open>C17. The vectorised multiplication computes the product for every order in which the threads take the
  blocks: if the size of the matrix and of the blocks is a multiple of four, with or without the guard of the
  vector loop, no access is out of range and every entry is the left-to-right dot product by fused
  multiply-add.\<close>

theorem optimized_multiplies:
  assumes "4 dvd n" "4 dvd b" "0 < b" "length A = n * n" "length B = n * n" "length C = n * n"
    "mset order = mset (block_pairs n b)"
  shows "\<exists>R. matrix_multiply_optimized guarded order n b zero fma A B C = Some R \<and> length R = n * n \<and>
    (\<forall>i<n. \<forall>j<n. R ! (i * n + j) = dot zero fma (\<lambda>i k. A ! (i * n + k)) (\<lambda>k j. B ! (k * n + j)) n i j)"
  using assms by (rule optimized_result)

theorem optimized_multiplies_witness:
  "\<exists>R. matrix_multiply_optimized True [(0, 0)] 4 4 0 (\<lambda>c a b. c + a * b) (replicate 16 2) (replicate 16 3) (replicate 16 (9::int)) = Some R \<and>
     R ! (0 * 4 + 0) = dot 0 (\<lambda>c a b. c + a * b) (\<lambda>i k. replicate 16 2 ! (i * 4 + k)) (\<lambda>k j. replicate 16 3 ! (k * 4 + j)) 4 0 0"
proof -
  have "block_pairs 4 4 = [(0, 0)]" by code_simp
  then obtain R where R:
    "matrix_multiply_optimized True [(0, 0)] 4 4 0 (\<lambda>c a b. c + a * b) (replicate 16 2) (replicate 16 3) (replicate 16 (9::int)) = Some R"
    "\<forall>i<4. \<forall>j<4. R ! (i * 4 + j) =
       dot 0 (\<lambda>c a b. c + a * b) (\<lambda>i k. replicate 16 2 ! (i * 4 + k)) (\<lambda>k j. replicate 16 3 ! (k * 4 + j)) 4 i j"
    using optimized_multiplies [of 4 4 "replicate 16 2" "replicate 16 3" "replicate 16 (9::int)" "[(0, 0)]" True 0
      "\<lambda>c a b. c + a * b"] by auto
  have "(0::nat) < 4" by simp
  with R show ?thesis by blast
qed

text \<open>With a multiplication and an addition that round like the fused operation, the validation of the
  program never reports an error.\<close>

lemma optimized_main_validates:
  assumes "4 dvd n" "4 dvd b" "0 < b" "mset order = mset (block_pairs n b)" "\<And>x. \<not> differ x x"
  shows "optimized_main guarded n b True order zero fma fma differ rnd = Some (0, 0)"
proof -
  let ?A = "initialize_matrix n (rnd 0)" and ?B = "initialize_matrix n (rnd 1)" and ?C = "initialize_matrix n (rnd 2)"
  have len: "length ?A = n * n" "length ?B = n * n" "length ?C = n * n" by (simp_all add: initialize_matrix_def)
  obtain R where R: "matrix_multiply_optimized guarded order n b zero fma ?A ?B ?C = Some R"
    "\<forall>i<n. \<forall>j<n. R ! (i * n + j) = dot zero fma (\<lambda>i k. ?A ! (i * n + k)) (\<lambda>k j. ?B ! (k * n + j)) n i j"
    using optimized_result [OF assms(1-3) len assms(4)] by blast
  have "validate_result n zero fma differ ?A ?B R = 0"
    using R(2) assms(5) by (auto simp: validate_result_def dot_def filter_empty_conv)
  with R(1) show ?thesis by (simp add: optimized_main_def Let_def)
qed

end
