(* ===== verification/Binary_Search.thy ===== *)
theory Binary_Search
  imports Prelude
begin

text \<open>
  Binary search (\<^verbatim>\<open>performance/binary-search/binary_search.c\<close>): the search in C and the data it is
  tested on. The indices are C integers; the sum of the two bounds is \<open>None\<close> when it does not fit into 32
  bits, and so is an access outside the array. The measured loop calls the search twice per iteration and
  combines the results; the time stamps and the assembly version, which is another file, are left out.
\<close>

function search_loop :: "int list \<Rightarrow> int \<Rightarrow> int \<Rightarrow> int \<Rightarrow> int option" where
  "search_loop arr target left right =
     (if left \<le> right then
        if left + right \<ge> 2 ^ 31 then None
        else let mid = (left + right) div 2 in
          if mid < 0 \<or> int (length arr) \<le> mid then None
          else let mid_val = arr ! nat mid in
            if mid_val = target then Some mid
            else if mid_val < target then search_loop arr target (mid + 1) right
            else search_loop arr target left (mid - 1)
      else Some (-1))"
  by auto
termination by (relation "measure (\<lambda>(arr, t, l, r). nat (r - l + 1))") auto

declare search_loop.simps [simp del]

definition binary_search_c :: "int list \<Rightarrow> int \<Rightarrow> int \<Rightarrow> int option" where
  "binary_search_c arr sz target = search_loop arr target 0 (sz - 1)"

definition generate_test_data :: "nat \<Rightarrow> int list" where
  "generate_test_data sz = map (\<lambda>i. int i * 2) [0..<sz]"

text \<open>The searches of the measured loop, in order: a present and an absent value per iteration.\<close>

definition measured_searches :: "nat \<Rightarrow> nat \<Rightarrow> int option list" where
  "measured_searches sz iterations = concat (map (\<lambda>i. let t = int (i mod sz) * 2 in
     [binary_search_c (generate_test_data sz) (int sz) t,
      binary_search_c (generate_test_data sz) (int sz) (t + 1)]) [0..<iterations])"

text \<open>What is known when the loop starts a round: the target is not outside the bounds.\<close>

definition outside :: "int list \<Rightarrow> int \<Rightarrow> int \<Rightarrow> int \<Rightarrow> bool" where
  "outside arr target left right \<longleftrightarrow>
     (\<forall>i<length arr. (int i < left \<longrightarrow> arr ! i < target) \<and> (right < int i \<longrightarrow> target < arr ! i))"

lemma search_loop_correct:
  assumes "sorted arr" "length arr \<le> 2 ^ 30" "0 \<le> left" "right < int (length arr)" "outside arr target left right"
  shows "\<exists>r. search_loop arr target left right = Some r \<and>
    (if target \<in> set arr then 0 \<le> r \<and> r < int (length arr) \<and> arr ! nat r = target else r = -1)"
  using assms
proof (induction arr target left right rule: search_loop.induct)
  case (1 arr target left right)
  show ?case
  proof (cases "left \<le> right")
    case False
    have "target \<notin> set arr"
    proof
      assume "target \<in> set arr"
      then obtain i where "i < length arr" "arr ! i = target" by (auto simp: in_set_conv_nth)
      with 1(7) have "\<not> int i < left" "\<not> right < int i" by (auto simp: outside_def)
      with False show False by simp
    qed
    with False show ?thesis by (subst search_loop.simps) simp
  next
    case True
    define mid where "mid = (left + right) div 2"
    have mid: "left \<le> mid" "mid \<le> right" using True by (auto simp: mid_def)
    have small: "\<not> 2 ^ 31 \<le> left + right" "\<not> (mid < 0 \<or> int (length arr) \<le> mid)"
      using 1(4,5,6) mid True by auto
    have le: "arr ! i \<le> arr ! nat mid" if "int i \<le> mid" for i
      using 1(3,6) that mid by (intro sorted_nth_mono) auto
    have ge: "arr ! nat mid \<le> arr ! i" if "mid \<le> int i" "i < length arr" for i
      using 1(3) that by (intro sorted_nth_mono) auto
    consider "arr ! nat mid = target" | "arr ! nat mid < target" | "target < arr ! nat mid" by linarith
    then show ?thesis
    proof cases
      assume eq: "arr ! nat mid = target"
      then have "target \<in> set arr" using small(2) by (metis nat_less_iff not_le nth_mem de_Morgan_disj)
      with eq True small show ?thesis by (subst search_loop.simps) (simp add: Let_def flip: mid_def)
    next
      assume less: "arr ! nat mid < target"
      have "outside arr target (mid + 1) right"
        using 1(7) le less by (fastforce simp: outside_def)
      with 1(1) [OF True small(1) mid_def small(2) refl] 1(3-6) less mid small True show ?thesis
        by (subst search_loop.simps) (simp add: Let_def flip: mid_def)
    next
      assume greater: "target < arr ! nat mid"
      have "outside arr target left (mid - 1)"
        unfolding outside_def
      proof (intro allI impI conjI)
        fix i assume i: "i < length arr"
        show "arr ! i < target" if "int i < left" using 1(7) i that by (simp add: outside_def)
        show "target < arr ! i" if "mid - 1 < int i" using ge [of i] greater i that by simp
      qed
      with 1(2) [OF True small(1) mid_def small(2) refl] 1(3-6) greater mid small True show ?thesis
        by (subst search_loop.simps) (simp add: Let_def flip: mid_def)
    qed
  qed
qed

lemma binary_search_c_correct:
  assumes "sorted arr" "length arr \<le> 2 ^ 30"
  shows "\<exists>r. binary_search_c arr (int (length arr)) target = Some r \<and>
    (if target \<in> set arr then 0 \<le> r \<and> r < int (length arr) \<and> arr ! nat r = target else r = -1)"
  unfolding binary_search_c_def by (rule search_loop_correct [OF assms]) (auto simp: outside_def)

text \<open>C36. Binary search is correct on every sorted array of at most \<open>2 ^ 30\<close> elements: it ends, its sums do
  not overflow and its accesses are in range, it returns an index of the target when the target is in the
  array, and \<open>-1\<close> otherwise.\<close>

theorem binary_search_correct:
  assumes "sorted arr" "length arr \<le> 2 ^ 30"
  shows "\<exists>r. binary_search_c arr (int (length arr)) target = Some r \<and>
    (if target \<in> set arr then 0 \<le> r \<and> r < int (length arr) \<and> arr ! nat r = target else r = -1)"
  using assms by (rule binary_search_c_correct)

theorem binary_search_correct_witness:
  "\<exists>r. binary_search_c [1, 3, 3, 8] 4 3 = Some r \<and> [1, 3, 3, 8] ! nat r = (3 :: int)"
  using binary_search_correct [of "[1, 3, 3, 8]" 3] by auto

lemma sorted_test_data: "sorted (generate_test_data sz)"
  by (simp add: generate_test_data_def sorted_iff_nth_mono)

text \<open>On the test data the present value of every iteration is found at its place and the odd value is not
  found.\<close>

lemma measured_searches_results:
  assumes "0 < sz" "sz \<le> 2 ^ 30"
  shows "measured_searches sz iterations = concat (map (\<lambda>i. [Some (int (i mod sz)), Some (-1)]) [0..<iterations])"
proof -
  let ?d = "generate_test_data sz"
  have len: "length ?d = sz" by (simp add: generate_test_data_def)
  have nth: "?d ! k = int k * 2" if "k < sz" for k using that by (simp add: generate_test_data_def)
  have "binary_search_c ?d (int sz) (int (i mod sz) * 2) = Some (int (i mod sz))" for i
  proof -
    have k: "i mod sz < sz" using assms(1) by simp
    then have mem: "int (i mod sz) * 2 \<in> set ?d" using nth [OF k] len by (metis nth_mem)
    with binary_search_c_correct [OF sorted_test_data [of sz], of "int (i mod sz) * 2"] len assms(2)
    obtain r where r: "binary_search_c ?d (int sz) (int (i mod sz) * 2) = Some r" "0 \<le> r" "r < int sz"
      "?d ! nat r = int (i mod sz) * 2" by auto
    then have "int (nat r) * 2 = int (i mod sz) * 2" using nth [of "nat r"] by simp
    with r show ?thesis by simp
  qed
  moreover have "binary_search_c ?d (int sz) (int (i mod sz) * 2 + 1) = Some (-1)" for i
  proof -
    have "int (i mod sz) * 2 + 1 \<notin> set ?d" 
    proof
      assume "int (i mod sz) * 2 + 1 \<in> set ?d"
      then obtain x where "int (i mod sz) * 2 + 1 = int x * 2" by (auto simp: generate_test_data_def)
      then have "odd (int x * 2)" by (metis even_mult_iff even_numeral odd_one odd_add)
      then show False by simp
    qed
    with binary_search_c_correct [OF sorted_test_data [of sz], of "int (i mod sz) * 2 + 1"] len assms(2)
    show ?thesis by auto
  qed
  ultimately show ?thesis by (simp add: measured_searches_def Let_def)
qed

end
