(* ===== verification/Pointer_Tagging.thy ===== *)
theory Pointer_Tagging
  imports Prelude
begin

text \<open>
  Tagged pointers (\<^verbatim>\<open>memory/allocation/pointerTagging.c\<close>): the type of an object is kept in the three low
  bits of its address, and the untagged object holds a union.

  The heap maps addresses to objects and to strings. The union is a datatype, so reading another member
  than the one that was written is \<open>None\<close>; so are a failed assertion, an access to memory that is not
  allocated and a second \<open>free\<close>. The addresses that \<open>malloc\<close> and \<open>strdup\<close> return are arguments;
  \<open>0\<close> is the null pointer. A float is its bit pattern.
\<close>

unbundle bit_operations_syntax

definition TAG_BITS :: nat where
  "TAG_BITS = 3"

definition TAG_MASK :: u64 where
  "TAG_MASK = push_bit TAG_BITS 1 - 1"

definition POINTER_MASK :: u64 where
  "POINTER_MASK = NOT (push_bit TAG_BITS 1 - 1)"

datatype ObjectType = TYPE_INT | TYPE_FLOAT | TYPE_STRING | TYPE_CUSTOM

datatype obj_data = IntValue int | FloatValue u32 | StringValue u64 | CustomValue u64

record Object =
  ob_type :: ObjectType
  ob_data :: obj_data

record tag_heap =
  th_objects :: "u64 \<rightharpoonup> Object"
  th_strings :: "u64 \<rightharpoonup> string"

text \<open>What the argument \<open>value\<close> points to; it is called \<open>arg\<close> below.\<close>

datatype pointee = ToInt int | ToFloat u32 | ToString string | Opaque u64

datatype printed = PrintInt int | PrintFloat u32 | PrintString string | PrintCustom u64

fun type_number :: "ObjectType \<Rightarrow> u64" where
  "type_number TYPE_INT = 0"
| "type_number TYPE_FLOAT = 1"
| "type_number TYPE_STRING = 2"
| "type_number TYPE_CUSTOM = 3"

definition tag_pointer :: "u64 \<Rightarrow> u64 \<Rightarrow> u64 option" where
  "tag_pointer addr tag =
     (if addr AND TAG_MASK = 0 then Some ((addr AND POINTER_MASK) OR (tag AND TAG_MASK)) else None)"

definition untag_pointer :: "u64 \<Rightarrow> u64" where
  "untag_pointer p = p AND POINTER_MASK"

definition get_tag :: "u64 \<Rightarrow> u64" where
  "get_tag p = p AND TAG_MASK"

text \<open>\<open>obj\<close> and \<open>str\<close> are what the two allocations return.\<close>

definition create_object :: "u64 \<Rightarrow> u64 \<Rightarrow> ObjectType \<Rightarrow> pointee \<Rightarrow> tag_heap \<Rightarrow> (u64 \<times> tag_heap) option" where
  "create_object obj str ty arg h =
     (if obj = 0 then Some (0, h)
      else do {
        (ok, d, h1) \<leftarrow> (case (ty, arg) of
            (TYPE_INT, ToInt i) \<Rightarrow> Some (True, IntValue i, h)
          | (TYPE_FLOAT, ToFloat f) \<Rightarrow> Some (True, FloatValue f, h)
          | (TYPE_STRING, ToString s) \<Rightarrow>
              Some (str \<noteq> 0, StringValue str, if str = 0 then h else h\<lparr>th_strings := (th_strings h)(str \<mapsto> s)\<rparr>)
          | (TYPE_CUSTOM, Opaque v) \<Rightarrow> Some (True, CustomValue v, h)
          | _ \<Rightarrow> None);
        if \<not> ok then Some (0, h1)
        else do {
          p \<leftarrow> tag_pointer obj (type_number ty);
          Some (p, h1\<lparr>th_objects := (th_objects h1)(obj \<mapsto> \<lparr>ob_type = ty, ob_data = d\<rparr>)\<rparr>)
        }
      })"

definition free_object :: "u64 \<Rightarrow> tag_heap \<Rightarrow> tag_heap option" where
  "free_object p h = do {
     o1 \<leftarrow> th_objects h (untag_pointer p);
     h1 \<leftarrow> (if get_tag p = type_number TYPE_STRING
            then (case ob_data o1 of
                    StringValue a \<Rightarrow> (case th_strings h a of
                        None \<Rightarrow> None
                      | Some _ \<Rightarrow> Some (h\<lparr>th_strings := (th_strings h)(a := None)\<rparr>))
                  | _ \<Rightarrow> None)
            else Some h);
     Some (h1\<lparr>th_objects := (th_objects h1)(untag_pointer p := None)\<rparr>)
   }"

definition print_object :: "u64 \<Rightarrow> tag_heap \<Rightarrow> printed list option" where
  "print_object p h = do {
     o1 \<leftarrow> th_objects h (untag_pointer p);
     let tag = get_tag p;
     if tag = type_number TYPE_INT then (case ob_data o1 of IntValue i \<Rightarrow> Some [PrintInt i] | _ \<Rightarrow> None)
     else if tag = type_number TYPE_FLOAT then (case ob_data o1 of FloatValue f \<Rightarrow> Some [PrintFloat f] | _ \<Rightarrow> None)
     else if tag = type_number TYPE_STRING then
       (case ob_data o1 of StringValue a \<Rightarrow> map_option (\<lambda>s. [PrintString s]) (th_strings h a) | _ \<Rightarrow> None)
     else if tag = type_number TYPE_CUSTOM then (case ob_data o1 of CustomValue v \<Rightarrow> Some [PrintCustom v] | _ \<Rightarrow> None)
     else Some []
   }"

text \<open>The exit code, what is printed, and what is left on the heap. \<open>cv\<close> is the address of the custom value,
  \<open>o1\<close> to \<open>o4\<close> those of the objects, \<open>str\<close> that of the copied string. The bits of \<open>3.14f\<close> are
  \<open>0x4048F5C3\<close>.\<close>

definition tagging_main :: "u64 \<Rightarrow> u64 \<Rightarrow> u64 \<Rightarrow> u64 \<Rightarrow> u64 \<Rightarrow> u64 \<Rightarrow> (int \<times> printed list \<times> tag_heap) option" where
  "tagging_main cv o1 o2 o3 str o4 = (let h = \<lparr>th_objects = Map.empty, th_strings = Map.empty\<rparr> in
     if cv = 0 then Some (1, [], h)
     else do {
       (p1, h1) \<leftarrow> create_object o1 0 TYPE_INT (ToInt 42) h;
       (p2, h2) \<leftarrow> create_object o2 0 TYPE_FLOAT (ToFloat 0x4048F5C3) h1;
       (p3, h3) \<leftarrow> create_object o3 str TYPE_STRING (ToString ''Hello, world!'') h2;
       (p4, h4) \<leftarrow> create_object o4 0 TYPE_CUSTOM (Opaque cv) h3;
       if p1 = 0 \<or> p2 = 0 \<or> p3 = 0 \<or> p4 = 0 then Some (1, [], h4)
       else do {
         x1 \<leftarrow> print_object p1 h4;
         x2 \<leftarrow> print_object p2 h4;
         x3 \<leftarrow> print_object p3 h4;
         x4 \<leftarrow> print_object p4 h4;
         h5 \<leftarrow> free_object p1 h4;
         h6 \<leftarrow> free_object p2 h5;
         h7 \<leftarrow> free_object p3 h6;
         h8 \<leftarrow> free_object p4 h7;
         Some (0, x1 @ x2 @ x3 @ x4, h8)
       }
     })"

subsection \<open>Tags\<close>

lemma masks: "TAG_MASK = mask 3" "POINTER_MASK = NOT (mask 3)"
  by (simp_all add: TAG_MASK_def POINTER_MASK_def TAG_BITS_def mask_eq_exp_minus_1)

lemma tag_roundtrip:
  assumes "addr AND TAG_MASK = 0"
  shows "tag_pointer addr tag = Some (addr OR (tag AND TAG_MASK))"
    and "untag_pointer (addr OR (tag AND TAG_MASK)) = addr"
    and "get_tag (addr OR (tag AND TAG_MASK)) = tag AND TAG_MASK"
proof -
  have low: "\<not> bit addr k" if "k < 3" for k
  proof -
    have "bit (addr AND TAG_MASK) k = bit addr k" using that by (simp add: masks bit_simps)
    with assms show ?thesis by simp
  qed
  have high: "3 \<le> k" if "bit addr k" for k using low [of k] that by (meson not_le)
  have clear: "addr AND POINTER_MASK = addr"
    by (intro bit_word_eqI) (auto simp: masks bit_simps dest: high)
  then show "tag_pointer addr tag = Some (addr OR (tag AND TAG_MASK))"
    using assms by (simp add: tag_pointer_def)
  show "untag_pointer (addr OR (tag AND TAG_MASK)) = addr"
    unfolding untag_pointer_def by (intro bit_word_eqI) (auto simp: masks bit_simps dest: high)
  show "get_tag (addr OR (tag AND TAG_MASK)) = tag AND TAG_MASK"
    unfolding get_tag_def using low by (intro bit_word_eqI) (auto simp: masks bit_simps)
qed

lemma type_number_small: "type_number ty AND TAG_MASK = type_number ty"
  by (cases ty) (simp_all add: TAG_MASK_def TAG_BITS_def)

lemma type_number_inj: "type_number a = type_number b \<longleftrightarrow> a = b"
  by (cases a; cases b) simp_all

definition tagged :: "u64 \<Rightarrow> ObjectType \<Rightarrow> u64" where
  "tagged addr ty = addr OR type_number ty"

lemma tagged_simps:
  assumes "addr AND TAG_MASK = 0"
  shows "tag_pointer addr (type_number ty) = Some (tagged addr ty)" "untag_pointer (tagged addr ty) = addr"
    "get_tag (tagged addr ty) = type_number ty"
  using tag_roundtrip [OF assms, of "type_number ty"] by (simp_all add: type_number_small tagged_def)

lemma tagged_nonzero: "addr AND TAG_MASK = 0 \<Longrightarrow> addr \<noteq> 0 \<Longrightarrow> tagged addr ty \<noteq> 0"
  using tagged_simps(2) [of addr ty] by (auto simp: untag_pointer_def)

subsection \<open>Objects\<close>

text \<open>The argument fits the type.\<close>

fun arg_fits :: "ObjectType \<Rightarrow> pointee \<Rightarrow> bool" where
  "arg_fits TYPE_INT (ToInt i) = True"
| "arg_fits TYPE_FLOAT (ToFloat f) = True"
| "arg_fits TYPE_STRING (ToString s) = True"
| "arg_fits TYPE_CUSTOM (Opaque v) = True"
| "arg_fits _ _ = False"

fun shown :: "pointee \<Rightarrow> printed" where
  "shown (ToInt i) = PrintInt i"
| "shown (ToFloat f) = PrintFloat f"
| "shown (ToString s) = PrintString s"
| "shown (Opaque v) = PrintCustom v"

text \<open>C37. Tagged objects are type safe: for every type and every argument of that type, and addresses that
  are aligned, not null and not in use, creation returns a pointer whose tag is the type of the object and whose
  untagged value is the address; printing reads the member of the union that was written and shows the argument;
  freeing gives back exactly the memory that creation took.\<close>

theorem tagged_objects_type_safe:
  assumes "arg_fits ty arg" "obj AND TAG_MASK = 0" "obj \<noteq> 0" "str \<noteq> 0" "th_objects h obj = None" "th_strings h str = None"
  shows "\<exists>p h'. create_object obj str ty arg h = Some (p, h') \<and> p \<noteq> 0 \<and>
    get_tag p = type_number ty \<and> untag_pointer p = obj \<and> map_option ob_type (th_objects h' obj) = Some ty \<and>
    print_object p h' = Some [shown arg] \<and> free_object p h' = Some h"
proof -
  have restore: "(th_objects h)(obj := None) = th_objects h" "(th_strings h)(str := None) = th_strings h"
    using assms(5,6) by auto
  note simps = tagged_simps [OF assms(2)] tagged_nonzero [OF assms(2,3)] create_object_def print_object_def
    free_object_def Let_def type_number_inj restore
  show ?thesis
    using assms(1,3,4) by (cases ty; cases arg) (simp_all add: simps del: type_number.simps)
qed

theorem tagged_objects_type_safe_witness:
  "\<exists>p h'. create_object 0x1000 0x2000 TYPE_STRING (ToString ''abc'') \<lparr>th_objects = Map.empty, th_strings = Map.empty\<rparr> = Some (p, h') \<and>
    print_object p h' = Some [PrintString ''abc'']"
  using tagged_objects_type_safe [of TYPE_STRING "ToString ''abc''" "0x1000" "0x2000"
    "\<lparr>th_objects = Map.empty, th_strings = Map.empty\<rparr>"]
  by (auto simp: TAG_MASK_def TAG_BITS_def)

subsection \<open>The program\<close>

definition aligned_fresh :: "u64 list \<Rightarrow> bool" where
  "aligned_fresh as \<longleftrightarrow> distinct as \<and> list_all (\<lambda>a. a AND TAG_MASK = 0 \<and> a \<noteq> 0) as"

text \<open>With all allocations successful the program prints its four values and frees every object.\<close>

lemma tagging_main_ok:
  assumes "cv \<noteq> 0" "str \<noteq> 0" "aligned_fresh [o1, o2, o3, o4]"
  shows "tagging_main cv o1 o2 o3 str o4 = Some (0,
    [PrintInt 42, PrintFloat 0x4048F5C3, PrintString ''Hello, world!'', PrintCustom cv],
    \<lparr>th_objects = Map.empty, th_strings = Map.empty\<rparr>)"
proof -
  have ok: "o1 AND TAG_MASK = 0" "o2 AND TAG_MASK = 0" "o3 AND TAG_MASK = 0" "o4 AND TAG_MASK = 0"
    "o1 \<noteq> 0" "o2 \<noteq> 0" "o3 \<noteq> 0" "o4 \<noteq> 0" "o1 \<noteq> o2" "o1 \<noteq> o3" "o1 \<noteq> o4" "o2 \<noteq> o3" "o2 \<noteq> o4" "o3 \<noteq> o4"
    using assms(3) by (auto simp: aligned_fresh_def)
  note simps = tagged_simps [OF ok(1)] tagged_simps [OF ok(2)] tagged_simps [OF ok(3)] tagged_simps [OF ok(4)]
    tagged_nonzero [OF ok(1,5)] tagged_nonzero [OF ok(2,6)] tagged_nonzero [OF ok(3,7)] tagged_nonzero [OF ok(4,8)]
  show ?thesis
    using ok assms(1,2)
    by (simp add: tagging_main_def create_object_def print_object_def free_object_def simps Let_def type_number_inj
      fun_upd_twist del: type_number.simps)
qed

text \<open>When the last allocation fails, the program ends without freeing the objects it has made.\<close>

lemma tagging_main_leaks:
  assumes "cv \<noteq> 0" "str \<noteq> 0" "aligned_fresh [o1, o2, o3]"
  shows "\<exists>h. tagging_main cv o1 o2 o3 str 0 = Some (1, [], h) \<and> dom (th_objects h) = {o1, o2, o3}"
proof -
  have ok: "o1 AND TAG_MASK = 0" "o2 AND TAG_MASK = 0" "o3 AND TAG_MASK = 0" "o1 \<noteq> 0" "o2 \<noteq> 0" "o3 \<noteq> 0"
    using assms(3) by (auto simp: aligned_fresh_def)
  show ?thesis
    using ok assms(1,2)
    by (auto simp: tagging_main_def create_object_def tagged_simps Let_def simp del: type_number.simps)
qed

end
