(* ===== verification/Memory_Pool.thy ===== *)
theory Memory_Pool
  imports Prelude
begin

text \<open>
  The fixed-size block pool (\<^verbatim>\<open>memory/memory_management/memory_pool.c\<close>). A pointer into the pool is its
  offset from the start of \<open>memory\<close>; \<open>pool_free\<close> gets such an offset, which may be any integer when the
  pointer does not belong to the pool. The contents of the blocks are never touched by the pool.
\<close>

definition POOL_SIZE :: nat where
  "POOL_SIZE = 1024 * 1024"

definition BLOCK_SIZE :: nat where
  "BLOCK_SIZE = 256"

definition NUM_BLOCKS :: nat where
  "NUM_BLOCKS = 1024 * 1024 div BLOCK_SIZE"

record MemoryPool =
  used_blocks :: "bool list"
  num_allocations :: u64
  num_frees :: u64

text \<open>The result of \<open>malloc\<close> is used without a test: \<open>None\<close> is the access through a null pointer.\<close>

definition create_pool :: "bool \<Rightarrow> MemoryPool option" where
  "create_pool malloc_ok = (if \<not> malloc_ok then None
     else Some \<lparr>used_blocks = replicate NUM_BLOCKS False, num_allocations = 0, num_frees = 0\<rparr>)"

definition pool_alloc :: "MemoryPool \<Rightarrow> int option \<times> MemoryPool" where
  "pool_alloc pool =
     (case first_index 0 NUM_BLOCKS (\<lambda>i. \<not> used_blocks pool ! i) of
        Some i \<Rightarrow> (Some (int (i * BLOCK_SIZE)),
                   pool\<lparr>used_blocks := (used_blocks pool)[i := True], num_allocations := num_allocations pool + 1\<rparr>)
      | None \<Rightarrow> (None, pool))"

text \<open>C's division rounds towards zero.\<close>

definition pool_free :: "int option \<Rightarrow> MemoryPool \<Rightarrow> MemoryPool" where
  "pool_free ptr pool =
     (case ptr of
        None \<Rightarrow> pool
      | Some offset \<Rightarrow>
          let block_index = offset sdiv int BLOCK_SIZE in
          if block_index \<ge> 0 \<and> block_index < int NUM_BLOCKS
          then pool\<lparr>used_blocks := (used_blocks pool)[nat block_index := False], num_frees := num_frees pool + 1\<rparr>
          else pool)"

text \<open>The measured loop of \<open>compare_performance\<close>.\<close>

fun alloc_free_loop :: "nat \<Rightarrow> MemoryPool \<Rightarrow> MemoryPool" where
  "alloc_free_loop 0 pool = pool"
| "alloc_free_loop (Suc n) pool = (case pool_alloc pool of (p, pool1) \<Rightarrow> alloc_free_loop n (pool_free p pool1))"

fun alloc_many :: "nat \<Rightarrow> MemoryPool \<Rightarrow> int option list \<times> MemoryPool" where
  "alloc_many 0 pool = ([], pool)"
| "alloc_many (Suc n) pool =
     (case pool_alloc pool of (p, pool1) \<Rightarrow> case alloc_many n pool1 of (ps, pool2) \<Rightarrow> (p # ps, pool2))"

subsection \<open>Blocks\<close>

definition pool_ok :: "MemoryPool \<Rightarrow> bool" where [inv_defs]:
  "pool_ok pool \<longleftrightarrow> length (used_blocks pool) = NUM_BLOCKS"

definition in_use :: "MemoryPool \<Rightarrow> nat set" where
  "in_use pool = {i. i < NUM_BLOCKS \<and> used_blocks pool ! i}"

lemma create_pool_ok: "\<exists>pool. create_pool True = Some pool \<and> pool_ok pool \<and> in_use pool = {}"
  by (auto simp: pool_ok_def create_pool_def in_use_def)

lemma block_index [simp]: "int (i * BLOCK_SIZE) sdiv int BLOCK_SIZE = int i"
  by (simp add: BLOCK_SIZE_def signed_divide_int_def sgn_if abs_if)

lemma pool_alloc_cases:
  assumes "pool_ok pool"
  obtains (full) "in_use pool = {..<NUM_BLOCKS}" "pool_alloc pool = (None, pool)"
  | (block) i pool' where "i < NUM_BLOCKS" "i \<notin> in_use pool" "\<forall>k<i. k \<in> in_use pool"
      "pool_alloc pool = (Some (int (i * BLOCK_SIZE)), pool')" "pool_ok pool'" "in_use pool' = insert i (in_use pool)"
      "num_frees pool' = num_frees pool" "num_allocations pool' = num_allocations pool + 1"
proof (cases "first_index 0 NUM_BLOCKS (\<lambda>i. \<not> used_blocks pool ! i)")
  case None
  then have "in_use pool = {..<NUM_BLOCKS}" by (auto simp: first_index_None_iff in_use_def)
  with None full show thesis by (simp add: pool_alloc_def)
next
  case (Some i)
  note i = first_index_SomeD [OF Some]
  show thesis
  proof (rule block [of i])
    show "i < NUM_BLOCKS" by (rule i(2))
    show "i \<notin> in_use pool" using i(3) by (simp add: in_use_def)
    show "\<forall>k<i. k \<in> in_use pool" using i(2,4) by (simp add: in_use_def)
    show "pool_alloc pool = (Some (int (i * BLOCK_SIZE)),
      pool\<lparr>used_blocks := (used_blocks pool)[i := True], num_allocations := num_allocations pool + 1\<rparr>)"
      using Some by (simp add: pool_alloc_def)
  qed (use assms i(2) in \<open>auto simp: pool_ok_def in_use_def nth_list_update\<close>)
qed

lemma pool_free_block:
  assumes "pool_ok pool" "i < NUM_BLOCKS"
  shows "pool_ok (pool_free (Some (int (i * BLOCK_SIZE))) pool)"
    and "in_use (pool_free (Some (int (i * BLOCK_SIZE))) pool) = in_use pool - {i}"
  using assms
  by (auto simp: pool_free_def Let_def pool_ok_def in_use_def nth_list_update simp del: of_nat_mult)

lemma alloc_many_ok:
  assumes "pool_ok pool" "n + card (in_use pool) \<le> NUM_BLOCKS"
  shows "\<exists>is pool'. alloc_many n pool = (map (\<lambda>i. Some (int (i * BLOCK_SIZE))) is, pool') \<and> length is = n \<and>
    distinct is \<and> set is \<subseteq> {..<NUM_BLOCKS} - in_use pool \<and> pool_ok pool' \<and> in_use pool' = in_use pool \<union> set is"
  using assms
proof (induction n arbitrary: pool)
  case (Suc n)
  show ?case
  proof (cases rule: pool_alloc_cases [OF Suc.prems(1)])
    case 1
    with Suc.prems(2) show ?thesis by simp
  next
    case (2 i pool1)
    have fin: "finite (in_use pool)" by (simp add: in_use_def)
    have "n + card (in_use pool1) \<le> NUM_BLOCKS" using 2 Suc.prems(2) fin by simp
    with Suc.IH [OF 2(5)] obtain "is" pool' where
      "alloc_many n pool1 = (map (\<lambda>i. Some (int (i * BLOCK_SIZE))) is, pool')" "length is = n" "distinct is"
      "set is \<subseteq> {..<NUM_BLOCKS} - in_use pool1" "pool_ok pool'" "in_use pool' = in_use pool1 \<union> set is" by blast
    with 2 show ?thesis by (intro exI [of _ "i # is"] exI [of _ pool']) auto
  qed
qed auto

text \<open>C38. Allocation hands out every block once: from a fresh pool, up to \<open>NUM_BLOCKS\<close> allocations succeed and
  return pairwise different blocks that lie inside the pool and do not overlap, and the next allocation after
  \<open>NUM_BLOCKS\<close> of them fails.\<close>

theorem pool_blocks_disjoint:
  assumes "n \<le> NUM_BLOCKS"
  shows "\<exists>pool0 is pool. create_pool True = Some pool0 \<and>
    alloc_many n pool0 = (map (\<lambda>i. Some (int (i * BLOCK_SIZE))) is, pool) \<and> length is = n \<and>
    distinct is \<and> (\<forall>i\<in>set is. i * BLOCK_SIZE + BLOCK_SIZE \<le> POOL_SIZE) \<and>
    (n = NUM_BLOCKS \<longrightarrow> fst (pool_alloc pool) = None)"
proof -
  obtain pool0 where new: "create_pool True = Some pool0" "pool_ok pool0" "in_use pool0 = {}"
    using create_pool_ok by blast
  obtain "is" pool where al: "alloc_many n pool0 = (map (\<lambda>i. Some (int (i * BLOCK_SIZE))) is, pool)"
    "length is = n" "distinct is" "set is \<subseteq> {..<NUM_BLOCKS}" "pool_ok pool" "in_use pool = set is"
    using alloc_many_ok [OF new(2), of n] assms by (auto simp: new(3))
  have "\<forall>i\<in>set is. i * BLOCK_SIZE + BLOCK_SIZE \<le> POOL_SIZE"
    using al(4) by (auto simp: NUM_BLOCKS_def BLOCK_SIZE_def POOL_SIZE_def)
  moreover have "fst (pool_alloc pool) = None" if "n = NUM_BLOCKS"
  proof -
    have "card (set is) = NUM_BLOCKS" using al(2,3) that by (simp add: distinct_card)
    then have "set is = {..<NUM_BLOCKS}" using al(4) by (intro card_subset_eq) auto
    then show ?thesis
      by (cases rule: pool_alloc_cases [OF al(5)]) (use al(6) in auto)
  qed
  ultimately show ?thesis using new(1) al(1-3) by blast
qed

theorem pool_blocks_disjoint_witness:
  "\<exists>pool0 is pool. create_pool True = Some pool0 \<and> alloc_many 3 pool0 = (map (\<lambda>i. Some (int (i * BLOCK_SIZE))) is, pool) \<and> length is = 3 \<and> distinct is"
proof -
  have "3 \<le> NUM_BLOCKS" by (simp add: NUM_BLOCKS_def BLOCK_SIZE_def)
  from pool_blocks_disjoint [OF this] show ?thesis by blast
qed

text \<open>Freeing an allocated block and allocating again gives a block at the lowest free offset, and an
  allocation followed by freeing it leaves the set of used blocks as it was.\<close>

theorem pool_free_undoes_alloc:
  assumes "pool_ok pool" "pool_alloc pool = (p, pool')"
  shows "in_use (pool_free p pool') = in_use pool \<and> pool_ok (pool_free p pool') \<and>
    (p \<noteq> None \<longrightarrow> fst (pool_alloc (pool_free p pool')) = p)"
proof (cases rule: pool_alloc_cases [OF assms(1)])
  case 1
  with assms show ?thesis by (simp add: pool_free_def)
next
  case (2 i q)
  with assms(2) have p: "p = Some (int (i * BLOCK_SIZE))" "pool' = q" by simp_all
  note free = pool_free_block [OF 2(5,1)]
  have use: "in_use (pool_free p pool') = in_use pool" using free(2) p 2 by auto
  have ok: "pool_ok (pool_free p pool')" using free(1) p by simp
  have "fst (pool_alloc (pool_free p pool')) = p"
  proof (cases rule: pool_alloc_cases [OF ok])
    case 1
    with use 2(1,2) show ?thesis by auto
  next
    case j: (2 j r)
    have "\<not> i < j" "\<not> j < i" using j 2 use by auto
    with j p show ?thesis by simp
  qed
  with use ok show ?thesis by simp
qed

theorem pool_free_undoes_alloc_witness:
  "\<exists>pool. create_pool True = Some pool \<and> fst (pool_alloc pool) = Some 0 \<and>
    in_use (pool_free (Some 0) (snd (pool_alloc pool))) = {}"
proof -
  obtain pool where new: "create_pool True = Some pool" "pool_ok pool" "in_use pool = {}" using create_pool_ok by blast
  have "0 < NUM_BLOCKS" by (simp add: NUM_BLOCKS_def BLOCK_SIZE_def)
  then have first: "fst (pool_alloc pool) = Some 0"
    by (cases rule: pool_alloc_cases [OF new(2)]) (use new(3) in auto)
  then have "pool_alloc pool = (Some 0, snd (pool_alloc pool))" by (simp add: prod_eq_iff)
  from pool_free_undoes_alloc [OF new(2) this] new first show ?thesis by auto
qed

text \<open>A pointer up to 255 bytes before the pool is taken for the first block, and freeing twice is counted
  twice.\<close>

lemma pool_free_foreign:
  assumes "- int BLOCK_SIZE < offset" "offset < 0"
  shows "pool_free (Some offset) pool = pool_free (Some 0) pool"
proof -
  have "offset sdiv int BLOCK_SIZE = 0"
    using assms by (auto simp: BLOCK_SIZE_def signed_divide_int_def sgn_if)
  then show ?thesis by (simp add: pool_free_def BLOCK_SIZE_def)
qed

end
