(* ===== verification/Uart_Ring.thy ===== *)
theory Uart_Ring
  imports Ring_Fifo "HOL-Library.Sublist"
begin

unbundle bit_operations_syntax

text \<open>
  The receive path of \<open>networking/uart.c\<close>: the ring buffer of 256 bytes, the signal handler
  that writes to it and \<open>uart_getchar\<close>, which polls it. \<open>networking/uartInputSystem.c\<close> and
  \<open>playingAround/inputBuffering/a.c\<close> hold the same functions;
  \<open>playingAround/inputBuffering/basicRing.c\<close> holds the ring buffer with its indices wrapped by
  a mask instead of a remainder.

  The two indices are \<open>uint8_t\<close>, so they are \<open>8 word\<close>s here, and the sums are taken in a wider
  type and cut back, as in C. The device registers are arguments of the handler. The file arms
  one alarm per call of \<open>uart_getchar\<close>, whose signal runs the handler; \<open>uart_getchar\<close> therefore
  takes the moment of the signal, given as the value of \<open>timeout_ms\<close> while it sleeps, and the
  register contents at that moment. The operating system calls of \<open>uart_init\<close> are not modelled.

  Shown here: the buffer is a queue of 255 bytes; both ways to wrap an index agree; bytes are
  delivered in order, none twice and none lost, although the handler may run between any two
  accesses of \<open>ring_buffer_read\<close>; and what a call of \<open>uart_getchar\<close> returns.
\<close>

subsection \<open>The ring buffer\<close>

definition UART_BUFFER_SIZE :: nat where
  "UART_BUFFER_SIZE = 256"

record RingBuffer =
  rb_data :: "u8 list"
  write_ptr :: u8
  read_ptr :: u8

definition ring_buffer_init :: "RingBuffer \<Rightarrow> RingBuffer" where
  "ring_buffer_init b = b\<lparr>write_ptr := 0, read_ptr := 0\<rparr>"

text \<open>The next index: computed as an \<open>int\<close>, stored in a \<open>uint8_t\<close>.\<close>

definition next_ptr :: "u8 \<Rightarrow> u8" where
  "next_ptr p = of_nat ((unat p + 1) mod UART_BUFFER_SIZE)"

definition ring_buffer_write :: "RingBuffer \<Rightarrow> u8 \<Rightarrow> (bool \<times> RingBuffer) option" where
  "ring_buffer_write b x =
     (let next_write = next_ptr (write_ptr b) in
      if next_write = read_ptr b then Some (False, b)
      else do {
        d \<leftarrow> c_store (rb_data b) (unat (write_ptr b)) x;
        Some (True, b\<lparr>rb_data := d, write_ptr := next_write\<rparr>)
      })"

text \<open>The second component is what \<open>*data\<close> holds afterwards, if it was written.\<close>

definition ring_buffer_read :: "RingBuffer \<Rightarrow> (bool \<times> u8 option \<times> RingBuffer) option" where
  "ring_buffer_read b =
     (if read_ptr b = write_ptr b then Some (False, None, b)
      else do {
        x \<leftarrow> c_load (rb_data b) (unat (read_ptr b));
        Some (True, Some x, b\<lparr>read_ptr := next_ptr (read_ptr b)\<rparr>)
      })"

subsection \<open>The ring buffer with masks\<close>

definition basic_next_ptr :: "u8 \<Rightarrow> u8" where
  "basic_next_ptr p = of_nat ((unat p + 1) AND (UART_BUFFER_SIZE - 1))"

definition basic_write :: "RingBuffer \<Rightarrow> u8 \<Rightarrow> (bool \<times> RingBuffer) option" where
  "basic_write b x =
     (let next_write = basic_next_ptr (write_ptr b) in
      if next_write = read_ptr b then Some (False, b)
      else do {
        d \<leftarrow> c_store (rb_data b) (unat (write_ptr b)) x;
        Some (True, b\<lparr>rb_data := d, write_ptr := next_write\<rparr>)
      })"

definition basic_read :: "RingBuffer \<Rightarrow> (bool \<times> u8 option \<times> RingBuffer) option" where
  "basic_read b =
     (if read_ptr b = write_ptr b then Some (False, None, b)
      else do {
        x \<leftarrow> c_load (rb_data b) (unat (read_ptr b));
        Some (True, Some x, b\<lparr>read_ptr := basic_next_ptr (read_ptr b)\<rparr>)
      })"

text \<open>The difference of the indices is an \<open>int\<close> and may be negative before it is masked.\<close>

definition ring_buffer_size :: "RingBuffer \<Rightarrow> u8" where
  "ring_buffer_size b =
     word_of_int ((uint (write_ptr b) - uint (read_ptr b)) AND (int UART_BUFFER_SIZE - 1))"

subsection \<open>The handler and the polling loop\<close>

definition UART_DATA_READY :: u8 where
  "UART_DATA_READY = 0x80"

text \<open>The flag of the result says whether the byte went into the buffer; when the data register
  is ready and the flag is false, the handler prints its overflow message.\<close>

definition uart_isr :: "u8 \<Rightarrow> u8 \<Rightarrow> RingBuffer \<Rightarrow> (bool \<times> RingBuffer) option" where
  "uart_isr status received_data b =
     (if status AND UART_DATA_READY \<noteq> 0 then ring_buffer_write b received_data
      else Some (False, b))"

text \<open>\<open>signal t\<close> holds the status and data registers when the signal arrives in the sleep with
  \<open>timeout_ms = t\<close>.\<close>

fun getchar_polls ::
  "(nat \<Rightarrow> (u8 \<times> u8) option) \<Rightarrow> nat \<Rightarrow> RingBuffer \<Rightarrow> (bool \<times> u8 option \<times> RingBuffer) option"
where
  "getchar_polls signal 0 b = Some (False, None, b)"
| "getchar_polls signal (Suc t) b = do {
     (found, x, b') \<leftarrow> ring_buffer_read b;
     if found then Some (True, x, b')
     else (case signal t of
        None \<Rightarrow> getchar_polls signal t b'
      | Some (status, d) \<Rightarrow> do {
          (stored, b'') \<leftarrow> uart_isr status d b';
          getchar_polls signal t b''
        })
   }"

text \<open>\<open>alarm(n)\<close> asks for one signal in \<open>n\<close> seconds, and \<open>alarm(0)\<close> for none. \<open>arrival\<close> is
  when that signal would come, if it comes before \<open>uart_getchar\<close> cancels it.\<close>

definition alarm_signal :: "nat \<Rightarrow> (nat \<times> u8 \<times> u8) option \<Rightarrow> nat \<Rightarrow> (u8 \<times> u8) option" where
  "alarm_signal seconds arrival t =
     (case arrival of
        None \<Rightarrow> None
      | Some (t', regs) \<Rightarrow> if seconds \<noteq> 0 \<and> t = t' then Some regs else None)"

definition uart_getchar ::
  "(nat \<times> u8 \<times> u8) option \<Rightarrow> u16 \<Rightarrow> RingBuffer \<Rightarrow> (bool \<times> u8 option \<times> RingBuffer) option"
where
  "uart_getchar arrival timeout_ms b =
     getchar_polls (alarm_signal (unat timeout_ms div 1000) arrival) (unat timeout_ms) b"

text \<open>Rounds of the endless loop of \<open>main\<close>, one for each arrival given: the bytes printed.\<close>

fun uart_main_rounds ::
  "(nat \<times> u8 \<times> u8) option list \<Rightarrow> RingBuffer \<Rightarrow> (u8 option list \<times> RingBuffer) option"
where
  "uart_main_rounds [] b = Some ([], b)"
| "uart_main_rounds (a # as) b = do {
     (found, x, b') \<leftarrow> uart_getchar a 1000 b;
     (outs, b'') \<leftarrow> uart_main_rounds as b';
     Some ((if found then x else None) # outs, b'')
   }"

definition uart_main ::
  "(nat \<times> u8 \<times> u8) option list \<Rightarrow> RingBuffer \<Rightarrow> (u8 option list \<times> RingBuffer) option" where
  "uart_main arrivals b = uart_main_rounds arrivals (ring_buffer_init b)"

subsection \<open>Contents and invariant\<close>

definition rb_count :: "RingBuffer \<Rightarrow> nat" where
  "rb_count b = unat (write_ptr b - read_ptr b)"

definition rb_list :: "RingBuffer \<Rightarrow> u8 list" where
  "rb_list b = ring_list (rb_data b) (unat (read_ptr b)) (rb_count b)"

definition rb_ok :: "RingBuffer \<Rightarrow> bool" where
  "rb_ok b \<longleftrightarrow> length (rb_data b) = UART_BUFFER_SIZE"

lemma next_ptr_eq: "next_ptr p = p + 1"
proof -
  have "unat (next_ptr p) = unat (p + 1)"
    by (simp add: next_ptr_def UART_BUFFER_SIZE_def unat_word_ariths unat_of_nat take_bit_eq_mod)
  then show ?thesis by (simp only: word_unat_eq_iff)
qed

lemma basic_next_ptr_eq: "basic_next_ptr p = next_ptr p"
proof -
  have "n AND 255 = n mod 256" for n :: nat
    using take_bit_eq_mask [of 8 n] by (simp add: take_bit_eq_mod mask_eq_exp_minus_1)
  then show ?thesis by (simp add: basic_next_ptr_def next_ptr_def UART_BUFFER_SIZE_def)
qed

lemma ring_buffer_size_eq: "unat (ring_buffer_size b) = rb_count b"
proof -
  have "n AND 255 = take_bit 8 n" for n :: int
    using take_bit_eq_mask [of 8 n] by (simp add: mask_eq_exp_minus_1)
  moreover have "word_of_int (take_bit 8 n) = (word_of_int n :: u8)" for n
    by (simp add: word_of_int_eq_iff)
  ultimately have "ring_buffer_size b = word_of_int (uint (write_ptr b) - uint (read_ptr b))"
    by (simp add: ring_buffer_size_def UART_BUFFER_SIZE_def)
  also have "\<dots> = write_ptr b - read_ptr b" by simp
  finally show ?thesis by (simp add: rb_count_def)
qed

lemma rb_list_length [simp]: "length (rb_list b) = rb_count b"
  by (simp add: rb_list_def)

lemma rb_count_bound: "rb_count b < UART_BUFFER_SIZE"
  using unsigned_less [of "write_ptr b - read_ptr b"] by (simp add: rb_count_def UART_BUFFER_SIZE_def)

lemma rb_count_0_iff: "rb_count b = 0 \<longleftrightarrow> read_ptr b = write_ptr b"
  by (auto simp: rb_count_def unat_eq_0)

lemma u8_offset:
  fixes p q :: u8
  shows "(unat q + unat (p - q)) mod 256 = unat p"
  using unat_word_ariths(1) [of q "p - q"] by simp

lemma u8_succ:
  fixes p :: u8
  assumes "p + 1 \<noteq> 0"
  shows "unat (p + 1) = unat p + 1"
  using assms by (metis add.commute unatSuc plus_1_eq_Suc)

lemma u8_minus_one: "unat (- 1 :: u8) = 255"
  by (simp add: unsigned_minus_1_eq_mask mask_eq_exp_minus_1)

lemma rb_full_iff: "next_ptr (write_ptr b) = read_ptr b \<longleftrightarrow> rb_count b = UART_BUFFER_SIZE - 1"
proof -
  have "next_ptr (write_ptr b) = read_ptr b \<longleftrightarrow> write_ptr b - read_ptr b = - 1"
    by (simp add: next_ptr_eq diff_eq_eq eq_diff_eq)
  also have "\<dots> \<longleftrightarrow> unat (write_ptr b - read_ptr b) = unat (- 1 :: u8)"
    by (rule word_unat_eq_iff)
  finally show ?thesis by (simp add: rb_count_def UART_BUFFER_SIZE_def u8_minus_one)
qed


lemma rb_count_write:
  assumes "next_ptr (write_ptr b) \<noteq> read_ptr b"
  shows "unat (next_ptr (write_ptr b) - read_ptr b) = Suc (rb_count b)"
proof -
  have "write_ptr b - read_ptr b + 1 \<noteq> 0" using assms by (simp add: next_ptr_eq algebra_simps)
  from u8_succ [OF this] show ?thesis by (simp add: rb_count_def next_ptr_eq algebra_simps)
qed

lemma rb_count_read:
  assumes "read_ptr b \<noteq> write_ptr b"
  shows "unat (write_ptr b - next_ptr (read_ptr b)) = rb_count b - 1"
proof -
  have "write_ptr b - next_ptr (read_ptr b) + 1 \<noteq> 0" using assms by (simp add: next_ptr_eq)
  from u8_succ [OF this] show ?thesis by (simp add: rb_count_def next_ptr_eq)
qed

lemma ring_buffer_write_full:
  "rb_count b = UART_BUFFER_SIZE - 1 \<Longrightarrow> ring_buffer_write b x = Some (False, b)"
  by (simp add: ring_buffer_write_def rb_full_iff)

lemma ring_buffer_write_room:
  assumes "rb_ok b" "rb_count b < UART_BUFFER_SIZE - 1"
  shows "\<exists>b'. ring_buffer_write b x = Some (True, b') \<and> rb_ok b' \<and> read_ptr b' = read_ptr b \<and>
    rb_list b' = rb_list b @ [x]"
proof -
  let ?b = "b\<lparr>rb_data := (rb_data b)[unat (write_ptr b) := x], write_ptr := next_ptr (write_ptr b)\<rparr>"
  from assms have room: "next_ptr (write_ptr b) \<noteq> read_ptr b" by (simp add: rb_full_iff)
  have len: "length (rb_data b) = 256" using assms by (simp add: rb_ok_def UART_BUFFER_SIZE_def)
  have idx: "unat (write_ptr b) < length (rb_data b)"
    using unsigned_less [of "write_ptr b"] len by simp
  have "unat (write_ptr b) = (unat (read_ptr b) + rb_count b) mod length (rb_data b)"
    using len by (simp add: rb_count_def u8_offset)
  moreover have "rb_count b < length (rb_data b)" using rb_count_bound len by (simp add: UART_BUFFER_SIZE_def)
  ultimately have "rb_list ?b = rb_list b @ [x]"
    using rb_count_write [OF room] ring_list_snoc [of "rb_count b" "rb_data b" "unat (read_ptr b)" x]
    by (simp add: rb_list_def rb_count_def)
  then show ?thesis using room idx assms(1)
    by (intro exI [of _ ?b]) (simp add: ring_buffer_write_def rb_ok_def)
qed

lemma ring_buffer_read_empty:
  "rb_list b = [] \<Longrightarrow> ring_buffer_read b = Some (False, None, b)"
  by (simp add: ring_buffer_read_def rb_list_def rb_count_0_iff)

lemma rb_front:
  assumes "rb_ok b" "rb_list b = x # xs"
  shows "read_ptr b \<noteq> write_ptr b" and "c_load (rb_data b) (unat (read_ptr b)) = Some x"
    and "rb_list (b\<lparr>read_ptr := next_ptr (read_ptr b)\<rparr>) = xs"
proof -
  from assms(2) have pos: "0 < rb_count b" using rb_list_length [of b] by (cases "rb_count b") auto
  then show ne: "read_ptr b \<noteq> write_ptr b" using rb_count_0_iff [of b] by simp
  have len: "length (rb_data b) = 256" using assms by (simp add: rb_ok_def UART_BUFFER_SIZE_def)
  have idx: "unat (read_ptr b) < length (rb_data b)"
    using unsigned_less [of "read_ptr b"] len by simp
  have "unat (next_ptr (read_ptr b)) = (unat (read_ptr b) + 1) mod length (rb_data b)"
    using len by (simp add: next_ptr_eq unat_word_ariths)
  with ring_list_Cons [OF pos idx] rb_count_read [OF ne] assms(2)
  show "c_load (rb_data b) (unat (read_ptr b)) = Some x"
    "rb_list (b\<lparr>read_ptr := next_ptr (read_ptr b)\<rparr>) = xs"
    using idx by (simp_all add: rb_list_def rb_count_def)
qed

lemma ring_buffer_read_front:
  assumes "rb_ok b" "rb_list b = x # xs"
  shows "\<exists>b'. ring_buffer_read b = Some (True, Some x, b') \<and> rb_ok b' \<and> rb_list b' = xs"
  using rb_front [OF assms] assms(1) by (simp add: ring_buffer_read_def rb_ok_def)

definition rb_enq :: "u8 \<Rightarrow> RingBuffer \<Rightarrow> RingBuffer option" where
  "rb_enq x b = (case ring_buffer_write b x of Some (True, b') \<Rightarrow> Some b' | _ \<Rightarrow> None)"

definition rb_deq :: "RingBuffer \<Rightarrow> (u8 \<times> RingBuffer) option" where
  "rb_deq b = (case ring_buffer_read b of Some (True, Some x, b') \<Rightarrow> Some (x, b') | _ \<Rightarrow> None)"

interpretation rb: bounded_fifo rb_list rb_ok "\<lambda>_. UART_BUFFER_SIZE - 1" rb_enq rb_deq
proof unfold_locales
  fix s :: RingBuffer and x y ys
  assume ok: "rb_ok s"
  show "length (rb_list s) \<le> UART_BUFFER_SIZE - 1"
    using rb_count_bound [of s] by (simp add: UART_BUFFER_SIZE_def)
  show "length (rb_list s) = UART_BUFFER_SIZE - 1 \<Longrightarrow> rb_enq x s = None"
    by (simp add: rb_enq_def ring_buffer_write_full)
  show "length (rb_list s) < UART_BUFFER_SIZE - 1 \<Longrightarrow> \<exists>t. rb_enq x s = Some t \<and> rb_ok t \<and>
      UART_BUFFER_SIZE - 1 = UART_BUFFER_SIZE - 1 \<and> rb_list t = rb_list s @ [x]"
    using ring_buffer_write_room [OF ok, of x] by (auto simp: rb_enq_def)
  show "rb_list s = [] \<Longrightarrow> rb_deq s = None" by (simp add: rb_deq_def ring_buffer_read_empty)
  show "rb_list s = y # ys \<Longrightarrow> \<exists>t. rb_deq s = Some (y, t) \<and> rb_ok t \<and>
      UART_BUFFER_SIZE - 1 = UART_BUFFER_SIZE - 1 \<and> rb_list t = ys"
    using ring_buffer_read_front [OF ok, of y ys] by (auto simp: rb_deq_def)
qed


text \<open>The masked variant is the same queue, and \<open>ring_buffer_size\<close> is its length.\<close>

lemma basic_ring_equivalent:
  "basic_write b x = ring_buffer_write b x \<and> basic_read b = ring_buffer_read b \<and>
   unat (ring_buffer_size b) = length (rb_list b)"
  by (simp add: basic_write_def ring_buffer_write_def basic_read_def ring_buffer_read_def
      basic_next_ptr_eq ring_buffer_size_eq)

subsection \<open>The handler between the accesses of the reader\<close>

text \<open>
  \<open>ring_buffer_read\<close> in three steps: the comparison of the indices, the load of the byte and the
  store of the index. The handler is not interrupted by itself, so it is one step, and it may
  come before each step of the reader. \<open>us_accepted\<close> and \<open>us_received\<close> record the bytes the
  handler has stored and the bytes the reader has returned.
\<close>

datatype uart_pc = RCompare | RLoad | RAdvance u8

record uart_sys =
  us_buf :: RingBuffer
  us_pc :: uart_pc
  us_accepted :: "u8 list"
  us_received :: "u8 list"

text \<open>The reader's next access in \<open>ring_buffer_read\<close>, called again and again; \<open>None\<close> is an access outside
  the array.\<close>

definition uart_reader :: "uart_sys \<Rightarrow> uart_sys option" where
  "uart_reader s =
     (let b = us_buf s in
      case us_pc s of
        RCompare \<Rightarrow> Some (if read_ptr b = write_ptr b then s else s\<lparr>us_pc := RLoad\<rparr>)
      | RLoad \<Rightarrow> do {
          x \<leftarrow> c_load (rb_data b) (unat (read_ptr b));
          Some (s\<lparr>us_pc := RAdvance x\<rparr>)
        }
      | RAdvance x \<Rightarrow> Some (s\<lparr>us_buf := b\<lparr>read_ptr := next_ptr (read_ptr b)\<rparr>, us_pc := RCompare,
          us_received := us_received s @ [x]\<rparr>))"

fun reader_runs :: "nat \<Rightarrow> uart_sys \<Rightarrow> uart_sys option" where
  "reader_runs 0 s = Some s"
| "reader_runs (Suc n) s = Option.bind (uart_reader s) (reader_runs n)"

inductive uart_step :: "uart_sys \<Rightarrow> uart_sys \<Rightarrow> bool" where
  isr: "uart_isr status d (us_buf s) = Some (stored, b') \<Longrightarrow>
    uart_step s (s\<lparr>us_buf := b', us_accepted := us_accepted s @ (if stored then [d] else [])\<rparr>)"
| reader: "uart_reader s = Some t \<Longrightarrow> uart_step s t"

inductive_cases uart_stepE: "uart_step s t"

definition uart_boot :: "RingBuffer \<Rightarrow> uart_sys" where
  "uart_boot b = \<lparr>us_buf = ring_buffer_init b, us_pc = RCompare, us_accepted = [], us_received = []\<rparr>"

definition uart_inv :: "uart_sys \<Rightarrow> bool" where
  "uart_inv s \<longleftrightarrow> rb_ok (us_buf s) \<and> us_accepted s = us_received s @ rb_list (us_buf s) \<and>
     (us_pc s = RLoad \<longrightarrow> rb_list (us_buf s) \<noteq> []) \<and>
     (\<forall>x. us_pc s = RAdvance x \<longrightarrow> (\<exists>xs. rb_list (us_buf s) = x # xs))"

text \<open>What the handler does, whatever the registers hold.\<close>

lemma uart_isr_cases:
  assumes "rb_ok b"
  obtains (stored) b' where "uart_isr status d b = Some (True, b')" "rb_ok b'"
      "rb_list b' = rb_list b @ [d]"
  | (dropped) "uart_isr status d b = Some (False, b)"
      "status AND UART_DATA_READY = 0 \<or> rb_count b = UART_BUFFER_SIZE - 1"
proof (cases "status AND UART_DATA_READY \<noteq> 0 \<and> rb_count b < UART_BUFFER_SIZE - 1")
  case True
  then show ?thesis using ring_buffer_write_room [OF assms, of d] stored by (auto simp: uart_isr_def)
next
  case False
  with rb_count_bound [of b] have "status AND UART_DATA_READY = 0 \<or> rb_count b = UART_BUFFER_SIZE - 1"
    by auto
  then show ?thesis using dropped ring_buffer_write_full [of b d] by (auto simp: uart_isr_def)
qed

lemma uart_inv_boot: "length (rb_data b) = UART_BUFFER_SIZE \<Longrightarrow> uart_inv (uart_boot b)"
  by (simp add: uart_inv_def uart_boot_def ring_buffer_init_def rb_ok_def rb_list_def rb_count_def)

text \<open>The reader's access stays inside the array and keeps the invariant; the third of them hands over the
  first waiting byte.\<close>

lemma uart_reader_ok:
  assumes "uart_inv s"
  obtains t where "uart_reader s = Some t" "uart_inv t" "us_accepted t = us_accepted s"
    "us_received t @ rb_list (us_buf t) = us_received s @ rb_list (us_buf s)"
proof (cases "us_pc s")
  case RCompare
  show ?thesis
  proof (rule that)
    show "uart_reader s = Some (if read_ptr (us_buf s) = write_ptr (us_buf s) then s else s\<lparr>us_pc := RLoad\<rparr>)"
      by (simp add: uart_reader_def RCompare Let_def)
  qed (use assms rb_count_0_iff [of "us_buf s"] in \<open>auto simp: uart_inv_def rb_list_def\<close>)
next
  case RLoad
  with assms obtain y ys where y: "rb_ok (us_buf s)" "rb_list (us_buf s) = y # ys"
    by (auto simp: uart_inv_def neq_Nil_conv)
  show ?thesis
    by (rule that [of "s\<lparr>us_pc := RAdvance y\<rparr>"])
      (use rb_front(2) [OF y] RLoad assms y in \<open>simp_all add: uart_reader_def uart_inv_def\<close>)
next
  case (RAdvance x)
  with assms obtain xs where xs: "rb_ok (us_buf s)" "rb_list (us_buf s) = x # xs" by (auto simp: uart_inv_def)
  show ?thesis
  proof (rule that)
    show "uart_reader s = Some (s\<lparr>us_buf := (us_buf s)\<lparr>read_ptr := next_ptr (read_ptr (us_buf s))\<rparr>, us_pc := RCompare,
        us_received := us_received s @ [x]\<rparr>)" by (simp add: uart_reader_def RAdvance Let_def)
  qed (use rb_front(3) [OF xs] xs assms in \<open>simp_all add: uart_inv_def rb_ok_def\<close>)
qed

lemma uart_inv_step:
  assumes "uart_step s t" "uart_inv s"
  shows "uart_inv t"
  using assms(1)
proof (cases rule: uart_step.cases)
  case (isr status d stored b')
  have ok: "rb_ok (us_buf s)" using assms(2) by (simp add: uart_inv_def)
  show ?thesis using isr assms(2)
    by (cases rule: uart_isr_cases [OF ok, of status d]) (auto simp: uart_inv_def)
next
  case reader
  then show ?thesis using uart_reader_ok [OF assms(2)] by (metis option.inject)
qed

text \<open>A waiting byte is handed over by at most three accesses of the reader.\<close>

lemma reader_delivers:
  assumes inv: "uart_inv s" and x: "rb_list (us_buf s) = x # xs"
  shows "\<exists>n\<le>3. \<exists>t. reader_runs n s = Some t \<and> us_received t = us_received s @ [x] \<and> rb_list (us_buf t) = xs"
proof -
  let ?adv = "\<lambda>s. s\<lparr>us_buf := (us_buf s)\<lparr>read_ptr := next_ptr (read_ptr (us_buf s))\<rparr>, us_pc := RCompare,
      us_received := us_received s @ [x]\<rparr>"
  have ok: "rb_ok (us_buf s)" using inv by (simp add: uart_inv_def)
  have ne: "read_ptr (us_buf s) \<noteq> write_ptr (us_buf s)"
    using x rb_count_0_iff [of "us_buf s"] by (auto simp: rb_list_def)
  have one: "us_pc u = RAdvance x \<Longrightarrow> uart_reader u = Some (?adv u)" for u
    by (simp add: uart_reader_def Let_def)
  have load: "uart_reader u = Some (u\<lparr>us_pc := RAdvance x\<rparr>)" if "us_pc u = RLoad" "us_buf u = us_buf s" for u
    using that rb_front(2) [OF ok x] by (simp add: uart_reader_def)
  have cmp: "us_pc s = RCompare \<Longrightarrow> uart_reader s = Some (s\<lparr>us_pc := RLoad\<rparr>)"
    using ne by (simp add: uart_reader_def Let_def)
  have out: "rb_list (us_buf (?adv u)) = xs" if "us_buf u = us_buf s" for u
    using that rb_front(3) [OF ok x] by simp
  show ?thesis
  proof (cases "us_pc s")
    case RCompare
    then show ?thesis using cmp load [of "s\<lparr>us_pc := RLoad\<rparr>"] one [of "s\<lparr>us_pc := RAdvance x\<rparr>"] out [of "s\<lparr>us_pc := RAdvance x\<rparr>"]
      by (intro exI [of _ 3]) (simp add: numeral_3_eq_3)
  next
    case RLoad
    then show ?thesis using load [of s] one [of "s\<lparr>us_pc := RAdvance x\<rparr>"] out [of "s\<lparr>us_pc := RAdvance x\<rparr>"]
      by (intro exI [of _ 2]) (simp add: numeral_2_eq_2)
  next
    case (RAdvance y)
    then have "y = x" using inv x by (simp add: uart_inv_def)
    then show ?thesis using RAdvance one [of s] out [of s] by (intro exI [of _ 1]) simp
  qed
qed

lemma uart_inv_steps: "uart_step\<^sup>*\<^sup>* s t \<Longrightarrow> uart_inv s \<Longrightarrow> uart_inv t"
  by (induction rule: rtranclp_induct) (auto intro: uart_inv_step)

text \<open>Without the handler in between, three accesses are \<open>ring_buffer_read\<close>.\<close>

lemma reader_runs_read:
  assumes "us_pc s = RCompare" "ring_buffer_read (us_buf s) = Some (True, Some x, b')"
  shows "reader_runs 3 s = Some (s\<lparr>us_buf := b', us_received := us_received s @ [x]\<rparr>)"
  using assms by (cases s) (auto simp: ring_buffer_read_def uart_reader_def numeral_3_eq_3 split: if_splits bind_splits)

text \<open>C12. The receive buffer loses no byte it has accepted, delivers none twice and keeps their
  order, although the signal handler may run between any two accesses of \<open>ring_buffer_read\<close>: in
  every reachable state the accepted bytes are the received ones followed by the buffer's. The
  handler never leaves the array, and refuses a ready byte exactly when 255 bytes are waiting. The
  reader's next access never leaves the array either and changes nothing of what was accepted, and
  as long as bytes are waiting at most three accesses of the reader hand over the first of them.\<close>

theorem uart_delivery_in_order:
  assumes "length (rb_data b) = UART_BUFFER_SIZE" "uart_step\<^sup>*\<^sup>* (uart_boot b) s"
  shows "us_accepted s = us_received s @ rb_list (us_buf s) \<and>
    (\<exists>stored b'. uart_isr status d (us_buf s) = Some (stored, b') \<and>
       (stored \<longleftrightarrow> status AND UART_DATA_READY \<noteq> 0 \<and> length (rb_list (us_buf s)) < 255)) \<and>
    (\<exists>t. uart_reader s = Some t \<and> us_accepted t = us_accepted s) \<and>
    (\<forall>x xs. rb_list (us_buf s) = x # xs \<longrightarrow>
       (\<exists>n\<le>3. \<exists>t. reader_runs n s = Some t \<and> us_received t = us_received s @ [x] \<and> rb_list (us_buf t) = xs))"
proof -
  have inv: "uart_inv s" by (rule uart_inv_steps [OF assms(2) uart_inv_boot [OF assms(1)]])
  then have ok: "rb_ok (us_buf s)" by (simp add: uart_inv_def)
  have "\<exists>stored b'. uart_isr status d (us_buf s) = Some (stored, b') \<and>
      (stored \<longleftrightarrow> status AND UART_DATA_READY \<noteq> 0 \<and> length (rb_list (us_buf s)) < 255)"
    using ring_buffer_write_room [OF ok, of d] ring_buffer_write_full [of "us_buf s" d]
      rb_count_bound [of "us_buf s"] by (force simp: uart_isr_def UART_BUFFER_SIZE_def)
  moreover have "\<exists>t. uart_reader s = Some t \<and> us_accepted t = us_accepted s"
    using uart_reader_ok [OF inv] by metis
  moreover have "us_accepted s = us_received s @ rb_list (us_buf s)" using inv by (simp add: uart_inv_def)
  ultimately show ?thesis using reader_delivers [OF inv] by blast
qed

definition empty_ring :: RingBuffer where
  "empty_ring = \<lparr>rb_data = replicate 256 0, write_ptr = 7, read_ptr = 3\<rparr>"

theorem uart_delivery_in_order_witness:
  "\<exists>s. uart_step (uart_boot empty_ring) s \<and> us_accepted s = [65] \<and>
    (\<exists>n\<le>3. \<exists>t. reader_runs n s = Some t \<and> us_received t = [65])"
proof -
  let ?s = "uart_boot empty_ring"
  obtain b' where b': "uart_isr 0x80 65 (us_buf ?s) = Some (True, b')"
    by (simp add: uart_boot_def empty_ring_def ring_buffer_init_def uart_isr_def UART_DATA_READY_def
        ring_buffer_write_def next_ptr_def UART_BUFFER_SIZE_def)
  let ?t = "?s\<lparr>us_buf := b', us_accepted := us_accepted ?s @ (if True then [65] else [])\<rparr>"
  have step: "uart_step ?s ?t" by (rule uart_step.isr [OF b'])
  have "length (rb_data empty_ring) = UART_BUFFER_SIZE" by (simp add: empty_ring_def UART_BUFFER_SIZE_def)
  note del = uart_delivery_in_order [OF this r_into_rtranclp [of uart_step, OF step], of 0 0]
  have t: "us_accepted ?t = [65]" "us_received ?t = []" by (simp_all add: uart_boot_def)
  with del have "rb_list (us_buf ?t) = 65 # []" by (simp only: append.simps)
  with del have "\<exists>n\<le>3. \<exists>t. reader_runs n ?t = Some t \<and> us_received t = us_received ?t @ [65]" by blast
  with step t show ?thesis by (intro exI [of _ ?t]) simp
qed

subsection \<open>The polling loop\<close>

lemma polls_waiting:
  assumes "rb_ok b" "rb_list b = x # xs" "0 < n"
  shows "\<exists>b'. getchar_polls sig n b = Some (True, Some x, b') \<and> rb_ok b' \<and> rb_list b' = xs"
  using ring_buffer_read_front [OF assms(1,2)] assms(3) by (cases n) auto

text \<open>The byte a signal brings, if its data register is ready.\<close>

definition ready_byte :: "(u8 \<times> u8) option \<Rightarrow> u8 list" where
  "ready_byte regs = (case regs of
     None \<Rightarrow> []
   | Some (status, d) \<Rightarrow> if status AND UART_DATA_READY \<noteq> 0 then [d] else [])"

lemma handler_on_empty:
  assumes "rb_ok b" "rb_list b = []"
  shows "\<exists>stored b'. uart_isr status d b = Some (stored, b') \<and> rb_ok b' \<and>
    rb_list b' = ready_byte (Some (status, d))"
proof (cases "status AND UART_DATA_READY = 0")
  case True
  then show ?thesis using assms by (auto simp: uart_isr_def ready_byte_def)
next
  case False
  moreover have "rb_count b < UART_BUFFER_SIZE - 1"
    using assms(2) by (simp add: rb_list_def UART_BUFFER_SIZE_def)
  ultimately show ?thesis using ring_buffer_write_room [OF assms(1), of d] assms(2)
    by (auto simp: uart_isr_def ready_byte_def)
qed

text \<open>Polling an empty buffer: silence as long as no signal brings a byte.\<close>

lemma polls_silent:
  assumes "rb_ok b" "rb_list b = []" "\<And>t. t < n \<Longrightarrow> ready_byte (sig t) = []"
  shows "\<exists>b'. getchar_polls sig n b = Some (False, None, b') \<and> rb_ok b' \<and> rb_list b' = []"
  using assms
proof (induction n arbitrary: b)
  case (Suc n)
  then show ?case
  proof (cases "sig n")
    case None
    then show ?thesis using Suc ring_buffer_read_empty [of b] by simp
  next
    case (Some regs)
    obtain st d where regs: "regs = (st, d)" by (cases regs)
    from handler_on_empty [OF Suc.prems(1,2), of st d] Suc.prems(3) [of n] Some regs
    obtain stored b' where "uart_isr st d b = Some (stored, b')" "rb_ok b'" "rb_list b' = []"
      by auto
    then show ?thesis using Suc.IH [of b'] Suc.prems Some regs ring_buffer_read_empty [of b] by simp
  qed
qed simp

text \<open>The signal that brings the first byte ends the call at the next poll, if there is one.\<close>

lemma polls_arrival:
  assumes "rb_ok b" "rb_list b = []" "t < n" "ready_byte (sig t) = [x]"
    and "\<And>u. t < u \<Longrightarrow> u < n \<Longrightarrow> ready_byte (sig u) = []"
  shows "\<exists>b'. getchar_polls sig n b = Some (if t = 0 then (False, None, b') else (True, Some x, b')) \<and>
    rb_ok b' \<and> rb_list b' = (if t = 0 then [x] else [])"
  using assms
proof (induction n arbitrary: b)
  case (Suc n)
  obtain stored b' where b': "(case sig n of None \<Rightarrow> getchar_polls sig n b
      | Some (status, d) \<Rightarrow> do { (stored, b'') \<leftarrow> uart_isr status d b; getchar_polls sig n b'' })
      = getchar_polls sig n b'" "rb_ok b'" "rb_list b' = ready_byte (sig n)"
  proof (cases "sig n")
    case None
    then show ?thesis using that [of b] Suc.prems(1,2) by (simp add: ready_byte_def)
  next
    case (Some regs)
    then show ?thesis using that handler_on_empty [OF Suc.prems(1,2), of "fst regs" "snd regs"]
      by (cases regs) auto
  qed
  have step: "getchar_polls sig (Suc n) b = getchar_polls sig n b'"
    using b'(1) ring_buffer_read_empty [OF Suc.prems(2)] by simp
  show ?case
  proof (cases "t = n")
    case True
    then show ?thesis using step b'(2,3) Suc.prems(4) polls_waiting [OF b'(2), of x "[]" n sig]
      by (cases n) auto
  next
    case False
    then have "rb_list b' = []" using b'(3) Suc.prems(3,5) by simp
    then show ?thesis using Suc.IH [OF b'(2)] Suc.prems False step by simp
  qed
qed simp


text \<open>What a call promises, on the list of waiting bytes: with time for a poll, the oldest waiting
  byte; otherwise the byte of the alarm's signal, which is asked for only by timeouts of a second
  and more, and which stays in the buffer when it comes after the last poll.\<close>

definition getchar_spec ::
  "(nat \<times> u8 \<times> u8) option \<Rightarrow> nat \<Rightarrow> u8 list \<Rightarrow> u8 option \<times> u8 list" where
  "getchar_spec arrival timeout xs =
     (if timeout = 0 then (None, xs)
      else (case xs of
         x # ys \<Rightarrow> (Some x, ys)
       | [] \<Rightarrow> (case arrival of
            None \<Rightarrow> (None, [])
          | Some (t, regs) \<Rightarrow>
              if timeout < 1000 \<or> timeout \<le> t \<or> ready_byte (Some regs) = [] then (None, [])
              else if t = 0 then (None, ready_byte (Some regs))
              else (Some (hd (ready_byte (Some regs))), []))))"

lemma ready_byte_cases:
  "ready_byte regs = [] \<or> (\<exists>d. ready_byte regs = [d])"
  by (auto simp: ready_byte_def split: option.splits)

lemma alarm_signal_eq:
  "ready_byte (alarm_signal secs arrival u) =
     (case arrival of None \<Rightarrow> [] | Some (t, regs) \<Rightarrow>
        if secs \<noteq> 0 \<and> u = t then ready_byte (Some regs) else [])"
  by (cases arrival) (auto simp: alarm_signal_def ready_byte_def)

lemma uart_getchar_spec:
  assumes ok: "rb_ok b"
  shows "\<exists>x b'. uart_getchar arrival timeout_ms b = Some (x \<noteq> None, x, b') \<and> rb_ok b' \<and>
    (x, rb_list b') = getchar_spec arrival (unat timeout_ms) (rb_list b)"
proof (cases "rb_list b")
  case (Cons x xs)
  then show ?thesis using polls_waiting [OF ok Cons] ok
    by (cases "unat timeout_ms = 0") (auto simp: uart_getchar_def getchar_spec_def)
next
  case Nil
  let ?n = "unat timeout_ms" and ?sig = "alarm_signal (unat timeout_ms div 1000) arrival"
  show ?thesis
  proof (cases "\<forall>t < ?n. ready_byte (?sig t) = []")
    case True
    then have "getchar_spec arrival ?n [] = (None, [])"
    proof (cases arrival)
      case (Some a)
      then obtain t regs where a: "arrival = Some (t, regs)" by (cases a) simp
      with True have "?n < 1000 \<or> ?n \<le> t \<or> ready_byte (Some regs) = []"
        by (auto simp: alarm_signal_eq div_greater_zero_iff dest!: spec [of _ t])
      then show ?thesis using a by (auto simp: getchar_spec_def)
    qed (simp add: getchar_spec_def)
    then show ?thesis using polls_silent [OF ok Nil, of ?n ?sig] True Nil
      by (auto simp: uart_getchar_def)
  next
    case False
    then obtain t d where t: "t < ?n" "ready_byte (?sig t) = [d]"
      by (metis ready_byte_cases)
    then obtain regs where regs: "arrival = Some (t, regs)" "ready_byte (Some regs) = [d]"
      "?n div 1000 \<noteq> 0" by (auto simp: alarm_signal_eq split: option.splits if_splits)
    have quiet: "ready_byte (?sig u) = []" if "t < u" for u
      using that regs(1) by (simp add: alarm_signal_eq)
    have "getchar_spec arrival ?n [] = (if t = 0 then (None, [d]) else (Some d, []))"
      using t(1) regs by (simp add: getchar_spec_def div_greater_zero_iff)
    then show ?thesis using polls_arrival [of b t ?n ?sig d, OF ok Nil t quiet] Nil by (auto simp: uart_getchar_def)
  qed
qed

text \<open>\<open>uart_getchar\<close> returns for every timeout and every moment of the signal, stays inside
  the buffer and does what its specification on lists says: the oldest waiting byte is taken, a
  byte brought by the signal is returned at the next poll or left for the next call, and
  otherwise the call times out.\<close>

theorem uart_getchar_refines:
  assumes "length (rb_data b) = UART_BUFFER_SIZE"
  shows "map_option (\<lambda>(found, x, b'). (found, x, rb_list b')) (uart_getchar arrival timeout_ms b) =
    (case getchar_spec arrival (unat timeout_ms) (rb_list b) of
       (x, xs) \<Rightarrow> Some (x \<noteq> None, x, xs))"
proof -
  obtain x b' where "uart_getchar arrival timeout_ms b = Some (x \<noteq> None, x, b')"
    "getchar_spec arrival (unat timeout_ms) (rb_list b) = (x, rb_list b')"
    using uart_getchar_spec [of b arrival timeout_ms] assms by (auto simp: rb_ok_def)
  then show ?thesis by simp
qed

theorem uart_getchar_refines_witness:
  "map_option (\<lambda>(found, x, b'). (found, x, rb_list b'))
      (uart_getchar (Some (5, 0x80, 65)) 1000 (ring_buffer_init empty_ring)) = Some (True, Some 65, [])"
proof -
  have "length (rb_data (ring_buffer_init empty_ring)) = UART_BUFFER_SIZE"
    by (simp add: empty_ring_def UART_BUFFER_SIZE_def ring_buffer_init_def)
  from uart_getchar_refines [OF this, of "Some (5, 0x80, 65)" 1000] show ?thesis
    by (simp add: getchar_spec_def ready_byte_def UART_DATA_READY_def rb_list_def rb_count_def
        ring_buffer_init_def)
qed

text \<open>A call with a timeout below one second can receive nothing that is not in the buffer
  already: \<open>alarm(timeout_ms / 1000)\<close> is then \<open>alarm(0)\<close>, the signal that runs the handler is
  never sent, and the call times out whatever the device offers.\<close>

theorem short_timeout_hears_nothing:
  assumes "length (rb_data b) = UART_BUFFER_SIZE" "rb_list b = []" "timeout_ms < 1000"
  shows "uart_getchar arrival timeout_ms b = Some (False, None, b)"
proof -
  have "unat timeout_ms < 1000" using assms(3) by (simp add: word_less_nat_alt)
  then have sig: "alarm_signal (unat timeout_ms div 1000) arrival = (\<lambda>_. None)"
    by (auto simp: alarm_signal_def split: option.splits)
  have "getchar_polls (\<lambda>_. None) n b = Some (False, None, b)" for n
    by (induction n) (simp_all add: ring_buffer_read_empty [OF assms(2)])
  then show ?thesis by (simp add: uart_getchar_def sig)
qed

theorem short_timeout_hears_nothing_witness:
  "uart_getchar (Some (5, 0x80, 65)) 999 (ring_buffer_init empty_ring) =
     Some (False, None, ring_buffer_init empty_ring)"
  by (rule short_timeout_hears_nothing)
    (simp_all add: empty_ring_def UART_BUFFER_SIZE_def ring_buffer_init_def rb_list_def rb_count_def)

subsection \<open>The program\<close>

definition offered :: "(nat \<times> u8 \<times> u8) option list \<Rightarrow> u8 list" where
  "offered arrivals = concat (map (\<lambda>a. ready_byte (map_option snd a)) arrivals)"

lemma getchar_spec_short:
  assumes "length xs \<le> 1" "getchar_spec a 1000 xs = (x, ys)"
  shows "length ys \<le> 1 \<and> (\<exists>zs. (zs = [] \<or> zs = ready_byte (map_option snd a)) \<and>
    (case x of None \<Rightarrow> [] | Some y \<Rightarrow> [y]) @ ys = xs @ zs)"
proof (cases xs)
  case (Cons y zs)
  then have "x = Some y" "ys = zs" "zs = []" using assms by (simp_all add: getchar_spec_def)
  then show ?thesis using Cons by (intro conjI exI [of _ "[]"]) simp_all
next
  case Nil
  show ?thesis
  proof (cases a)
    case None
    then show ?thesis using assms Nil by (simp add: getchar_spec_def)
  next
    case (Some p)
    obtain t regs where p: "p = (t, regs)" by (cases p)
    have "length (ready_byte (Some regs)) \<le> 1"
      "ready_byte (Some regs) \<noteq> [] \<Longrightarrow> ready_byte (Some regs) = [hd (ready_byte (Some regs))]"
      using ready_byte_cases [of "Some regs"] by auto
    then show ?thesis
      using assms(2) Nil Some p by (auto simp: getchar_spec_def split: if_splits)
  qed
qed

lemma uart_rounds_in_order:
  assumes "rb_ok b" "length (rb_list b) \<le> 1"
  shows "\<exists>outs b'. uart_main_rounds as b = Some (outs, b') \<and> rb_ok b' \<and> length outs = length as \<and>
    length (rb_list b') \<le> 1 \<and> subseq (List.map_filter id outs @ rb_list b') (rb_list b @ offered as)"
  using assms
proof (induction as arbitrary: b)
  case Nil
  then show ?case by (simp add: offered_def map_filter_def)
next
  case (Cons a as)
  obtain x b1 where b1: "uart_getchar a 1000 b = Some (x \<noteq> None, x, b1)" "rb_ok b1"
    "getchar_spec a 1000 (rb_list b) = (x, rb_list b1)"
    using uart_getchar_spec [OF Cons.prems(1), of a 1000] by auto
  from getchar_spec_short [OF Cons.prems(2) b1(3)] obtain zs where
    len: "length (rb_list b1) \<le> 1" and zs: "zs = [] \<or> zs = ready_byte (map_option snd a)"
    "(case x of None \<Rightarrow> [] | Some y \<Rightarrow> [y]) @ rb_list b1 = rb_list b @ zs" by blast
  from Cons.IH [OF b1(2) len] obtain outs b' where b': "uart_main_rounds as b1 = Some (outs, b')"
    "rb_ok b'" "length outs = length as" "length (rb_list b') \<le> 1"
    "subseq (List.map_filter id outs @ rb_list b') (rb_list b1 @ offered as)" by blast
  let ?out = "case x of None \<Rightarrow> [] | Some y \<Rightarrow> [y]"
  have "subseq (?out @ List.map_filter id outs @ rb_list b') (?out @ rb_list b1 @ offered as)"
    using b'(5) by (simp only: subseq_append')
  also have "?out @ rb_list b1 @ offered as = rb_list b @ zs @ offered as"
    using zs(2) by (metis append.assoc)
  also have "subseq \<dots> (rb_list b @ offered (a # as))"
    using zs(1) unfolding subseq_append' by (auto simp: offered_def intro: list_emb_append2)
  finally show ?case using b1(1) b'
    by (cases x) (simp_all add: map_filter_simps id_def)
qed

lemma uart_main_prints_in_order:
  assumes "length (rb_data b) = UART_BUFFER_SIZE"
  shows "\<exists>outs b'. uart_main arrivals b = Some (outs, b') \<and> length outs = length arrivals \<and>
    subseq (List.map_filter id outs) (offered arrivals)"
proof -
  let ?b = "ring_buffer_init b"
  have "rb_ok ?b" "rb_list ?b = []"
    using assms by (simp_all add: rb_ok_def ring_buffer_init_def rb_list_def rb_count_def)
  with uart_rounds_in_order [of ?b arrivals] obtain outs b' where
    "uart_main_rounds arrivals ?b = Some (outs, b')" "length outs = length arrivals"
    "subseq (List.map_filter id outs @ rb_list b') (offered arrivals)" by auto
  moreover have "subseq (List.map_filter id outs) (List.map_filter id outs @ rb_list b')"
    by (rule list_emb_prefix) simp
  ultimately show ?thesis unfolding uart_main_def by (metis subseq_order.order_trans)
qed

end
