(* ===== verification/Cache_Hierarchy.thy ===== *)
theory Cache_Hierarchy
  imports Prelude
begin

unbundle bit_operations_syntax

text \<open>
  The two-level cache of \<open>memory/cache/Two-Level-Cache-System.c\<close>.

  Addresses, tags, indices and counters are \<open>uint32_t\<close>, hence \<open>32 word\<close>s: the sums and the
  counters wrap as in the code. The arrays are lists behind checked accesses, and an access that
  would leave one has the result \<open>None\<close>. \<open>memory_access\<close> only prints in the source; here its
  result says which message it prints and what its local buffer \<open>data\<close> holds then.

  Shown here: every block a cache holds is the block of main memory, every block in the first
  level is in the second as well, an access gives the block of its address, and the bounds check
  of the miss path wraps around for the last eight addresses.
\<close>

subsection \<open>Data and operations\<close>

definition L1_CACHE_SIZE :: u32 where
  "L1_CACHE_SIZE = 64"

definition L2_CACHE_SIZE :: u32 where
  "L2_CACHE_SIZE = 256"

definition MAIN_MEMORY_SIZE :: u32 where
  "MAIN_MEMORY_SIZE = 8192"

definition LINE_BYTES :: u32 where
  "LINE_BYTES = 8"

record CacheLine =
  cl_tag :: u32
  cl_data :: "u8 list"
  cl_valid :: bool

record cache_sys =
  l1_cache :: "CacheLine list"
  l2_cache :: "CacheLine list"
  main_memory :: "u8 list"
  l1_hits :: u32
  l1_misses :: u32
  l2_hits :: u32
  l2_misses :: u32

definition calculate_tag :: "u32 \<Rightarrow> u32 \<Rightarrow> u32" where
  "calculate_tag address cache_size = address div LINE_BYTES div cache_size"

definition calculate_index :: "u32 \<Rightarrow> u32 \<Rightarrow> u32" where
  "calculate_index address cache_size = (address div LINE_BYTES) mod cache_size"

text \<open>The inner option is the result of the function, with the buffer it has filled.\<close>

definition check_cache :: "CacheLine list \<Rightarrow> u32 \<Rightarrow> u32 \<Rightarrow> u8 list option option" where
  "check_cache cache cache_size address =
     (let tag = calculate_tag address cache_size; index = calculate_index address cache_size in
      do {
        line \<leftarrow> c_load cache (unat index);
        if cl_valid line \<and> cl_tag line = tag then Some (Some (cl_data line)) else Some None
      })"

definition update_cache ::
  "CacheLine list \<Rightarrow> u32 \<Rightarrow> u32 \<Rightarrow> u8 list \<Rightarrow> CacheLine list option" where
  "update_cache cache cache_size address data =
     (let tag = calculate_tag address cache_size; index = calculate_index address cache_size in
      do {
        line \<leftarrow> c_load cache (unat index);
        c_store cache (unat index) (line\<lparr>cl_tag := tag, cl_data := data, cl_valid := True\<rparr>)
      })"

text \<open>\<open>memcpy\<close> of one block out of main memory.\<close>

definition copy_block :: "u8 list \<Rightarrow> nat \<Rightarrow> u8 list option" where
  "copy_block mem start = c_slice mem start (unat LINE_BYTES)"

datatype access_result = L1_Hit "u8 list" | L2_Hit "u8 list" | Memory_Access "u8 list" | Out_Of_Bounds

definition memory_access :: "u32 \<Rightarrow> cache_sys \<Rightarrow> (access_result \<times> cache_sys) option" where
  "memory_access address s = do {
     r1 \<leftarrow> check_cache (l1_cache s) L1_CACHE_SIZE address;
     case r1 of
       Some data \<Rightarrow> Some (L1_Hit data, s\<lparr>l1_hits := l1_hits s + 1\<rparr>)
     | None \<Rightarrow> do {
         r2 \<leftarrow> check_cache (l2_cache s) L2_CACHE_SIZE address;
         case r2 of
           Some data \<Rightarrow> do {
             c1 \<leftarrow> update_cache (l1_cache s) L1_CACHE_SIZE address data;
             Some (L2_Hit data, s\<lparr>l2_hits := l2_hits s + 1, l1_cache := c1\<rparr>)
           }
         | None \<Rightarrow>
             (let s = s\<lparr>l2_misses := l2_misses s + 1\<rparr>;
                  block_start = address AND NOT (LINE_BYTES - 1) in
              if block_start + LINE_BYTES \<le> MAIN_MEMORY_SIZE then do {
                data \<leftarrow> copy_block (main_memory s) (unat block_start);
                c2 \<leftarrow> update_cache (l2_cache s) L2_CACHE_SIZE address data;
                c1 \<leftarrow> update_cache (l1_cache s) L1_CACHE_SIZE address data;
                Some (Memory_Access data, s\<lparr>l2_cache := c2, l1_cache := c1\<rparr>)
              } else Some (Out_Of_Bounds, s))
       }
   }"

fun access_all :: "u32 list \<Rightarrow> cache_sys \<Rightarrow> (access_result list \<times> cache_sys) option" where
  "access_all [] s = Some ([], s)"
| "access_all (a # as) s = do {
     (r, s) \<leftarrow> memory_access a s;
     (rs, s) \<leftarrow> access_all as s;
     Some (r # rs, s)
   }"

definition invalid_line :: CacheLine where
  "invalid_line = \<lparr>cl_tag = 0, cl_data = replicate 8 0, cl_valid = False\<rparr>"

text \<open>The state before the first access: the globals are zero, then \<open>main\<close> fills the memory
  and clears the valid flags.\<close>

definition cache_start :: cache_sys where
  "cache_start =
     \<lparr>l1_cache = replicate (unat L1_CACHE_SIZE) invalid_line,
      l2_cache = replicate (unat L2_CACHE_SIZE) invalid_line,
      main_memory = map (\<lambda>i. of_nat (i AND 0xFF)) [0..<unat MAIN_MEMORY_SIZE],
      l1_hits = 0, l1_misses = 0, l2_hits = 0, l2_misses = 0\<rparr>"

definition two_level_main :: "(access_result list \<times> cache_sys) option" where
  "two_level_main = access_all [0x100, 0x101, 0x200, 0x100] cache_start"

subsection \<open>What a cache holds\<close>

lemmas cache_sizes = L1_CACHE_SIZE_def L2_CACHE_SIZE_def MAIN_MEMORY_SIZE_def LINE_BYTES_def

definition block_of :: "u32 \<Rightarrow> nat" where
  "block_of a = unat a div 8"

definition mem_block :: "u8 list \<Rightarrow> nat \<Rightarrow> u8 list" where
  "mem_block mem b = take 8 (drop (8 * b) mem)"

text \<open>Block number \<open>b\<close> is in a cache of \<open>n\<close> lines.\<close>

definition holds :: "CacheLine list \<Rightarrow> nat \<Rightarrow> nat \<Rightarrow> bool" where
  "holds c n b \<longleftrightarrow> cl_valid (c ! (b mod n)) \<and> unat (cl_tag (c ! (b mod n))) = b div n"

definition coherent :: "u8 list \<Rightarrow> CacheLine list \<Rightarrow> nat \<Rightarrow> bool" where
  "coherent mem c n \<longleftrightarrow> length c = n \<and>
     (\<forall>b. holds c n b \<longrightarrow> b < 1024 \<and> cl_data (c ! (b mod n)) = mem_block mem b)"

definition cache_ok :: "cache_sys \<Rightarrow> bool" where
  "cache_ok s \<longleftrightarrow> length (main_memory s) = 8192 \<and>
     coherent (main_memory s) (l1_cache s) 64 \<and> coherent (main_memory s) (l2_cache s) 256 \<and>
     (\<forall>b. holds (l1_cache s) 64 b \<longrightarrow> holds (l2_cache s) 256 b)"

lemma unat_tag:
  "unat (calculate_tag a sz) = block_of a div unat sz"
  "unat (calculate_index a sz) = block_of a mod unat sz"
  by (simp_all add: calculate_tag_def calculate_index_def block_of_def unat_div_distrib
      unat_mod_distrib LINE_BYTES_def)

lemma check_cache_holds:
  assumes "length c = unat sz" "0 < unat sz"
  shows "check_cache c sz a =
    Some (if holds c (unat sz) (block_of a) then Some (cl_data (c ! (block_of a mod unat sz))) else None)"
  using assms by (simp add: check_cache_def holds_def unat_tag word_unat_eq_iff)

text \<open>Filling a line puts its block in and pushes out what shared its index, and nothing else.\<close>

lemma update_cache_holds:
  assumes "length c = unat sz" "0 < unat sz"
  shows "\<exists>c'. update_cache c sz a d = Some c' \<and> length c' = unat sz \<and>
    (\<forall>b. holds c' (unat sz) b \<longleftrightarrow>
       (if b mod unat sz = block_of a mod unat sz then b = block_of a else holds c (unat sz) b)) \<and>
    (\<forall>i. i \<noteq> block_of a mod unat sz \<longrightarrow> c' ! i = c ! i) \<and>
    cl_data (c' ! (block_of a mod unat sz)) = d"
proof -
  let ?i = "block_of a mod unat sz"
  let ?l = "(c ! ?i)\<lparr>cl_tag := calculate_tag a sz, cl_data := d, cl_valid := True\<rparr>"
  have i: "?i < length c" using assms by simp
  have "b = block_of a \<longleftrightarrow> b div unat sz = block_of a div unat sz"
    if "b mod unat sz = ?i" for b
    using that by (metis div_mult_mod_eq)
  then have "holds (c[?i := ?l]) (unat sz) b \<longleftrightarrow>
      (if b mod unat sz = ?i then b = block_of a else holds c (unat sz) b)" for b
    using i by (auto simp: holds_def unat_tag)
  then show ?thesis using i assms(1)
    by (intro exI [of _ "c[?i := ?l]"]) (simp add: update_cache_def unat_tag)
qed

text \<open>\<open>c'\<close> is \<open>c\<close> after block \<open>b\<close> of the memory has been put in.\<close>

definition fills :: "u8 list \<Rightarrow> CacheLine list \<Rightarrow> nat \<Rightarrow> nat \<Rightarrow> CacheLine list \<Rightarrow> bool" where
  "fills mem c n b c' \<longleftrightarrow> coherent mem c' n \<and>
     (\<forall>b'. holds c' n b' \<longleftrightarrow> (if b' mod n = b mod n then b' = b else holds c n b'))"

lemma update_coherent:
  assumes "coherent mem c (unat sz)" "0 < unat sz" "block_of a < 1024"
  shows "\<exists>c'. update_cache c sz a (mem_block mem (block_of a)) = Some c' \<and>
    fills mem c (unat sz) (block_of a) c'"
proof -
  have len: "length c = unat sz" using assms(1) by (simp add: coherent_def)
  from update_cache_holds [OF len assms(2), of a "mem_block mem (block_of a)"]
  obtain c' where c': "update_cache c sz a (mem_block mem (block_of a)) = Some c'"
    "length c' = unat sz"
    "\<And>b. holds c' (unat sz) b \<longleftrightarrow>
       (if b mod unat sz = block_of a mod unat sz then b = block_of a else holds c (unat sz) b)"
    "\<And>i. i \<noteq> block_of a mod unat sz \<Longrightarrow> c' ! i = c ! i"
    "cl_data (c' ! (block_of a mod unat sz)) = mem_block mem (block_of a)" by metis
  have "coherent mem c' (unat sz)"
    unfolding coherent_def
  proof (intro conjI allI impI)
    fix b assume b: "holds c' (unat sz) b"
    show "b < 1024" "cl_data (c' ! (b mod unat sz)) = mem_block mem b"
      using b c'(3) [of b] c'(4) [of "b mod unat sz"] c'(5) assms(1,3)
      by (auto simp: coherent_def split: if_splits)
  qed (rule c'(2))
  then show ?thesis using c'(1,3) by (auto simp: fills_def)
qed

lemma u32_bound: "unat (a :: u32) < 2 ^ 32"
  using unsigned_less [of a] by simp

lemma unat_block_start: "unat (a AND NOT (LINE_BYTES - 1)) = 8 * block_of a"
proof -
  have "a AND NOT (mask 3) = push_bit 3 (drop_bit 3 a)"
    by (rule bit_eqI) (auto simp: bit_simps)
  moreover have "LINE_BYTES - 1 = mask 3" by (simp add: LINE_BYTES_def mask_eq_exp_minus_1)
  moreover have "unat (push_bit 3 (drop_bit 3 a)) = 8 * block_of a"
  proof -
    have "unat (push_bit 3 (drop_bit 3 a)) = take_bit 32 (8 * (unat a div 8))"
      unfolding unsigned_push_bit_eq unsigned_drop_bit_eq
      by (simp add: drop_bit_eq_div push_bit_eq_mult mult.commute take_bit_nat_eq_self [OF u32_bound])
    moreover have "8 * (unat a div 8) < 2 ^ 32"
      using u32_bound [of a] by linarith
    ultimately show ?thesis by (simp add: block_of_def take_bit_nat_eq_self)
  qed
  ultimately show ?thesis by simp
qed

text \<open>The bounds check is exact up to the last block of the address space, where the sum wraps.\<close>

lemma bounds_check:
  "(a AND NOT (LINE_BYTES - 1)) + LINE_BYTES \<le> MAIN_MEMORY_SIZE \<longleftrightarrow>
     block_of a < 1024 \<or> block_of a = 2 ^ 29 - 1"
proof -
  have b: "block_of a < 2 ^ 29" using u32_bound [of a] by (simp add: block_of_def less_mult_imp_div_less)
  have "unat ((a AND NOT (LINE_BYTES - 1)) + LINE_BYTES) = (8 * block_of a + 8) mod 2 ^ 32"
    unfolding unat_word_ariths unat_block_start by (simp add: LINE_BYTES_def)
  moreover have "(8 * block_of a + 8) mod 2 ^ 32 = (if block_of a = 2 ^ 29 - 1 then 0 else 8 * block_of a + 8)"
  proof (cases "block_of a = 2 ^ 29 - 1")
    case False
    then have "8 * block_of a + 8 < 2 ^ 32" using b by simp
    then show ?thesis using False by simp
  qed (simp only:, simp)
  ultimately show ?thesis by (auto simp: word_le_nat_alt MAIN_MEMORY_SIZE_def)
qed

lemma copy_mem_block:
  assumes "length mem = 8192"
  shows "copy_block mem (8 * b) = (if b < 1024 then Some (mem_block mem b) else None)"
  using assms by (auto simp: copy_block_def mem_block_def LINE_BYTES_def)

text \<open>The two lookups and the two updates in a well-formed state.\<close>

lemma cache_ok_lookups:
  assumes "cache_ok s"
  shows "check_cache (l1_cache s) L1_CACHE_SIZE a =
      Some (if holds (l1_cache s) 64 (block_of a) then Some (mem_block (main_memory s) (block_of a)) else None)"
    and "check_cache (l2_cache s) L2_CACHE_SIZE a =
      Some (if holds (l2_cache s) 256 (block_of a) then Some (mem_block (main_memory s) (block_of a)) else None)"
    and "holds (l1_cache s) 64 b \<Longrightarrow> holds (l2_cache s) 256 b"
    and "holds (l2_cache s) 256 b \<Longrightarrow> b < 1024"
    and "length (main_memory s) = 8192"
  using assms check_cache_holds [of "l1_cache s" L1_CACHE_SIZE a]
    check_cache_holds [of "l2_cache s" L2_CACHE_SIZE a]
  by (auto simp: cache_ok_def coherent_def cache_sizes)

lemma cache_ok_updates:
  assumes "cache_ok s" "block_of a < 1024"
  obtains c1 c2 where
    "update_cache (l1_cache s) L1_CACHE_SIZE a (mem_block (main_memory s) (block_of a)) = Some c1"
    "fills (main_memory s) (l1_cache s) 64 (block_of a) c1"
    "update_cache (l2_cache s) L2_CACHE_SIZE a (mem_block (main_memory s) (block_of a)) = Some c2"
    "fills (main_memory s) (l2_cache s) 256 (block_of a) c2"
  using assms update_coherent [of "main_memory s" "l1_cache s" L1_CACHE_SIZE a]
    update_coherent [of "main_memory s" "l2_cache s" L2_CACHE_SIZE a]
  by (auto simp: cache_ok_def cache_sizes)

text \<open>What an access does to a well-formed state, on its branches.\<close>

lemma memory_access_cases:
  fixes a :: u32
  assumes ok: "cache_ok s"
  defines "b \<equiv> block_of a"
  shows "holds (l1_cache s) 64 b \<Longrightarrow>
      memory_access a s = Some (L1_Hit (mem_block (main_memory s) b), s\<lparr>l1_hits := l1_hits s + 1\<rparr>)"
    and "\<not> holds (l1_cache s) 64 b \<Longrightarrow> holds (l2_cache s) 256 b \<Longrightarrow>
      \<exists>c1. memory_access a s = Some (L2_Hit (mem_block (main_memory s) b),
          s\<lparr>l2_hits := l2_hits s + 1, l1_cache := c1\<rparr>) \<and>
        fills (main_memory s) (l1_cache s) 64 b c1"
    and "\<not> holds (l2_cache s) 256 b \<Longrightarrow> b < 1024 \<Longrightarrow>
      \<exists>c1 c2. memory_access a s = Some (Memory_Access (mem_block (main_memory s) b),
          s\<lparr>l2_misses := l2_misses s + 1, l2_cache := c2, l1_cache := c1\<rparr>) \<and>
        fills (main_memory s) (l1_cache s) 64 b c1 \<and> fills (main_memory s) (l2_cache s) 256 b c2"
    and "1024 \<le> b \<Longrightarrow> memory_access a s =
      (if b = 2 ^ 29 - 1 then None else Some (Out_Of_Bounds, s\<lparr>l2_misses := l2_misses s + 1\<rparr>))"
proof -
  note look = cache_ok_lookups(1,2) [OF ok, of a, folded b_def] cache_ok_lookups(3-5) [OF ok]
  note start = unat_block_start [of a, folded b_def] bounds_check [of a, folded b_def]
    copy_mem_block [OF look(5)]
  show "holds (l1_cache s) 64 b \<Longrightarrow>
      memory_access a s = Some (L1_Hit (mem_block (main_memory s) b), s\<lparr>l1_hits := l1_hits s + 1\<rparr>)"
    by (simp add: memory_access_def look(1))
  show "\<exists>c1. memory_access a s = Some (L2_Hit (mem_block (main_memory s) b),
          s\<lparr>l2_hits := l2_hits s + 1, l1_cache := c1\<rparr>) \<and> fills (main_memory s) (l1_cache s) 64 b c1"
    if "\<not> holds (l1_cache s) 64 b" "holds (l2_cache s) 256 b"
  proof -
    from that(2) have small: "b < 1024" by (rule look(4))
    obtain c1 where "update_cache (l1_cache s) L1_CACHE_SIZE a (mem_block (main_memory s) b) = Some c1"
      "fills (main_memory s) (l1_cache s) 64 b c1"
      using cache_ok_updates [OF ok, of a, folded b_def, OF small] by blast
    then show ?thesis using that by (intro exI [of _ c1]) (simp add: memory_access_def look(1,2))
  qed
  show "\<exists>c1 c2. memory_access a s = Some (Memory_Access (mem_block (main_memory s) b),
          s\<lparr>l2_misses := l2_misses s + 1, l2_cache := c2, l1_cache := c1\<rparr>) \<and>
        fills (main_memory s) (l1_cache s) 64 b c1 \<and> fills (main_memory s) (l2_cache s) 256 b c2"
    if "\<not> holds (l2_cache s) 256 b" "b < 1024"
  proof -
    note small = that(2)
    obtain c1 c2 where c: "update_cache (l1_cache s) L1_CACHE_SIZE a (mem_block (main_memory s) b) = Some c1"
      "fills (main_memory s) (l1_cache s) 64 b c1"
      "update_cache (l2_cache s) L2_CACHE_SIZE a (mem_block (main_memory s) b) = Some c2"
      "fills (main_memory s) (l2_cache s) 256 b c2"
      using cache_ok_updates [OF ok, of a, folded b_def, OF small] by blast
    moreover have "\<not> holds (l1_cache s) 64 b" using look(3) that(1) by blast
    ultimately show ?thesis using that
      by (intro exI [of _ c1] exI [of _ c2]) (simp add: memory_access_def look(1,2) start)
  qed
  show "memory_access a s =
      (if b = 2 ^ 29 - 1 then None else Some (Out_Of_Bounds, s\<lparr>l2_misses := l2_misses s + 1\<rparr>))"
    if "1024 \<le> b"
  proof -
    have "\<not> holds (l2_cache s) 256 b" "\<not> holds (l1_cache s) 64 b"
      using look(3,4) that by (meson not_le)+
    moreover have "copy_block (main_memory s) 4294967288 = None" using start(3) [of 536870911] by simp
    ultimately show ?thesis using that by (simp add: memory_access_def look(1,2) start)
  qed
qed

text \<open>Putting a block into both levels, or into the first when the second has it, keeps the first
  level inside the second: blocks that share a line of the second share one of the first.\<close>

lemma mod_256_64: "x mod 256 = y mod 256 \<Longrightarrow> x mod 64 = y mod (64 :: nat)"
proof -
  assume "x mod 256 = y mod 256"
  then have "x mod 256 mod 64 = y mod 256 mod 64" by simp
  then show ?thesis by (simp add: mod_mod_cancel)
qed

lemma cache_ok_step:
  assumes ok: "cache_ok s" and acc: "memory_access a s = Some (r, t)"
  shows "cache_ok t \<and> main_memory t = main_memory s"
proof -
  let ?b = "block_of a"
  consider (l1) "holds (l1_cache s) 64 ?b"
    | (l2) "\<not> holds (l1_cache s) 64 ?b" "holds (l2_cache s) 256 ?b"
    | (mem) "\<not> holds (l2_cache s) 256 ?b" "?b < 1024" | (out) "1024 \<le> ?b"
    by (meson not_le)
  then show ?thesis
  proof cases
    case l1
    then have "t = s\<lparr>l1_hits := l1_hits s + 1\<rparr>" using acc memory_access_cases(1) [OF ok, of a] by simp
    then show ?thesis using ok by (simp add: cache_ok_def)
  next
    case l2
    from memory_access_cases(2) [OF ok l2] obtain c1 where
      t: "t = s\<lparr>l2_hits := l2_hits s + 1, l1_cache := c1\<rparr>"
      and c1: "fills (main_memory s) (l1_cache s) 64 ?b c1"
      using acc by auto
    have "holds (l2_cache s) 256 b" if "holds c1 64 b" for b
      using that c1 l2(2) cache_ok_lookups(3) [OF ok, of b] by (auto simp: fills_def split: if_splits)
    then show ?thesis using ok t c1 by (simp add: cache_ok_def fills_def)
  next
    case mem
    from memory_access_cases(3) [OF ok mem] obtain c1 c2 where
      t: "t = s\<lparr>l2_misses := l2_misses s + 1, l2_cache := c2, l1_cache := c1\<rparr>"
      and c: "fills (main_memory s) (l1_cache s) 64 ?b c1" "fills (main_memory s) (l2_cache s) 256 ?b c2"
      using acc by auto
    have "holds c2 256 b" if "holds c1 64 b" for b
      using that c cache_ok_lookups(3) [OF ok, of b] mod_256_64 [of b ?b]
      by (auto simp: fills_def split: if_splits)
    then show ?thesis using ok t c by (simp add: cache_ok_def fills_def)
  next
    case out
    then have "t = s\<lparr>l2_misses := l2_misses s + 1\<rparr>"
      using acc memory_access_cases(4) [OF ok, of a] by (simp split: if_splits)
    then show ?thesis using ok by (simp add: cache_ok_def)
  qed
qed


subsection \<open>Runs of accesses\<close>

fun result_block :: "access_result \<Rightarrow> u8 list option" where
  "result_block (L1_Hit d) = Some d"
| "result_block (L2_Hit d) = Some d"
| "result_block (Memory_Access d) = Some d"
| "result_block Out_Of_Bounds = None"

lemma memory_access_result:
  assumes ok: "cache_ok s" and a: "unat a < 0xFFFFFFF8"
  shows "\<exists>r t. memory_access a s = Some (r, t) \<and>
    result_block r = (if unat a < 8192 then Some (mem_block (main_memory s) (block_of a)) else None)"
proof -
  let ?b = "block_of a"
  have b: "?b < 1024 \<longleftrightarrow> unat a < 8192" "?b \<noteq> 2 ^ 29 - 1"
    using a by (auto simp: block_of_def)
  have res: "holds (l2_cache s) 256 ?b \<Longrightarrow> ?b < 1024" by (rule cache_ok_lookups(4) [OF ok])
  consider (l1) "holds (l1_cache s) 64 ?b" "?b < 1024"
    | (l2) "\<not> holds (l1_cache s) 64 ?b" "holds (l2_cache s) 256 ?b" "?b < 1024"
    | (mem) "\<not> holds (l2_cache s) 256 ?b" "?b < 1024" | (out) "1024 \<le> ?b"
    by (meson not_le)
  then show ?thesis
  proof cases
    case l1
    then show ?thesis using memory_access_cases(1) [OF ok, of a] b(1) by simp
  next
    case l2
    then show ?thesis using memory_access_cases(2) [OF ok l2(1,2)] b(1) by fastforce
  next
    case mem
    then show ?thesis using memory_access_cases(3) [OF ok mem] b(1) by fastforce
  next
    case out
    then show ?thesis using memory_access_cases(4) [OF ok out] b by simp
  qed
qed

lemma access_all_correct:
  assumes "cache_ok s" "list_all (\<lambda>a. unat a < 0xFFFFFFF8) as"
  shows "\<exists>rs t. access_all as s = Some (rs, t) \<and> cache_ok t \<and> main_memory t = main_memory s \<and>
    map result_block rs =
      map (\<lambda>a. if unat a < 8192 then Some (mem_block (main_memory s) (block_of a)) else None) as"
  using assms
proof (induction as arbitrary: s)
  case (Cons a as)
  from memory_access_result [of s a] Cons.prems obtain r u where u: "memory_access a s = Some (r, u)"
    "result_block r = (if unat a < 8192 then Some (mem_block (main_memory s) (block_of a)) else None)"
    by auto
  have u': "cache_ok u" "main_memory u = main_memory s"
    using cache_ok_step [OF Cons.prems(1) u(1)] by simp_all
  from Cons.IH [OF u'(1)] Cons.prems(2) show ?case using u u'(2) by auto
qed simp

lemma cache_start_ok: "cache_ok cache_start"
  by (simp add: cache_ok_def cache_start_def coherent_def holds_def cache_sizes invalid_line_def
      del: upt_Suc)

lemma cache_start_empty: "\<not> holds (l1_cache cache_start) 64 b" "\<not> holds (l2_cache cache_start) 256 b"
  by (simp_all add: cache_start_def holds_def cache_sizes invalid_line_def)

text \<open>C13. Every run of accesses to addresses below the last block of the address space stays inside
  the arrays; each access delivers the block of main memory its address lies in, or the message
  that it is out of bounds; and at the end every block in the first-level cache is in the second
  as well.\<close>

theorem two_level_cache_correct:
  assumes "list_all (\<lambda>a. unat a < 0xFFFFFFF8) as"
  shows "\<exists>rs t. access_all as cache_start = Some (rs, t) \<and>
    map result_block rs = map (\<lambda>a. if unat a < 8192
      then Some (take 8 (drop (8 * (unat a div 8)) (main_memory cache_start))) else None) as \<and>
    (\<forall>b. holds (l1_cache t) 64 b \<longrightarrow> holds (l2_cache t) 256 b)"
  using access_all_correct [OF cache_start_ok assms]
  by (auto simp: cache_ok_def mem_block_def block_of_def)

theorem two_level_cache_correct_witness:
  "\<exists>r t. access_all [9000] cache_start = Some ([r], t) \<and> result_block r = None"
  using two_level_cache_correct [of "[9000]"] by fastforce

text \<open>The bounds check of the miss path is defeated by the last eight addresses: the sum of the
  block start and the block size wraps to zero, the check succeeds, and the copy reads four
  gigabytes behind the start of the memory array.\<close>

theorem last_block_escapes_check:
  assumes "cache_ok s" "0xFFFFFFF8 \<le> unat a"
  shows "memory_access a s = None"
proof -
  have "block_of a = 2 ^ 29 - 1" using assms(2) u32_bound [of a] by (simp add: block_of_def)
  then show ?thesis using memory_access_cases(4) [OF assms(1), of a] by simp
qed

theorem last_block_escapes_check_witness: "memory_access 0xFFFFFFFC cache_start = None"
  by (rule last_block_escapes_check) (simp_all add: cache_start_ok)

text \<open>The counter of first-level misses is printed at the end, but nothing counts it up.\<close>

lemma l1_misses_never_counted:
  "access_all as s = Some (rs, t) \<Longrightarrow> l1_misses t = l1_misses s"
proof (induction as arbitrary: s rs)
  case (Cons a as)
  have "l1_misses u = l1_misses s" if "memory_access a s = Some (r, u)" for r u
    using that by (auto simp: memory_access_def Let_def split: if_splits bind_splits option.splits)
  then show ?case using Cons by (fastforce split: bind_splits)
qed simp

text \<open>The accesses of \<open>main\<close>: two go to main memory, two hit the first level.\<close>

lemma miss_then_hit:
  assumes ok: "cache_ok s" and a: "block_of a < 1024" "\<not> holds (l2_cache s) 256 (block_of a)"
  obtains t where "memory_access a s = Some (Memory_Access (mem_block (main_memory s) (block_of a)), t)"
    "cache_ok t" "main_memory t = main_memory s" "l1_hits t = l1_hits s" "l2_misses t = l2_misses s + 1"
    "fills (main_memory s) (l1_cache s) 64 (block_of a) (l1_cache t)"
    "fills (main_memory s) (l2_cache s) 256 (block_of a) (l2_cache t)"
proof -
  from memory_access_cases(3) [OF ok a(2,1)] obtain c1 c2 where
    acc: "memory_access a s = Some (Memory_Access (mem_block (main_memory s) (block_of a)),
      s\<lparr>l2_misses := l2_misses s + 1, l2_cache := c2, l1_cache := c1\<rparr>)"
    and c: "fills (main_memory s) (l1_cache s) 64 (block_of a) c1"
      "fills (main_memory s) (l2_cache s) 256 (block_of a) c2" by blast
  show ?thesis using that [OF acc] cache_ok_step [OF ok acc] c by simp
qed

theorem two_level_main_outcome:
  "\<exists>d e t. two_level_main = Some ([Memory_Access d, L1_Hit d, Memory_Access e, L1_Hit d], t) \<and>
    d = take 8 (drop 256 (main_memory cache_start)) \<and>
    l1_hits t = 2 \<and> l2_misses t = 2 \<and> l1_misses t = 0"
proof -
  let ?m = "main_memory cache_start"
  have b: "block_of 0x100 = 32" "block_of 0x101 = 32" "block_of 0x200 = 64"
    by (simp_all add: block_of_def)
  have "block_of 0x100 < 1024" by (simp add: b)
  from miss_then_hit [OF cache_start_ok this cache_start_empty(2)] obtain t where
    t: "memory_access 0x100 cache_start = Some (Memory_Access (mem_block ?m 32), t)" "cache_ok t"
    "main_memory t = ?m" "l1_hits t = l1_hits cache_start" "l2_misses t = l2_misses cache_start + 1"
    and c: "fills ?m (l1_cache cache_start) 64 32 (l1_cache t)"
    "fills ?m (l2_cache cache_start) 256 32 (l2_cache t)" unfolding b by metis
  have h1: "holds (l1_cache t) 64 x \<longleftrightarrow> x = 32" for x
    using c(1) cache_start_empty(1) [of x] by (auto simp: fills_def)
  have h2: "holds (l2_cache t) 256 x \<longleftrightarrow> x = 32" for x
    using c(2) cache_start_empty(2) [of x] by (auto simp: fills_def)
  let ?u = "t\<lparr>l1_hits := l1_hits t + 1\<rparr>"
  have u: "memory_access 0x101 t = Some (L1_Hit (mem_block ?m 32), ?u)"
    using memory_access_cases(1) [OF t(2), of "0x101"] t(3) h1 b by simp
  have ok: "cache_ok ?u" using cache_ok_step [OF t(2) u] by simp
  have "block_of 0x200 < 1024" "\<not> holds (l2_cache ?u) 256 (block_of 0x200)" by (simp_all add: b h2)
  from miss_then_hit [OF ok this] obtain v where
    v: "memory_access 0x200 ?u = Some (Memory_Access (mem_block (main_memory ?u) 64), v)" "cache_ok v"
    "main_memory v = main_memory ?u" "l1_hits v = l1_hits ?u" "l2_misses v = l2_misses ?u + 1"
    and d: "fills (main_memory ?u) (l1_cache ?u) 64 64 (l1_cache v)" unfolding b by metis
  have "holds (l1_cache v) 64 32" using d h1 [of 32] by (simp add: fills_def)
  then have w: "memory_access 0x100 v = Some (L1_Hit (mem_block ?m 32), v\<lparr>l1_hits := l1_hits v + 1\<rparr>)"
    using memory_access_cases(1) [OF v(2), of "0x100"] v(3) t(3) b by simp
  have run: "two_level_main = Some ([Memory_Access (mem_block ?m 32), L1_Hit (mem_block ?m 32),
      Memory_Access (mem_block ?m 64), L1_Hit (mem_block ?m 32)], v\<lparr>l1_hits := l1_hits v + 1\<rparr>)"
    using t(1,3) u v(1) w by (simp add: two_level_main_def)
  have "l1_misses v = 0"
    using l1_misses_never_counted [OF run [unfolded two_level_main_def]] by (simp add: cache_start_def)
  then show ?thesis using v(4,5) t(4,5) unfolding run by (simp add: mem_block_def cache_start_def)
qed

end
