(* ===== verification/Memory_Controller.thy ===== *)
theory Memory_Controller
  imports Prelude
begin

text \<open>
  The write-back cache of \<open>accessPatterns/memoryController.c\<close>: 1024 sets of four lines in front
  of a megabyte of memory.

  \<open>size_t\<close> values are \<open>64 word\<close>s. A pointer to a line is an option. What the program takes from
  its surroundings in one access is the record \<open>mc_env\<close>: the block that \<open>malloc\<close> returns, with
  the indeterminate contents it has (the code sets neither \<open>dirty\<close> nor \<open>last_used\<close> of a line it
  reads in), the value of \<open>clock()\<close> and the random number. An access has the result \<open>None\<close> when
  it would leave an array or use a null pointer.

  Shown here: as long as no line marked dirty is evicted, the controller is a memory, that is, it
  returns what was last written; and evicting a dirty line writes it to a wrong place, because the
  tag already holds the number of the set, or outside the memory.
\<close>

subsection \<open>Data\<close>

definition MC_MEMORY_SIZE :: nat where
  "MC_MEMORY_SIZE = 1024 * 1024"

definition MC_LINE_SIZE :: u64 where
  "MC_LINE_SIZE = 64"

definition NUM_CACHE_LINES :: u64 where
  "NUM_CACHE_LINES = 64 * 1024 div MC_LINE_SIZE"

definition MAX_CACHE_SETS :: nat where
  "MAX_CACHE_SETS = 4"

datatype AccessMode = Read | Write

datatype ReplacementPolicy = LRU | Random

record MC_CacheLine =
  ml_data :: "u8 list"
  ml_tag :: u64
  ml_dirty :: int
  ml_last_used :: int

record MemoryController =
  mc_memory :: "u8 list"
  mc_cache :: "MC_CacheLine option list list"
  mc_policy :: ReplacementPolicy
  mc_rng_seed :: u64

record mc_env =
  env_line :: "MC_CacheLine option"
  env_clock :: int
  env_rand :: nat

subsection \<open>Operations\<close>

text \<open>\<open>memory\<close> is the block \<open>malloc\<close> returns for the main memory.\<close>

definition MemoryController_new :: "u8 list \<Rightarrow> u64 \<Rightarrow> MemoryController" where
  "MemoryController_new memory now =
     \<lparr>mc_memory = memory,
      mc_cache = replicate (unat NUM_CACHE_LINES) (replicate MAX_CACHE_SETS None),
      mc_policy = LRU, mc_rng_seed = now\<rparr>"

text \<open>The search for a hit, the search for an empty slot and the choice of a victim.\<close>

definition mc_hit :: "MC_CacheLine option list \<Rightarrow> u64 \<Rightarrow> nat option" where
  "mc_hit row tag =
     first_index 0 MAX_CACHE_SETS (\<lambda>i. case row ! i of None \<Rightarrow> False | Some l \<Rightarrow> ml_tag l = tag)"

definition mc_empty_slot :: "MC_CacheLine option list \<Rightarrow> nat option" where
  "mc_empty_slot row = first_index 0 MAX_CACHE_SETS (\<lambda>i. row ! i = None)"

definition mc_lru_victim :: "MC_CacheLine option list \<Rightarrow> nat" where
  "mc_lru_victim row =
     for_range 1 MAX_CACHE_SETS
       (\<lambda>i v. if ml_last_used (the (row ! i)) < ml_last_used (the (row ! v)) then i else v) 0"

definition mc_victim :: "mc_env \<Rightarrow> MemoryController \<Rightarrow> MC_CacheLine option list
    \<Rightarrow> nat \<times> MemoryController" where
  "mc_victim env mc row =
     (case mc_policy mc of
        LRU \<Rightarrow> (mc_lru_victim row, mc)
      | Random \<Rightarrow> (env_rand env mod MAX_CACHE_SETS, mc\<lparr>mc_rng_seed := mc_rng_seed mc + 1\<rparr>))"

text \<open>Where the code writes a dirty line back to.\<close>

definition writeback_address :: "u64 \<Rightarrow> u64 \<Rightarrow> u64" where
  "writeback_address tag cache_line = (tag * NUM_CACHE_LINES + cache_line) * MC_LINE_SIZE"

definition mc_set_line :: "u64 \<Rightarrow> nat \<Rightarrow> MC_CacheLine \<Rightarrow> MemoryController \<Rightarrow> MemoryController option"
where
  "mc_set_line cache_line i l mc = do {
     row \<leftarrow> c_load (mc_cache mc) (unat cache_line);
     row' \<leftarrow> c_store row i (Some l);
     c \<leftarrow> c_store (mc_cache mc) (unat cache_line) row';
     Some (mc\<lparr>mc_cache := c\<rparr>)
   }"

definition mc_access_hit ::
  "mc_env \<Rightarrow> u64 \<Rightarrow> nat \<Rightarrow> u64 \<Rightarrow> AccessMode \<Rightarrow> u8 \<Rightarrow> MC_CacheLine \<Rightarrow> MemoryController
    \<Rightarrow> (u8 \<times> MemoryController) option"
where
  "mc_access_hit env cache_line i offset mode data l mc =
     (let l = l\<lparr>ml_last_used := env_clock env\<rparr> in
      case mode of
        Read \<Rightarrow> do {
          x \<leftarrow> c_load (ml_data l) (unat offset);
          mc \<leftarrow> mc_set_line cache_line i l mc;
          Some (x, mc)
        }
      | Write \<Rightarrow> do {
          d \<leftarrow> c_store (ml_data l) (unat offset) data;
          mc \<leftarrow> mc_set_line cache_line i (l\<lparr>ml_data := d, ml_dirty := 1\<rparr>) mc;
          Some (data, mc)
        })"

text \<open>The slot for a new line; a dirty victim is copied to main memory.\<close>

definition mc_make_room ::
  "mc_env \<Rightarrow> u64 \<Rightarrow> MC_CacheLine option list \<Rightarrow> MemoryController \<Rightarrow> (nat \<times> MemoryController) option"
where
  "mc_make_room env cache_line row mc =
     (case mc_empty_slot row of
        Some i \<Rightarrow> Some (i, mc)
      | None \<Rightarrow>
          (let (v, mc) = mc_victim env mc row; victim = the (row ! v) in
           if ml_dirty victim \<noteq> 0 then do {
             m \<leftarrow> c_splice (mc_memory mc) (unat (writeback_address (ml_tag victim) cache_line))
                    (ml_data victim);
             Some (v, mc\<lparr>mc_memory := m\<rparr>)
           } else Some (v, mc)))"

definition mc_access_miss ::
  "mc_env \<Rightarrow> u64 \<Rightarrow> u64 \<Rightarrow> u64 \<Rightarrow> u64 \<Rightarrow> AccessMode \<Rightarrow> u8 \<Rightarrow> MC_CacheLine option list
    \<Rightarrow> MemoryController \<Rightarrow> (u8 \<times> MemoryController) option"
where
  "mc_access_miss env address cache_line tag offset mode data row mc = do {
     fresh \<leftarrow> env_line env;
     block \<leftarrow> c_slice (mc_memory mc) (unat (address - offset)) (unat MC_LINE_SIZE);
     let new_entry = fresh\<lparr>ml_tag := tag, ml_data := block\<rparr>;
     (i, mc) \<leftarrow> mc_make_room env cache_line row mc;
     case mode of
       Read \<Rightarrow> do {
         x \<leftarrow> c_load (ml_data new_entry) (unat offset);
         mc \<leftarrow> mc_set_line cache_line i new_entry mc;
         Some (x, mc)
       }
     | Write \<Rightarrow> do {
         d \<leftarrow> c_store (ml_data new_entry) (unat offset) data;
         mc \<leftarrow> mc_set_line cache_line i (new_entry\<lparr>ml_data := d, ml_dirty := 1\<rparr>) mc;
         Some (data, mc)
       }
   }"

text \<open>The value is the one the access prints.\<close>

definition MemoryController_access ::
  "mc_env \<Rightarrow> u64 \<Rightarrow> AccessMode \<Rightarrow> u8 \<Rightarrow> MemoryController \<Rightarrow> (u8 \<times> MemoryController) option"
where
  "MemoryController_access env address mode data mc =
     (let cache_line = (address div MC_LINE_SIZE) mod NUM_CACHE_LINES;
          tag = address div MC_LINE_SIZE;
          offset = address mod MC_LINE_SIZE in
      do {
        row \<leftarrow> c_load (mc_cache mc) (unat cache_line);
        case mc_hit row tag of
          Some i \<Rightarrow> mc_access_hit env cache_line i offset mode data (the (row ! i)) mc
        | None \<Rightarrow> mc_access_miss env address cache_line tag offset mode data row mc
      })"

definition MemoryController_setReplacementPolicy ::
  "MemoryController \<Rightarrow> ReplacementPolicy \<Rightarrow> MemoryController" where
  "MemoryController_setReplacementPolicy mc policy = mc\<lparr>mc_policy := policy\<rparr>"

text \<open>The line \<open>MemoryController_displayCacheStatus\<close> prints for each slot: tag and dirty flag.\<close>

definition MemoryController_displayCacheStatus ::
  "MemoryController \<Rightarrow> (u64 \<times> bool) option list list" where
  "MemoryController_displayCacheStatus mc =
     map (map (map_option (\<lambda>l. (ml_tag l, ml_dirty l \<noteq> 0)))) (mc_cache mc)"

fun mc_run :: "(mc_env \<times> u64 \<times> AccessMode \<times> u8) list \<Rightarrow> MemoryController
    \<Rightarrow> (u8 list \<times> MemoryController) option" where
  "mc_run [] mc = Some ([], mc)"
| "mc_run ((env, address, mode, data) # ops) mc = do {
     (x, mc) \<leftarrow> MemoryController_access env address mode data mc;
     (xs, mc) \<leftarrow> mc_run ops mc;
     Some (x # xs, mc)
   }"

text \<open>The accesses of \<open>main\<close>, each with its surroundings: the values printed and the two displays.\<close>

definition mc_main ::
  "mc_env list \<Rightarrow> u8 list \<Rightarrow> u64
    \<Rightarrow> (u8 list \<times> (u64 \<times> bool) option list list \<times> u8 list \<times> (u64 \<times> bool) option list list) option"
where
  "mc_main envs memory now =
     (let mc = MemoryController_new memory now in
      do {
        (xs, mc) \<leftarrow> mc_run (zip (take 5 envs) [(0, Write, 42), (0, Read, 0), (64, Write, 100),
                     (128, Write, 200), (0, Read, 0)]) mc;
        let status = MemoryController_displayCacheStatus mc;
        let mc = MemoryController_setReplacementPolicy mc Random;
        (ys, mc) \<leftarrow> mc_run (zip (drop 5 envs) [(1024, Write, 50), (2048, Write, 75), (64, Read, 0)]) mc;
        Some (xs, status, ys, MemoryController_displayCacheStatus mc)
      })"


subsection \<open>The contents of the memory behind the cache\<close>

definition mc_set :: "u64 \<Rightarrow> nat" where
  "mc_set tag = unat (tag mod NUM_CACHE_LINES)"

definition mc_row :: "MemoryController \<Rightarrow> u64 \<Rightarrow> MC_CacheLine option list" where
  "mc_row mc tag = mc_cache mc ! mc_set tag"

definition mc_block :: "u8 list \<Rightarrow> u64 \<Rightarrow> u8 list" where
  "mc_block mem tag = take 64 (drop (64 * unat tag) mem)"

definition row_view :: "u8 list \<Rightarrow> MC_CacheLine option list \<Rightarrow> u64 \<Rightarrow> u8 list" where
  "row_view mem row tag =
     (case mc_hit row tag of Some i \<Rightarrow> ml_data (the (row ! i)) | None \<Rightarrow> mc_block mem tag)"

definition mc_view :: "MemoryController \<Rightarrow> u64 \<Rightarrow> u8 list" where
  "mc_view mc tag = row_view (mc_memory mc) (mc_row mc tag) tag"

definition mc_byte :: "MemoryController \<Rightarrow> u64 \<Rightarrow> u8" where
  "mc_byte mc a = mc_view mc (a div MC_LINE_SIZE) ! unat (a mod MC_LINE_SIZE)"

definition line_ok :: "u8 list \<Rightarrow> nat \<Rightarrow> MC_CacheLine \<Rightarrow> bool" where
  "line_ok mem s l \<longleftrightarrow> length (ml_data l) = 64 \<and> unat (ml_tag l) < 16384 \<and> mc_set (ml_tag l) = s \<and>
     (ml_dirty l = 0 \<longrightarrow> ml_data l = mc_block mem (ml_tag l))"

definition row_ok :: "u8 list \<Rightarrow> nat \<Rightarrow> MC_CacheLine option list \<Rightarrow> bool" where
  "row_ok mem s row \<longleftrightarrow> length row = 4 \<and>
     (\<forall>i < 4. \<forall>l. row ! i = Some l \<longrightarrow> line_ok mem s l) \<and>
     (\<forall>i < 4. \<forall>j < 4. \<forall>l l'. row ! i = Some l \<longrightarrow> row ! j = Some l' \<longrightarrow> ml_tag l = ml_tag l' \<longrightarrow> i = j)"

definition mc_ok :: "MemoryController \<Rightarrow> bool" where
  "mc_ok mc \<longleftrightarrow> length (mc_memory mc) = MC_MEMORY_SIZE \<and> length (mc_cache mc) = 1024 \<and>
     (\<forall>s < 1024. row_ok (mc_memory mc) s (mc_cache mc ! s))"

lemma sizes: "unat NUM_CACHE_LINES = 1024" "unat MC_LINE_SIZE = 64"
  by (simp_all add: NUM_CACHE_LINES_def MC_LINE_SIZE_def)

lemma mc_set_bound: "mc_set tag < 1024"
  by (simp add: mc_set_def unat_mod_distrib sizes)

lemma mc_row_ok: "mc_ok mc \<Longrightarrow> row_ok (mc_memory mc) (mc_set tag) (mc_row mc tag)"
  by (simp add: mc_ok_def mc_row_def mc_set_bound)

lemma mc_hit_None_iff:
  "mc_hit row tag = None \<longleftrightarrow> (\<forall>i < 4. \<forall>l. row ! i = Some l \<longrightarrow> ml_tag l \<noteq> tag)"
  by (auto simp: mc_hit_def MAX_CACHE_SETS_def first_index_None_iff split: option.splits)

lemma mc_hit_SomeD:
  assumes "mc_hit row tag = Some i"
  obtains l where "i < 4" "row ! i = Some l" "ml_tag l = tag"
  using first_index_SomeD(2,3) [OF assms [unfolded mc_hit_def]]
  by (auto simp: MAX_CACHE_SETS_def split: option.splits)

lemma mc_hit_SomeI:
  assumes "row_ok mem s row" "i < 4" "row ! i = Some l"
  shows "mc_hit row (ml_tag l) = Some i"
proof (cases "mc_hit row (ml_tag l)")
  case None
  then show ?thesis using assms by (auto simp: mc_hit_None_iff)
next
  case (Some j)
  from mc_hit_SomeD [OF this] obtain k where "j < 4" "row ! j = Some k" "ml_tag k = ml_tag l" .
  then have "j = i" using assms unfolding row_ok_def by metis
  then show ?thesis using Some by simp
qed

text \<open>Writing a line to slot \<open>i\<close> of its set.\<close>

lemma row_ok_update:
  assumes "row_ok mem s row" "i < 4" "line_ok mem s l"
    and "\<And>j k. j < 4 \<Longrightarrow> j \<noteq> i \<Longrightarrow> row ! j = Some k \<Longrightarrow> ml_tag k \<noteq> ml_tag l"
  shows "row_ok mem s (row[i := Some l])"
proof -
  have len: "length row = 4" using assms(1) by (simp add: row_ok_def)
  have "x = y" if "x < 4" "y < 4" "row[i := Some l] ! x = Some a" "row[i := Some l] ! y = Some b"
    "ml_tag a = ml_tag b" for x y a b
    using that assms(4) [of x a] assms(4) [of y b] assms(1,2) len unfolding row_ok_def
    by (auto simp: nth_list_update split: if_splits)
  moreover have "line_ok mem s k" if "x < 4" "row[i := Some l] ! x = Some k" for x k
    using that assms(1-3) len by (auto simp: row_ok_def nth_list_update split: if_splits)
  ultimately show ?thesis using len by (simp add: row_ok_def)
qed

lemma row_view_update:
  assumes row: "row_ok mem s row" and i: "i < 4" and l: "line_ok mem s l"
    and others: "\<And>j k. j < 4 \<Longrightarrow> j \<noteq> i \<Longrightarrow> row ! j = Some k \<Longrightarrow> ml_tag k \<noteq> ml_tag l"
    and old: "\<And>k. row ! i = Some k \<Longrightarrow> ml_tag k \<noteq> ml_tag l \<Longrightarrow> ml_data k = mc_block mem (ml_tag k)"
  shows "row_view mem (row[i := Some l]) u = (if u = ml_tag l then ml_data l else row_view mem row u)"
proof -
  let ?row' = "row[i := Some l]"
  have row': "row_ok mem s ?row'" by (rule row_ok_update [OF row i l others])
  have len: "length row = 4" using row by (simp add: row_ok_def)
  show ?thesis
  proof (cases "u = ml_tag l")
    case True
    then show ?thesis using mc_hit_SomeI [OF row' i, of l] len i by (simp add: row_view_def)
  next
    case False
    show ?thesis
    proof (cases "mc_hit row u")
      case None
      then have "mc_hit ?row' u = None" using False len i by (auto simp: mc_hit_None_iff nth_list_update)
      then show ?thesis using None False by (simp add: row_view_def)
    next
      case (Some j)
      from mc_hit_SomeD [OF this] obtain k where k: "j < 4" "row ! j = Some k" "ml_tag k = u" .
      show ?thesis
      proof (cases "j = i")
        case True
        have "ml_tag m \<noteq> u" if "x < 4" "?row' ! x = Some m" for x m
          using that False mc_hit_SomeI [OF row that(1), of m] Some True len i by (cases "x = i") auto
        then have "mc_hit ?row' u = None" by (simp add: mc_hit_None_iff)
        then show ?thesis using old [of k] k True False Some by (simp add: row_view_def)
      next
        case ji: False
        then have "mc_hit ?row' u = Some j" using mc_hit_SomeI [OF row' k(1), of k] k by simp
        then show ?thesis using False ji k Some by (simp add: row_view_def)
      qed
    qed
  qed
qed

text \<open>What a client of the cache may write to a slot: a line of the set whose tag is in no other
  slot, in place of nothing, of the same block, or of a block main memory also has.\<close>

definition may_replace :: "MemoryController \<Rightarrow> nat \<Rightarrow> MC_CacheLine \<Rightarrow> bool" where
  "may_replace mc i l \<longleftrightarrow> i < 4 \<and> line_ok (mc_memory mc) (mc_set (ml_tag l)) l \<and>
     (\<forall>j < 4. \<forall>k. mc_row mc (ml_tag l) ! j = Some k \<longrightarrow>
        (if j \<noteq> i then ml_tag k \<noteq> ml_tag l
         else ml_tag k = ml_tag l \<or> ml_data k = mc_block (mc_memory mc) (ml_tag k)))"

lemma may_replaceD:
  assumes "may_replace mc i l"
  shows "i < 4" and "line_ok (mc_memory mc) (mc_set (ml_tag l)) l"
    and "j < 4 \<Longrightarrow> j \<noteq> i \<Longrightarrow> mc_row mc (ml_tag l) ! j = Some k \<Longrightarrow> ml_tag k \<noteq> ml_tag l"
    and "mc_row mc (ml_tag l) ! i = Some k \<Longrightarrow> ml_tag k \<noteq> ml_tag l \<Longrightarrow>
      ml_data k = mc_block (mc_memory mc) (ml_tag k)"
  using assms by (auto simp: may_replace_def split: if_splits)

lemma mc_set_line_view:
  assumes ok: "mc_ok mc" and may: "may_replace mc i l"
  shows "\<exists>mc'. mc_set_line (ml_tag l mod NUM_CACHE_LINES) i l mc = Some mc' \<and> mc_ok mc' \<and>
    (\<forall>u. mc_view mc' u = (if u = ml_tag l then ml_data l else mc_view mc u))"
proof -
  let ?t = "ml_tag l" and ?row = "mc_row mc (ml_tag l)" and ?row' = "(mc_row mc (ml_tag l))[i := Some l]"
  let ?mc = "mc\<lparr>mc_cache := (mc_cache mc)[mc_set ?t := ?row']\<rparr>"
  note row = mc_row_ok [OF ok, of ?t] and upd = may_replaceD [OF may]
  have len: "length ?row = 4" "length (mc_cache mc) = 1024"
    using row ok by (simp_all add: row_ok_def mc_ok_def)
  have set: "mc_set_line (?t mod NUM_CACHE_LINES) i l mc = Some ?mc"
    using len upd(1) mc_set_bound [of ?t] by (simp add: mc_set_line_def mc_row_def mc_set_def)
  have "row_ok (mc_memory mc) (mc_set ?t) ?row'" by (rule row_ok_update [OF row upd(1-3)])
  then have ok': "mc_ok ?mc" using ok by (auto simp: mc_ok_def nth_list_update mc_set_bound)
  have rv: "row_view (mc_memory mc) ?row' u = (if u = ?t then ml_data l else row_view (mc_memory mc) ?row u)"
    for u by (rule row_view_update [OF row upd])
  have "mc_view ?mc u = (if u = ?t then ml_data l else mc_view mc u)" for u
  proof (cases "mc_set u = mc_set ?t")
    case True
    then have "mc_row ?mc u = ?row'" "mc_row mc u = ?row"
      using len mc_set_bound [of ?t] by (simp_all add: mc_row_def)
    then show ?thesis using rv [of u] by (simp add: mc_view_def)
  next
    case False
    then have "mc_row ?mc u = mc_row mc u" "u \<noteq> ?t" by (auto simp: mc_row_def)
    then show ?thesis by (simp add: mc_view_def)
  qed
  then show ?thesis using set ok' by blast
qed

subsection \<open>Accesses without write-back\<close>

lemma address_parts:
  assumes "unat a < MC_MEMORY_SIZE"
  defines "t \<equiv> a div MC_LINE_SIZE"
  shows "unat t < 16384" and "unat (a mod MC_LINE_SIZE) < 64"
    and "unat (a - a mod MC_LINE_SIZE) = 64 * unat t"
proof -
  have u: "unat t = unat a div 64" "unat (a mod MC_LINE_SIZE) = unat a mod 64"
    by (simp_all add: t_def unat_div_distrib unat_mod_distrib sizes)
  show "unat t < 16384" using assms(1) u(1) by (simp add: MC_MEMORY_SIZE_def less_mult_imp_div_less)
  show "unat (a mod MC_LINE_SIZE) < 64" by (simp add: u)
  have "a mod MC_LINE_SIZE \<le> a" using u by (simp add: word_le_nat_alt)
  from unat_sub [OF this] show "unat (a - a mod MC_LINE_SIZE) = 64 * unat t"
    unfolding u by (simp only: minus_mod_eq_mult_div)
qed

text \<open>Two addresses with the same line and the same offset are equal.\<close>

lemma address_split: "a div MC_LINE_SIZE = b div MC_LINE_SIZE \<Longrightarrow>
    unat (a mod MC_LINE_SIZE) = unat (b mod MC_LINE_SIZE) \<Longrightarrow> a = b"
  by (metis div_mult_mod_eq word_unat_eq_iff)

lemma mc_lru_victim_bound: "mc_lru_victim row < 4"
  unfolding mc_lru_victim_def MAX_CACHE_SETS_def
  by (rule for_range_rule [where I = "\<lambda>_ v. v < 4"]) auto

lemma mc_victim_bound: "fst (mc_victim env mc row) < 4"
  by (cases "mc_policy mc") (simp_all add: mc_victim_def mc_lru_victim_bound MAX_CACHE_SETS_def)

text \<open>The access has to evict a line whose dirty flag is set.\<close>

definition evicts_dirty :: "mc_env \<Rightarrow> u64 \<Rightarrow> MemoryController \<Rightarrow> bool" where
  "evicts_dirty env a mc \<longleftrightarrow>
     (let t = a div MC_LINE_SIZE; row = mc_row mc t in
      mc_hit row t = None \<and> mc_empty_slot row = None \<and>
      ml_dirty (the (row ! fst (mc_victim env mc row))) \<noteq> 0)"

lemma make_room_clean:
  assumes "mc_hit (mc_row mc (a div MC_LINE_SIZE)) (a div MC_LINE_SIZE) = None" "\<not> evicts_dirty env a mc"
  shows "\<exists>i seed. mc_make_room env cl (mc_row mc (a div MC_LINE_SIZE)) mc = Some (i, mc\<lparr>mc_rng_seed := seed\<rparr>) \<and>
    i < 4 \<and> (\<forall>k. mc_row mc (a div MC_LINE_SIZE) ! i = Some k \<longrightarrow> ml_dirty k = 0)"
proof (cases "mc_empty_slot (mc_row mc (a div MC_LINE_SIZE))")
  case (Some i)
  from first_index_SomeD(2,3) [OF this [unfolded mc_empty_slot_def]] show ?thesis
    using Some by (intro exI [of _ i] exI [of _ "mc_rng_seed mc"]) (simp add: mc_make_room_def MAX_CACHE_SETS_def)
next
  case None
  let ?v = "mc_victim env mc (mc_row mc (a div MC_LINE_SIZE))"
  have "\<exists>seed. snd ?v = mc\<lparr>mc_rng_seed := seed\<rparr>"
    by (cases "mc_policy mc") (auto simp: mc_victim_def intro: exI [of _ "mc_rng_seed mc"])
  then show ?thesis using None assms mc_victim_bound [of env mc "mc_row mc (a div MC_LINE_SIZE)"]
    by (cases ?v) (auto simp: mc_make_room_def evicts_dirty_def Let_def)
qed

text \<open>An access without write-back: the result, and what the memory holds afterwards.\<close>

definition mc_access_ok :: "u64 \<Rightarrow> AccessMode \<Rightarrow> u8 \<Rightarrow> MemoryController
    \<Rightarrow> (u8 \<times> MemoryController) option \<Rightarrow> bool" where
  "mc_access_ok a mode d mc r \<longleftrightarrow>
     (\<exists>mc'. r = Some (case mode of Read \<Rightarrow> mc_byte mc a | Write \<Rightarrow> d, mc') \<and> mc_ok mc' \<and>
        (\<forall>b. mc_byte mc' b = (if mode = Write \<and> b = a then d else mc_byte mc b)))"

text \<open>Both paths end by storing a line for the address in some slot.\<close>

lemma store_line_ok:
  fixes l :: MC_CacheLine and a :: u64
  assumes ok: "mc_ok mc" and tag: "ml_tag l = a div MC_LINE_SIZE" and may: "may_replace mc i l"
    and data: "length old = 64" "old = mc_view mc (a div MC_LINE_SIZE)"
      "ml_data l = (case mode of Read \<Rightarrow> old | Write \<Rightarrow> old[unat (a mod MC_LINE_SIZE) := d])"
    and off: "unat (a mod MC_LINE_SIZE) < 64"
  shows "mc_access_ok a mode d mc
    (map_option (\<lambda>mc'. (case mode of Read \<Rightarrow> old ! unat (a mod MC_LINE_SIZE) | Write \<Rightarrow> d, mc'))
      (mc_set_line (a div MC_LINE_SIZE mod NUM_CACHE_LINES) i l mc))"
proof -
  from mc_set_line_view [OF ok may] tag obtain mc' where
    mc': "mc_set_line (a div MC_LINE_SIZE mod NUM_CACHE_LINES) i l mc = Some mc'" "mc_ok mc'"
    "\<And>u. mc_view mc' u = (if u = a div MC_LINE_SIZE then ml_data l else mc_view mc u)" by auto
  have "mc_byte mc' b = (if mode = Write \<and> b = a then d else mc_byte mc b)" for b
    using data off address_split [of b a] by (cases mode) (auto simp: mc_byte_def mc'(3) nth_list_update)
  then show ?thesis using mc'(1,2) data(2)
    by (cases mode) (auto simp: mc_access_ok_def mc_byte_def)
qed


lemma bind_pair_map: "x \<bind> (\<lambda>m. Some (y, m)) = map_option (\<lambda>m. (y, m)) x"
  by (cases x) simp_all

lemma mc_cache_line_load:
  "mc_ok mc \<Longrightarrow> c_load (mc_cache mc) (unat (tag mod NUM_CACHE_LINES)) = Some (mc_row mc tag)"
  using mc_set_bound [of tag] by (simp add: mc_ok_def mc_row_def mc_set_def)

lemma access_hit_ok:
  assumes ok: "mc_ok mc" and a: "unat a < MC_MEMORY_SIZE"
    and hit: "mc_hit (mc_row mc (a div MC_LINE_SIZE)) (a div MC_LINE_SIZE) = Some i"
  shows "mc_access_ok a mode d mc (MemoryController_access env a mode d mc)"
proof -
  let ?t = "a div MC_LINE_SIZE" and ?o = "unat (a mod MC_LINE_SIZE)"
  from mc_hit_SomeD [OF hit] obtain l where l: "i < 4" "mc_row mc ?t ! i = Some l" "ml_tag l = ?t" .
  have lok: "line_ok (mc_memory mc) (mc_set ?t) l"
    using mc_row_ok [OF ok, of ?t] l by (simp add: row_ok_def)
  have view: "mc_view mc ?t = ml_data l" using hit l by (simp add: mc_view_def row_view_def)
  let ?l = "case mode of Read \<Rightarrow> l\<lparr>ml_last_used := env_clock env\<rparr>
    | Write \<Rightarrow> l\<lparr>ml_last_used := env_clock env, ml_data := (ml_data l)[?o := d], ml_dirty := 1\<rparr>"
  have tag: "ml_tag ?l = ?t" using l by (cases mode) simp_all
  have uniq: "ml_tag k = ?t \<longleftrightarrow> j = i" if "j < 4" "mc_row mc ?t ! j = Some k" for j k
    using mc_hit_SomeI [OF mc_row_ok [OF ok] that] hit l that by auto
  have may: "may_replace mc i ?l"
    using lok l(1) uniq unfolding may_replace_def tag by (cases mode) (auto simp: line_ok_def l(3))
  have acc: "MemoryController_access env a mode d mc =
      map_option (\<lambda>mc'. (case mode of Read \<Rightarrow> ml_data l ! ?o | Write \<Rightarrow> d, mc'))
        (mc_set_line (?t mod NUM_CACHE_LINES) i ?l mc)"
    using hit l lok address_parts(2) [OF a]
    by (cases mode) (simp_all add: MemoryController_access_def mc_access_hit_def mc_cache_line_load [OF ok]
        line_ok_def bind_pair_map Let_def)
  have "ml_data ?l = (case mode of Read \<Rightarrow> ml_data l | Write \<Rightarrow> (ml_data l)[?o := d])"
    by (cases mode) simp_all
  moreover have "length (ml_data l) = 64" using lok by (simp add: line_ok_def)
  ultimately show ?thesis unfolding acc
    using store_line_ok [OF ok tag may _ view [symmetric] _ address_parts(2) [OF a]] by blast
qed

lemma mc_access_ok_seed [simp]:
  "mc_access_ok a mode d (mc\<lparr>mc_rng_seed := seed\<rparr>) r \<longleftrightarrow> mc_access_ok a mode d mc r"
proof -
  have "mc_byte (mc\<lparr>mc_rng_seed := seed\<rparr>) = mc_byte mc"
    by (rule ext) (simp add: mc_byte_def mc_view_def mc_row_def)
  then show ?thesis by (simp only: mc_access_ok_def)
qed

lemma access_miss_ok:
  assumes ok: "mc_ok mc" and a: "unat a < MC_MEMORY_SIZE" and env: "env_line env = Some fresh"
    and miss: "mc_hit (mc_row mc (a div MC_LINE_SIZE)) (a div MC_LINE_SIZE) = None"
    and clean: "\<not> evicts_dirty env a mc"
  shows "mc_access_ok a mode d mc (MemoryController_access env a mode d mc)"
proof -
  let ?t = "a div MC_LINE_SIZE" and ?o = "unat (a mod MC_LINE_SIZE)"
  let ?block = "mc_block (mc_memory mc) (a div MC_LINE_SIZE)"
  from make_room_clean [OF miss clean, of "?t mod NUM_CACHE_LINES"] obtain i seed where
    room: "mc_make_room env (?t mod NUM_CACHE_LINES) (mc_row mc ?t) mc = Some (i, mc\<lparr>mc_rng_seed := seed\<rparr>)"
    and i: "i < 4" "\<And>k. mc_row mc ?t ! i = Some k \<Longrightarrow> ml_dirty k = 0" by blast
  let ?mc = "mc\<lparr>mc_rng_seed := seed\<rparr>"
  have ok': "mc_ok ?mc" using ok by (simp add: mc_ok_def)
  have view: "mc_view ?mc ?t = ?block" using miss by (simp add: mc_view_def row_view_def mc_row_def)
  have mem: "length (mc_memory mc) = MC_MEMORY_SIZE" using ok by (simp add: mc_ok_def)
  have len: "length ?block = 64"
    using mem address_parts(1) [OF a] by (simp add: mc_block_def MC_MEMORY_SIZE_def)
  have slice: "c_slice (mc_memory mc) (unat (a - a mod MC_LINE_SIZE)) (unat MC_LINE_SIZE) = Some ?block"
    using mem address_parts [OF a] by (simp add: sizes mc_block_def MC_MEMORY_SIZE_def)
  let ?l = "case mode of Read \<Rightarrow> fresh\<lparr>ml_tag := ?t, ml_data := ?block\<rparr>
    | Write \<Rightarrow> fresh\<lparr>ml_tag := ?t, ml_data := ?block[?o := d], ml_dirty := 1\<rparr>"
  have tag: "ml_tag ?l = ?t" by (cases mode) simp_all
  have lok: "line_ok (mc_memory ?mc) (mc_set ?t) ?l"
    using len address_parts(1) [OF a] by (cases mode) (simp_all add: line_ok_def)
  have "ml_tag k \<noteq> ?t \<and> (j = i \<longrightarrow> ml_data k = mc_block (mc_memory mc) (ml_tag k))"
    if "j < 4" "mc_row mc ?t ! j = Some k" for j k
    using miss that i mc_row_ok [OF ok, of ?t] by (auto simp: mc_hit_None_iff row_ok_def line_ok_def)
  then have may: "may_replace ?mc i ?l"
    unfolding may_replace_def tag using i(1) lok by (auto simp: mc_row_def)
  have acc: "MemoryController_access env a mode d mc =
      map_option (\<lambda>mc'. (case mode of Read \<Rightarrow> ?block ! ?o | Write \<Rightarrow> d, mc'))
        (mc_set_line (?t mod NUM_CACHE_LINES) i ?l ?mc)"
    using len address_parts(2) [OF a] miss env
    by (cases mode) (simp_all add: MemoryController_access_def mc_access_miss_def mc_cache_line_load [OF ok]
        slice room bind_pair_map Let_def)
  have "ml_data ?l = (case mode of Read \<Rightarrow> ?block | Write \<Rightarrow> ?block[?o := d])"
    by (cases mode) simp_all
  from store_line_ok [OF ok' tag may len view [symmetric] this address_parts(2) [OF a]]
  show ?thesis unfolding acc mc_access_ok_seed .
qed


lemma access_ok:
  assumes "mc_ok mc" "unat a < MC_MEMORY_SIZE" "env_line env \<noteq> None" "\<not> evicts_dirty env a mc"
  shows "mc_access_ok a mode d mc (MemoryController_access env a mode d mc)"
  using access_hit_ok [OF assms(1,2)] access_miss_ok [OF assms(1,2) _ _ assms(4)] assms(3)
  by (cases "mc_hit (mc_row mc (a div MC_LINE_SIZE)) (a div MC_LINE_SIZE)") auto

subsection \<open>Runs\<close>

text \<open>The specification: a function from addresses to bytes.\<close>

fun memory_run :: "(mc_env \<times> u64 \<times> AccessMode \<times> u8) list \<Rightarrow> (u64 \<Rightarrow> u8) \<Rightarrow> u8 list" where
  "memory_run [] m = []"
| "memory_run ((env, a, Read, d) # ops) m = m a # memory_run ops m"
| "memory_run ((env, a, Write, d) # ops) m = d # memory_run ops (m(a := d))"

fun memory_after :: "(mc_env \<times> u64 \<times> AccessMode \<times> u8) list \<Rightarrow> (u64 \<Rightarrow> u8) \<Rightarrow> u64 \<Rightarrow> u8" where
  "memory_after [] m = m"
| "memory_after ((env, a, Read, d) # ops) m = memory_after ops m"
| "memory_after ((env, a, Write, d) # ops) m = memory_after ops (m(a := d))"

text \<open>No access of the run evicts a dirty line.\<close>

fun run_clean :: "(mc_env \<times> u64 \<times> AccessMode \<times> u8) list \<Rightarrow> MemoryController \<Rightarrow> bool" where
  "run_clean [] mc \<longleftrightarrow> True"
| "run_clean ((env, a, mode, d) # ops) mc \<longleftrightarrow> \<not> evicts_dirty env a mc \<and>
     (case MemoryController_access env a mode d mc of None \<Rightarrow> True | Some (_, mc') \<Rightarrow> run_clean ops mc')"

definition op_ok :: "mc_env \<times> u64 \<times> AccessMode \<times> u8 \<Rightarrow> bool" where
  "op_ok opr \<longleftrightarrow> (case opr of (env, a, _, _) \<Rightarrow> env_line env \<noteq> None \<and> unat a < MC_MEMORY_SIZE)"

lemma mc_run_memory:
  assumes "mc_ok mc" "list_all op_ok ops" "run_clean ops mc"
  shows "\<exists>mc'. mc_run ops mc = Some (memory_run ops (mc_byte mc), mc') \<and> mc_ok mc' \<and>
    mc_byte mc' = memory_after ops (mc_byte mc)"
  using assms
proof (induction ops arbitrary: mc)
  case (Cons opr ops)
  obtain env a mode d where opr: "opr = (env, a, mode, d)" by (cases opr)
  have "env_line env \<noteq> None" "unat a < MC_MEMORY_SIZE" "\<not> evicts_dirty env a mc"
    using Cons.prems opr by (auto simp: op_ok_def)
  from access_ok [OF Cons.prems(1) this(2,1,3), of mode d] obtain mc1 where
    mc1: "MemoryController_access env a mode d mc = Some (case mode of Read \<Rightarrow> mc_byte mc a | Write \<Rightarrow> d, mc1)"
    "mc_ok mc1" "\<And>b. mc_byte mc1 b = (if mode = Write \<and> b = a then d else mc_byte mc b)"
    by (auto simp: mc_access_ok_def)
  have "mc_byte mc1 = (case mode of Read \<Rightarrow> mc_byte mc | Write \<Rightarrow> (mc_byte mc)(a := d))"
    by (rule ext) (simp add: mc1(3) split: AccessMode.splits)
  moreover have "\<exists>mc'. mc_run ops mc1 = Some (memory_run ops (mc_byte mc1), mc') \<and> mc_ok mc' \<and>
      mc_byte mc' = memory_after ops (mc_byte mc1)"
    using Cons.IH [OF mc1(2)] Cons.prems opr mc1(1) by simp
  ultimately show ?case using mc1(1) opr by (cases mode) auto
qed simp

lemma mc_new_row: "mc_row (MemoryController_new memory now) t = replicate 4 None"
  using mc_set_bound [of t] by (simp add: mc_row_def MemoryController_new_def MAX_CACHE_SETS_def sizes)

lemma mc_new_ok:
  assumes "length memory = MC_MEMORY_SIZE"
  shows "mc_ok (MemoryController_new memory now)"
    and "unat a < MC_MEMORY_SIZE \<Longrightarrow> mc_byte (MemoryController_new memory now) a = memory ! unat a"
proof -
  let ?mc = "MemoryController_new memory now"
  show "mc_ok ?mc"
    using assms by (simp add: mc_ok_def MemoryController_new_def row_ok_def MAX_CACHE_SETS_def sizes)
  assume a: "unat a < MC_MEMORY_SIZE"
  have "mc_view ?mc t = mc_block memory t" for t
    unfolding mc_view_def mc_new_row
    by (simp add: row_view_def mc_hit_None_iff [THEN iffD2] MemoryController_new_def)
  moreover have "unat a = 64 * unat (a div MC_LINE_SIZE) + unat (a mod MC_LINE_SIZE)"
    by (simp add: unat_div_distrib unat_mod_distrib sizes)
  ultimately show "mc_byte ?mc a = memory ! unat a"
    using address_parts(1,2) [OF a] assms by (simp add: mc_byte_def mc_block_def MC_MEMORY_SIZE_def)
qed


lemma memory_run_cong:
  assumes "list_all op_ok ops" "\<And>a. unat a < MC_MEMORY_SIZE \<Longrightarrow> m a = m' a"
  shows "memory_run ops m = memory_run ops m'"
  using assms
proof (induction ops arbitrary: m m')
  case (Cons opr ops)
  obtain env a mode d where opr: "opr = (env, a, mode, d)" by (cases opr)
  have "memory_run ops m = memory_run ops m'" "memory_run ops (m(a := d)) = memory_run ops (m'(a := d))"
    using Cons.prems by (auto intro!: Cons.IH)
  then show ?case using Cons.prems opr by (cases mode) (auto simp: op_ok_def)
qed simp

text \<open>Which runs never evict: those that touch at most four blocks of every set.\<close>

definition mc_tags :: "MemoryController \<Rightarrow> u64 set" where
  "mc_tags mc = {ml_tag l |row l. row \<in> set (mc_cache mc) \<and> Some l \<in> set row}"

lemma mc_set_line_tags:
  assumes "mc_set_line cl i l mc = Some mc'"
  shows "mc_tags mc' \<subseteq> insert (ml_tag l) (mc_tags mc)"
proof -
  from assms obtain row where row: "unat cl < length (mc_cache mc)" "row = mc_cache mc ! unat cl"
    "mc' = mc\<lparr>mc_cache := (mc_cache mc)[unat cl := row[i := Some l]]\<rparr>"
    by (auto simp: mc_set_line_def access_simps split: bind_splits)
  have "row \<in> set (mc_cache mc)" using row by simp
  moreover have "set (mc_cache mc') \<subseteq> insert (row[i := Some l]) (set (mc_cache mc))"
    using row(3) set_update_subset_insert by simp
  moreover have "set (row[i := Some l]) \<subseteq> insert (Some l) (set row)" by (rule set_update_subset_insert)
  ultimately show ?thesis unfolding mc_tags_def by blast
qed

lemma access_hit_tags:
  assumes "mc_access_hit env cl i off mode d l mc = Some (x, mc')"
  shows "mc_tags mc' \<subseteq> insert (ml_tag l) (mc_tags mc)"
  using assms mc_set_line_tags [of cl i _ mc mc']
  by (cases mode) (fastforce simp: mc_access_hit_def bind_eq_Some_conv Let_def)+

lemma make_room_tags:
  assumes "mc_make_room env cl row mc = Some (i, m)"
  shows "mc_tags m = mc_tags mc"
proof -
  have "mc_cache m = mc_cache mc" using assms by (cases "mc_policy mc")
    (auto simp: mc_make_room_def mc_victim_def bind_eq_Some_conv Let_def split: option.splits if_splits)
  then show ?thesis by (simp add: mc_tags_def)
qed

lemma access_miss_tags:
  assumes "mc_access_miss env a cl tag off mode d row mc = Some (x, mc')"
  shows "mc_tags mc' \<subseteq> insert tag (mc_tags mc)"
proof -
  have "\<exists>i m l. mc_make_room env cl row mc = Some (i, m) \<and> mc_set_line cl i l m = Some mc' \<and> ml_tag l = tag"
    using assms by (cases mode) (fastforce simp: mc_access_miss_def bind_eq_Some_conv Let_def)+
  then show ?thesis using make_room_tags mc_set_line_tags by metis
qed

lemma access_tags:
  assumes "MemoryController_access env a mode d mc = Some (x, mc')"
  shows "mc_tags mc' \<subseteq> insert (a div MC_LINE_SIZE) (mc_tags mc)"
proof -
  let ?t = "a div MC_LINE_SIZE"
  from assms obtain row where row: "c_load (mc_cache mc) (unat (?t mod NUM_CACHE_LINES)) = Some row"
    by (auto simp: MemoryController_access_def Let_def bind_eq_Some_conv)
  show ?thesis
  proof (cases "mc_hit row ?t")
    case (Some i)
    from mc_hit_SomeD [OF this] obtain l where "row ! i = Some l" "ml_tag l = ?t" .
    then show ?thesis using assms row Some access_hit_tags
      by (fastforce simp: MemoryController_access_def Let_def)
  next
    case None
    then show ?thesis using assms row access_miss_tags
      by (fastforce simp: MemoryController_access_def Let_def)
  qed
qed

lemma few_blocks_clean:
  assumes ok: "mc_ok mc" and T: "finite T" "mc_tags mc \<subseteq> T" "a div MC_LINE_SIZE \<in> T"
    and few: "card {u \<in> T. mc_set u = mc_set (a div MC_LINE_SIZE)} \<le> 4"
  shows "\<not> evicts_dirty env a mc"
proof
  let ?t = "a div MC_LINE_SIZE" and ?S = "{u \<in> T. mc_set u = mc_set (a div MC_LINE_SIZE)}"
  assume "evicts_dirty env a mc"
  then have miss: "mc_hit (mc_row mc ?t) ?t = None" and full: "mc_empty_slot (mc_row mc ?t) = None"
    by (simp_all add: evicts_dirty_def Let_def)
  let ?f = "\<lambda>i. ml_tag (the (mc_row mc ?t ! i))"
  have some: "\<exists>l. mc_row mc ?t ! i = Some l" if "i < 4" for i
    using full that by (auto simp: mc_empty_slot_def first_index_None_iff MAX_CACHE_SETS_def)
  note row = mc_row_ok [OF ok, of ?t]
  have "inj_on ?f {..<4}"
  proof (rule inj_onI)
    fix i j assume "i \<in> {..<4}" "j \<in> {..<4}" "?f i = ?f j"
    then show "i = j" using some [of i] some [of j] row unfolding row_ok_def by fastforce
  qed
  moreover have "?f ` {..<4} \<subseteq> ?S - {?t}"
  proof (rule image_subsetI)
    fix i :: nat assume "i \<in> {..<4}"
    then obtain l where l: "i < 4" "mc_row mc ?t ! i = Some l" using some by auto
    have "mc_row mc ?t \<in> set (mc_cache mc)"
      using ok mc_set_bound [of ?t] by (simp add: mc_row_def mc_ok_def)
    moreover have "Some l \<in> set (mc_row mc ?t)" using l row by (metis nth_mem row_ok_def)
    ultimately have "ml_tag l \<in> T" using T(2) by (auto simp: mc_tags_def)
    then show "?f i \<in> ?S - {?t}" using l row miss by (auto simp: row_ok_def line_ok_def mc_hit_None_iff)
  qed
  ultimately have "4 \<le> card (?S - {?t})" using T(1) card_inj_on_le [of ?f "{..<4}" "?S - {?t}"] by simp
  moreover have "card (?S - {?t}) < card ?S" using T by (intro psubset_card_mono) auto
  ultimately show False using few by simp
qed

definition op_tag :: "mc_env \<times> u64 \<times> AccessMode \<times> u8 \<Rightarrow> u64" where
  "op_tag opr = fst (snd opr) div MC_LINE_SIZE"

definition blocks_fit :: "(mc_env \<times> u64 \<times> AccessMode \<times> u8) list \<Rightarrow> bool" where
  "blocks_fit ops \<longleftrightarrow> list_all (\<lambda>t. card {u \<in> set (map op_tag ops). mc_set u = mc_set t} \<le> 4) (map op_tag ops)"

lemma run_clean_fits:
  assumes "mc_ok mc" "list_all op_ok ops" "mc_tags mc \<subseteq> T" "finite T" "set (map op_tag ops) \<subseteq> T"
    and "\<And>t. t \<in> T \<Longrightarrow> card {u \<in> T. mc_set u = mc_set t} \<le> 4"
  shows "run_clean ops mc"
  using assms(1-3,5)
proof (induction ops arbitrary: mc)
  case (Cons opr ops)
  obtain env a mode d where opr: "opr = (env, a, mode, d)" by (cases opr)
  have a: "a div MC_LINE_SIZE \<in> T" using Cons.prems(4) opr by (simp add: op_tag_def)
  have clean: "\<not> evicts_dirty env a mc"
    by (rule few_blocks_clean [OF Cons.prems(1) assms(4) Cons.prems(3) a assms(6) [OF a]])
  have "run_clean ops mc'" if acc: "MemoryController_access env a mode d mc = Some (x, mc')" for x mc'
  proof (rule Cons.IH)
    show "mc_ok mc'" using access_ok [OF Cons.prems(1) _ _ clean, of mode d] Cons.prems(2) opr acc
      by (auto simp: op_ok_def mc_access_ok_def)
    show "mc_tags mc' \<subseteq> T" using access_tags [OF acc] Cons.prems(3) a by blast
  qed (use Cons.prems in simp_all)
  then show ?case using clean opr by (auto split: option.splits)
qed simp

lemma run_tags: "mc_run ops mc = Some (xs, mc') \<Longrightarrow> mc_tags mc' \<subseteq> mc_tags mc \<union> set (map op_tag ops)"
proof (induction ops arbitrary: mc xs)
  case (Cons opr ops)
  obtain env a mode d where opr: "opr = (env, a, mode, d)" by (cases opr)
  from Cons.prems opr obtain x mc1 ys where
    mc1: "MemoryController_access env a mode d mc = Some (x, mc1)" "mc_run ops mc1 = Some (ys, mc')"
    by (auto simp: bind_eq_Some_conv)
  show ?case using access_tags [OF mc1(1)] Cons.IH [OF mc1(2)] opr by (auto simp: op_tag_def)
qed simp

text \<open>C14. The controller is a memory: on every run of reads and writes inside the megabyte that
  touches at most four blocks of each set, all accesses stay inside the arrays, and every read
  gives the byte last written to its address, or the byte main memory started with; whatever
  \<open>malloc\<close>, the clock and the random numbers return.\<close>

theorem memory_controller_is_memory:
  assumes "length memory = MC_MEMORY_SIZE" "list_all op_ok ops" "blocks_fit ops"
  shows "\<exists>mc'. mc_run ops (MemoryController_new memory now) =
    Some (memory_run ops (\<lambda>a. memory ! unat a), mc')"
proof -
  let ?mc = "MemoryController_new memory now"
  have "mc_tags ?mc = {}" by (auto simp: mc_tags_def MemoryController_new_def)
  then have "run_clean ops ?mc" using assms(3)
    by (intro run_clean_fits [OF mc_new_ok(1) [OF assms(1)] assms(2), where T = "set (map op_tag ops)"])
      (auto simp: blocks_fit_def list_all_iff)
  from mc_run_memory [OF mc_new_ok(1) [OF assms(1)] assms(2) this] obtain mc' where
    "mc_run ops ?mc = Some (memory_run ops (mc_byte ?mc), mc')" by blast
  also have "memory_run ops (mc_byte ?mc) = memory_run ops (\<lambda>a. memory ! unat a)"
    by (rule memory_run_cong [OF assms(2) mc_new_ok(2) [OF assms(1)]])
  finally show ?thesis by blast
qed

definition some_env :: mc_env where
  "some_env = \<lparr>env_line = Some \<lparr>ml_data = [], ml_tag = 0, ml_dirty = 5, ml_last_used = 0\<rparr>,
     env_clock = 1, env_rand = 2\<rparr>"

theorem memory_controller_is_memory_witness:
  "\<exists>mc'. mc_run [(some_env, 70, Write, 42), (some_env, 70, Read, 0), (some_env, 71, Read, 0)]
      (MemoryController_new (replicate MC_MEMORY_SIZE 7) 0) = Some ([42, 42, 7], mc')"
proof -
  let ?ops = "[(some_env, 70, Write, 42), (some_env, 70, Read, 0), (some_env, 71, Read, 0)]"
  have tags: "map op_tag ?ops = [1, 1, 1]" by (simp add: op_tag_def MC_LINE_SIZE_def)
  have "{u \<in> set [1, 1, 1]. mc_set u = mc_set 1} = {1}" by auto
  then have "blocks_fit ?ops" unfolding blocks_fit_def tags by simp
  moreover have "list_all op_ok ?ops" by (simp add: op_ok_def some_env_def MC_MEMORY_SIZE_def)
  ultimately show ?thesis
    using memory_controller_is_memory [of "replicate MC_MEMORY_SIZE 7" ?ops 0] by (simp add: MC_MEMORY_SIZE_def)
qed

text \<open>The program: the values it prints, whatever the surroundings of its accesses.\<close>

lemma main_blocks_fit:
  "t \<in> {0, 1, 2, 16, 32} \<Longrightarrow> card {u \<in> {0, 1, 2, 16, 32 :: u64}. mc_set u = mc_set t} \<le> 4"
proof -
  assume t: "t \<in> {0, 1, 2, 16, 32}"
  have "mc_set 0 = 0" "mc_set 1 = 1" "mc_set 2 = 2" "mc_set 16 = 16" "mc_set 32 = 32"
    by (simp_all add: mc_set_def NUM_CACHE_LINES_def MC_LINE_SIZE_def)
  with t have "{u \<in> {0, 1, 2, 16, 32 :: u64}. mc_set u = mc_set t} = {t}" by auto
  then show ?thesis by simp
qed

theorem mc_main_prints:
  assumes "length memory = MC_MEMORY_SIZE" "envs = [e1, e2, e3, e4, e5, e6, e7, e8]"
    "list_all (\<lambda>e. env_line e \<noteq> None) envs"
  shows "\<exists>st st'. mc_main envs memory now = Some ([42, 42, 100, 200, 42], st, [50, 75, 100], st')"
proof -
  let ?mc = "MemoryController_new memory now" and ?T = "{0, 1, 2, 16, 32 :: u64}"
  let ?ops = "zip (take 5 envs) [(0, Write, 42), (0, Read, 0), (64, Write, 100), (128, Write, 200), (0, Read, 0)]"
  let ?ops' = "zip (drop 5 envs) [(1024, Write, 50), (2048, Write, 75), (64, Read, 0)]"
  have ok: "list_all op_ok ?ops" "list_all op_ok ?ops'"
    using assms(2,3) by (simp_all add: op_ok_def MC_MEMORY_SIZE_def)
  have tags: "set (map op_tag ?ops) \<subseteq> ?T" "set (map op_tag ?ops') \<subseteq> ?T"
    using assms(2) by (simp_all add: op_tag_def MC_LINE_SIZE_def)
  have new: "mc_ok ?mc" "mc_tags ?mc \<subseteq> ?T"
    using mc_new_ok(1) [OF assms(1)] by (auto simp: mc_tags_def MemoryController_new_def)
  have "run_clean ?ops ?mc"
    by (rule run_clean_fits [OF new(1) ok(1) new(2) _ tags(1) main_blocks_fit]) simp_all
  from mc_run_memory [OF new(1) ok(1) this] obtain mc1 where
    mc1: "mc_run ?ops ?mc = Some (memory_run ?ops (mc_byte ?mc), mc1)" "mc_ok mc1"
    "mc_byte mc1 = memory_after ?ops (mc_byte ?mc)" by blast
  let ?mc1 = "MemoryController_setReplacementPolicy mc1 Random"
  have pol: "mc_ok ?mc1" "mc_byte ?mc1 = mc_byte mc1" "mc_tags ?mc1 = mc_tags mc1"
    using mc1(2) by (auto simp: MemoryController_setReplacementPolicy_def mc_ok_def mc_byte_def [abs_def]
        mc_view_def mc_row_def mc_tags_def)
  have sub: "mc_tags ?mc1 \<subseteq> ?T" using run_tags [OF mc1(1)] new(2) tags(1) pol(3) by blast
  have "run_clean ?ops' ?mc1"
    by (rule run_clean_fits [OF pol(1) ok(2) sub _ tags(2) main_blocks_fit]) simp_all
  from mc_run_memory [OF pol(1) ok(2) this] obtain mc2 where
    mc2: "mc_run ?ops' ?mc1 = Some (memory_run ?ops' (mc_byte ?mc1), mc2)" by blast
  have "memory_run ?ops (mc_byte ?mc) = [42, 42, 100, 200, 42]"
    "memory_run ?ops' (mc_byte ?mc1) = [50, 75, 100]"
    using assms(2) by (simp_all add: pol(2) mc1(3))
  then show ?thesis using mc1(1) mc2 unfolding mc_main_def Let_def by simp
qed

subsection \<open>Write-back\<close>

text \<open>The tag is the whole block number, so the address of the block is 64 times the tag; the code
  multiplies by the number of sets again.\<close>

lemma writeback_address_value:
  assumes "unat t < 16384"
  shows "unat (writeback_address t (t mod NUM_CACHE_LINES)) = 64 * (1024 * unat t + unat t mod 1024)"
proof -
  let ?n = "1024 * unat t + unat t mod 1024"
  have "64 * (1024 * x + y) < 1073741824" if "x < 16384" "y < 1024" for x y :: nat
    using that by simp
  from this [OF assms, of "unat t mod 1024"] have "64 * ?n < 1073741824" by simp
  also have "(1073741824 :: nat) < 2 ^ 64" by simp
  finally have n: "64 * ?n < 2 ^ 64" .
  have size_words: "NUM_CACHE_LINES = of_nat 1024" "MC_LINE_SIZE = of_nat 64"
    by (simp_all add: word_unat_eq_iff sizes)
  have "t mod NUM_CACHE_LINES = of_nat (unat t mod 1024)"
    by (metis of_nat_unat sizes(1) ucast_id unat_mod_distrib)
  then have "writeback_address t (t mod NUM_CACHE_LINES) = of_nat (64 * ?n)"
    unfolding writeback_address_def by (simp add: size_words algebra_simps)
  then show ?thesis using n by (simp only: unat_of_nat) (simp add: take_bit_nat_eq_self)
qed


lemma make_room_dirty:
  assumes ok: "mc_ok mc" and dirty: "evicts_dirty env a mc"
  defines "t \<equiv> a div MC_LINE_SIZE"
  defines "v \<equiv> fst (mc_victim env mc (mc_row mc t))"
  obtains l where "mc_row mc t ! v = Some l" "length (ml_data l) = 64"
    "mc_make_room env (t mod NUM_CACHE_LINES) (mc_row mc t) mc = map_option
      (\<lambda>m. (v, (snd (mc_victim env mc (mc_row mc t)))\<lparr>mc_memory := m\<rparr>))
      (c_splice (mc_memory mc) (64 * (1024 * unat (ml_tag l) + unat (ml_tag l) mod 1024)) (ml_data l))"
proof -
  have none: "mc_empty_slot (mc_row mc t) = None" and d: "ml_dirty (the (mc_row mc t ! v)) \<noteq> 0"
    using dirty by (simp_all add: evicts_dirty_def Let_def t_def v_def)
  have v: "v < 4" by (simp add: v_def mc_victim_bound)
  with none obtain l where l: "mc_row mc t ! v = Some l"
    by (auto simp: mc_empty_slot_def first_index_None_iff MAX_CACHE_SETS_def)
  have lok: "line_ok (mc_memory mc) (mc_set t) l" using mc_row_ok [OF ok, of t] v l by (simp add: row_ok_def)
  then have "ml_tag l mod NUM_CACHE_LINES = t mod NUM_CACHE_LINES"
    by (simp add: line_ok_def mc_set_def word_unat_eq_iff)
  with writeback_address_value [of "ml_tag l"] lok
  have "unat (writeback_address (ml_tag l) (t mod NUM_CACHE_LINES)) =
      64 * (1024 * unat (ml_tag l) + unat (ml_tag l) mod 1024)" by (simp add: line_ok_def)
  moreover have "mc_memory (snd (mc_victim env mc (mc_row mc t))) = mc_memory mc"
    by (cases "mc_policy mc") (simp_all add: mc_victim_def)
  ultimately show thesis using that [OF l] lok none d l
    by (cases "mc_victim env mc (mc_row mc t)")
      (simp add: mc_make_room_def v_def line_ok_def map_conv_bind_option comp_def)
qed

text \<open>Evicting a dirty line whose block number is 16 or more leaves the memory: the block lies
  at 64 times its number, but the write-back multiplies the number by 1024 once more, and the copy
  goes behind the end of the megabyte.\<close>

theorem dirty_eviction_leaves_memory:
  assumes "mc_ok mc" "evicts_dirty env a mc"
    "16 \<le> unat (ml_tag (the (mc_row mc (a div MC_LINE_SIZE) !
       fst (mc_victim env mc (mc_row mc (a div MC_LINE_SIZE))))))"
  shows "MemoryController_access env a mode d mc = None"
proof -
  let ?t = "a div MC_LINE_SIZE"
  from make_room_dirty [OF assms(1,2)] obtain l where
    l: "mc_row mc ?t ! fst (mc_victim env mc (mc_row mc ?t)) = Some l"
    and len: "length (ml_data l) = 64" and room: "mc_make_room env (?t mod NUM_CACHE_LINES) (mc_row mc ?t) mc = map_option
      (\<lambda>m. (fst (mc_victim env mc (mc_row mc ?t)), (snd (mc_victim env mc (mc_row mc ?t)))\<lparr>mc_memory := m\<rparr>))
      (c_splice (mc_memory mc) (64 * (1024 * unat (ml_tag l) + unat (ml_tag l) mod 1024)) (ml_data l))" .
  have "16 \<le> unat (ml_tag l)" using assms(3) l by simp
  with len have "c_splice (mc_memory mc) (64 * (1024 * unat (ml_tag l) + unat (ml_tag l) mod 1024))
      (ml_data l) = None" using assms(1) by (simp add: mc_ok_def MC_MEMORY_SIZE_def)
  moreover have "mc_hit (mc_row mc ?t) ?t = None" using assms(2) by (simp add: evicts_dirty_def Let_def)
  ultimately show ?thesis using room
    by (simp add: MemoryController_access_def mc_access_miss_def mc_cache_line_load [OF assms(1)] Let_def
        bind_eq_None_conv)
qed


text \<open>A controller with one full set of dirty lines.\<close>

definition dirty_line :: "u64 \<Rightarrow> MC_CacheLine" where
  "dirty_line tag = \<lparr>ml_data = replicate 64 1, ml_tag = tag, ml_dirty = 1, ml_last_used = 0\<rparr>"

definition full_set :: MemoryController where
  "full_set = (MemoryController_new (replicate MC_MEMORY_SIZE 0) 0)\<lparr>mc_cache :=
     (replicate 1024 (replicate 4 None))
       [16 := map (\<lambda>t. Some (dirty_line t)) [16, 1040, 2064, 3088]]\<rparr>"

lemma full_set_row: "mc_cache full_set ! s =
    (if s = 16 then map (\<lambda>t. Some (dirty_line t)) [16, 1040, 2064, 3088] else replicate 4 None)"
  if "s < 1024"
  using that by (simp add: full_set_def nth_list_update)

lemma all_less_4: "(\<forall>i < 4. P i) \<longleftrightarrow> P 0 \<and> P 1 \<and> P 2 \<and> P (3 :: nat)"
  by (auto simp: less_Suc_eq numeral_eq_Suc)

lemma full_set_ok: "mc_ok full_set"
proof -
  have "row_ok mem 16 (map (\<lambda>t. Some (dirty_line t)) [16, 1040, 2064, 3088])" for mem
    by (simp add: row_ok_def all_less_4 line_ok_def dirty_line_def mc_set_def NUM_CACHE_LINES_def
        MC_LINE_SIZE_def)
  moreover have "row_ok mem s (replicate 4 None)" for mem s by (simp add: row_ok_def)
  ultimately show ?thesis
    unfolding mc_ok_def by (auto simp: full_set_row) (simp_all add: full_set_def MemoryController_new_def)
qed

theorem dirty_eviction_leaves_memory_witness:
  "MemoryController_access some_env 263168 Read 0 full_set = None"
proof -
  let ?row = "map (\<lambda>t. Some (dirty_line t)) [16, 1040, 2064, 3088]"
  have t: "263168 div MC_LINE_SIZE = 4112" by (simp add: MC_LINE_SIZE_def)
  have "mc_set 4112 = 16" by (simp add: mc_set_def NUM_CACHE_LINES_def MC_LINE_SIZE_def)
  then have row: "mc_row full_set 4112 = ?row" by (simp add: mc_row_def full_set_row)
  have v: "fst (mc_victim some_env full_set ?row) = 0"
    by (simp add: mc_victim_def full_set_def MemoryController_new_def mc_lru_victim_def MAX_CACHE_SETS_def
        for_range_def dirty_line_def upt_conv_Cons)
  have "mc_hit ?row 4112 = None" by (simp add: mc_hit_None_iff all_less_4 dirty_line_def)
  moreover have "mc_empty_slot ?row = None"
    by (simp add: mc_empty_slot_def first_index_None_iff MAX_CACHE_SETS_def all_less_4)
  ultimately have "evicts_dirty some_env 263168 full_set"
    unfolding evicts_dirty_def Let_def t row v by (simp add: dirty_line_def)
  from dirty_eviction_leaves_memory [OF full_set_ok this, of Read 0]
  show ?thesis unfolding t row v by (simp add: dirty_line_def)
qed

end
