(* ===== verification/Paged_Memory.thy ===== *)
theory Paged_Memory
  imports Prelude
begin

text \<open>
  The paged memory of \<open>memory/virtual_mem/pageTable.c\<close>: a page table, a translation lookaside
  buffer (TLB) filled in order of arrival, 100 frames of memory and a disk of 1000 pages.

  Virtual addresses are \<open>32 word\<close>s. Frame and page numbers are \<open>nat\<close>: they come from quotients
  and loop indices, and \<open>vm_ok\<close> bounds them by the number of frames, so no product wraps. The two
  large arrays are functions from the index, read and written only after the bounds test that
  makes an access outside them \<open>None\<close>. The messages are left out.

  Shown here: the TLB never disagrees with the page table and a resident page never moves; writes
  of nonzero bytes to the start of up to 100 pages are read back; but a frame counts as free as
  long as its first byte is zero, so two pages can get the same frame.
\<close>

subsection \<open>Data\<close>

definition VM_PAGE_SIZE :: nat where
  "VM_PAGE_SIZE = 4096"

definition PAGE_TABLE_ENTRIES :: nat where
  "PAGE_TABLE_ENTRIES = 1024"

definition PHYSICAL_MEMORY_SIZE :: nat where
  "PHYSICAL_MEMORY_SIZE = 100 * VM_PAGE_SIZE"

definition DISK_SIZE :: nat where
  "DISK_SIZE = 1000 * VM_PAGE_SIZE"

definition VM_TLB_SIZE :: nat where
  "VM_TLB_SIZE = 16"

record VM_PageTableEntry =
  pte_frame :: nat
  pte_present :: bool
  pte_dirty :: bool
  pte_accessed :: bool

record VM_TLBEntry =
  tlbe_page :: nat
  tlbe_frame :: nat

record vm =
  vm_physical :: "nat \<Rightarrow> u8"
  vm_disk :: "nat \<Rightarrow> u8"
  vm_page_table :: "VM_PageTableEntry list"
  vm_tlb :: "VM_TLBEntry list"
  vm_tlb_count :: nat

subsection \<open>Operations\<close>

text \<open>The state of the program before \<open>main\<close>: the globals are zero.\<close>

definition vm_init_memory :: "vm \<Rightarrow> vm" where
  "vm_init_memory s = s\<lparr>
     vm_page_table := replicate PAGE_TABLE_ENTRIES
       \<lparr>pte_frame = 0, pte_present = False, pte_dirty = False, pte_accessed = False\<rparr>,
     vm_tlb := replicate VM_TLB_SIZE \<lparr>tlbe_page = 0, tlbe_frame = 0\<rparr>,
     vm_physical := (\<lambda>_. 0), vm_disk := (\<lambda>_. 0)\<rparr>"

definition vm_tlb_insert :: "nat \<Rightarrow> nat \<Rightarrow> vm \<Rightarrow> vm option" where
  "vm_tlb_insert page frame s =
     (let e = \<lparr>tlbe_page = page, tlbe_frame = frame\<rparr> in
      if vm_tlb_count s < VM_TLB_SIZE then do {
        t \<leftarrow> c_store (vm_tlb s) (vm_tlb_count s) e;
        Some (s\<lparr>vm_tlb := t, vm_tlb_count := vm_tlb_count s + 1\<rparr>)
      } else do {
        let t = for_range 0 (VM_TLB_SIZE - 1) (\<lambda>i t. t[i := t ! (i + 1)]) (vm_tlb s);
        t \<leftarrow> c_store t (VM_TLB_SIZE - 1) e;
        Some (s\<lparr>vm_tlb := t\<rparr>)
      })"

text \<open>The frame for a page fault: the first one whose first byte is zero, else frame 0.\<close>

definition vm_free_frame :: "vm \<Rightarrow> nat" where
  "vm_free_frame s =
     (case first_index 0 (PHYSICAL_MEMORY_SIZE div VM_PAGE_SIZE)
             (\<lambda>i. vm_physical s (i * VM_PAGE_SIZE) = 0) of
        Some i \<Rightarrow> i
      | None \<Rightarrow> 0)"

text \<open>The \<open>memcpy\<close> of one page.\<close>

definition vm_load_page :: "nat \<Rightarrow> nat \<Rightarrow> vm \<Rightarrow> vm option" where
  "vm_load_page frame page s =
     (if (frame + 1) * VM_PAGE_SIZE \<le> PHYSICAL_MEMORY_SIZE \<and> (page + 1) * VM_PAGE_SIZE \<le> DISK_SIZE
      then Some (s\<lparr>vm_physical := (\<lambda>i.
        if frame * VM_PAGE_SIZE \<le> i \<and> i < (frame + 1) * VM_PAGE_SIZE
        then vm_disk s (page * VM_PAGE_SIZE + (i - frame * VM_PAGE_SIZE)) else vm_physical s i)\<rparr>)
      else None)"

definition vm_translate_address :: "u32 \<Rightarrow> vm \<Rightarrow> (nat \<times> vm) option" where
  "vm_translate_address virtual_address s =
     (let page_number = unat virtual_address div VM_PAGE_SIZE;
          offset = unat virtual_address mod VM_PAGE_SIZE in
      case first_index 0 (vm_tlb_count s) (\<lambda>i. tlbe_page (vm_tlb s ! i) = page_number) of
        Some i \<Rightarrow> Some (tlbe_frame (vm_tlb s ! i) * VM_PAGE_SIZE + offset, s)
      | None \<Rightarrow> do {
          pte \<leftarrow> c_load (vm_page_table s) page_number;
          if pte_present pte then do {
            s \<leftarrow> vm_tlb_insert page_number (pte_frame pte) s;
            Some (pte_frame pte * VM_PAGE_SIZE + offset, s)
          } else do {
            let free_frame = vm_free_frame s;
            s \<leftarrow> vm_load_page free_frame page_number s;
            pt \<leftarrow> c_store (vm_page_table s) page_number
                    (pte\<lparr>pte_frame := free_frame, pte_present := True, pte_accessed := True\<rparr>);
            s \<leftarrow> vm_tlb_insert page_number free_frame (s\<lparr>vm_page_table := pt\<rparr>);
            Some (free_frame * VM_PAGE_SIZE + offset, s)
          }
        })"

definition vm_write_memory :: "u32 \<Rightarrow> u8 \<Rightarrow> vm \<Rightarrow> vm option" where
  "vm_write_memory virtual_address value s = do {
     (physical_address, s) \<leftarrow> vm_translate_address virtual_address s;
     if physical_address < PHYSICAL_MEMORY_SIZE then do {
       let s = s\<lparr>vm_physical := (vm_physical s)(physical_address := value)\<rparr>;
       let page_number = unat virtual_address div VM_PAGE_SIZE;
       pte \<leftarrow> c_load (vm_page_table s) page_number;
       pt \<leftarrow> c_store (vm_page_table s) page_number (pte\<lparr>pte_dirty := True\<rparr>);
       Some (s\<lparr>vm_page_table := pt\<rparr>)
     } else None
   }"

definition vm_read_memory :: "u32 \<Rightarrow> vm \<Rightarrow> (u8 \<times> vm) option" where
  "vm_read_memory virtual_address s = do {
     (physical_address, s) \<leftarrow> vm_translate_address virtual_address s;
     if physical_address < PHYSICAL_MEMORY_SIZE then Some (vm_physical s physical_address, s) else None
   }"

definition vm_start :: vm where
  "vm_start = vm_init_memory
     \<lparr>vm_physical = (\<lambda>_. 0), vm_disk = (\<lambda>_. 0), vm_page_table = [], vm_tlb = [], vm_tlb_count = 0\<rparr>"

definition vm_main :: "u8 list option" where
  "vm_main = do {
     s \<leftarrow> vm_write_memory 0 65 vm_start;
     s \<leftarrow> vm_write_memory 4096 66 s;
     s \<leftarrow> vm_write_memory 8192 67 s;
     (a, s) \<leftarrow> vm_read_memory 0 s;
     (b, s) \<leftarrow> vm_read_memory 4096 s;
     (c, s) \<leftarrow> vm_read_memory 8192 s;
     Some [a, b, c]
   }"

subsection \<open>The TLB agrees with the page table\<close>

lemmas vm_sizes = VM_PAGE_SIZE_def PAGE_TABLE_ENTRIES_def PHYSICAL_MEMORY_SIZE_def DISK_SIZE_def
  VM_TLB_SIZE_def

definition vm_ok :: "vm \<Rightarrow> bool" where [inv_defs]:
  "vm_ok s \<longleftrightarrow> length (vm_page_table s) = PAGE_TABLE_ENTRIES \<and> length (vm_tlb s) = VM_TLB_SIZE \<and>
     vm_tlb_count s \<le> VM_TLB_SIZE \<and>
     (\<forall>p < PAGE_TABLE_ENTRIES. pte_present (vm_page_table s ! p) \<longrightarrow> pte_frame (vm_page_table s ! p) < 100) \<and>
     (\<forall>e \<in> set (take (vm_tlb_count s) (vm_tlb s)). tlbe_page e < PAGE_TABLE_ENTRIES \<and>
        pte_present (vm_page_table s ! tlbe_page e) \<and>
        pte_frame (vm_page_table s ! tlbe_page e) = tlbe_frame e)"

text \<open>The shifting loop drops the oldest entry.\<close>

lemma shift_loop:
  "k < length t \<Longrightarrow> for_range 0 k (\<lambda>i t. t[i := t ! (i + 1)]) t = take k (tl t) @ drop k t"
proof (induction k)
  case (Suc k)
  let ?u = "take k (tl t) @ drop k t"
  have len: "length (take k (tl t)) = k" using Suc.prems by simp
  then have "?u ! (k + 1) = t ! (k + 1)" using Suc.prems by (simp add: nth_append)
  moreover have "drop k t = t ! k # drop (Suc k) t" using Suc.prems by (simp add: Cons_nth_drop_Suc)
  moreover have "take (Suc k) (tl t) = take k (tl t) @ [t ! Suc k]"
    using Suc.prems by (simp add: take_Suc_conv_app_nth nth_tl)
  ultimately show ?case using Suc len by (simp add: for_range_last list_update_append)
qed simp

lemma tlb_insert_entries:
  assumes "length (vm_tlb s) = VM_TLB_SIZE" "vm_tlb_count s \<le> VM_TLB_SIZE"
  shows "\<exists>t n. vm_tlb_insert page frame s = Some (s\<lparr>vm_tlb := t, vm_tlb_count := n\<rparr>) \<and>
    length t = VM_TLB_SIZE \<and> n \<le> VM_TLB_SIZE \<and>
    set (take n t) \<subseteq> insert \<lparr>tlbe_page = page, tlbe_frame = frame\<rparr> (set (take (vm_tlb_count s) (vm_tlb s)))"
proof (cases "vm_tlb_count s < VM_TLB_SIZE")
  case True
  let ?e = "\<lparr>tlbe_page = page, tlbe_frame = frame\<rparr>" and ?n = "vm_tlb_count s"
  have "take (Suc ?n) ((vm_tlb s)[?n := ?e]) = take ?n (vm_tlb s) @ [?e]"
    using True assms(1) by (simp add: take_Suc_conv_app_nth)
  then show ?thesis using True assms
    by (intro exI [of _ "(vm_tlb s)[?n := ?e]"] exI [of _ "Suc ?n"]) (simp add: vm_tlb_insert_def)
next
  case False
  let ?e = "\<lparr>tlbe_page = page, tlbe_frame = frame\<rparr>"
  have full: "vm_tlb_count s = VM_TLB_SIZE" using False assms(2) by simp
  let ?t = "(take 15 (tl (vm_tlb s)) @ drop 15 (vm_tlb s))[15 := ?e]"
  have "for_range 0 15 (\<lambda>i t. t[i := t ! (i + 1)]) (vm_tlb s) = take 15 (tl (vm_tlb s)) @ drop 15 (vm_tlb s)"
    using assms(1) by (intro shift_loop) (simp add: VM_TLB_SIZE_def)
  then have ins: "vm_tlb_insert page frame s = Some (s\<lparr>vm_tlb := ?t\<rparr>)"
    using False assms(1) by (simp add: vm_tlb_insert_def VM_TLB_SIZE_def)
  have "set (take 15 (tl (vm_tlb s)) @ drop 15 (vm_tlb s)) \<subseteq> set (vm_tlb s)"
    by (cases "vm_tlb s") (auto dest: in_set_takeD in_set_dropD)
  with set_update_subset_insert [of "take 15 (tl (vm_tlb s)) @ drop 15 (vm_tlb s)" 15 ?e]
  have "set ?t \<subseteq> insert ?e (set (vm_tlb s))" by blast
  then show ?thesis using ins full assms(1)
    by (intro exI [of _ ?t] exI [of _ 16]) (simp add: VM_TLB_SIZE_def)
qed


text \<open>Adding the translation the page table gives keeps the invariant.\<close>

lemma tlb_insert_ok:
  assumes ok: "vm_ok s" and p: "p < PAGE_TABLE_ENTRIES" "pte_present (vm_page_table s ! p)"
    "pte_frame (vm_page_table s ! p) = f"
  shows "\<exists>t n. vm_tlb_insert p f s = Some (s\<lparr>vm_tlb := t, vm_tlb_count := n\<rparr>) \<and>
    vm_ok (s\<lparr>vm_tlb := t, vm_tlb_count := n\<rparr>)"
proof -
  from ok tlb_insert_entries [of s p f] obtain t n where
    tn: "vm_tlb_insert p f s = Some (s\<lparr>vm_tlb := t, vm_tlb_count := n\<rparr>)" "length t = VM_TLB_SIZE"
    "n \<le> VM_TLB_SIZE"
    "set (take n t) \<subseteq> insert \<lparr>tlbe_page = p, tlbe_frame = f\<rparr> (set (take (vm_tlb_count s) (vm_tlb s)))"
    by (auto simp: vm_ok_def)
  have "vm_ok (s\<lparr>vm_tlb := t, vm_tlb_count := n\<rparr>)"
    using ok p tn(2-4) unfolding vm_ok_def by (auto dest!: subsetD [OF tn(4)])
  then show ?thesis using tn(1) by blast
qed

lemma tlb_hit:
  assumes ok: "vm_ok s"
    and hit: "first_index 0 (vm_tlb_count s) (\<lambda>i. tlbe_page (vm_tlb s ! i) = p) = Some i"
  shows "p < PAGE_TABLE_ENTRIES" "pte_present (vm_page_table s ! p)"
    "tlbe_frame (vm_tlb s ! i) = pte_frame (vm_page_table s ! p)"
proof -
  have i: "i < vm_tlb_count s" "tlbe_page (vm_tlb s ! i) = p" using first_index_SomeD(2,3) [OF hit] by auto
  moreover have "vm_tlb s ! i \<in> set (take (vm_tlb_count s) (vm_tlb s))"
    using i(1) ok by (auto simp: vm_ok_def in_set_conv_nth)
  ultimately show "p < PAGE_TABLE_ENTRIES" "pte_present (vm_page_table s ! p)"
    "tlbe_frame (vm_tlb s ! i) = pte_frame (vm_page_table s ! p)"
    using ok by (auto simp: vm_ok_def)
qed

text \<open>A resident page: the page table's frame, and at most the TLB changes.\<close>

lemma translate_resident:
  assumes ok: "vm_ok s" and p: "p = unat va div VM_PAGE_SIZE" "p < PAGE_TABLE_ENTRIES"
    "pte_present (vm_page_table s ! p)"
  shows "\<exists>t n. vm_translate_address va s =
      Some (pte_frame (vm_page_table s ! p) * VM_PAGE_SIZE + unat va mod VM_PAGE_SIZE,
        s\<lparr>vm_tlb := t, vm_tlb_count := n\<rparr>) \<and> vm_ok (s\<lparr>vm_tlb := t, vm_tlb_count := n\<rparr>)"
proof (cases "first_index 0 (vm_tlb_count s) (\<lambda>i. tlbe_page (vm_tlb s ! i) = p)")
  case (Some i)
  then show ?thesis using tlb_hit(3) [OF ok Some] ok p(1)
    by (intro exI [of _ "vm_tlb s"] exI [of _ "vm_tlb_count s"]) (simp add: vm_translate_address_def)
next
  case None
  have "c_load (vm_page_table s) p = Some (vm_page_table s ! p)" using ok p(2) by (simp add: vm_ok_def)
  moreover obtain t n where "vm_tlb_insert p (pte_frame (vm_page_table s ! p)) s =
      Some (s\<lparr>vm_tlb := t, vm_tlb_count := n\<rparr>)" "vm_ok (s\<lparr>vm_tlb := t, vm_tlb_count := n\<rparr>)"
    using tlb_insert_ok [OF ok p(2,3) refl] by blast
  ultimately show ?thesis using None p(1,3)
    by (intro exI [of _ t] exI [of _ n]) (simp add: vm_translate_address_def Let_def)
qed

text \<open>A page fault: the page is loaded to the free frame and entered in the table.\<close>

definition vm_fault :: "nat \<Rightarrow> vm \<Rightarrow> vm" where
  "vm_fault p s = s\<lparr>
     vm_physical := (\<lambda>i. if vm_free_frame s * VM_PAGE_SIZE \<le> i \<and> i < (vm_free_frame s + 1) * VM_PAGE_SIZE
       then vm_disk s (p * VM_PAGE_SIZE + (i - vm_free_frame s * VM_PAGE_SIZE)) else vm_physical s i),
     vm_page_table := (vm_page_table s)[p := (vm_page_table s ! p)
       \<lparr>pte_frame := vm_free_frame s, pte_present := True, pte_accessed := True\<rparr>]\<rparr>"

lemma vm_free_frame_bound: "vm_free_frame s < 100"
  using first_index_SomeD(2) [of 0 100 "\<lambda>i. vm_physical s (i * VM_PAGE_SIZE) = 0"]
  by (auto simp: vm_free_frame_def vm_sizes split: option.splits)

lemma vm_fault_ok:
  assumes "vm_ok s" "p < PAGE_TABLE_ENTRIES" "\<not> pte_present (vm_page_table s ! p)"
  shows "vm_ok (vm_fault p s)"
  using assms vm_free_frame_bound [of s] unfolding vm_ok_def vm_fault_def
  by (auto simp: nth_list_update)

lemma translate_fault:
  assumes ok: "vm_ok s" and p: "p = unat va div VM_PAGE_SIZE" "p < 1000"
    "\<not> pte_present (vm_page_table s ! p)"
  shows "\<exists>t n. vm_translate_address va s =
      Some (vm_free_frame s * VM_PAGE_SIZE + unat va mod VM_PAGE_SIZE,
        (vm_fault p s)\<lparr>vm_tlb := t, vm_tlb_count := n\<rparr>) \<and>
      vm_ok ((vm_fault p s)\<lparr>vm_tlb := t, vm_tlb_count := n\<rparr>)"
proof -
  have p': "p < PAGE_TABLE_ENTRIES" using p(2) by (simp add: vm_sizes)
  have len: "p < length (vm_page_table s)" using ok p' by (simp add: vm_ok_def)
  have miss: "first_index 0 (vm_tlb_count s) (\<lambda>i. tlbe_page (vm_tlb s ! i) = p) = None"
    using tlb_hit(2) [OF ok] p(3) by (cases "first_index 0 (vm_tlb_count s) (\<lambda>i. tlbe_page (vm_tlb s ! i) = p)") auto
  have "vm_load_page (vm_free_frame s) p s = Some (s\<lparr>vm_physical := vm_physical (vm_fault p s)\<rparr>)"
    using p(2) vm_free_frame_bound [of s] by (simp add: vm_load_page_def vm_fault_def vm_sizes)
  moreover have "vm_fault p s = s\<lparr>vm_physical := vm_physical (vm_fault p s),
      vm_page_table := vm_page_table (vm_fault p s)\<rparr>" by (simp add: vm_fault_def)
  moreover have "\<exists>t n. vm_tlb_insert p (vm_free_frame s) (vm_fault p s) =
      Some ((vm_fault p s)\<lparr>vm_tlb := t, vm_tlb_count := n\<rparr>) \<and>
      vm_ok ((vm_fault p s)\<lparr>vm_tlb := t, vm_tlb_count := n\<rparr>)"
    by (rule tlb_insert_ok [OF vm_fault_ok [OF ok p' p(3)] p']) (use len in \<open>simp_all add: vm_fault_def\<close>)
  then obtain t n where "vm_tlb_insert p (vm_free_frame s) (vm_fault p s) =
      Some ((vm_fault p s)\<lparr>vm_tlb := t, vm_tlb_count := n\<rparr>)"
    "vm_ok ((vm_fault p s)\<lparr>vm_tlb := t, vm_tlb_count := n\<rparr>)" by blast
  ultimately show ?thesis using miss len p(1,3)
    by (intro exI [of _ t] exI [of _ n]) (simp add: vm_translate_address_def Let_def vm_fault_def)
qed


text \<open>Writes, in the two cases.\<close>

definition vm_dirty :: "nat \<Rightarrow> VM_PageTableEntry list \<Rightarrow> VM_PageTableEntry list" where
  "vm_dirty p pt = pt[p := (pt ! p)\<lparr>pte_dirty := True\<rparr>]"

lemma vm_dirty_length [simp]: "length (vm_dirty p pt) = length pt"
  by (simp add: vm_dirty_def)

lemma vm_dirty_nth: "q < length pt \<Longrightarrow> vm_dirty p pt ! q = (if q = p then (pt ! p)\<lparr>pte_dirty := True\<rparr> else pt ! q)"
  by (simp add: vm_dirty_def nth_list_update)

lemma vm_dirty_present [simp]: "q < length pt \<Longrightarrow> pte_present (vm_dirty p pt ! q) = pte_present (pt ! q)"
  by (simp add: vm_dirty_nth)

lemma vm_dirty_frame [simp]: "q < length pt \<Longrightarrow> pte_frame (vm_dirty p pt ! q) = pte_frame (pt ! q)"
  by (simp add: vm_dirty_nth)

lemma vm_ok_write:
  assumes "vm_ok s"
  shows "vm_ok (s\<lparr>vm_physical := m, vm_page_table := vm_dirty p (vm_page_table s)\<rparr>)"
  using assms by (simp add: vm_ok_def)

lemma frame_address: "f < 100 \<Longrightarrow> f * VM_PAGE_SIZE + unat va mod VM_PAGE_SIZE < PHYSICAL_MEMORY_SIZE"
proof -
  assume "f < 100"
  moreover have "unat va mod VM_PAGE_SIZE < VM_PAGE_SIZE" by (simp add: vm_sizes)
  ultimately show ?thesis unfolding vm_sizes by linarith
qed

lemma write_translated:
  assumes "vm_translate_address va s = Some (f * VM_PAGE_SIZE + unat va mod VM_PAGE_SIZE, t)" "f < 100"
    "vm_ok t" "p = unat va div VM_PAGE_SIZE" "p < PAGE_TABLE_ENTRIES"
  shows "\<exists>u. vm_write_memory va v s = Some u \<and> vm_ok u \<and>
    vm_page_table u = vm_dirty p (vm_page_table t) \<and> vm_disk u = vm_disk t \<and>
    vm_physical u = (vm_physical t)(f * VM_PAGE_SIZE + unat va mod VM_PAGE_SIZE := v)"
proof -
  let ?a = "f * VM_PAGE_SIZE + unat va mod VM_PAGE_SIZE"
  let ?u = "t\<lparr>vm_physical := (vm_physical t)(?a := v), vm_page_table := vm_dirty p (vm_page_table t)\<rparr>"
  have "p < length (vm_page_table t)" using assms(3,5) by (simp add: vm_ok_def)
  then have "vm_write_memory va v s = Some ?u"
    using assms(1,4) frame_address [OF assms(2), of va] by (simp add: vm_write_memory_def vm_dirty_def Let_def)
  then show ?thesis using vm_ok_write [OF assms(3)] by simp
qed

lemma write_resident:
  assumes "vm_ok s" "p = unat va div VM_PAGE_SIZE" "p < PAGE_TABLE_ENTRIES" "pte_present (vm_page_table s ! p)"
  shows "\<exists>u. vm_write_memory va v s = Some u \<and> vm_ok u \<and>
    vm_page_table u = vm_dirty p (vm_page_table s) \<and> vm_disk u = vm_disk s \<and>
    vm_physical u = (vm_physical s)(pte_frame (vm_page_table s ! p) * VM_PAGE_SIZE + unat va mod VM_PAGE_SIZE := v)"
proof -
  from translate_resident [OF assms] obtain t n where
    "vm_translate_address va s = Some (pte_frame (vm_page_table s ! p) * VM_PAGE_SIZE + unat va mod VM_PAGE_SIZE,
      s\<lparr>vm_tlb := t, vm_tlb_count := n\<rparr>)" "vm_ok (s\<lparr>vm_tlb := t, vm_tlb_count := n\<rparr>)" by blast
  moreover have "pte_frame (vm_page_table s ! p) < 100" using assms by (simp add: vm_ok_def)
  ultimately show ?thesis using write_translated [OF _ _ _ assms(2,3)] by fastforce
qed

lemma write_fault:
  assumes "vm_ok s" "p = unat va div VM_PAGE_SIZE" "p < 1000" "\<not> pte_present (vm_page_table s ! p)"
  shows "\<exists>u. vm_write_memory va v s = Some u \<and> vm_ok u \<and>
    vm_page_table u = vm_dirty p (vm_page_table (vm_fault p s)) \<and> vm_disk u = vm_disk s \<and>
    vm_physical u = (vm_physical (vm_fault p s))(vm_free_frame s * VM_PAGE_SIZE + unat va mod VM_PAGE_SIZE := v)"
proof -
  from translate_fault [OF assms] obtain t n where
    "vm_translate_address va s = Some (vm_free_frame s * VM_PAGE_SIZE + unat va mod VM_PAGE_SIZE,
      (vm_fault p s)\<lparr>vm_tlb := t, vm_tlb_count := n\<rparr>)"
    "vm_ok ((vm_fault p s)\<lparr>vm_tlb := t, vm_tlb_count := n\<rparr>)" by blast
  moreover have "p < PAGE_TABLE_ENTRIES" using assms(3) by (simp add: vm_sizes)
  moreover have "vm_disk (vm_fault p s) = vm_disk s" by (simp add: vm_fault_def)
  ultimately show ?thesis using write_translated [OF _ vm_free_frame_bound _ assms(2)] by fastforce
qed

lemma read_resident:
  assumes "vm_ok s" "p = unat va div VM_PAGE_SIZE" "p < PAGE_TABLE_ENTRIES" "pte_present (vm_page_table s ! p)"
  shows "\<exists>u. vm_read_memory va s =
    Some (vm_physical s (pte_frame (vm_page_table s ! p) * VM_PAGE_SIZE + unat va mod VM_PAGE_SIZE), u)"
proof -
  have "pte_frame (vm_page_table s ! p) < 100" using assms by (simp add: vm_ok_def)
  with translate_resident [OF assms] frame_address [of "pte_frame (vm_page_table s ! p)" va]
  show ?thesis by (auto simp: vm_read_memory_def)
qed

lemma vm_start_ok: "vm_ok vm_start"
  by (simp add: vm_ok_def vm_start_def vm_init_memory_def)

text \<open>C28. Translation is total on the pages of the disk, stays inside physical memory, keeps the TLB
  in agreement with the page table, and is stable: translating the same address again gives the
  same physical address, and no resident page changes its frame.\<close>

theorem translation_stable:
  assumes "vm_ok s" "unat va < DISK_SIZE"
  shows "\<exists>pa t. vm_translate_address va s = Some (pa, t) \<and> vm_ok t \<and> pa < PHYSICAL_MEMORY_SIZE \<and>
    (\<exists>u. vm_translate_address va t = Some (pa, u)) \<and>
    (\<forall>q < PAGE_TABLE_ENTRIES. pte_present (vm_page_table s ! q) \<longrightarrow> vm_page_table t ! q = vm_page_table s ! q)"
proof -
  define p where "p = unat va div VM_PAGE_SIZE"
  have p: "p < 1000" using assms(2) by (simp add: p_def vm_sizes less_mult_imp_div_less)
  then have p': "p < PAGE_TABLE_ENTRIES" by (simp add: vm_sizes)
  show ?thesis
  proof (cases "pte_present (vm_page_table s ! p)")
    case True
    from translate_resident [OF assms(1) p_def p' True] obtain t n where
      t: "vm_translate_address va s = Some (pte_frame (vm_page_table s ! p) * VM_PAGE_SIZE + unat va mod VM_PAGE_SIZE,
        s\<lparr>vm_tlb := t, vm_tlb_count := n\<rparr>)" "vm_ok (s\<lparr>vm_tlb := t, vm_tlb_count := n\<rparr>)" by blast
    have "pte_frame (vm_page_table s ! p) < 100" using assms(1) p' True by (simp add: vm_ok_def)
    with t translate_resident [OF t(2) p_def p'] True frame_address show ?thesis by fastforce
  next
    case False
    from translate_fault [OF assms(1) p_def p False] obtain t n where
      t: "vm_translate_address va s = Some (vm_free_frame s * VM_PAGE_SIZE + unat va mod VM_PAGE_SIZE,
        (vm_fault p s)\<lparr>vm_tlb := t, vm_tlb_count := n\<rparr>)"
      "vm_ok ((vm_fault p s)\<lparr>vm_tlb := t, vm_tlb_count := n\<rparr>)" by blast
    have new: "vm_page_table (vm_fault p s) ! q = (if q = p then (vm_page_table s ! p)
        \<lparr>pte_frame := vm_free_frame s, pte_present := True, pte_accessed := True\<rparr> else vm_page_table s ! q)" for q
      using assms(1) p' by (auto simp: vm_fault_def vm_ok_def nth_list_update)
    with t translate_resident [OF t(2) p_def p'] False frame_address [OF vm_free_frame_bound]
    show ?thesis by fastforce
  qed
qed

theorem translation_stable_witness:
  "\<exists>pa t. vm_translate_address 4099 vm_start = Some (pa, t) \<and> vm_ok t"
  using translation_stable [OF vm_start_ok, of 4099] by (auto simp: vm_sizes)


subsection \<open>Frames that look free\<close>

text \<open>A page that is resident but has a zero as its first byte is overwritten by the next page
  fault: after 65 has been written to address 1 and 66 to address 4097, which lies on another page,
  reading address 1 gives 66, because both pages have been given frame 0.\<close>

theorem pages_share_a_frame:
  "\<exists>s t u. vm_write_memory 1 65 vm_start = Some s \<and> vm_write_memory 4097 66 s = Some t \<and>
    vm_read_memory 1 t = Some (66, u)"
proof -
  have start: "\<not> pte_present (vm_page_table vm_start ! 0)" "\<not> pte_present (vm_page_table vm_start ! 1)"
    "length (vm_page_table vm_start) = 1024"
    by (simp_all add: vm_start_def vm_init_memory_def vm_sizes)
  have free: "vm_free_frame x = 0" if "vm_physical x 0 = 0" for x
    using that first_index_SomeI [of 0 0 100 "\<lambda>i. vm_physical x (i * VM_PAGE_SIZE) = 0"]
    by (simp add: vm_free_frame_def vm_sizes)
  have f0: "vm_free_frame vm_start = 0" by (rule free) (simp add: vm_start_def vm_init_memory_def)
  obtain s where s: "vm_write_memory 1 65 vm_start = Some s" "vm_ok s"
    "vm_page_table s = vm_dirty 0 (vm_page_table (vm_fault 0 vm_start))" "vm_disk s = vm_disk vm_start"
    "vm_physical s = (vm_physical (vm_fault 0 vm_start))(1 := 65)"
    using write_fault [OF vm_start_ok, of 0 1 65] start(1) f0 by (auto simp: VM_PAGE_SIZE_def)
  have "vm_physical s 0 = 0" unfolding s(5) by (simp add: vm_fault_def vm_start_def vm_init_memory_def)
  then have fs: "vm_free_frame s = 0" by (rule free)
  have pt: "\<not> pte_present (vm_page_table s ! 1)" "pte_present (vm_page_table s ! 0)"
    "pte_frame (vm_page_table s ! 0) = 0" "length (vm_page_table s) = 1024"
    unfolding s(3) using start f0 by (simp_all add: vm_fault_def)
  obtain t where t: "vm_write_memory 4097 66 s = Some t" "vm_ok t"
    "vm_page_table t = vm_dirty 1 (vm_page_table (vm_fault 1 s))"
    "vm_physical t = (vm_physical (vm_fault 1 s))(1 := 66)"
    using write_fault [OF s(2), of 1 4097 66] pt(1) fs by (auto simp: VM_PAGE_SIZE_def)
  have pt': "pte_present (vm_page_table t ! 0)" "pte_frame (vm_page_table t ! 0) = 0"
    unfolding t(3) using pt by (simp_all add: vm_fault_def)
  have "\<exists>u. vm_read_memory 1 t = Some (vm_physical t 1, u)"
    using read_resident [OF t(2), of 0 1] pt' by (simp add: vm_sizes)
  then show ?thesis using s(1) t(1,4) by auto
qed

text \<open>The runs on which the test for a free frame is right: only nonzero bytes are written to the
  start of a page.\<close>

definition packed :: "vm \<Rightarrow> bool" where
  "packed s \<longleftrightarrow> vm_ok s \<and>
     (\<forall>p < 1024. pte_present (vm_page_table s ! p) \<longrightarrow>
        p < 100 \<and> vm_physical s (pte_frame (vm_page_table s ! p) * 4096) \<noteq> 0) \<and>
     (\<forall>p < 1024. \<forall>q < 1024. pte_present (vm_page_table s ! p) \<longrightarrow> pte_present (vm_page_table s ! q) \<longrightarrow>
        pte_frame (vm_page_table s ! p) = pte_frame (vm_page_table s ! q) \<longrightarrow> p = q) \<and>
     (\<forall>f < 100. vm_physical s (f * 4096) \<noteq> 0 \<longrightarrow>
        (\<exists>p < 1024. pte_present (vm_page_table s ! p) \<and> pte_frame (vm_page_table s ! p) = f))"

lemma packed_free:
  assumes pk: "packed s" and p: "p < 100" "\<not> pte_present (vm_page_table s ! p)"
  shows "vm_physical s (vm_free_frame s * 4096) = 0"
proof (cases "\<exists>f < 100. vm_physical s (f * 4096) = 0")
  case True
  then have "first_index 0 100 (\<lambda>i. vm_physical s (i * 4096) = 0) \<noteq> None"
    by (auto simp: first_index_None_iff)
  then obtain i where i: "first_index 0 100 (\<lambda>i. vm_physical s (i * 4096) = 0) = Some i" by blast
  then show ?thesis using first_index_SomeD(3) [OF i] by (simp add: vm_free_frame_def vm_sizes)
next
  case False
  let ?P = "{q. q < 1024 \<and> pte_present (vm_page_table s ! q)}"
  have "{..<100} \<subseteq> (\<lambda>q. pte_frame (vm_page_table s ! q)) ` ?P"
    using False pk unfolding packed_def by blast
  then have "100 \<le> card ((\<lambda>q. pte_frame (vm_page_table s ! q)) ` ?P)"
    using card_mono [of "(\<lambda>q. pte_frame (vm_page_table s ! q)) ` ?P" "{..<100 :: nat}"] by simp
  also have "\<dots> \<le> card ?P" by (rule card_image_le) simp
  also have "\<dots> \<le> card ({..<100} - {p})"
    using pk p(2) by (intro card_mono) (auto simp: packed_def)
  also have "\<dots> < 100" using p(1) by simp
  finally show ?thesis by simp
qed


text \<open>The first bytes of the resident pages, as a map.\<close>

definition start_bytes :: "vm \<Rightarrow> nat \<Rightarrow> u8 option" where
  "start_bytes s p = (if p < 1024 \<and> pte_present (vm_page_table s ! p)
     then Some (vm_physical s (pte_frame (vm_page_table s ! p) * 4096)) else None)"

lemma packedD:
  assumes "packed s" "p < 1024" "pte_present (vm_page_table s ! p)"
  shows "p < 100" "vm_physical s (pte_frame (vm_page_table s ! p) * 4096) \<noteq> 0"
    "pte_frame (vm_page_table s ! p) < 100"
    "q < 1024 \<Longrightarrow> pte_present (vm_page_table s ! q) \<Longrightarrow>
      pte_frame (vm_page_table s ! q) = pte_frame (vm_page_table s ! p) \<Longrightarrow> q = p"
  using assms by (auto simp: packed_def vm_ok_def vm_sizes)

text \<open>Both kinds of write come down to this: page \<open>p\<close> sits in a frame \<open>f\<close> no other resident page
  has, the start of \<open>f\<close> gets \<open>v\<close>, and the starts of the other frames stay.\<close>

lemma packed_after:
  assumes pk: "packed s" and u: "vm_ok u" and p: "p < 100" and v: "v \<noteq> 0"
    and pt: "\<And>q. q < 1024 \<Longrightarrow> q \<noteq> p \<Longrightarrow> pte_present (vm_page_table u ! q) = pte_present (vm_page_table s ! q) \<and>
      pte_frame (vm_page_table u ! q) = pte_frame (vm_page_table s ! q)"
    and new: "pte_present (vm_page_table u ! p)" "pte_frame (vm_page_table u ! p) = f"
    and other: "\<And>q. q < 1024 \<Longrightarrow> q \<noteq> p \<Longrightarrow> pte_present (vm_page_table s ! q) \<Longrightarrow>
      pte_frame (vm_page_table s ! q) \<noteq> f"
    and old: "pte_present (vm_page_table s ! p) \<Longrightarrow> pte_frame (vm_page_table s ! p) = f"
    and phys: "vm_physical u (f * 4096) = v" "\<And>g. g \<noteq> f \<Longrightarrow> vm_physical u (g * 4096) = vm_physical s (g * 4096)"
  shows "packed u \<and> start_bytes u = (start_bytes s)(p \<mapsto> v)"
proof
  have p': "p < 1024" using p by simp
  have keep: "pte_present (vm_page_table s ! q)" "pte_frame (vm_page_table u ! q) = pte_frame (vm_page_table s ! q)"
    "pte_frame (vm_page_table s ! q) \<noteq> f"
    if "q < 1024" "pte_present (vm_page_table u ! q)" "q \<noteq> p" for q
    using pt [OF that(1,3)] other [OF that(1,3)] that(2) by simp_all
  show "packed u"
    unfolding packed_def
  proof (intro conjI allI impI)
    fix q assume q: "q < 1024" "pte_present (vm_page_table u ! q)"
    show "q < 100" using packedD(1) [OF pk q(1) keep(1) [OF q]] p by blast
    show "vm_physical u (pte_frame (vm_page_table u ! q) * 4096) \<noteq> 0"
    proof (cases "q = p")
      case True
      then show ?thesis using new(2) phys(1) v by simp
    next
      case False
      note k = keep [OF q False]
      show ?thesis unfolding k(2) phys(2) [OF k(3)] by (rule packedD(2) [OF pk q(1) k(1)])
    qed
  next
    fix q r assume qr: "q < 1024" "r < 1024" "pte_present (vm_page_table u ! q)" "pte_present (vm_page_table u ! r)"
      "pte_frame (vm_page_table u ! q) = pte_frame (vm_page_table u ! r)"
    show "q = r"
    proof (cases "q = p \<or> r = p")
      case True
      then show ?thesis using keep(2,3) [OF qr(1,3)] keep(2,3) [OF qr(2,4)] qr(5) new(2) by metis
    next
      case False
      then show ?thesis
        using packedD(4) [OF pk qr(2) keep(1) [OF qr(2,4)] qr(1) keep(1) [OF qr(1,3)]]
          keep(2) [OF qr(1,3)] keep(2) [OF qr(2,4)] qr(5) by simp
    qed
  next
    fix g assume g: "g < 100" "vm_physical u (g * 4096) \<noteq> 0"
    show "\<exists>q < 1024. pte_present (vm_page_table u ! q) \<and> pte_frame (vm_page_table u ! q) = g"
    proof (cases "g = f")
      case True
      then show ?thesis using new p' by blast
    next
      case False
      then have "vm_physical s (g * 4096) \<noteq> 0" using g(2) phys(2) by simp
      then obtain q where q: "q < 1024" "pte_present (vm_page_table s ! q)" "pte_frame (vm_page_table s ! q) = g"
        using pk g(1) unfolding packed_def by blast
      then have "q \<noteq> p" using old False by blast
      then show ?thesis using pt [OF q(1)] q by blast
    qed
  qed (rule u)
  show "start_bytes u = (start_bytes s)(p \<mapsto> v)"
  proof
    fix q
    show "start_bytes u q = ((start_bytes s)(p \<mapsto> v)) q"
    proof (cases "q = p")
      case True
      then show ?thesis using new phys(1) p' by (simp add: start_bytes_def)
    next
      case False
      then show ?thesis using pt [OF _ False] phys(2) [OF other [OF _ False]] by (auto simp: start_bytes_def)
    qed
  qed
qed

lemma page_address:
  assumes "p < 100"
  shows "p = unat (of_nat (p * 4096) :: u32) div VM_PAGE_SIZE" "unat (of_nat (p * 4096) :: u32) mod VM_PAGE_SIZE = 0"
proof -
  have "unat (of_nat n :: u32) = n" if "n < 2 ^ 32" for n
    using that by (simp only: unat_of_nat) (simp add: take_bit_nat_eq_self)
  from this [of "p * 4096"] have "unat (of_nat (p * 4096) :: u32) = p * 4096" using assms by simp
  then show "p = unat (of_nat (p * 4096) :: u32) div VM_PAGE_SIZE" "unat (of_nat (p * 4096) :: u32) mod VM_PAGE_SIZE = 0"
    by (simp_all add: VM_PAGE_SIZE_def)
qed

lemma packed_write:
  assumes pk: "packed s" and p: "p < 100" and v: "v \<noteq> 0"
  shows "\<exists>u. vm_write_memory (of_nat (p * 4096)) v s = Some u \<and> packed u \<and>
    start_bytes u = (start_bytes s)(p \<mapsto> v)"
proof (cases "pte_present (vm_page_table s ! p)")
  case True
  note a = page_address [OF p]
  have ok: "vm_ok s" and len: "length (vm_page_table s) = 1024" using pk by (simp_all add: packed_def vm_ok_def vm_sizes)
  from write_resident [OF ok a(1) _ True, of v] p obtain u where
    u: "vm_write_memory (of_nat (p * 4096)) v s = Some u" "vm_ok u"
    "vm_page_table u = vm_dirty p (vm_page_table s)"
    "vm_physical u = (vm_physical s)(pte_frame (vm_page_table s ! p) * 4096 := v)"
    unfolding a(2) by (auto simp: vm_sizes)
  have "packed u \<and> start_bytes u = (start_bytes s)(p \<mapsto> v)"
  proof (rule packed_after [OF pk u(2) p v, where f = "pte_frame (vm_page_table s ! p)"])
    fix q assume "q < 1024" "q \<noteq> p" "pte_present (vm_page_table s ! q)"
    then show "pte_frame (vm_page_table s ! q) \<noteq> pte_frame (vm_page_table s ! p)"
      using packedD(4) [OF pk _ True, of q] p by auto
  qed (use u(3,4) len p True in simp_all)
  then show ?thesis using u(1) by blast
next
  case False
  note a = page_address [OF p]
  have ok: "vm_ok s" and len: "length (vm_page_table s) = 1024" using pk by (simp_all add: packed_def vm_ok_def vm_sizes)
  from write_fault [OF ok a(1) _ False, of v] p obtain u where
    u: "vm_write_memory (of_nat (p * 4096)) v s = Some u" "vm_ok u"
    "vm_page_table u = vm_dirty p (vm_page_table (vm_fault p s))"
    "vm_physical u = (vm_physical (vm_fault p s))(vm_free_frame s * 4096 := v)"
    unfolding a(2) by (auto simp: vm_sizes)
  have other: "pte_frame (vm_page_table s ! q) \<noteq> vm_free_frame s" if "q < 1024" "pte_present (vm_page_table s ! q)" for q
    using packedD(2) [OF pk that] packed_free [OF pk p False] by auto
  have "packed u \<and> start_bytes u = (start_bytes s)(p \<mapsto> v)"
  proof (rule packed_after [OF pk u(2) p v, where f = "vm_free_frame s"])
    fix g assume "g \<noteq> vm_free_frame s"
    then show "vm_physical u (g * 4096) = vm_physical s (g * 4096)"
      by (auto simp: u(4) vm_fault_def VM_PAGE_SIZE_def)
  qed (use u(3,4) len p False other in \<open>simp_all add: vm_fault_def\<close>)
  then show ?thesis using u(1) by blast
qed


fun write_pages :: "(nat \<times> u8) list \<Rightarrow> vm \<Rightarrow> vm option" where
  "write_pages [] s = Some s"
| "write_pages ((p, v) # ops) s = vm_write_memory (of_nat (p * 4096)) v s \<bind> write_pages ops"

definition page_write_ok :: "nat \<times> u8 \<Rightarrow> bool" where
  "page_write_ok opr \<longleftrightarrow> fst opr < 100 \<and> snd opr \<noteq> 0"

lemma write_pages_packed:
  assumes "packed s" "list_all page_write_ok ops"
  shows "\<exists>u. write_pages ops s = Some u \<and> packed u \<and> start_bytes u = start_bytes s ++ map_of (rev ops)"
  using assms
proof (induction ops arbitrary: s)
  case (Cons opr ops)
  obtain p v where opr: "opr = (p, v)" by (cases opr)
  from packed_write [OF Cons.prems(1), of p v] Cons.prems(2) opr obtain t where
    t: "vm_write_memory (of_nat (p * 4096)) v s = Some t" "packed t" "start_bytes t = (start_bytes s)(p \<mapsto> v)"
    by (auto simp: page_write_ok_def)
  from Cons.IH [OF t(2)] Cons.prems(2) obtain u where
    "write_pages ops t = Some u" "packed u" "start_bytes u = start_bytes t ++ map_of (rev ops)" by auto
  then show ?case using t(1,3) opr by (auto simp: map_add_assoc)
qed simp

lemma vm_start_packed: "packed vm_start" "start_bytes vm_start = Map.empty"
  using vm_start_ok
  by (auto simp: packed_def start_bytes_def vm_start_def vm_init_memory_def vm_sizes fun_eq_iff)

lemma read_start_byte:
  assumes "packed s" "start_bytes s p = Some v"
  shows "\<exists>u. vm_read_memory (of_nat (p * 4096)) s = Some (v, u)"
proof -
  have p: "p < 1024" "pte_present (vm_page_table s ! p)"
    "v = vm_physical s (pte_frame (vm_page_table s ! p) * 4096)"
    using assms(2) by (auto simp: start_bytes_def split: if_splits)
  have "p < 100" by (rule packedD(1) [OF assms(1) p(1,2)])
  note a = page_address [OF this]
  have "vm_ok s" using assms(1) by (simp add: packed_def)
  from read_resident [OF this a(1) _ p(2)] show ?thesis using p(1,3) unfolding a(2) by (simp add: vm_sizes)
qed

text \<open>Memory keeps what is written to it as long as the starts of the pages are nonzero: after
  any sequence of nonzero bytes written to the first addresses of up to 100 pages, each page reads
  back the byte last written to it, also after it has left the TLB.\<close>

theorem page_starts_read_back:
  assumes "list_all page_write_ok ops" "map_of (rev ops) p = Some v"
  shows "\<exists>s t. write_pages ops vm_start = Some s \<and> vm_read_memory (of_nat (p * 4096)) s = Some (v, t)"
proof -
  from write_pages_packed [OF vm_start_packed(1) assms(1)] obtain s where
    s: "write_pages ops vm_start = Some s" "packed s" "start_bytes s = map_of (rev ops)"
    by (auto simp: vm_start_packed(2))
  then show ?thesis using read_start_byte [OF s(2), of p v] assms(2) by simp
qed

theorem page_starts_read_back_witness:
  "\<exists>s t. write_pages (map (\<lambda>p. (p, of_nat (p + 1))) [0..<20] @ [(3, 9)]) vm_start = Some s \<and>
    vm_read_memory (of_nat (3 * 4096)) s = Some (9, t)"
  by (rule page_starts_read_back) (simp_all add: page_write_ok_def upt_rec)

text \<open>The program prints what it has written.\<close>

lemma read_keeps_packed:
  assumes "packed s" "start_bytes s p = Some v"
  shows "\<exists>u. vm_read_memory (of_nat (p * 4096)) s = Some (v, u) \<and> packed u \<and> start_bytes u = start_bytes s"
proof -
  from read_start_byte [OF assms] obtain u where u: "vm_read_memory (of_nat (p * 4096)) s = Some (v, u)" by blast
  have p: "p < 1024" "pte_present (vm_page_table s ! p)"
    using assms(2) by (auto simp: start_bytes_def split: if_splits)
  have "p < 100" by (rule packedD(1) [OF assms(1) p])
  note a = page_address [OF this]
  have ok: "vm_ok s" using assms(1) by (simp add: packed_def)
  from translate_resident [OF ok a(1) _ p(2)] p(1) obtain t n where
    "u = s\<lparr>vm_tlb := t, vm_tlb_count := n\<rparr>" "vm_ok u"
    using u by (fastforce simp: vm_read_memory_def vm_sizes split: if_splits)
  then have "packed u" "start_bytes u = start_bytes s"
    using assms(1) by (simp_all add: packed_def start_bytes_def fun_eq_iff)
  then show ?thesis using u by blast
qed

theorem vm_main_reads_back: "vm_main = Some [65, 66, 67]"
proof -
  from write_pages_packed [OF vm_start_packed(1), of "[(0, 65), (1, 66), (2, 67)]"] obtain s where
    s: "write_pages [(0, 65), (1, 66), (2, 67)] vm_start = Some s" "packed s"
    "start_bytes s = [0 \<mapsto> 65, 1 \<mapsto> 66, 2 \<mapsto> 67]"
    by (auto simp: page_write_ok_def vm_start_packed(2) fun_upd_twist)
  obtain t where t: "vm_read_memory 0 s = Some (65, t)" "packed t" "start_bytes t = start_bytes s"
    using read_keeps_packed [OF s(2), of 0 65] s(3) by auto
  obtain u where u: "vm_read_memory 4096 t = Some (66, u)" "packed u" "start_bytes u = start_bytes s"
    using read_keeps_packed [OF t(2), of 1 66] s(3) t(3) by auto
  obtain w where w: "vm_read_memory 8192 u = Some (67, w)"
    using read_keeps_packed [OF u(2), of 2 67] s(3) u(3) by auto
  show ?thesis using s(1) t(1) u(1) w by (auto simp: vm_main_def bind_eq_Some_conv)
qed

end
