(* ===== verification/Asid_Tlb.thy ===== *)
theory Asid_Tlb
  imports Prelude
begin

unbundle bit_operations_syntax

text \<open>
  The memory management unit of \<open>memory/virtual_mem/pageFlush.c\<close>: page tables of up to 256
  processes, a translation lookaside buffer (TLB) whose entries carry the address space identifier
  (ASID) of their process, and a pool of pages with pin counts.

  All identifiers keep their widths: addresses, page numbers and page table entries are
  \<open>64 word\<close>s, ASIDs are \<open>8 word\<close>s and wrap. A page table is a pointer in the source and an
  \<open>option\<close> of a list here, \<open>None\<close> standing for a pointer that does not point to a table; the
  program itself never sets one. Leaving an array is the result \<open>None\<close>.

  Shown here: an entry is found by the flush that asks for it, because no entry with the same key
  stands before a valid one; the TLB is transparent, that is, translation gives the same address
  and the same page tables as without it; and ASIDs are given out twice after they have wrapped.
\<close>

subsection \<open>Data\<close>

definition AT_PAGE_SIZE :: u64 where
  "AT_PAGE_SIZE = 4096"

definition PTE_PRESENT :: u64 where
  "PTE_PRESENT = 0x1"

definition PTE_WRITABLE :: u64 where
  "PTE_WRITABLE = 0x2"

definition PTE_USER :: u64 where
  "PTE_USER = 0x4"

definition AT_MAX_PROCESSES :: nat where
  "AT_MAX_PROCESSES = 256"

definition AT_TLB_SIZE :: nat where
  "AT_TLB_SIZE = 64"

record at_page =
  apg_pfn :: u64
  apg_pin_count :: int

record tlb_entry =
  te_vpn :: u64
  te_pfn :: u64
  te_asid :: u8
  te_valid :: bool

record at_process =
  ap_page_table :: "u64 list option"
  ap_asid :: u8

record mmu =
  mmu_tlb :: "tlb_entry list"
  mmu_current_asid :: u8

record at_system =
  sys_memory :: "at_page list"
  sys_memory_size :: u64
  sys_processes :: "at_process list"
  sys_mmu :: mmu
  sys_next_asid :: u8

subsection \<open>Operations\<close>

text \<open>\<open>calloc\<close> says whether the allocation succeeds; on failure the program exits.\<close>

definition init_system :: "bool \<Rightarrow> at_system \<Rightarrow> u64 \<Rightarrow> at_system option" where
  "init_system calloc sys memory_size =
     (if calloc then Some (sys\<lparr>sys_memory_size := memory_size,
        sys_memory := replicate (unat (memory_size div AT_PAGE_SIZE)) \<lparr>apg_pfn = 0, apg_pin_count = 0\<rparr>,
        sys_next_asid := 1,
        sys_mmu := (sys_mmu sys)\<lparr>mmu_tlb := replicate AT_TLB_SIZE
          \<lparr>te_vpn = 0, te_pfn = 0, te_asid = 0, te_valid = False\<rparr>\<rparr>\<rparr>)
      else None)"

text \<open>The page number \<open>-1\<close> of the source, the largest word, reports that no page is free.\<close>

definition allocate_page :: "at_system \<Rightarrow> (u64 \<times> at_system) option" where
  "allocate_page sys =
     (case first_index 0 (unat (sys_memory_size sys div AT_PAGE_SIZE))
             (\<lambda>i. apg_pin_count (sys_memory sys ! i) = 0) of
        Some i \<Rightarrow> do {
          pg \<leftarrow> c_load (sys_memory sys) i;
          m \<leftarrow> c_store (sys_memory sys) i (pg\<lparr>apg_pin_count := 1\<rparr>);
          Some (of_nat i, sys\<lparr>sys_memory := m\<rparr>)
        }
      | None \<Rightarrow> Some (- 1, sys))"

definition pin_page :: "at_system \<Rightarrow> u64 \<Rightarrow> at_system option" where
  "pin_page sys pfn = do {
     pg \<leftarrow> c_load (sys_memory sys) (unat pfn);
     if apg_pin_count pg < 2 ^ 31 - 1 then do {
       m \<leftarrow> c_store (sys_memory sys) (unat pfn) (pg\<lparr>apg_pin_count := apg_pin_count pg + 1\<rparr>);
       Some (sys\<lparr>sys_memory := m\<rparr>)
     } else None
   }"

definition at_unpin_page :: "at_system \<Rightarrow> u64 \<Rightarrow> at_system option" where
  "at_unpin_page sys pfn = do {
     pg \<leftarrow> c_load (sys_memory sys) (unat pfn);
     if apg_pin_count pg > 0 then do {
       m \<leftarrow> c_store (sys_memory sys) (unat pfn) (pg\<lparr>apg_pin_count := apg_pin_count pg - 1\<rparr>);
       Some (sys\<lparr>sys_memory := m\<rparr>)
     } else Some sys
   }"

definition flush_tlb_entry :: "mmu \<Rightarrow> u64 \<Rightarrow> u8 \<Rightarrow> mmu" where
  "flush_tlb_entry m vpn asid =
     (case first_index 0 AT_TLB_SIZE
             (\<lambda>i. te_vpn (mmu_tlb m ! i) = vpn \<and> te_asid (mmu_tlb m ! i) = asid) of
        Some i \<Rightarrow> m\<lparr>mmu_tlb := (mmu_tlb m)[i := (mmu_tlb m ! i)\<lparr>te_valid := False\<rparr>]\<rparr>
      | None \<Rightarrow> m)"

definition flush_tlb :: "mmu \<Rightarrow> mmu" where
  "flush_tlb m = m\<lparr>mmu_tlb := for_range 0 AT_TLB_SIZE (\<lambda>i t. t[i := (t ! i)\<lparr>te_valid := False\<rparr>]) (mmu_tlb m)\<rparr>"

definition tlb_lookup :: "tlb_entry list \<Rightarrow> u64 \<Rightarrow> u8 \<Rightarrow> nat option" where
  "tlb_lookup tlb vpn asid =
     first_index 0 AT_TLB_SIZE
       (\<lambda>i. te_valid (tlb ! i) \<and> te_vpn (tlb ! i) = vpn \<and> te_asid (tlb ! i) = asid)"

definition tlb_fill :: "tlb_entry list \<Rightarrow> u64 \<Rightarrow> u64 \<Rightarrow> u8 \<Rightarrow> tlb_entry list" where
  "tlb_fill tlb vpn pte asid =
     (case first_index 0 AT_TLB_SIZE (\<lambda>i. \<not> te_valid (tlb ! i)) of
        Some i \<Rightarrow> tlb[i := \<lparr>te_vpn = vpn, te_pfn = drop_bit 12 pte, te_asid = asid, te_valid = True\<rparr>]
      | None \<Rightarrow> tlb)"

text \<open>The page table entry of a miss, with a page allocated for it if it has none: \<open>Inl\<close> when no
  page is free.\<close>

definition page_walk :: "at_system \<Rightarrow> u64 \<Rightarrow> u8 \<Rightarrow> (at_system, u64 \<times> at_system) sum option" where
  "page_walk sys vpn asid = do {
     pr \<leftarrow> c_load (sys_processes sys) (unat asid);
     pt \<leftarrow> ap_page_table pr;
     pte \<leftarrow> c_load pt (unat vpn);
     if pte AND PTE_PRESENT = 0 then do {
       (new_pfn, sys) \<leftarrow> allocate_page sys;
       if new_pfn = - 1 then Some (Inl sys)
       else do {
         let pte = push_bit 12 new_pfn OR PTE_PRESENT OR PTE_WRITABLE OR PTE_USER;
         pt \<leftarrow> c_store pt (unat vpn) pte;
         ps \<leftarrow> c_store (sys_processes sys) (unat asid) (pr\<lparr>ap_page_table := Some pt\<rparr>);
         Some (Inr (pte, sys\<lparr>sys_processes := ps\<rparr>))
       }
     } else Some (Inr (pte, sys))
   }"

definition at_translate_address :: "at_system \<Rightarrow> u64 \<Rightarrow> u8 \<Rightarrow> (u64 \<times> at_system) option" where
  "at_translate_address sys vaddr asid =
     (let vpn = vaddr div AT_PAGE_SIZE; offset = vaddr mod AT_PAGE_SIZE; tlb = mmu_tlb (sys_mmu sys) in
      case tlb_lookup tlb vpn asid of
        Some i \<Rightarrow> Some ((te_pfn (tlb ! i) * AT_PAGE_SIZE) OR offset, sys)
      | None \<Rightarrow> do {
          r \<leftarrow> page_walk sys vpn asid;
          case r of
            Inl sys \<Rightarrow> Some (- 1, sys)
          | Inr (pte, sys) \<Rightarrow>
              Some ((drop_bit 12 pte * AT_PAGE_SIZE) OR offset,
                sys\<lparr>sys_mmu := (sys_mmu sys)\<lparr>mmu_tlb := tlb_fill (mmu_tlb (sys_mmu sys)) vpn pte asid\<rparr>\<rparr>)
        })"

text \<open>The first switch to a process gives it the next ASID.\<close>

definition assign_asid :: "at_system \<Rightarrow> nat \<Rightarrow> at_process \<Rightarrow> at_system option" where
  "assign_asid sys new_process_id pr =
     (if ap_asid pr = 0 then do {
        ps \<leftarrow> c_store (sys_processes sys) new_process_id (pr\<lparr>ap_asid := sys_next_asid sys\<rparr>);
        let sys = sys\<lparr>sys_processes := ps, sys_next_asid := sys_next_asid sys + 1\<rparr>;
        Some (if sys_next_asid sys = 0
          then sys\<lparr>sys_mmu := flush_tlb (sys_mmu sys), sys_next_asid := 1\<rparr> else sys)
      } else Some sys)"

definition switch_process :: "at_system \<Rightarrow> nat \<Rightarrow> at_system option" where
  "switch_process sys new_process_id = do {
     pr \<leftarrow> c_load (sys_processes sys) new_process_id;
     sys \<leftarrow> assign_asid sys new_process_id pr;
     pr \<leftarrow> c_load (sys_processes sys) new_process_id;
     Some (sys\<lparr>sys_mmu := (sys_mmu sys)\<lparr>mmu_current_asid := ap_asid pr\<rparr>\<rparr>)
   }"

text \<open>\<open>stack\<close> is what the local variable \<open>sys\<close> of \<open>main\<close> holds at the start.\<close>

definition at_main :: "bool \<Rightarrow> at_system \<Rightarrow> u64 option" where
  "at_main calloc stack = do {
     sys \<leftarrow> init_system calloc stack (1024 * 1024 * 1024);
     sys \<leftarrow> switch_process sys 1;
     (phys_addr, sys) \<leftarrow> at_translate_address sys 0x1000 (mmu_current_asid (sys_mmu sys));
     Some phys_addr
   }"


subsection \<open>No entry stands before a valid one with the same key\<close>

definition te_key :: "tlb_entry \<Rightarrow> u64 \<times> u8" where
  "te_key e = (te_vpn e, te_asid e)"

definition tlb_unique :: "tlb_entry list \<Rightarrow> bool" where
  "tlb_unique t \<longleftrightarrow> length t = AT_TLB_SIZE \<and>
     (\<forall>i < AT_TLB_SIZE. te_valid (t ! i) \<longrightarrow> (\<forall>j < i. te_key (t ! j) \<noteq> te_key (t ! i)))"

lemma tlb_uniqueD:
  assumes "tlb_unique t" "i < AT_TLB_SIZE" "te_valid (t ! i)" "j < i"
  shows "te_key (t ! j) \<noteq> te_key (t ! i)"
  using assms by (simp add: tlb_unique_def)

lemma tlb_lookup_None_iff:
  "tlb_lookup t vpn asid = None \<longleftrightarrow> (\<forall>i < AT_TLB_SIZE. te_valid (t ! i) \<longrightarrow> te_key (t ! i) \<noteq> (vpn, asid))"
  by (auto simp: tlb_lookup_def first_index_None_iff te_key_def)

lemma tlb_lookup_SomeD:
  assumes "tlb_lookup t vpn asid = Some i"
  shows "i < AT_TLB_SIZE" "te_valid (t ! i)" "te_key (t ! i) = (vpn, asid)"
  using first_index_SomeD(2,3) [OF assms [unfolded tlb_lookup_def]] by (auto simp: te_key_def)

lemma tlb_lookup_SomeI:
  assumes "tlb_unique t" "i < AT_TLB_SIZE" "te_valid (t ! i)" "te_key (t ! i) = (vpn, asid)"
  shows "tlb_lookup t vpn asid = Some i"
  unfolding tlb_lookup_def
proof (rule first_index_SomeI)
  fix j assume "j < i"
  from tlb_uniqueD [OF assms(1-3) this] assms(4)
  show "\<not> (te_valid (t ! j) \<and> te_vpn (t ! j) = vpn \<and> te_asid (t ! j) = asid)" by (simp add: te_key_def)
qed (use assms in \<open>simp_all add: te_key_def\<close>)

text \<open>Clearing valid flags keeps the order.\<close>

definition clears :: "tlb_entry list \<Rightarrow> tlb_entry list \<Rightarrow> bool" where
  "clears t t' \<longleftrightarrow> length t' = length t \<and>
     (\<forall>i < length t. te_key (t' ! i) = te_key (t ! i) \<and> te_pfn (t' ! i) = te_pfn (t ! i) \<and>
        (te_valid (t' ! i) \<longrightarrow> te_valid (t ! i)))"

lemma clears_unique: "tlb_unique t \<Longrightarrow> clears t t' \<Longrightarrow> tlb_unique t'"
  unfolding tlb_unique_def clears_def by (metis order.strict_trans)

lemma clears_one: "clears t (t[k := (t ! k)\<lparr>te_valid := False\<rparr>])"
  unfolding clears_def te_key_def
proof (intro conjI allI impI)
  fix i assume "i < length t"
  then have nth: "t[k := (t ! k)\<lparr>te_valid := False\<rparr>] ! i = (if i = k then (t ! k)\<lparr>te_valid := False\<rparr> else t ! i)"
    by simp
  show "(te_vpn (t[k := (t ! k)\<lparr>te_valid := False\<rparr>] ! i), te_asid (t[k := (t ! k)\<lparr>te_valid := False\<rparr>] ! i)) =
      (te_vpn (t ! i), te_asid (t ! i))"
    and "te_pfn (t[k := (t ! k)\<lparr>te_valid := False\<rparr>] ! i) = te_pfn (t ! i)"
    and "te_valid (t[k := (t ! k)\<lparr>te_valid := False\<rparr>] ! i) \<Longrightarrow> te_valid (t ! i)"
    unfolding nth by (cases "i = k"; simp)+
qed simp

lemma flush_entry_clears: "clears (mmu_tlb m) (mmu_tlb (flush_tlb_entry m vpn asid))"
  by (cases "first_index 0 AT_TLB_SIZE (\<lambda>i. te_vpn (mmu_tlb m ! i) = vpn \<and> te_asid (mmu_tlb m ! i) = asid)")
    (simp_all add: flush_tlb_entry_def clears_one, simp add: clears_def)

lemma flush_tlb_nth:
  assumes "length (mmu_tlb m) = AT_TLB_SIZE"
  shows "mmu_tlb (flush_tlb m) = map (\<lambda>e. e\<lparr>te_valid := False\<rparr>) (mmu_tlb m)"
proof -
  have "for_range 0 k (\<lambda>i t. t[i := (t ! i)\<lparr>te_valid := False\<rparr>]) t =
      map (\<lambda>e. e\<lparr>te_valid := False\<rparr>) (take k t) @ drop k t" if "k \<le> length t" for k and t :: "tlb_entry list"
    using that
  proof (induction k)
    case (Suc k)
    then have "drop k t = t ! k # drop (Suc k) t" "take (Suc k) t = take k t @ [t ! k]"
      by (simp_all add: Cons_nth_drop_Suc take_Suc_conv_app_nth)
    then show ?case using Suc by (simp add: for_range_last nth_append list_update_append)
  qed simp
  from this [of AT_TLB_SIZE "mmu_tlb m"] assms show ?thesis by (simp add: flush_tlb_def)
qed

lemma flush_tlb_clears:
  "length (mmu_tlb m) = AT_TLB_SIZE \<Longrightarrow> clears (mmu_tlb m) (mmu_tlb (flush_tlb m))"
  by (simp add: flush_tlb_nth clears_def te_key_def)

text \<open>A miss fills the first invalid slot; every slot before it is valid and has another key.\<close>

lemma tlb_fill_unique:
  assumes un: "tlb_unique t" and miss: "tlb_lookup t vpn asid = None"
  shows "tlb_unique (tlb_fill t vpn pte asid)"
proof (cases "first_index 0 AT_TLB_SIZE (\<lambda>i. \<not> te_valid (t ! i))")
  case None
  then show ?thesis using un by (simp add: tlb_fill_def)
next
  case (Some k)
  let ?e = "\<lparr>te_vpn = vpn, te_pfn = drop_bit 12 pte, te_asid = asid, te_valid = True\<rparr>"
  have k: "k < AT_TLB_SIZE" "\<And>j. j < k \<Longrightarrow> te_valid (t ! j)"
    using first_index_SomeD(2,4) [OF Some] by auto
  have len: "length t = AT_TLB_SIZE" using un by (simp add: tlb_unique_def)
  have other: "te_key (t ! i) \<noteq> te_key ?e" if "i < AT_TLB_SIZE" "te_valid (t ! i)" for i
    using miss that by (auto simp: tlb_lookup_None_iff te_key_def)
  have "te_key (t[k := ?e] ! j) \<noteq> te_key (t[k := ?e] ! i)"
    if i: "i < AT_TLB_SIZE" "te_valid (t[k := ?e] ! i)" "j < i" for i j
  proof (cases "i = k")
    case True
    then show ?thesis using other [of j] k(2) [of j] i len by simp
  next
    case False
    then have v: "te_valid (t ! i)" using i by simp
    show ?thesis
      using False tlb_uniqueD [OF un i(1) v i(3)] other [OF i(1) v] len k(1) by (cases "j = k") auto
  qed
  then show ?thesis using Some len by (simp add: tlb_fill_def tlb_unique_def)
qed


text \<open>The flush of one entry: it clears the first slot with the key, and that is the valid one.\<close>

lemma flush_entry_lookup:
  assumes un: "tlb_unique (mmu_tlb m)"
  shows "tlb_lookup (mmu_tlb (flush_tlb_entry m vpn asid)) vpn' asid' =
    (if (vpn', asid') = (vpn, asid) then None else tlb_lookup (mmu_tlb m) vpn' asid')"
proof -
  let ?t = "mmu_tlb m"
  let ?P = "\<lambda>i. te_vpn (?t ! i) = vpn \<and> te_asid (?t ! i) = asid"
  have len: "length ?t = AT_TLB_SIZE" using un by (simp add: tlb_unique_def)
  show ?thesis
  proof (cases "first_index 0 AT_TLB_SIZE ?P")
    case None
    then have "flush_tlb_entry m vpn asid = m" by (simp add: flush_tlb_entry_def)
    moreover have "tlb_lookup ?t vpn asid = None"
      using None by (auto simp: tlb_lookup_None_iff first_index_None_iff te_key_def)
    ultimately show ?thesis by simp
  next
    case (Some k)
    have k: "k < AT_TLB_SIZE" "te_key (?t ! k) = (vpn, asid)"
      using first_index_SomeD(2,3) [OF Some] by (auto simp: te_key_def)
    let ?u = "?t[k := (?t ! k)\<lparr>te_valid := False\<rparr>]"
    have u: "mmu_tlb (flush_tlb_entry m vpn asid) = ?u" using Some by (simp add: flush_tlb_entry_def)
    have nth: "?u ! i = (if i = k then (?t ! k)\<lparr>te_valid := False\<rparr> else ?t ! i)" if "i < AT_TLB_SIZE" for i
      using that len by simp
    show ?thesis
    proof (cases "(vpn', asid') = (vpn, asid)")
      case True
      have "te_key (?t ! i) \<noteq> (vpn, asid)" if "i < AT_TLB_SIZE" "te_valid (?t ! i)" "i \<noteq> k" for i
        using that k tlb_uniqueD [OF un that(1,2), of k] first_index_SomeD(4) [OF Some, of i]
        by (cases "i < k") (auto simp: te_key_def)
      then show ?thesis using True u by (auto simp: tlb_lookup_None_iff nth)
    next
      case False
      have "tlb_lookup ?u vpn' asid' = tlb_lookup ?t vpn' asid'"
        unfolding tlb_lookup_def
        by (rule first_index_cong) (use nth k(2) False in \<open>auto simp: te_key_def\<close>)
      then show ?thesis using False u by auto
    qed
  qed
qed

subsection \<open>The TLB agrees with the page tables\<close>

text \<open>The page table entry of a page, if the process has a table that reaches it.\<close>

definition pte_of :: "at_system \<Rightarrow> u64 \<times> u8 \<Rightarrow> u64 option" where
  "pte_of sys key = (case key of (vpn, asid) \<Rightarrow> do {
     pr \<leftarrow> c_load (sys_processes sys) (unat asid);
     pt \<leftarrow> ap_page_table pr;
     c_load pt (unat vpn)
   })"

definition at_ok :: "at_system \<Rightarrow> bool" where [inv_defs]:
  "at_ok sys \<longleftrightarrow> tlb_unique (mmu_tlb (sys_mmu sys)) \<and>
     length (sys_memory sys) = unat (sys_memory_size sys div AT_PAGE_SIZE) \<and>
     (\<forall>i < AT_TLB_SIZE. let e = mmu_tlb (sys_mmu sys) ! i in te_valid e \<longrightarrow>
        (\<exists>pte. pte_of sys (te_key e) = Some pte \<and> pte AND PTE_PRESENT \<noteq> 0 \<and> te_pfn e = drop_bit 12 pte))"

lemma at_okD:
  assumes "at_ok sys" "i < AT_TLB_SIZE" "te_valid (mmu_tlb (sys_mmu sys) ! i)"
  obtains pte where "pte_of sys (te_key (mmu_tlb (sys_mmu sys) ! i)) = Some pte" "pte AND PTE_PRESENT \<noteq> 0"
    "te_pfn (mmu_tlb (sys_mmu sys) ! i) = drop_bit 12 pte"
  using assms by (auto simp: at_ok_def Let_def)

lemma new_pte_present: "(x OR PTE_PRESENT OR PTE_WRITABLE OR PTE_USER) AND PTE_PRESENT \<noteq> 0"
proof -
  have "bit ((x OR PTE_PRESENT OR PTE_WRITABLE OR PTE_USER) AND PTE_PRESENT) 0"
    by (simp add: PTE_PRESENT_def bit_simps)
  then show ?thesis by (metis bit_0_eq bot_apply bot_bool_def)
qed

lemma allocate_page_cases:
  assumes "at_ok sys"
  obtains (none) "allocate_page sys = Some (- 1, sys)"
  | (page) i m where "i < length (sys_memory sys)" "apg_pin_count (sys_memory sys ! i) = 0"
      "m = (sys_memory sys)[i := (sys_memory sys ! i)\<lparr>apg_pin_count := 1\<rparr>]"
      "allocate_page sys = Some (of_nat i, sys\<lparr>sys_memory := m\<rparr>)"
proof (cases "first_index 0 (unat (sys_memory_size sys div AT_PAGE_SIZE)) (\<lambda>i. apg_pin_count (sys_memory sys ! i) = 0)")
  case None
  then show ?thesis using none by (simp add: allocate_page_def)
next
  case (Some i)
  with first_index_SomeD(2,3) [OF Some] assms page show ?thesis by (auto simp: allocate_page_def at_ok_def)
qed


lemma page_number_not_minus_one:
  assumes "at_ok sys" "i < length (sys_memory sys)"
  shows "(of_nat i :: u64) \<noteq> - 1"
proof
  have "unat (sys_memory_size sys) < 2 ^ 64" using unsigned_less [of "sys_memory_size sys"] by simp
  then have i: "i < 2 ^ 52"
    using assms by (simp add: at_ok_def AT_PAGE_SIZE_def unat_div_distrib)
  assume "(of_nat i :: u64) = - 1"
  then have "unat (of_nat i :: u64) = 2 ^ 64 - 1" by (simp add: unsigned_minus_1_eq_mask mask_eq_exp_minus_1)
  moreover have "unat (of_nat i :: u64) = i"
    using i by (simp only: unat_of_nat) (simp add: take_bit_nat_eq_self)
  ultimately show False using i by simp
qed

text \<open>The three outcomes of a page walk.\<close>

definition walk_step :: "at_system \<Rightarrow> u64 \<times> u8 \<Rightarrow> u64 \<Rightarrow> at_system \<Rightarrow> bool" where
  "walk_step sys key pte sys' \<longleftrightarrow> sys_mmu sys' = sys_mmu sys \<and> sys_memory_size sys' = sys_memory_size sys \<and>
     length (sys_memory sys') = length (sys_memory sys) \<and> sys_next_asid sys' = sys_next_asid sys \<and>
     length (sys_processes sys') = length (sys_processes sys) \<and>
     pte AND PTE_PRESENT \<noteq> 0 \<and> pte_of sys' key = Some pte \<and>
     (\<forall>k. k \<noteq> key \<longrightarrow> pte_of sys' k = pte_of sys k)"

lemma page_walk_cases:
  assumes ok: "at_ok sys"
  obtains (undefined) "pte_of sys (vpn, asid) = None" "page_walk sys vpn asid = None"
  | (present) pte where "pte_of sys (vpn, asid) = Some pte" "pte AND PTE_PRESENT \<noteq> 0"
      "page_walk sys vpn asid = Some (Inr (pte, sys))"
  | (exhausted) pte where "pte_of sys (vpn, asid) = Some pte" "pte AND PTE_PRESENT = 0"
      "page_walk sys vpn asid = Some (Inl sys)"
  | (allocated) old pte sys' where "pte_of sys (vpn, asid) = Some old" "old AND PTE_PRESENT = 0"
      "page_walk sys vpn asid = Some (Inr (pte, sys'))" "walk_step sys (vpn, asid) pte sys'"
proof (cases "pte_of sys (vpn, asid)")
  case None
  then have "page_walk sys vpn asid = None"
    by (auto simp: pte_of_def page_walk_def bind_eq_None_conv)
  then show ?thesis using None undefined by blast
next
  case (Some old)
  then obtain pr pt where pr: "c_load (sys_processes sys) (unat asid) = Some pr" "ap_page_table pr = Some pt"
    "c_load pt (unat vpn) = Some old" by (auto simp: pte_of_def bind_eq_Some_conv)
  show ?thesis
  proof (cases "old AND PTE_PRESENT = 0")
    case False
    then show ?thesis using present Some pr by (simp add: page_walk_def)
  next
    case True
    show ?thesis
    proof (cases rule: allocate_page_cases [OF ok])
      case 1
      then show ?thesis using exhausted [OF Some True] pr True by (simp add: page_walk_def)
    next
      case (2 i m)
      define pte where "pte = push_bit 12 (of_nat i) OR PTE_PRESENT OR PTE_WRITABLE OR PTE_USER"
      let ?ps = "(sys_processes sys)[unat asid := pr\<lparr>ap_page_table := Some (pt[unat vpn := pte])\<rparr>]"
      let ?sys = "sys\<lparr>sys_memory := m, sys_processes := ?ps\<rparr>"
      have "page_walk sys vpn asid = Some (Inr (pte, ?sys))"
        using 2 pr True page_number_not_minus_one [OF ok 2(1)]
        by (simp add: page_walk_def pte_def access_simps Let_def)
      moreover have "pte_of ?sys k = (if k = (vpn, asid) then Some pte else pte_of sys k)" for k
        using pr by (cases k) (auto simp: pte_of_def c_load_update dest!: word_unat_eq_iff [THEN iffD2])
      ultimately show ?thesis
        using allocated [OF Some True] 2(3) new_pte_present [of "push_bit 12 (of_nat i)"]
        by (simp add: walk_step_def pte_def)
    qed
  qed
qed


subsection \<open>Translation\<close>

text \<open>Translation without a TLB: the page walk alone.\<close>

definition walk_address :: "at_system \<Rightarrow> u64 \<Rightarrow> u8 \<Rightarrow> (u64 \<times> at_system) option" where
  "walk_address sys vaddr asid = map_option
     (\<lambda>r. case r of Inl s \<Rightarrow> (- 1, s)
       | Inr (pte, s) \<Rightarrow> ((drop_bit 12 pte * AT_PAGE_SIZE) OR (vaddr mod AT_PAGE_SIZE), s))
     (page_walk sys (vaddr div AT_PAGE_SIZE) asid)"

text \<open>The system without its translation unit.\<close>

definition tables :: "at_system \<Rightarrow> at_page list \<times> u64 \<times> at_process list \<times> u8" where
  "tables sys = (sys_memory sys, sys_memory_size sys, sys_processes sys, sys_next_asid sys)"

lemma at_ok_fill:
  assumes un: "tlb_unique (mmu_tlb (sys_mmu sys))" and ok: "at_ok sys'" and m: "sys_mmu sys' = sys_mmu sys"
    and miss: "tlb_lookup (mmu_tlb (sys_mmu sys)) vpn asid = None"
    and pte: "pte_of sys' (vpn, asid) = Some pte" "pte AND PTE_PRESENT \<noteq> 0"
  shows "at_ok (sys'\<lparr>sys_mmu := (sys_mmu sys')\<lparr>mmu_tlb := tlb_fill (mmu_tlb (sys_mmu sys')) vpn pte asid\<rparr>\<rparr>)"
proof -
  let ?t = "mmu_tlb (sys_mmu sys')"
  have len: "length ?t = AT_TLB_SIZE" using un m by (simp add: tlb_unique_def)
  have same: "pte_of (sys'\<lparr>sys_mmu := x\<rparr>) = pte_of sys'" for x by (rule ext) (simp add: pte_of_def)
  have fill: "tlb_fill ?t vpn pte asid ! i = ?t ! i \<or>
      tlb_fill ?t vpn pte asid ! i = \<lparr>te_vpn = vpn, te_pfn = drop_bit 12 pte, te_asid = asid, te_valid = True\<rparr>"
    if "i < AT_TLB_SIZE" for i
  proof (cases "first_index 0 AT_TLB_SIZE (\<lambda>i. \<not> te_valid (?t ! i))")
    case (Some k)
    then show ?thesis using that len by (cases "i = k") (simp_all add: tlb_fill_def)
  qed (simp add: tlb_fill_def)
  have "\<exists>x. pte_of sys' (te_key (tlb_fill ?t vpn pte asid ! i)) = Some x \<and> x AND PTE_PRESENT \<noteq> 0 \<and>
      te_pfn (tlb_fill ?t vpn pte asid ! i) = drop_bit 12 x"
    if "i < AT_TLB_SIZE" "te_valid (tlb_fill ?t vpn pte asid ! i)" for i
    using fill [OF that(1)] that pte ok by (auto simp: at_ok_def Let_def te_key_def)
  then show ?thesis
    using tlb_fill_unique [of ?t vpn asid pte] un miss m ok by (simp add: at_ok_def Let_def same)
qed

lemma at_ok_walk:
  assumes ok: "at_ok sys" and walk: "walk_step sys key pte sys'"
    and old: "pte_of sys key = Some old" "old AND PTE_PRESENT = 0"
  shows "at_ok sys'"
proof -
  have "te_key (mmu_tlb (sys_mmu sys) ! i) \<noteq> key" if "i < AT_TLB_SIZE" "te_valid (mmu_tlb (sys_mmu sys) ! i)" for i
    by (rule at_okD [OF ok that]) (use old in auto)
  then have "pte_of sys' (te_key (mmu_tlb (sys_mmu sys) ! i)) = pte_of sys (te_key (mmu_tlb (sys_mmu sys) ! i))"
    if "i < AT_TLB_SIZE" "te_valid (mmu_tlb (sys_mmu sys) ! i)" for i
    using that walk unfolding walk_step_def by blast
  then show ?thesis using ok walk unfolding at_ok_def walk_step_def Let_def by simp
qed

lemma translate_transparent:
  assumes ok: "at_ok sys"
  shows "map_option (\<lambda>(a, s). (a, tables s)) (at_translate_address sys vaddr asid) =
      map_option (\<lambda>(a, s). (a, tables s)) (walk_address sys vaddr asid)"
    and "at_translate_address sys vaddr asid = Some (a, sys') \<Longrightarrow> at_ok sys'"
proof -
  let ?vpn = "vaddr div AT_PAGE_SIZE" and ?t = "mmu_tlb (sys_mmu sys)"
  have un: "tlb_unique ?t" using ok by (simp add: at_ok_def)
  have "map_option (\<lambda>(a, s). (a, tables s)) (at_translate_address sys vaddr asid) =
      map_option (\<lambda>(a, s). (a, tables s)) (walk_address sys vaddr asid) \<and>
      (at_translate_address sys vaddr asid = Some (a, sys') \<longrightarrow> at_ok sys')"
  proof (cases "tlb_lookup ?t ?vpn asid")
    case (Some i)
    note hit = tlb_lookup_SomeD [OF Some]
    from at_okD [OF ok hit(1,2)] hit(3) obtain pte where
      "pte_of sys (?vpn, asid) = Some pte" "pte AND PTE_PRESENT \<noteq> 0" "te_pfn (?t ! i) = drop_bit 12 pte" by metis
    then show ?thesis using Some ok
      by (cases rule: page_walk_cases [OF ok, of ?vpn asid])
        (auto simp: at_translate_address_def walk_address_def Let_def)
  next
    case None
    show ?thesis
    proof (cases rule: page_walk_cases [OF ok, of ?vpn asid])
      case (2 pte)
      then show ?thesis using None at_ok_fill [OF un ok refl None 2(1,2)]
        by (auto simp: at_translate_address_def walk_address_def Let_def tables_def)
    next
      case (4 old pte s)
      from 4(4) have s: "sys_mmu s = sys_mmu sys" "pte_of s (?vpn, asid) = Some pte" "pte AND PTE_PRESENT \<noteq> 0"
        by (simp_all add: walk_step_def)
      show ?thesis using None 4(3) at_ok_fill [OF un at_ok_walk [OF ok 4(4) 4(1,2)] s(1) None s(2,3)]
        by (auto simp: at_translate_address_def walk_address_def Let_def tables_def)
    qed (use None ok in \<open>auto simp: at_translate_address_def walk_address_def Let_def\<close>)
  qed
  then show "map_option (\<lambda>(a, s). (a, tables s)) (at_translate_address sys vaddr asid) =
      map_option (\<lambda>(a, s). (a, tables s)) (walk_address sys vaddr asid)"
    and "at_translate_address sys vaddr asid = Some (a, sys') \<Longrightarrow> at_ok sys'" by blast+
qed


text \<open>A translation that has found or made a page leaves it in the TLB if a slot was free.\<close>

lemma tlb_fill_found:
  assumes "length t = AT_TLB_SIZE" "i < AT_TLB_SIZE" "\<not> te_valid (t ! i)"
  shows "tlb_lookup (tlb_fill t vpn pte asid) vpn asid \<noteq> None"
proof -
  obtain k where k: "first_index 0 AT_TLB_SIZE (\<lambda>i. \<not> te_valid (t ! i)) = Some k"
    using assms(2,3) by (cases "first_index 0 AT_TLB_SIZE (\<lambda>i. \<not> te_valid (t ! i))") (auto simp: first_index_None_iff)
  then show ?thesis using first_index_SomeD(2) [OF k] assms(1)
    by (auto simp: tlb_fill_def tlb_lookup_None_iff te_key_def intro!: exI [of _ k])
qed

lemma translate_fills:
  assumes ok: "at_ok sys" and tr: "at_translate_address sys vaddr asid = Some (a, sys')"
    and pte: "pte_of sys' (vaddr div AT_PAGE_SIZE, asid) = Some pte" "pte AND PTE_PRESENT \<noteq> 0"
    and free: "i < AT_TLB_SIZE" "\<not> te_valid (mmu_tlb (sys_mmu sys) ! i)"
  shows "tlb_lookup (mmu_tlb (sys_mmu sys')) (vaddr div AT_PAGE_SIZE) asid \<noteq> None"
proof (cases "tlb_lookup (mmu_tlb (sys_mmu sys)) (vaddr div AT_PAGE_SIZE) asid")
  case None
  let ?vpn = "vaddr div AT_PAGE_SIZE"
  have len: "length (mmu_tlb (sys_mmu sys)) = AT_TLB_SIZE" using ok by (simp add: at_ok_def tlb_unique_def)
  note found = tlb_fill_found [OF len free]
  show ?thesis
    by (cases rule: page_walk_cases [OF ok, of ?vpn asid])
      (use None tr pte found in \<open>auto simp: at_translate_address_def Let_def walk_step_def\<close>)
qed (use tr in \<open>simp add: at_translate_address_def Let_def\<close>)

definition at_example :: at_system where
  "at_example = \<lparr>sys_memory = replicate 4 \<lparr>apg_pfn = 0, apg_pin_count = 0\<rparr>, sys_memory_size = 4 * 4096,
     sys_processes = replicate 256 \<lparr>ap_page_table = Some (replicate 8 0), ap_asid = 0\<rparr>,
     sys_mmu = \<lparr>mmu_tlb = replicate 64 \<lparr>te_vpn = 0, te_pfn = 0, te_asid = 0, te_valid = False\<rparr>,
       mmu_current_asid = 0\<rparr>, sys_next_asid = 1\<rparr>"

subsection \<open>The operations as steps\<close>

inductive at_step :: "at_system \<Rightarrow> at_system \<Rightarrow> bool" where
  translate: "at_translate_address sys vaddr asid = Some (a, sys') \<Longrightarrow> at_step sys sys'"
| switch: "switch_process sys n = Some sys' \<Longrightarrow> at_step sys sys'"
| flush_one: "at_step sys (sys\<lparr>sys_mmu := flush_tlb_entry (sys_mmu sys) vpn asid\<rparr>)"
| flush_all: "at_step sys (sys\<lparr>sys_mmu := flush_tlb (sys_mmu sys)\<rparr>)"
| alloc: "allocate_page sys = Some (pfn, sys') \<Longrightarrow> at_step sys sys'"
| pin: "pin_page sys pfn = Some sys' \<Longrightarrow> at_step sys sys'"
| unpin: "at_unpin_page sys pfn = Some sys' \<Longrightarrow> at_step sys sys'"

lemma at_ok_clears:
  assumes "at_ok sys" "clears (mmu_tlb (sys_mmu sys)) (mmu_tlb m)"
  shows "at_ok (sys\<lparr>sys_mmu := m\<rparr>)"
proof -
  have len: "length (mmu_tlb (sys_mmu sys)) = AT_TLB_SIZE" using assms(1) by (simp add: at_ok_def tlb_unique_def)
  have same: "pte_of (sys\<lparr>sys_mmu := x\<rparr>) = pte_of sys" for x by (rule ext) (simp add: pte_of_def)
  have un: "tlb_unique (mmu_tlb m)" using assms clears_unique by (auto simp: at_ok_def)
  show ?thesis using assms len un unfolding at_ok_def clears_def Let_def by (simp add: same)
qed

lemma at_ok_memory:
  assumes "at_ok sys" "length m = length (sys_memory sys)"
  shows "at_ok (sys\<lparr>sys_memory := m\<rparr>)"
  using assms by (simp add: at_ok_def pte_of_def cong: if_cong)

lemma at_ok_processes:
  assumes "at_ok sys" "c_load (sys_processes sys) n = Some pr"
  shows "at_ok (sys\<lparr>sys_processes := (sys_processes sys)[n := pr\<lparr>ap_asid := a\<rparr>], sys_next_asid := b\<rparr>)"
proof -
  have "pte_of (sys\<lparr>sys_processes := (sys_processes sys)[n := pr\<lparr>ap_asid := a\<rparr>], sys_next_asid := b\<rparr>) = pte_of sys"
    using assms(2) by (auto simp: fun_eq_iff pte_of_def c_load_update split: bind_splits)
  then show ?thesis using assms(1) by (simp add: at_ok_def)
qed

lemma at_ok_current: "at_ok (sys\<lparr>sys_mmu := (sys_mmu sys)\<lparr>mmu_current_asid := a\<rparr>\<rparr>) = at_ok sys"
  by (simp add: at_ok_def pte_of_def [abs_def])

lemma assign_asid_ok:
  assumes ok: "at_ok sys" and pr: "c_load (sys_processes sys) n = Some pr"
    and asg: "assign_asid sys n pr = Some sys'"
  shows "at_ok sys'"
proof -
  have flush: "at_ok (x\<lparr>sys_mmu := flush_tlb (sys_mmu x), sys_next_asid := b\<rparr>)" if "at_ok x" for x b
  proof -
    have "length (mmu_tlb (sys_mmu x)) = AT_TLB_SIZE" using that by (simp add: at_ok_def tlb_unique_def)
    from at_ok_clears [OF that flush_tlb_clears [OF this]] show ?thesis
      by (simp add: at_ok_def pte_of_def [abs_def])
  qed
  note p = at_ok_processes [OF ok pr, where a = "sys_next_asid sys" and b = "sys_next_asid sys + 1"]
  show ?thesis
  proof (cases "ap_asid pr = 0")
    case True
    then show ?thesis using asg pr p flush [OF p, of 1]
      by (cases "sys_next_asid sys + 1 = 0") (auto simp: assign_asid_def access_simps Let_def)
  qed (use asg ok in \<open>simp add: assign_asid_def\<close>)
qed

lemma switch_process_ok:
  assumes ok: "at_ok sys" and sw: "switch_process sys n = Some sys'"
  shows "at_ok sys'"
proof -
  from sw obtain pr y a where "c_load (sys_processes sys) n = Some pr" "assign_asid sys n pr = Some y"
    "sys' = y\<lparr>sys_mmu := (sys_mmu y)\<lparr>mmu_current_asid := a\<rparr>\<rparr>"
    by (auto simp: switch_process_def bind_eq_Some_conv)
  then show ?thesis using assign_asid_ok [OF ok] at_ok_current by simp
qed

lemma at_step_ok: "at_step sys sys' \<Longrightarrow> at_ok sys \<Longrightarrow> at_ok sys'"
proof (induction rule: at_step.induct)
  case (translate sys vaddr asid a sys')
  then show ?case using translate_transparent(2) by blast
next
  case (switch sys n sys')
  then show ?case using switch_process_ok by blast
next
  case (flush_one sys vpn asid)
  then show ?case by (intro at_ok_clears flush_entry_clears)
next
  case (flush_all sys)
  then show ?case by (intro at_ok_clears flush_tlb_clears) (simp_all add: at_ok_def tlb_unique_def)
next
  case (alloc sys pfn sys')
  then show ?case by (cases rule: allocate_page_cases [OF alloc.prems]) (auto intro!: at_ok_memory)
next
  case (pin sys pfn sys')
  then show ?case by (auto simp: pin_page_def access_simps bind_eq_Some_conv split: if_splits intro!: at_ok_memory)
next
  case (unpin sys pfn sys')
  then show ?case
    by (auto simp: at_unpin_page_def access_simps bind_eq_Some_conv split: if_splits intro!: at_ok_memory)
qed

lemma at_steps_ok: "at_step\<^sup>*\<^sup>* sys sys' \<Longrightarrow> at_ok sys \<Longrightarrow> at_ok sys'"
  by (induction rule: rtranclp_induct) (auto intro: at_step_ok)


lemma init_system_ok: "init_system calloc stack sz = Some sys \<Longrightarrow> at_ok sys"
  by (auto simp: init_system_def at_ok_def tlb_unique_def split: if_splits)

text \<open>C20. The TLB is transparent: in every state that the operations reach from an initialised system,
  translation returns the same address and leaves the same page tables and pages as the page walk alone,
  whether it hits, walks, allocates a page, runs out of pages or leaves a table. And it is a cache: after
  a translation that has found or made a page, that page is in the TLB, provided a slot was free.\<close>

theorem tlb_transparent:
  assumes "init_system calloc stack sz = Some s0" "at_step\<^sup>*\<^sup>* s0 sys"
  shows "map_option (\<lambda>(a, s). (a, tables s)) (at_translate_address sys vaddr asid) =
      map_option (\<lambda>(a, s). (a, tables s)) (walk_address sys vaddr asid) \<and>
    (\<forall>a sys' pte. at_translate_address sys vaddr asid = Some (a, sys') \<longrightarrow>
       pte_of sys' (vaddr div AT_PAGE_SIZE, asid) = Some pte \<longrightarrow> pte AND PTE_PRESENT \<noteq> 0 \<longrightarrow>
       (\<exists>i < AT_TLB_SIZE. \<not> te_valid (mmu_tlb (sys_mmu sys) ! i)) \<longrightarrow>
       tlb_lookup (mmu_tlb (sys_mmu sys')) (vaddr div AT_PAGE_SIZE) asid \<noteq> None)"
  using translate_transparent(1) translate_fills at_steps_ok [OF assms(2) init_system_ok [OF assms(1)]] by blast

text \<open>A page is made by a translation; the next one finds it in the TLB.\<close>

theorem tlb_transparent_witness:
  "\<exists>s0 s1. init_system True at_example 16384 = Some s0 \<and> at_step s0 s1 \<and>
    tlb_lookup (mmu_tlb (sys_mmu s1)) 1 1 = Some 0 \<and> map_option fst (walk_address s1 0x1006 1) = Some 6"
proof -
  have "map_option (\<lambda>s0. map_option (\<lambda>(a, s1). (tlb_lookup (mmu_tlb (sys_mmu s1)) 1 1,
        map_option fst (at_translate_address s1 0x1006 1))) (at_translate_address s0 0x1005 1))
      (init_system True at_example 16384) = Some (Some (Some 0, Some 6))" by code_simp
  then obtain s0 a s1 where s: "init_system True at_example 16384 = Some s0"
    "at_translate_address s0 0x1005 1 = Some (a, s1)" "tlb_lookup (mmu_tlb (sys_mmu s1)) 1 1 = Some 0"
    "map_option fst (at_translate_address s1 0x1006 1) = Some 6" by auto
  have step: "at_step s0 s1" by (rule at_step.translate [OF s(2)])
  have "map_option (\<lambda>(a, s). (a, tables s)) (at_translate_address s1 0x1006 1) =
      map_option (\<lambda>(a, s). (a, tables s)) (walk_address s1 0x1006 1)"
    using tlb_transparent [OF s(1) r_into_rtranclp [of at_step, OF step]] by blast
  from arg_cong [OF this, of "map_option fst"] s(4) have "map_option fst (walk_address s1 0x1006 1) = Some 6"
    by (simp add: option.map_comp comp_def case_prod_beta)
  with s step show ?thesis by blast
qed

text \<open>In every state the operations reach from an initialised system, flushing one entry does
  what it says: the translation of that page is gone from the TLB, and every other translation is
  found where it was. The search for the entry ignores the valid flags, but stale entries with the
  same key never stand before the valid one.\<close>

theorem flush_reaches_entry:
  assumes "init_system calloc stack sz = Some s0" "at_step\<^sup>*\<^sup>* s0 sys"
  shows "tlb_lookup (mmu_tlb (flush_tlb_entry (sys_mmu sys) vpn asid)) vpn' asid' =
    (if (vpn', asid') = (vpn, asid) then None else tlb_lookup (mmu_tlb (sys_mmu sys)) vpn' asid')"
  using at_steps_ok [OF assms(2) init_system_ok [OF assms(1)]]
  by (intro flush_entry_lookup) (simp add: at_ok_def)

theorem flush_reaches_entry_witness:
  "tlb_lookup (mmu_tlb (flush_tlb_entry (sys_mmu (the (init_system True at_example 8192))) 1 1)) 1 1 = None"
proof -
  obtain s0 where s0: "init_system True at_example 8192 = Some s0" by (simp add: init_system_def)
  from flush_reaches_entry [OF s0 rtranclp.rtrancl_refl, of 1 1 1 1] show ?thesis unfolding s0 by simp
qed

subsection \<open>ASIDs\<close>

fun switch_all :: "nat list \<Rightarrow> at_system \<Rightarrow> at_system option" where
  "switch_all [] sys = Some sys"
| "switch_all (n # ns) sys = switch_process sys n \<bind> switch_all ns"

lemma switch_all_append: "switch_all (ms @ ns) sys = switch_all ms sys \<bind> switch_all ns"
proof (induction ms arbitrary: sys)
  case (Cons m ms)
  then show ?case by (cases "switch_process sys m") simp_all
qed simp

definition asids_given :: "nat \<Rightarrow> at_system \<Rightarrow> bool" where
  "asids_given k sys \<longleftrightarrow> length (sys_processes sys) = 256 \<and>
     sys_next_asid sys = (if k = 255 then 1 else of_nat (k + 1)) \<and>
     (\<forall>i < 256. ap_asid (sys_processes sys ! i) = (if i < k then of_nat (i + 1) else 0))"

lemma switch_new_process:
  assumes "n < length (sys_processes sys)" "ap_asid (sys_processes sys ! n) = 0"
  shows "\<exists>m. switch_process sys n = Some (sys\<lparr>
    sys_processes := (sys_processes sys)[n := (sys_processes sys ! n)\<lparr>ap_asid := sys_next_asid sys\<rparr>],
    sys_next_asid := (if sys_next_asid sys + 1 = 0 then 1 else sys_next_asid sys + 1), sys_mmu := m\<rparr>)"
  using assms by (auto simp: switch_process_def assign_asid_def Let_def)

lemma asids_given_step:
  assumes "asids_given k sys" "k < 255"
  shows "\<exists>sys'. switch_process sys k = Some sys' \<and> asids_given (Suc k) sys'"
proof -
  have next_k: "sys_next_asid sys = of_nat (k + 1)" and len: "length (sys_processes sys) = 256"
    using assms by (simp_all add: asids_given_def)
  have "unat (of_nat (k + 1) + 1 :: u8) = (k + 2) mod 256"
    by (simp only: unat_word_ariths unat_of_nat) (simp add: take_bit_eq_mod mod_simps)
  moreover have "(k + 2) mod 256 = 0 \<longleftrightarrow> k = 254" using assms(2) by presburger
  ultimately have wrap: "of_nat (k + 1) + 1 = (0 :: u8) \<longleftrightarrow> k = 254"
    by (metis unat_eq_0)
  have "ap_asid (sys_processes sys ! k) = 0" using assms by (simp add: asids_given_def)
  with switch_new_process [of k sys] len assms(2) obtain m where
    sw: "switch_process sys k = Some (sys\<lparr>
      sys_processes := (sys_processes sys)[k := (sys_processes sys ! k)\<lparr>ap_asid := of_nat (k + 1)\<rparr>],
      sys_next_asid := (if k = 254 then 1 else of_nat (k + 1) + 1), sys_mmu := m\<rparr>)"
    unfolding next_k wrap by auto
  moreover have "(of_nat (k + 1) + 1 :: u8) = of_nat (Suc k + 1)" by (simp add: algebra_simps)
  ultimately show ?thesis using assms
    by (intro exI conjI) (auto simp: asids_given_def nth_list_update less_Suc_eq)
qed

lemma asids_given_run:
  assumes "asids_given 0 sys" "k \<le> 255"
  shows "\<exists>sys'. switch_all [0..<k] sys = Some sys' \<and> asids_given k sys'"
  using assms(2)
proof (induction k)
  case (Suc k)
  then obtain t where t: "switch_all [0..<k] sys = Some t" "asids_given k t" by auto
  from asids_given_step [OF t(2)] Suc.prems obtain u where "switch_process t k = Some u" "asids_given (Suc k) u"
    by auto
  then show ?case using t(1) by (simp add: switch_all_append)
qed (simp add: assms(1))

text \<open>Address space identifiers are given out twice: after the 256 processes of the table have
  each run once, the first and the last share identifier 1, so that the TLB and the page tables,
  which are indexed by it, no longer tell them apart.\<close>

theorem asid_given_twice:
  assumes "length (sys_processes sys) = 256" "list_all (\<lambda>pr. ap_asid pr = 0) (sys_processes sys)"
    "sys_next_asid sys = 1"
  shows "\<exists>sys'. switch_all [0..<256] sys = Some sys' \<and>
    ap_asid (sys_processes sys' ! 0) = 1 \<and> ap_asid (sys_processes sys' ! 255) = 1"
proof -
  have "asids_given 0 sys" using assms by (simp add: asids_given_def list_all_length)
  from asids_given_run [OF this, of 255] obtain t where
    t: "switch_all [0..<255] sys = Some t" "asids_given 255 t" by auto
  have len: "length (sys_processes t) = 256" "ap_asid (sys_processes t ! 255) = 0" "sys_next_asid t = 1"
    "ap_asid (sys_processes t ! 0) = 1" using t(2) by (simp_all add: asids_given_def)
  from switch_new_process [of 255 t] len obtain u where u: "switch_process t 255 = Some u"
    "ap_asid (sys_processes u ! 0) = 1" "ap_asid (sys_processes u ! 255) = 1" by auto
  have "[0..<256] = [0..<255] @ [255]" using upt_Suc_append [of 0 255] by simp
  then show ?thesis using t(1) u by (simp add: switch_all_append)
qed

theorem asid_given_twice_witness:
  "\<exists>sys'. switch_all [0..<256] at_example = Some sys' \<and> ap_asid (sys_processes sys' ! 255) = 1"
proof -
  have "length (sys_processes at_example) = 256" "list_all (\<lambda>pr. ap_asid pr = 0) (sys_processes at_example)"
    "sys_next_asid at_example = 1" by (simp_all add: at_example_def list_all_length)
  from asid_given_twice [OF this] show ?thesis by blast
qed

text \<open>The program calls the translation with page tables it has never set; when the indeterminate
  pointer does not point to a table of two entries, it leaves the table.\<close>

lemma at_main_undefined:
  assumes "length (sys_processes stack) = 256" "ap_asid (sys_processes stack ! 1) = 0"
    "ap_page_table (sys_processes stack ! 1) = None"
  shows "at_main True stack = None"
  using assms by (simp add: at_main_def init_system_def switch_process_def assign_asid_def
      at_translate_address_def page_walk_def tlb_lookup_def first_index_None_iff [THEN iffD2])

end
