(* ===== verification/Random_Tlb.thy ===== *)
theory Random_Tlb
  imports Prelude
begin

text \<open>
  The translation lookaside buffer (TLB) of \<open>memory/virtual_mem/TLB.c\<close>: eight entries, replaced at
  random, in front of an identical mapping of pages to frames.

  The \<open>int\<close> values are integers; the quotient and the remainder are those of C, which round
  towards zero. The results of \<open>rand()\<close> are arguments. The messages of \<open>TLBHit\<close> are its result.

  Shown here: every address, negative ones included, is translated to itself, whatever has been
  replaced; a page is found right after it has been entered; and the run of the program.
\<close>

definition RT_TLB_SIZE :: nat where
  "RT_TLB_SIZE = 8"

definition RT_PAGE_SIZE :: int where
  "RT_PAGE_SIZE = 4096"

record RT_TLBEntry =
  virtual_page :: int
  physical_frame :: int
  rt_valid :: bool

type_synonym rt_tlb = "RT_TLBEntry list"

definition initTLB :: "rt_tlb \<Rightarrow> rt_tlb option" where
  "initTLB t = update_each (\<lambda>e. e\<lparr>rt_valid := False\<rparr>) [0..<RT_TLB_SIZE] t"

definition TLBHit :: "rt_tlb \<Rightarrow> int \<Rightarrow> bool" where
  "TLBHit t page = (first_index 0 RT_TLB_SIZE (\<lambda>i. rt_valid (t ! i) \<and> virtual_page (t ! i) = page) \<noteq> None)"

definition updateTLB :: "nat \<Rightarrow> int \<Rightarrow> int \<Rightarrow> rt_tlb \<Rightarrow> rt_tlb option" where
  "updateTLB rnd page frame t =
     c_store t (rnd mod RT_TLB_SIZE) \<lparr>virtual_page = page, physical_frame = frame, rt_valid = True\<rparr>"

text \<open>The physical address, whether the page was found, and the new contents of the buffer.\<close>

definition translateAddress :: "nat \<Rightarrow> int \<Rightarrow> rt_tlb \<Rightarrow> (int \<times> bool \<times> rt_tlb) option" where
  "translateAddress rnd virtual_address t =
     (let page = virtual_address sdiv RT_PAGE_SIZE; offset = virtual_address smod RT_PAGE_SIZE in
      if TLBHit t page then
        (let frame = page in Some (frame * RT_PAGE_SIZE + offset, True, t))
      else
        (let frame = page in do {
           t \<leftarrow> updateTLB rnd page frame t;
           Some (frame * RT_PAGE_SIZE + offset, False, t)
         }))"

fun translate_all :: "(nat \<times> int) list \<Rightarrow> rt_tlb \<Rightarrow> ((int \<times> bool) list \<times> rt_tlb) option" where
  "translate_all [] t = Some ([], t)"
| "translate_all ((rnd, a) # as) t = do {
     (p, hit, t) \<leftarrow> translateAddress rnd a t;
     (rs, t) \<leftarrow> translate_all as t;
     Some ((p, hit) # rs, t)
   }"

definition rt_addresses :: "int list" where
  "rt_addresses = [1000, 2000, 3000, 4000, 1000, 2000, 5000, 6000]"

definition rt_main :: "nat list \<Rightarrow> rt_tlb \<Rightarrow> (int \<times> bool) list option" where
  "rt_main rnds t = do {
     t \<leftarrow> initTLB t;
     (rs, t) \<leftarrow> translate_all (zip rnds rt_addresses) t;
     Some rs
   }"

subsection \<open>Translation is the identity\<close>

lemma sdiv_smod: "(a sdiv b) * b + a smod b = (a :: int)"
  by (rule sdiv_mult_smod_eq)

lemma updateTLB_in: "length t = RT_TLB_SIZE \<Longrightarrow> updateTLB rnd page frame t =
    Some (t[rnd mod RT_TLB_SIZE := \<lparr>virtual_page = page, physical_frame = frame, rt_valid = True\<rparr>])"
  by (simp add: updateTLB_def RT_TLB_SIZE_def)

lemma hit_after_update:
  assumes "length t = RT_TLB_SIZE" "updateTLB rnd page frame t = Some u"
  shows "TLBHit u page" "length u = RT_TLB_SIZE"
proof -
  let ?i = "rnd mod RT_TLB_SIZE"
  have u: "u = t[?i := \<lparr>virtual_page = page, physical_frame = frame, rt_valid = True\<rparr>]"
    using assms updateTLB_in by simp
  have i: "?i < RT_TLB_SIZE" by (simp add: RT_TLB_SIZE_def)
  then have "rt_valid (u ! ?i) \<and> virtual_page (u ! ?i) = page" using u assms(1) by simp
  with i show "TLBHit u page" by (auto simp: TLBHit_def first_index_None_iff)
  show "length u = RT_TLB_SIZE" using u assms(1) by simp
qed

lemma translateAddress_identity:
  assumes "length t = RT_TLB_SIZE"
  shows "\<exists>u. translateAddress rnd a t = Some (a, TLBHit t (a sdiv RT_PAGE_SIZE), u) \<and>
    length u = RT_TLB_SIZE \<and> TLBHit u (a sdiv RT_PAGE_SIZE) \<and>
    (TLBHit t (a sdiv RT_PAGE_SIZE) \<longrightarrow> u = t)"
proof (cases "TLBHit t (a sdiv RT_PAGE_SIZE)")
  case True
  then show ?thesis using assms by (simp add: translateAddress_def sdiv_smod)
next
  case False
  obtain u where u: "updateTLB rnd (a sdiv RT_PAGE_SIZE) (a sdiv RT_PAGE_SIZE) t = Some u"
    using updateTLB_in [OF assms] by simp
  then show ?thesis using False hit_after_update [OF assms u]
    by (simp add: translateAddress_def sdiv_smod)
qed

text \<open>Every run translates every address to itself and stays inside the buffer.\<close>

theorem translate_all_identity:
  assumes "length t = RT_TLB_SIZE"
  shows "\<exists>rs u. translate_all as t = Some (rs, u) \<and> map fst rs = map snd as \<and> length u = RT_TLB_SIZE"
  using assms
proof (induction as arbitrary: t)
  case (Cons x as)
  obtain rnd a where x: "x = (rnd, a)" by (cases x)
  from translateAddress_identity [OF Cons.prems, of rnd a] obtain u where
    u: "translateAddress rnd a t = Some (a, TLBHit t (a sdiv RT_PAGE_SIZE), u)" "length u = RT_TLB_SIZE" by blast
  from Cons.IH [OF u(2)] show ?case using u(1) x by auto
qed simp

text \<open>The program misses exactly twice, at the first address of each of its two pages, whatever the
  random numbers are.\<close>

lemma hit_keeps: "TLBHit t (a sdiv RT_PAGE_SIZE) \<Longrightarrow> translateAddress rnd a t = Some (a, True, t)"
  by (simp add: translateAddress_def sdiv_smod)

theorem rt_main_misses_twice:
  assumes "length t = RT_TLB_SIZE" "length rnds = 8"
  shows "rt_main rnds t = Some (zip rt_addresses [False, True, True, True, True, True, False, True])"
proof -
  obtain r0 r1 r2 r3 r4 r5 r6 r7 where r: "rnds = [r0, r1, r2, r3, r4, r5, r6, r7]"
    using assms(2) by (auto simp: length_Suc_conv numeral_eq_Suc)
  let ?t = "map (\<lambda>e. e\<lparr>rt_valid := False\<rparr>) t"
  have init: "initTLB t = Some ?t"
    using assms(1) update_each_upto [of RT_TLB_SIZE t "\<lambda>e. e\<lparr>rt_valid := False\<rparr>"] by (simp add: initTLB_def)
  have len: "length ?t = RT_TLB_SIZE" using assms(1) by simp
  have pages: "1000 sdiv RT_PAGE_SIZE = 0" "2000 sdiv RT_PAGE_SIZE = 0" "3000 sdiv RT_PAGE_SIZE = 0"
    "4000 sdiv RT_PAGE_SIZE = 0" "5000 sdiv RT_PAGE_SIZE = 1" "6000 sdiv RT_PAGE_SIZE = 1"
    by (simp_all add: RT_PAGE_SIZE_def)
  have "\<not> TLBHit ?t p" for p using len by (auto simp: TLBHit_def first_index_None_iff)
  then obtain u where u: "translateAddress r0 1000 ?t = Some (1000, False, u)" "TLBHit u 0" "length u = RT_TLB_SIZE"
    using translateAddress_identity [OF len, of r0 1000] pages by auto
  have fresh: "\<not> TLBHit u 1"
  proof -
    have "updateTLB r0 0 0 ?t = Some u"
      using u(1) \<open>\<And>p. \<not> TLBHit ?t p\<close> pages by (auto simp: translateAddress_def Let_def bind_eq_Some_conv)
    then have "u = ?t[r0 mod RT_TLB_SIZE := \<lparr>virtual_page = 0, physical_frame = 0, rt_valid = True\<rparr>]"
      using updateTLB_in [OF len] by simp
    then show ?thesis using len by (auto simp: TLBHit_def first_index_None_iff nth_list_update)
  qed
  obtain v where v: "translateAddress r6 5000 u = Some (5000, False, v)" "TLBHit v 1"
    using translateAddress_identity [OF u(3), of r6 5000] pages fresh by auto
  have hits: "translateAddress r 2000 u = Some (2000, True, u)" "translateAddress r 3000 u = Some (3000, True, u)"
    "translateAddress r 4000 u = Some (4000, True, u)" "translateAddress r 1000 u = Some (1000, True, u)"
    "translateAddress r 6000 v = Some (6000, True, v)" for r
    using u(2) v(2) pages by (simp_all add: hit_keeps)
  show ?thesis by (simp add: rt_main_def init r rt_addresses_def u(1) hits v(1))
qed

end
