(* ===== verification/Rwlock_Monitor.thy ===== *)
theory Rwlock_Monitor
  imports Prelude
begin

text \<open>
  Read-write locks built from a mutex and two condition variables: the write-preferring lock of
  \<^verbatim>\<open>concurrency/threads/writeStarvation.c\<close> and the one of
  \<^verbatim>\<open>concurrency/threads/aggressiveWriter.c\<close>, each with the reader and writer threads of its program.

  Every function of a lock runs under the mutex, so that what it does between two points where it gives
  the mutex away is one atomic operation on the lock: \<open>try_read\<close> is the way from the entry of the
  function to the first wait or to its end, \<open>retry_read\<close> the way from a return of
  \<open>pthread_cond_wait\<close> to the next wait or to the end, and likewise for writers. An operation that ends
  in a wait has the value \<open>False\<close>. The unlock functions return the wake-up call they make.

  The threads of both programs are the same up to the names of the lock functions; \<open>mon_step\<close> is one
  step of one thread. A sleeping thread is woken by a signal or a broadcast, or spuriously, as POSIX allows.
  \<open>shared_data++\<close> is a load and a store. The log holds what the threads print.

  The locale \<open>rw_monitor\<close> is the contract of such a lock. Its lemmas show for all interleavings that the
  lock excludes, that no increment is lost, and that no wake-up is lost.
\<close>

subsection \<open>Threads\<close>

datatype wake = NoWake | SignalWriter | BroadcastReaders

record 'l lock_ops =
  try_read :: "'l \<Rightarrow> 'l \<times> bool"
  retry_read :: "'l \<Rightarrow> 'l \<times> bool"
  read_unlock :: "'l \<Rightarrow> 'l \<times> wake"
  try_write :: "'l \<Rightarrow> 'l \<times> bool"
  retry_write :: "'l \<Rightarrow> 'l \<times> bool"
  write_unlock :: "'l \<Rightarrow> 'l \<times> wake"

datatype mon_pc =
    Idle
  | RAsleep | RWoken | RHolds | RPrinted
  | WAsleep | WWoken | WHolds | WLoaded int | WStored | WPrinted

datatype mon_event = ReadEv nat int | WroteEv nat int

record 'l mon_state =
  mon_lock :: 'l
  mon_pcs :: "mon_pc list"
  mon_data :: int
  mon_log :: "mon_event list"

fun wakes :: "wake \<Rightarrow> mon_pc list \<Rightarrow> mon_pc list \<Rightarrow> bool" where
  "wakes NoWake ps qs = (qs = ps)"
| "wakes SignalWriter ps qs =
    (if WAsleep \<in> set ps
     then list_ex (\<lambda>j. ps ! j = WAsleep \<and> qs = ps[j := WWoken]) [0..<length ps]
     else qs = ps)"
| "wakes BroadcastReaders ps qs = (qs = map (\<lambda>p. if p = RAsleep then RWoken else p) ps)"

inductive mon_step :: "'l lock_ops \<Rightarrow> nat \<Rightarrow> 'l mon_state \<Rightarrow> 'l mon_state \<Rightarrow> bool"
  for ops :: "'l lock_ops" and n_readers :: nat
where
  reader_lock: "\<lbrakk> i < length (mon_pcs s); mon_pcs s ! i = Idle; i < n_readers;
      try_read ops (mon_lock s) = (l, ok) \<rbrakk> \<Longrightarrow>
    mon_step ops n_readers s
      (s\<lparr>mon_lock := l, mon_pcs := (mon_pcs s)[i := (if ok then RHolds else RAsleep)]\<rparr>)"
| reader_relock: "\<lbrakk> i < length (mon_pcs s); mon_pcs s ! i = RWoken;
      retry_read ops (mon_lock s) = (l, ok) \<rbrakk> \<Longrightarrow>
    mon_step ops n_readers s
      (s\<lparr>mon_lock := l, mon_pcs := (mon_pcs s)[i := (if ok then RHolds else RAsleep)]\<rparr>)"
| reader_print: "\<lbrakk> i < length (mon_pcs s); mon_pcs s ! i = RHolds \<rbrakk> \<Longrightarrow>
    mon_step ops n_readers s
      (s\<lparr>mon_log := mon_log s @ [ReadEv i (mon_data s)], mon_pcs := (mon_pcs s)[i := RPrinted]\<rparr>)"
| reader_unlock: "\<lbrakk> i < length (mon_pcs s); mon_pcs s ! i = RPrinted;
      read_unlock ops (mon_lock s) = (l, w); wakes w ((mon_pcs s)[i := Idle]) ps \<rbrakk> \<Longrightarrow>
    mon_step ops n_readers s (s\<lparr>mon_lock := l, mon_pcs := ps\<rparr>)"
| writer_lock: "\<lbrakk> i < length (mon_pcs s); mon_pcs s ! i = Idle; n_readers \<le> i;
      try_write ops (mon_lock s) = (l, ok) \<rbrakk> \<Longrightarrow>
    mon_step ops n_readers s
      (s\<lparr>mon_lock := l, mon_pcs := (mon_pcs s)[i := (if ok then WHolds else WAsleep)]\<rparr>)"
| writer_relock: "\<lbrakk> i < length (mon_pcs s); mon_pcs s ! i = WWoken;
      retry_write ops (mon_lock s) = (l, ok) \<rbrakk> \<Longrightarrow>
    mon_step ops n_readers s
      (s\<lparr>mon_lock := l, mon_pcs := (mon_pcs s)[i := (if ok then WHolds else WAsleep)]\<rparr>)"
| writer_load: "\<lbrakk> i < length (mon_pcs s); mon_pcs s ! i = WHolds \<rbrakk> \<Longrightarrow>
    mon_step ops n_readers s (s\<lparr>mon_pcs := (mon_pcs s)[i := WLoaded (mon_data s)]\<rparr>)"
| writer_store: "\<lbrakk> i < length (mon_pcs s); mon_pcs s ! i = WLoaded v \<rbrakk> \<Longrightarrow>
    mon_step ops n_readers s (s\<lparr>mon_data := v + 1, mon_pcs := (mon_pcs s)[i := WStored]\<rparr>)"
| writer_print: "\<lbrakk> i < length (mon_pcs s); mon_pcs s ! i = WStored \<rbrakk> \<Longrightarrow>
    mon_step ops n_readers s
      (s\<lparr>mon_log := mon_log s @ [WroteEv i (mon_data s)], mon_pcs := (mon_pcs s)[i := WPrinted]\<rparr>)"
| writer_unlock: "\<lbrakk> i < length (mon_pcs s); mon_pcs s ! i = WPrinted;
      write_unlock ops (mon_lock s) = (l, w); wakes w ((mon_pcs s)[i := Idle]) ps \<rbrakk> \<Longrightarrow>
    mon_step ops n_readers s (s\<lparr>mon_lock := l, mon_pcs := ps\<rparr>)"
| spurious: "\<lbrakk> i < length (mon_pcs s); (mon_pcs s ! i, p) \<in> {(RAsleep, RWoken), (WAsleep, WWoken)} \<rbrakk> \<Longrightarrow>
    mon_step ops n_readers s (s\<lparr>mon_pcs := (mon_pcs s)[i := p]\<rparr>)"

definition mon_init :: "'l \<Rightarrow> nat \<Rightarrow> nat \<Rightarrow> 'l mon_state" where
  "mon_init l n_readers n_writers =
    \<lparr>mon_lock = l, mon_pcs = replicate (n_readers + n_writers) Idle, mon_data = 0, mon_log = []\<rparr>"

definition mon_reachable :: "'l lock_ops \<Rightarrow> 'l \<Rightarrow> nat \<Rightarrow> nat \<Rightarrow> 'l mon_state \<Rightarrow> bool" where
  "mon_reachable ops l n_readers n_writers s =
    (mon_step ops n_readers)\<^sup>*\<^sup>* (mon_init l n_readers n_writers) s"

subsection \<open>Counting threads\<close>

fun reads :: "mon_pc \<Rightarrow> bool" where
  "reads RHolds = True"
| "reads RPrinted = True"
| "reads _ = False"

fun writes :: "mon_pc \<Rightarrow> bool" where
  "writes (WLoaded v) = True"
| "writes p = (p \<in> {WHolds, WStored, WPrinted})"

fun waits_read :: "mon_pc \<Rightarrow> bool" where
  "waits_read RAsleep = True"
| "waits_read RWoken = True"
| "waits_read _ = False"

fun waits_write :: "mon_pc \<Rightarrow> bool" where
  "waits_write WAsleep = True"
| "waits_write WWoken = True"
| "waits_write _ = False"

lemma waits_iff:
  "waits_read p \<longleftrightarrow> p = RAsleep \<or> p = RWoken" "waits_write p \<longleftrightarrow> p = WAsleep \<or> p = WWoken"
  by (cases p; simp)+

lemma tally_split:
  "tally waits_read ps = tally (\<lambda>p. p = RAsleep) ps + tally (\<lambda>p. p = RWoken) ps"
  "tally waits_write ps = tally (\<lambda>p. p = WAsleep) ps + tally (\<lambda>p. p = WWoken) ps"
  by (induction ps) (auto simp: tally_def waits_iff)

lemma wakes_num:
  "wakes w ps qs \<Longrightarrow> P WAsleep = P WWoken \<Longrightarrow> P RAsleep = P RWoken \<Longrightarrow> tally P qs = tally P ps"
proof (cases w)
  case BroadcastReaders
  assume "wakes w ps qs" "P RAsleep = P RWoken"
  with BroadcastReaders show ?thesis
    by (auto simp: tally_map intro!: arg_cong [where f = "\<lambda>Q. tally Q ps"])
qed (auto simp: tally_update list_ex_iff split: if_splits)

lemma wakes_signal:
  "wakes SignalWriter ps qs \<Longrightarrow> tally (\<lambda>p. p = WAsleep) qs = 0 \<or> 0 < tally (\<lambda>p. p = WWoken) qs"
  "wakes SignalWriter ps qs \<Longrightarrow> tally (\<lambda>p. p = RAsleep) qs = tally (\<lambda>p. p = RAsleep) ps"
proof -
  assume w: "wakes SignalWriter ps qs"
  show "tally (\<lambda>p. p = WAsleep) qs = 0 \<or> 0 < tally (\<lambda>p. p = WWoken) qs"
  proof (cases "WAsleep \<in> set ps")
    case True
    with w obtain j where "j < length ps" "qs = ps[j := WWoken]" by (auto simp: list_ex_iff)
    then have "0 < tally (\<lambda>p. p = WWoken) qs" by (auto simp: tally_pos_ex intro!: exI [of _ j])
    then show ?thesis ..
  next
    case False
    with w show ?thesis by (auto simp: tally_zero in_set_conv_nth)
  qed
  show "tally (\<lambda>p. p = RAsleep) qs = tally (\<lambda>p. p = RAsleep) ps"
    using w by (auto simp: tally_update list_ex_iff split: if_splits)
qed

lemma wakes_broadcast:
  "wakes BroadcastReaders ps qs \<Longrightarrow> tally (\<lambda>p. p = RAsleep) qs = 0"
  "wakes BroadcastReaders ps qs \<Longrightarrow> tally (\<lambda>p. p = WAsleep) qs = tally (\<lambda>p. p = WAsleep) ps"
  "wakes BroadcastReaders ps qs \<Longrightarrow> tally (\<lambda>p. p = WWoken) qs = tally (\<lambda>p. p = WWoken) ps"
  by (auto simp: tally_map tally_def intro!: filter_False arg_cong [where f = length] filter_cong
      split: if_splits)

lemma wakes_loaded:
  "wakes w ps qs \<Longrightarrow> length qs = length ps \<and> (i < length ps \<longrightarrow> qs ! i = WLoaded v \<longleftrightarrow> ps ! i = WLoaded v)"
  by (cases w) (auto simp: list_ex_iff nth_list_update split: if_splits)

subsection \<open>The log\<close>

text \<open>\<open>replay n es\<close> reads a log against a counter that starts at \<open>n\<close>: a reader prints the counter, a
  writer the counter after its increment.\<close>

fun replay :: "int \<Rightarrow> mon_event list \<Rightarrow> int option" where
  "replay n [] = Some n"
| "replay n (ReadEv i v # es) = (if v = n then replay n es else None)"
| "replay n (WroteEv i v # es) = (if v = n + 1 then replay (n + 1) es else None)"

lemma replay_append: "replay n (es @ fs) = Option.bind (replay n es) (\<lambda>m. replay m fs)"
  by (induction n es rule: replay.induct) auto

definition data_safe :: "'l mon_state \<Rightarrow> bool" where
  "data_safe s \<longleftrightarrow> (\<forall>i<length (mon_pcs s). \<forall>v. mon_pcs s ! i = WLoaded v \<longrightarrow> v = mon_data s) \<and>
    replay 0 (mon_log s) = Some (mon_data s - tally (\<lambda>p. p = WStored) (mon_pcs s))"

lemma data_safe_move:
  assumes "data_safe s" "i < length (mon_pcs s)" "mon_pcs s ! i \<noteq> WStored" "p \<noteq> WStored"
    and "\<And>v. p = WLoaded v \<Longrightarrow> v = mon_data s"
  shows "data_safe (s\<lparr>mon_lock := l, mon_pcs := (mon_pcs s)[i := p]\<rparr>)"
    and "data_safe (s\<lparr>mon_pcs := (mon_pcs s)[i := p]\<rparr>)"
  using assms by (auto simp: data_safe_def tally_update nth_list_update)

lemma data_safe_wakes:
  assumes "data_safe s" "i < length (mon_pcs s)" "mon_pcs s ! i \<noteq> WStored" "wakes w ((mon_pcs s)[i := Idle]) ps"
  shows "data_safe (s\<lparr>mon_lock := l, mon_pcs := ps\<rparr>)"
  using data_safe_move(2) [OF assms(1-3), of Idle] wakes_loaded [OF assms(4)]
    wakes_num [OF assms(4), of "\<lambda>p. p = WStored"]
  by (auto simp: data_safe_def)

lemma data_safe_read:
  assumes "data_safe s" "i < length (mon_pcs s)" "mon_pcs s ! i = RHolds" "tally writes (mon_pcs s) = 0"
  shows "data_safe (s\<lparr>mon_log := mon_log s @ [ReadEv i (mon_data s)], mon_pcs := (mon_pcs s)[i := RPrinted]\<rparr>)"
proof -
  have "tally (\<lambda>p. p = WStored) (mon_pcs s) = 0"
    using tally_mono [of "\<lambda>p. p = WStored" writes "mon_pcs s"] tally_nonneg [of "\<lambda>p. p = WStored" "mon_pcs s"]
      assms(4) by auto
  with assms show ?thesis by (auto simp: data_safe_def tally_update replay_append nth_list_update)
qed

lemma data_safe_store:
  assumes "data_safe s" "i < length (mon_pcs s)" "mon_pcs s ! i = WLoaded v" "tally writes (mon_pcs s) \<le> 1"
  shows "data_safe (s\<lparr>mon_data := v + 1, mon_pcs := (mon_pcs s)[i := WStored]\<rparr>)"
proof -
  have "mon_pcs s ! j \<noteq> WLoaded u" if "j < length (mon_pcs s)" "j \<noteq> i" for j u
    using tally_le_one [of writes "mon_pcs s" i j] assms that by auto
  with assms show ?thesis by (auto simp: data_safe_def tally_update nth_list_update)
qed

lemma data_safe_print:
  assumes "data_safe s" "i < length (mon_pcs s)" "mon_pcs s ! i = WStored" "tally writes (mon_pcs s) \<le> 1"
  shows "data_safe (s\<lparr>mon_log := mon_log s @ [WroteEv i (mon_data s)], mon_pcs := (mon_pcs s)[i := WPrinted]\<rparr>)"
proof -
  have "tally (\<lambda>p. p = WStored) (mon_pcs s) = 1"
    using tally_mono [of "\<lambda>p. p = WStored" writes "mon_pcs s"] tally_pos [of i "mon_pcs s" "\<lambda>p. p = WStored"]
      assms(2-4) by auto
  with assms show ?thesis by (auto simp: data_safe_def tally_update replay_append nth_list_update)
qed

lemmas data_safe_intros = data_safe_move data_safe_wakes data_safe_read data_safe_store data_safe_print

subsection \<open>The contract of a lock\<close>

locale rw_monitor =
  fixes ops :: "'l lock_ops" and ar wr aw ww :: "'l \<Rightarrow> int" and ok :: "'l \<Rightarrow> bool" and l0 :: 'l
  assumes law_init: "ok l0" "ar l0 = 0" "wr l0 = 0" "aw l0 = 0" "ww l0 = 0"
    and law_nonneg: "ok l \<Longrightarrow> 0 \<le> ar l \<and> 0 \<le> wr l \<and> 0 \<le> aw l \<and> 0 \<le> ww l"
    and law_try_read: "ok l \<Longrightarrow> try_read ops l = (l', b) \<Longrightarrow>
      ok l' \<and> aw l' = aw l \<and> ww l' = ww l \<and>
      (if b then aw l = 0 \<and> ar l' = ar l + 1 \<and> wr l' = wr l
       else (0 < aw l \<or> 0 < ww l) \<and> ar l' = ar l \<and> wr l' = wr l + 1)"
    and law_retry_read: "ok l \<Longrightarrow> 0 < wr l \<Longrightarrow> retry_read ops l = (l', b) \<Longrightarrow>
      ok l' \<and> aw l' = aw l \<and> ww l' = ww l \<and>
      (if b then aw l = 0 \<and> ar l' = ar l + 1 \<and> wr l' = wr l - 1
       else (0 < aw l \<or> 0 < ww l) \<and> ar l' = ar l \<and> wr l' = wr l)"
    and law_read_unlock: "ok l \<Longrightarrow> 0 < ar l \<Longrightarrow> read_unlock ops l = (l', w) \<Longrightarrow>
      ok l' \<and> ar l' = ar l - 1 \<and> wr l' = wr l \<and> aw l' = aw l \<and> ww l' = ww l \<and>
      w = (if ar l = 1 \<and> 0 < ww l then SignalWriter else NoWake)"
    and law_try_write: "ok l \<Longrightarrow> try_write ops l = (l', b) \<Longrightarrow>
      ok l' \<and> ar l' = ar l \<and> wr l' = wr l \<and>
      (if b then ar l = 0 \<and> aw l = 0 \<and> aw l' = aw l + 1 \<and> ww l' = ww l
       else (0 < ar l \<or> 0 < aw l) \<and> aw l' = aw l \<and> ww l' = ww l + 1)"
    and law_retry_write: "ok l \<Longrightarrow> 0 < ww l \<Longrightarrow> retry_write ops l = (l', b) \<Longrightarrow>
      ok l' \<and> ar l' = ar l \<and> wr l' = wr l \<and>
      (if b then ar l = 0 \<and> aw l = 0 \<and> aw l' = aw l + 1 \<and> ww l' = ww l - 1
       else (0 < ar l \<or> 0 < aw l) \<and> aw l' = aw l \<and> ww l' = ww l)"
    and law_write_unlock: "ok l \<Longrightarrow> 0 < aw l \<Longrightarrow> write_unlock ops l = (l', w) \<Longrightarrow>
      ok l' \<and> ar l' = ar l \<and> wr l' = wr l \<and> aw l' = aw l - 1 \<and> ww l' = ww l \<and>
      (if 0 < ww l then w = SignalWriter else w = BroadcastReaders \<or> w = NoWake \<and> wr l = 0)"
begin

definition lock_counts :: "'l mon_state \<Rightarrow> bool" where
  "lock_counts s \<longleftrightarrow> ok (mon_lock s) \<and> ar (mon_lock s) = tally reads (mon_pcs s) \<and>
    wr (mon_lock s) = tally waits_read (mon_pcs s) \<and> aw (mon_lock s) = tally writes (mon_pcs s) \<and>
    ww (mon_lock s) = tally waits_write (mon_pcs s) \<and>
    aw (mon_lock s) \<le> 1 \<and> (aw (mon_lock s) = 0 \<or> ar (mon_lock s) = 0)"

definition no_lost_wakeup :: "'l mon_state \<Rightarrow> bool" where
  "no_lost_wakeup s \<longleftrightarrow>
    (tally (\<lambda>p. p = WAsleep) (mon_pcs s) = 0 \<or> 0 < ar (mon_lock s) \<or> 0 < aw (mon_lock s) \<or>
      0 < tally (\<lambda>p. p = WWoken) (mon_pcs s)) \<and>
    (tally (\<lambda>p. p = RAsleep) (mon_pcs s) = 0 \<or> 0 < aw (mon_lock s) \<or> 0 < ww (mon_lock s))"

lemma lock_counts_step:
  assumes "mon_step ops n s t" "lock_counts s"
  shows "lock_counts t"
  using assms
proof (induction rule: mon_step.induct)
  case (reader_lock i s l b)
  then show ?case using law_try_read [OF _ reader_lock(4)]
    by (auto simp: lock_counts_def tally_update split: if_splits)
next
  case (reader_relock i s l b)
  then show ?case using law_retry_read [OF _ _ reader_relock(3)] tally_pos [of i "mon_pcs s" waits_read]
    by (auto simp: lock_counts_def tally_update split: if_splits)
next
  case (reader_unlock i s l w ps)
  then show ?case using law_read_unlock [OF _ _ reader_unlock(3)] tally_pos [of i "mon_pcs s" reads]
      wakes_num [OF reader_unlock(4), of reads] wakes_num [OF reader_unlock(4), of writes]
      wakes_num [OF reader_unlock(4), of waits_read] wakes_num [OF reader_unlock(4), of waits_write]
    by (auto simp: lock_counts_def tally_update)
next
  case (writer_lock i s l b)
  then show ?case using law_try_write [OF _ writer_lock(4)]
    by (auto simp: lock_counts_def tally_update split: if_splits)
next
  case (writer_relock i s l b)
  then show ?case using law_retry_write [OF _ _ writer_relock(3)] tally_pos [of i "mon_pcs s" waits_write]
    by (auto simp: lock_counts_def tally_update split: if_splits)
next
  case (writer_unlock i s l w ps)
  then show ?case using law_write_unlock [OF _ _ writer_unlock(3)] tally_pos [of i "mon_pcs s" writes]
      wakes_num [OF writer_unlock(4), of reads] wakes_num [OF writer_unlock(4), of writes]
      wakes_num [OF writer_unlock(4), of waits_read] wakes_num [OF writer_unlock(4), of waits_write]
    by (auto simp: lock_counts_def tally_update)
qed (auto simp: lock_counts_def tally_update)

lemma no_lost_wakeup_step:
  assumes "mon_step ops n s t" "lock_counts s" "no_lost_wakeup s"
  shows "no_lost_wakeup t"
  using assms
proof (induction rule: mon_step.induct)
  case (reader_lock i s l b)
  then show ?case using law_try_read [OF _ reader_lock(4)] law_nonneg [of "mon_lock s"]
    by (auto simp: lock_counts_def no_lost_wakeup_def tally_update split: if_splits)
next
  case (reader_relock i s l b)
  then show ?case using law_retry_read [OF _ _ reader_relock(3)] tally_pos [of i "mon_pcs s" waits_read]
      law_nonneg [of "mon_lock s"]
    by (auto simp: lock_counts_def no_lost_wakeup_def tally_update split: if_splits)
next
  case (reader_unlock i s l w ps)
  note num = wakes_num [OF reader_unlock(4), of waits_write]
  show ?case using reader_unlock law_read_unlock [OF _ _ reader_unlock(3)] num
      tally_pos [of i "mon_pcs s" reads] tally_split(2) [of ps] tally_nonneg [of "\<lambda>p. p = WAsleep" ps]
      tally_nonneg [of "\<lambda>p. p = WWoken" ps] tally_nonneg [of writes "mon_pcs s"]
      tally_nonneg [of waits_write ps] wakes_signal [of "(mon_pcs s)[i := Idle]" ps]
    by (auto simp: lock_counts_def no_lost_wakeup_def tally_update split: if_splits)
next
  case (writer_lock i s l b)
  then show ?case using law_try_write [OF _ writer_lock(4)] law_nonneg [of "mon_lock s"]
    by (auto simp: lock_counts_def no_lost_wakeup_def tally_update split: if_splits)
next
  case (writer_relock i s l b)
  then show ?case using law_retry_write [OF _ _ writer_relock(3)] tally_pos [of i "mon_pcs s" waits_write]
      law_nonneg [of "mon_lock s"]
    by (auto simp: lock_counts_def no_lost_wakeup_def tally_update split: if_splits)
next
  case (writer_unlock i s l w ps)
  note num = wakes_num [OF writer_unlock(4), of waits_write]
  show ?case using writer_unlock law_write_unlock [OF _ _ writer_unlock(3)] num
      tally_pos [of i "mon_pcs s" writes] tally_split [of ps] tally_split(1) [of "mon_pcs s"]
      tally_nonneg [of "\<lambda>p. p = WAsleep" ps] tally_nonneg [of "\<lambda>p. p = RWoken" "mon_pcs s"]
      tally_nonneg [of "\<lambda>p. p = WWoken" ps] tally_nonneg [of reads "mon_pcs s"]
      tally_nonneg [of "\<lambda>p. p = RAsleep" "mon_pcs s"]
      wakes_signal [of "(mon_pcs s)[i := Idle]" ps] wakes_broadcast [of "(mon_pcs s)[i := Idle]" ps]
    by (auto simp: lock_counts_def no_lost_wakeup_def tally_update split: if_splits)
next
  case (spurious i s p)
  then show ?case using tally_pos [of i "mon_pcs s" "\<lambda>p. p = RAsleep"]
      tally_nonneg [of "\<lambda>p. p = WWoken" "mon_pcs s"]
    by (auto simp: lock_counts_def no_lost_wakeup_def tally_update)
qed (auto simp: no_lost_wakeup_def tally_update)

lemma data_safe_step:
  assumes "mon_step ops n s t" "lock_counts s" "data_safe s"
  shows "data_safe t"
  using assms
proof (induction rule: mon_step.induct)
  case (reader_print i s)
  then have "tally writes (mon_pcs s) = 0" using tally_pos [of i "mon_pcs s" reads] by (auto simp: lock_counts_def)
  with reader_print show ?case by (intro data_safe_read)
qed (auto simp: lock_counts_def intro: data_safe_intros)

lemma reachable_inv: "mon_reachable ops l0 nr nw s \<Longrightarrow> lock_counts s \<and> no_lost_wakeup s \<and> data_safe s"
  unfolding mon_reachable_def
proof (induction rule: rtranclp_induct)
  case base
  have "tally P (replicate m Idle) = 0" if "\<not> P Idle" for P m using that by (simp add: tally_def)
  then show ?case
    by (auto simp: mon_init_def lock_counts_def no_lost_wakeup_def data_safe_def law_init)
next
  case (step s t)
  then show ?case using lock_counts_step no_lost_wakeup_step data_safe_step by blast
qed

lemma exclusion:
  assumes "mon_reachable ops l0 nr nw s" "i < length (mon_pcs s)" "j < length (mon_pcs s)"
    and "writes (mon_pcs s ! i)" "reads (mon_pcs s ! j) \<or> writes (mon_pcs s ! j)"
  shows "i = j"
proof -
  have c: "lock_counts s" using reachable_inv assms(1) by blast
  have "0 < tally writes (mon_pcs s)" using tally_pos [of i "mon_pcs s" writes] assms(2,4) by simp
  with c have "tally reads (mon_pcs s) = 0" by (auto simp: lock_counts_def)
  then have "writes (mon_pcs s ! j)" using assms(3,5) by (auto simp: tally_zero)
  with c assms show ?thesis using tally_le_one [of writes "mon_pcs s" i j] by (auto simp: lock_counts_def)
qed

lemma log_replays:
  assumes "mon_reachable ops l0 nr nw s"
  shows "replay 0 (mon_log s) = Some (mon_data s - tally (\<lambda>p. p = WStored) (mon_pcs s))"
  using reachable_inv [OF assms] by (simp add: data_safe_def)

lemma awake_thread:
  assumes "mon_reachable ops l0 nr nw s" "i < length (mon_pcs s)" "mon_pcs s ! i = RAsleep \<or> mon_pcs s ! i = WAsleep"
  shows "\<exists>j<length (mon_pcs s). reads (mon_pcs s ! j) \<or> writes (mon_pcs s ! j) \<or> mon_pcs s ! j = WWoken"
proof -
  let ?ps = "mon_pcs s"
  have inv: "lock_counts s" "no_lost_wakeup s" using reachable_inv assms(1) by blast+
  have "0 < tally (\<lambda>p. p = RAsleep) ?ps \<or> 0 < tally (\<lambda>p. p = WAsleep) ?ps"
    using assms(2,3) tally_pos [of i ?ps "\<lambda>p. p = RAsleep"] tally_pos [of i ?ps "\<lambda>p. p = WAsleep"] by auto
  then have "0 < tally reads ?ps \<or> 0 < tally writes ?ps \<or> 0 < tally (\<lambda>p. p = WWoken) ?ps"
    using inv tally_split(2) [of ?ps] tally_nonneg [of "\<lambda>p. p = WAsleep" ?ps]
    by (auto simp: lock_counts_def no_lost_wakeup_def)
  then show ?thesis unfolding tally_pos_ex by blast
qed

end

subsection \<open>The write-preferring lock\<close>

record write_pref_rwlock_t =
  active_readers :: int
  waiting_readers :: int
  active_writers :: int
  waiting_writers :: int

definition write_pref_rwlock_init :: write_pref_rwlock_t where
  "write_pref_rwlock_init =
    \<lparr>active_readers = 0, waiting_readers = 0, active_writers = 0, waiting_writers = 0\<rparr>"

definition write_pref_rwlock_read_lock :: "write_pref_rwlock_t \<Rightarrow> write_pref_rwlock_t \<times> bool" where
  "write_pref_rwlock_read_lock l =
    (if active_writers l > 0 \<or> waiting_writers l > 0
     then (l\<lparr>waiting_readers := waiting_readers l + 1\<rparr>, False)
     else (l\<lparr>active_readers := active_readers l + 1\<rparr>, True))"

definition write_pref_read_wait_returns :: "write_pref_rwlock_t \<Rightarrow> write_pref_rwlock_t \<times> bool" where
  "write_pref_read_wait_returns l =
    write_pref_rwlock_read_lock (l\<lparr>waiting_readers := waiting_readers l - 1\<rparr>)"

definition write_pref_rwlock_read_unlock :: "write_pref_rwlock_t \<Rightarrow> write_pref_rwlock_t \<times> wake" where
  "write_pref_rwlock_read_unlock l =
    (let l = l\<lparr>active_readers := active_readers l - 1\<rparr>
     in (l, if active_readers l = 0 \<and> waiting_writers l > 0 then SignalWriter else NoWake))"

definition write_pref_rwlock_write_lock :: "write_pref_rwlock_t \<Rightarrow> write_pref_rwlock_t \<times> bool" where
  "write_pref_rwlock_write_lock l =
    (if active_readers l > 0 \<or> active_writers l > 0
     then (l\<lparr>waiting_writers := waiting_writers l + 1\<rparr>, False)
     else (l\<lparr>active_writers := active_writers l + 1\<rparr>, True))"

definition write_pref_write_wait_returns :: "write_pref_rwlock_t \<Rightarrow> write_pref_rwlock_t \<times> bool" where
  "write_pref_write_wait_returns l =
    write_pref_rwlock_write_lock (l\<lparr>waiting_writers := waiting_writers l - 1\<rparr>)"

definition write_pref_rwlock_write_unlock :: "write_pref_rwlock_t \<Rightarrow> write_pref_rwlock_t \<times> wake" where
  "write_pref_rwlock_write_unlock l =
    (let l = l\<lparr>active_writers := active_writers l - 1\<rparr>
     in (l, if waiting_writers l > 0 then SignalWriter
            else if waiting_readers l > 0 then BroadcastReaders else NoWake))"

definition write_pref_ops :: "write_pref_rwlock_t lock_ops" where
  "write_pref_ops =
    \<lparr>try_read = write_pref_rwlock_read_lock, retry_read = write_pref_read_wait_returns,
     read_unlock = write_pref_rwlock_read_unlock, try_write = write_pref_rwlock_write_lock,
     retry_write = write_pref_write_wait_returns, write_unlock = write_pref_rwlock_write_unlock\<rparr>"

lemmas write_pref_defs = write_pref_ops_def write_pref_rwlock_init_def write_pref_rwlock_read_lock_def
  write_pref_read_wait_returns_def write_pref_rwlock_read_unlock_def write_pref_rwlock_write_lock_def
  write_pref_write_wait_returns_def write_pref_rwlock_write_unlock_def

definition write_pref_ok :: "write_pref_rwlock_t \<Rightarrow> bool" where
  "write_pref_ok l \<longleftrightarrow> 0 \<le> active_readers l \<and> 0 \<le> waiting_readers l \<and>
    0 \<le> active_writers l \<and> 0 \<le> waiting_writers l"

interpretation wp: rw_monitor write_pref_ops active_readers waiting_readers active_writers waiting_writers
  write_pref_ok write_pref_rwlock_init
  by unfold_locales (auto simp: write_pref_defs write_pref_ok_def Let_def split: if_splits)

subsection \<open>The lock with the flag of a waiting writer\<close>

record aggressive_rwlock_t = write_pref_rwlock_t +
  writer_waiting :: bool

definition aggressive_init :: aggressive_rwlock_t where
  "aggressive_init = \<lparr>active_readers = 0, waiting_readers = 0, active_writers = 0, waiting_writers = 0,
     writer_waiting = False\<rparr>"

definition aggressive_read_lock :: "aggressive_rwlock_t \<Rightarrow> aggressive_rwlock_t \<times> bool" where
  "aggressive_read_lock l =
    (if active_writers l > 0 \<or> writer_waiting l
     then (l\<lparr>waiting_readers := waiting_readers l + 1\<rparr>, False)
     else (l\<lparr>active_readers := active_readers l + 1\<rparr>, True))"

definition aggressive_read_wait_returns :: "aggressive_rwlock_t \<Rightarrow> aggressive_rwlock_t \<times> bool" where
  "aggressive_read_wait_returns l = aggressive_read_lock (l\<lparr>waiting_readers := waiting_readers l - 1\<rparr>)"

definition aggressive_read_unlock :: "aggressive_rwlock_t \<Rightarrow> aggressive_rwlock_t \<times> wake" where
  "aggressive_read_unlock l =
    (let l = l\<lparr>active_readers := active_readers l - 1\<rparr>
     in if active_readers l = 0 \<and> waiting_writers l > 0
        then (l\<lparr>writer_waiting := True\<rparr>, SignalWriter) else (l, NoWake))"

definition aggressive_write_test :: "aggressive_rwlock_t \<Rightarrow> aggressive_rwlock_t \<times> bool" where
  "aggressive_write_test l =
    (if active_readers l > 0 \<or> active_writers l > 0
     then (l\<lparr>writer_waiting := True\<rparr>, False)
     else (l\<lparr>waiting_writers := waiting_writers l - 1, active_writers := active_writers l + 1,
             writer_waiting := False\<rparr>, True))"

definition aggressive_write_lock :: "aggressive_rwlock_t \<Rightarrow> aggressive_rwlock_t \<times> bool" where
  "aggressive_write_lock l = aggressive_write_test (l\<lparr>waiting_writers := waiting_writers l + 1\<rparr>)"

definition aggressive_write_unlock :: "aggressive_rwlock_t \<Rightarrow> aggressive_rwlock_t \<times> wake" where
  "aggressive_write_unlock l =
    (let l = l\<lparr>active_writers := active_writers l - 1\<rparr>
     in (l, if waiting_writers l > 0 then SignalWriter else BroadcastReaders))"

definition aggressive_ops :: "aggressive_rwlock_t lock_ops" where
  "aggressive_ops =
    \<lparr>try_read = aggressive_read_lock, retry_read = aggressive_read_wait_returns,
     read_unlock = aggressive_read_unlock, try_write = aggressive_write_lock,
     retry_write = aggressive_write_test, write_unlock = aggressive_write_unlock\<rparr>"

lemmas aggressive_defs = aggressive_ops_def aggressive_init_def aggressive_read_lock_def
  aggressive_read_wait_returns_def aggressive_read_unlock_def aggressive_write_test_def
  aggressive_write_lock_def aggressive_write_unlock_def

text \<open>The flag is only up while a writer waits: this is what the contract of the lock rests on.\<close>

definition aggressive_ok :: "aggressive_rwlock_t \<Rightarrow> bool" where
  "aggressive_ok l \<longleftrightarrow> 0 \<le> active_readers l \<and> 0 \<le> waiting_readers l \<and>
    0 \<le> active_writers l \<and> 0 \<le> waiting_writers l \<and> (writer_waiting l \<longrightarrow> 0 < waiting_writers l)"

interpretation ag: rw_monitor aggressive_ops active_readers waiting_readers active_writers waiting_writers
  aggressive_ok aggressive_init
  by unfold_locales (auto simp: aggressive_defs aggressive_ok_def Let_def split: if_splits)

subsection \<open>Concrete runs\<close>

text \<open>\<open>mon_next\<close> runs the next step of a given thread; a signal goes to the first sleeping writer.\<close>

fun wake_first :: "wake \<Rightarrow> mon_pc list \<Rightarrow> mon_pc list" where
  "wake_first NoWake ps = ps"
| "wake_first SignalWriter ps =
    (case first_index 0 (length ps) (\<lambda>j. ps ! j = WAsleep) of None \<Rightarrow> ps | Some j \<Rightarrow> ps[j := WWoken])"
| "wake_first BroadcastReaders ps = map (\<lambda>p. if p = RAsleep then RWoken else p) ps"

fun mon_next :: "'l lock_ops \<Rightarrow> nat \<Rightarrow> nat \<Rightarrow> 'l mon_state \<Rightarrow> 'l mon_state option" where
  "mon_next ops nr i s =
    (let enter = (\<lambda>(l, ok) p q. Some (s\<lparr>mon_lock := l, mon_pcs := (mon_pcs s)[i := (if ok then p else q)]\<rparr>));
         leave = (\<lambda>(l, w). Some (s\<lparr>mon_lock := l, mon_pcs := wake_first w ((mon_pcs s)[i := Idle])\<rparr>))
     in if length (mon_pcs s) \<le> i then None
        else case mon_pcs s ! i of
          Idle \<Rightarrow> if i < nr then enter (try_read ops (mon_lock s)) RHolds RAsleep
                  else enter (try_write ops (mon_lock s)) WHolds WAsleep
        | RAsleep \<Rightarrow> None
        | RWoken \<Rightarrow> enter (retry_read ops (mon_lock s)) RHolds RAsleep
        | RHolds \<Rightarrow> Some (s\<lparr>mon_log := mon_log s @ [ReadEv i (mon_data s)], mon_pcs := (mon_pcs s)[i := RPrinted]\<rparr>)
        | RPrinted \<Rightarrow> leave (read_unlock ops (mon_lock s))
        | WAsleep \<Rightarrow> None
        | WWoken \<Rightarrow> enter (retry_write ops (mon_lock s)) WHolds WAsleep
        | WHolds \<Rightarrow> Some (s\<lparr>mon_pcs := (mon_pcs s)[i := WLoaded (mon_data s)]\<rparr>)
        | WLoaded v \<Rightarrow> Some (s\<lparr>mon_data := v + 1, mon_pcs := (mon_pcs s)[i := WStored]\<rparr>)
        | WStored \<Rightarrow> Some (s\<lparr>mon_log := mon_log s @ [WroteEv i (mon_data s)], mon_pcs := (mon_pcs s)[i := WPrinted]\<rparr>)
        | WPrinted \<Rightarrow> leave (write_unlock ops (mon_lock s)))"

fun mon_sched :: "'l lock_ops \<Rightarrow> nat \<Rightarrow> nat list \<Rightarrow> 'l mon_state \<Rightarrow> 'l mon_state option" where
  "mon_sched ops nr [] s = Some s"
| "mon_sched ops nr (i # is) s = Option.bind (mon_next ops nr i s) (mon_sched ops nr is)"

lemma wake_first_wakes: "wakes w ps (wake_first w ps)"
proof (cases w)
  case SignalWriter
  show ?thesis
  proof (cases "first_index 0 (length ps) (\<lambda>j. ps ! j = WAsleep)")
    case None
    then have "WAsleep \<notin> set ps" by (auto simp: first_index_None_iff in_set_conv_nth)
    with None SignalWriter show ?thesis by simp
  next
    case (Some j)
    note j = first_index_SomeD(2,3) [OF Some]
    then have "WAsleep \<in> set ps" by (auto simp: in_set_conv_nth)
    with Some SignalWriter j show ?thesis by (auto simp: list_ex_iff)
  qed
qed auto

lemma mon_next_step: "mon_next ops nr i s = Some t \<Longrightarrow> mon_step ops nr s t"
  using mon_step.reader_lock [of i s nr ops] mon_step.reader_relock [of i s ops]
    mon_step.writer_lock [of i s nr ops] mon_step.writer_relock [of i s ops]
    mon_step.reader_unlock [OF _ _ _ wake_first_wakes, of i s ops]
    mon_step.writer_unlock [OF _ _ _ wake_first_wakes, of i s ops]
  by (cases "mon_pcs s ! i")
    (auto simp: Let_def split: if_splits prod.splits
      intro: mon_step.reader_print mon_step.writer_load mon_step.writer_store mon_step.writer_print)

lemma mon_sched_reachable:
  "mon_sched ops nr is (mon_init l nr nw) = Some s \<Longrightarrow> mon_reachable ops l nr nw s"
proof -
  have "(mon_step ops nr)\<^sup>*\<^sup>* r s" if "mon_sched ops nr is r = Some s" for r
    using that
    by (induction "is" arbitrary: r)
      (auto simp: bind_eq_Some_conv simp del: mon_next.simps
        intro: converse_rtranclp_into_rtranclp mon_next_step)
  then show "mon_sched ops nr is (mon_init l nr nw) = Some s \<Longrightarrow> ?thesis" by (simp add: mon_reachable_def)
qed

lemma write_pref_sample_run:
  "mon_reachable write_pref_ops write_pref_rwlock_init 1 1
     \<lparr>mon_lock = \<lparr>active_readers = 1, waiting_readers = 0, active_writers = 0, waiting_writers = 1\<rparr>,
      mon_pcs = [RHolds, WAsleep], mon_data = 0, mon_log = []\<rparr>"
  by (rule mon_sched_reachable [of _ _ "[0, 1]"]) code_simp

lemma aggressive_sample_run:
  "mon_reachable aggressive_ops aggressive_init 1 1
     \<lparr>mon_lock = \<lparr>active_readers = 0, waiting_readers = 1, active_writers = 1, waiting_writers = 0,
        writer_waiting = False\<rparr>,
      mon_pcs = [RAsleep, WStored], mon_data = 1, mon_log = []\<rparr>"
  by (rule mon_sched_reachable [of _ _ "[1, 0, 1, 1]"]) code_simp

subsection \<open>Properties\<close>

text \<open>C4. The write-preferring lock of \<^verbatim>\<open>writeStarvation.c\<close> is a read-write lock: for any number of reader
  and writer threads, in every state they can reach, also with spurious wake-ups, a thread that writes is
  alone in the critical section; the printed log is the log of a counter (every reader prints the number of
  the increments before it, every writer the next number, so no increment of \<open>shared_data++\<close> is lost); and
  when a thread sleeps on a condition variable there is one that holds the lock or has been woken to take
  it, so no wake-up is lost.\<close>

theorem write_pref_lock_correct:
  assumes "mon_reachable write_pref_ops write_pref_rwlock_init n_readers n_writers s"
  shows "(\<forall>i j. i < length (mon_pcs s) \<and> j < length (mon_pcs s) \<and> writes (mon_pcs s ! i) \<and>
           (reads (mon_pcs s ! j) \<or> writes (mon_pcs s ! j)) \<longrightarrow> i = j) \<and>
         replay 0 (mon_log s) = Some (mon_data s - tally (\<lambda>p. p = WStored) (mon_pcs s)) \<and>
         (RAsleep \<in> set (mon_pcs s) \<or> WAsleep \<in> set (mon_pcs s) \<longrightarrow>
           (\<exists>j<length (mon_pcs s). reads (mon_pcs s ! j) \<or> writes (mon_pcs s ! j) \<or> mon_pcs s ! j = WWoken))"
  using wp.exclusion [OF assms] wp.log_replays [OF assms] wp.awake_thread [OF assms]
  by (auto simp: in_set_conv_nth)

theorem write_pref_lock_correct_witness:
  "(\<exists>j<2. reads ([RHolds, WAsleep] ! j) \<or> writes ([RHolds, WAsleep] ! j) \<or> [RHolds, WAsleep] ! j = WWoken) \<and>
   replay 0 [] = Some 0"
  using write_pref_lock_correct [OF write_pref_sample_run] by (simp add: tally_def numeral_2_eq_2)

text \<open>C31. The lock of \<^verbatim>\<open>aggressiveWriter.c\<close>, whose readers look at a flag instead of the number of waiting
  writers, is a read-write lock in the same sense: exclusion, no lost increment and no lost wake-up for all
  interleavings of any number of threads.\<close>

theorem aggressive_lock_correct:
  assumes "mon_reachable aggressive_ops aggressive_init n_readers n_writers s"
  shows "(\<forall>i j. i < length (mon_pcs s) \<and> j < length (mon_pcs s) \<and> writes (mon_pcs s ! i) \<and>
           (reads (mon_pcs s ! j) \<or> writes (mon_pcs s ! j)) \<longrightarrow> i = j) \<and>
         replay 0 (mon_log s) = Some (mon_data s - tally (\<lambda>p. p = WStored) (mon_pcs s)) \<and>
         (RAsleep \<in> set (mon_pcs s) \<or> WAsleep \<in> set (mon_pcs s) \<longrightarrow>
           (\<exists>j<length (mon_pcs s). reads (mon_pcs s ! j) \<or> writes (mon_pcs s ! j) \<or> mon_pcs s ! j = WWoken))"
  using ag.exclusion [OF assms] ag.log_replays [OF assms] ag.awake_thread [OF assms]
  by (auto simp: in_set_conv_nth)

theorem aggressive_lock_correct_witness:
  "(\<exists>j<2. reads ([RAsleep, WStored] ! j) \<or> writes ([RAsleep, WStored] ! j) \<or> [RAsleep, WStored] ! j = WWoken) \<and>
   replay 0 [] = Some 0"
  using aggressive_lock_correct [OF aggressive_sample_run] by (simp add: tally_def numeral_2_eq_2)

text \<open>While a writer waits, no step lets a further reader into the write-preferring lock: readers that
  come later cannot starve it.\<close>

theorem write_pref_readers_wait:
  assumes "mon_reachable write_pref_ops write_pref_rwlock_init n_readers n_writers s"
    and "mon_step write_pref_ops n_readers s t"
    and "i < length (mon_pcs s)" "waits_write (mon_pcs s ! i)"
  shows "tally reads (mon_pcs t) \<le> tally reads (mon_pcs s)"
proof -
  have "0 < waiting_writers (mon_lock s)"
    using wp.reachable_inv [OF assms(1)] tally_pos [of i "mon_pcs s" waits_write] assms(3,4)
    by (auto simp: wp.lock_counts_def)
  with assms(2) show ?thesis
  proof (induction rule: mon_step.induct)
    case (reader_unlock i s l w ps)
    then show ?case using wakes_num [OF reader_unlock(4), of reads] by (auto simp: tally_update)
  next
    case (writer_unlock i s l w ps)
    then show ?case using wakes_num [OF writer_unlock(4), of reads] by (auto simp: tally_update)
  qed (auto simp: tally_update write_pref_defs split: if_splits)
qed

text \<open>The flag of the other lock does not promise this: a writer that takes the lock clears it for all, and a
  reader then enters although another writer is still waiting.\<close>

theorem aggressive_reader_overtakes:
  "\<exists>s t. mon_reachable aggressive_ops aggressive_init 1 2 s \<and> mon_step aggressive_ops 1 s t \<and>
     waits_write (mon_pcs s ! 2) \<and> tally reads (mon_pcs s) < tally reads (mon_pcs t)"
proof -
  let ?s = "the (mon_sched aggressive_ops 1 [1, 2, 1, 1, 1, 1, 1, 1, 1, 1, 1] (mon_init aggressive_init 1 2))"
  let ?t = "the (mon_next aggressive_ops 1 0 ?s)"
  have "mon_reachable aggressive_ops aggressive_init 1 2 ?s"
    by (rule mon_sched_reachable [of _ _ "[1, 2, 1, 1, 1, 1, 1, 1, 1, 1, 1]"]) code_simp
  moreover have "mon_step aggressive_ops 1 ?s ?t"
    by (rule mon_next_step [of _ _ 0]) code_simp
  moreover have "waits_write (mon_pcs ?s ! 2) \<and> tally reads (mon_pcs ?s) < tally reads (mon_pcs ?t)"
    by code_simp
  ultimately show ?thesis by blast
qed

end
