(* ===== verification/Upgradeable_Lock.thy ===== *)
theory Upgradeable_Lock
  imports Rwlock_Monitor
begin

text \<open>
  The upgradeable read-write lock of \<^verbatim>\<open>concurrency/threads/upgradeableReadLocks.c\<close>: a thread that reads
  may turn its read lock into a write lock, waiting until it is the only reader. The control points, the
  wake-up calls, the state and the log are those of \<open>Rwlock_Monitor\<close>; here a thread at \<open>WAsleep\<close>
  or \<open>WWoken\<close> is one that waits in \<open>upgrade\<close>, and it still holds its read lock. A number drawn by
  \<open>rand\<close> is an argument of the step that uses it. The argument \<open>sp\<close> of the step relation says whether
  \<open>pthread_cond_wait\<close> may return spuriously: POSIX allows it, but does not promise it.

  Shown: exclusion and a log of a counter for all interleavings; that an upgrade which has to wait is
  never woken, so that from then on no thread writes any more; and that two upgrades that wait for each other
  do so for ever even when they wake up spuriously.
\<close>

subsection \<open>The lock\<close>

record upgradeable_rwlock_t =
  up_readers :: int
  up_writers :: int
  up_upgraders :: int
  is_writing :: bool

definition upgradeable_rwlock_init :: upgradeable_rwlock_t where
  "upgradeable_rwlock_init = \<lparr>up_readers = 0, up_writers = 0, up_upgraders = 0, is_writing = False\<rparr>"

definition upgradeable_rwlock_read_lock :: "upgradeable_rwlock_t \<Rightarrow> upgradeable_rwlock_t \<times> bool" where
  "upgradeable_rwlock_read_lock l =
    (if up_writers l > 0 \<or> is_writing l then (l, False)
     else (l\<lparr>up_readers := up_readers l + 1\<rparr>, True))"

definition upgradeable_rwlock_read_unlock :: "upgradeable_rwlock_t \<Rightarrow> upgradeable_rwlock_t \<times> wake" where
  "upgradeable_rwlock_read_unlock l =
    (let l = l\<lparr>up_readers := up_readers l - 1\<rparr>
     in (l, if up_readers l = 0 \<and> up_writers l > 0 then SignalWriter else NoWake))"

definition upgrade_test :: "upgradeable_rwlock_t \<Rightarrow> upgradeable_rwlock_t \<times> bool" where
  "upgrade_test l =
    (if up_readers l > 1 \<or> up_writers l > 0 \<or> is_writing l then (l, False)
     else (l\<lparr>up_readers := up_readers l - 1, is_writing := True, up_upgraders := up_upgraders l - 1\<rparr>, True))"

definition upgradeable_rwlock_upgrade :: "upgradeable_rwlock_t \<Rightarrow> upgradeable_rwlock_t \<times> bool" where
  "upgradeable_rwlock_upgrade l = upgrade_test (l\<lparr>up_upgraders := up_upgraders l + 1\<rparr>)"

definition upgradeable_rwlock_write_unlock :: "upgradeable_rwlock_t \<Rightarrow> upgradeable_rwlock_t \<times> wake" where
  "upgradeable_rwlock_write_unlock l =
    (let l = l\<lparr>is_writing := False\<rparr>
     in (l, if up_upgraders l > 0 then SignalWriter
            else if up_writers l > 0 then SignalWriter else BroadcastReaders))"

lemmas upgradeable_defs = upgradeable_rwlock_init_def upgradeable_rwlock_read_lock_def
  upgradeable_rwlock_read_unlock_def upgrade_test_def upgradeable_rwlock_upgrade_def
  upgradeable_rwlock_write_unlock_def

subsection \<open>The threads\<close>

type_synonym up_state = "upgradeable_rwlock_t mon_state"

inductive up_step :: "bool \<Rightarrow> up_state \<Rightarrow> up_state \<Rightarrow> bool" for sp :: bool where
  up_lock: "\<lbrakk> i < length (mon_pcs s); mon_pcs s ! i = Idle \<or> mon_pcs s ! i = RWoken;
      upgradeable_rwlock_read_lock (mon_lock s) = (l, ok) \<rbrakk> \<Longrightarrow>
    up_step sp s (s\<lparr>mon_lock := l, mon_pcs := (mon_pcs s)[i := (if ok then RHolds else RAsleep)]\<rparr>)"
| up_read: "\<lbrakk> i < length (mon_pcs s); mon_pcs s ! i = RHolds \<rbrakk> \<Longrightarrow>
    up_step sp s (s\<lparr>mon_log := mon_log s @ [ReadEv i (mon_data s)], mon_pcs := (mon_pcs s)[i := RPrinted]\<rparr>)"
| up_unlock: "\<lbrakk> i < length (mon_pcs s); mon_pcs s ! i = RPrinted; (r::nat) mod 10 \<noteq> 0;
      upgradeable_rwlock_read_unlock (mon_lock s) = (l, w); wakes w ((mon_pcs s)[i := Idle]) ps \<rbrakk> \<Longrightarrow>
    up_step sp s (s\<lparr>mon_lock := l, mon_pcs := ps\<rparr>)"
| up_upgrade: "\<lbrakk> i < length (mon_pcs s); mon_pcs s ! i = RPrinted; (r::nat) mod 10 = 0;
      upgradeable_rwlock_upgrade (mon_lock s) = (l, ok) \<rbrakk> \<Longrightarrow>
    up_step sp s (s\<lparr>mon_lock := l, mon_pcs := (mon_pcs s)[i := (if ok then WHolds else WAsleep)]\<rparr>)"
| up_reupgrade: "\<lbrakk> i < length (mon_pcs s); mon_pcs s ! i = WWoken;
      upgrade_test (mon_lock s) = (l, ok) \<rbrakk> \<Longrightarrow>
    up_step sp s (s\<lparr>mon_lock := l, mon_pcs := (mon_pcs s)[i := (if ok then WHolds else WAsleep)]\<rparr>)"
| up_load: "\<lbrakk> i < length (mon_pcs s); mon_pcs s ! i = WHolds \<rbrakk> \<Longrightarrow>
    up_step sp s (s\<lparr>mon_pcs := (mon_pcs s)[i := WLoaded (mon_data s)]\<rparr>)"
| up_store: "\<lbrakk> i < length (mon_pcs s); mon_pcs s ! i = WLoaded v \<rbrakk> \<Longrightarrow>
    up_step sp s (s\<lparr>mon_data := v + 1, mon_pcs := (mon_pcs s)[i := WStored]\<rparr>)"
| up_print: "\<lbrakk> i < length (mon_pcs s); mon_pcs s ! i = WStored \<rbrakk> \<Longrightarrow>
    up_step sp s (s\<lparr>mon_log := mon_log s @ [WroteEv i (mon_data s)], mon_pcs := (mon_pcs s)[i := WPrinted]\<rparr>)"
| up_write_unlock: "\<lbrakk> i < length (mon_pcs s); mon_pcs s ! i = WPrinted;
      upgradeable_rwlock_write_unlock (mon_lock s) = (l, w); wakes w ((mon_pcs s)[i := Idle]) ps \<rbrakk> \<Longrightarrow>
    up_step sp s (s\<lparr>mon_lock := l, mon_pcs := ps\<rparr>)"
| up_spurious: "\<lbrakk> sp; i < length (mon_pcs s);
      (mon_pcs s ! i, p) \<in> {(RAsleep, RWoken), (WAsleep, WWoken)} \<rbrakk> \<Longrightarrow>
    up_step sp s (s\<lparr>mon_pcs := (mon_pcs s)[i := p]\<rparr>)"

definition up_init :: "nat \<Rightarrow> up_state" where
  "up_init n = mon_init upgradeable_rwlock_init n 0"

definition up_reachable :: "bool \<Rightarrow> nat \<Rightarrow> up_state \<Rightarrow> bool" where
  "up_reachable sp n s = (up_step sp)\<^sup>*\<^sup>* (up_init n) s"

subsection \<open>The invariant\<close>

definition up_counted :: "up_state \<Rightarrow> bool" where
  "up_counted s \<longleftrightarrow>
    up_readers (mon_lock s) = tally reads (mon_pcs s) + tally waits_write (mon_pcs s) \<and>
    up_upgraders (mon_lock s) = tally waits_write (mon_pcs s) \<and> up_writers (mon_lock s) = 0 \<and>
    tally writes (mon_pcs s) = of_bool (is_writing (mon_lock s)) \<and>
    (is_writing (mon_lock s) \<longrightarrow> up_readers (mon_lock s) = 0)"

lemma up_counted_step:
  assumes "up_step sp s t" "up_counted s"
  shows "up_counted t"
  using assms
proof (induction rule: up_step.induct)
  case (up_unlock i s r l w ps)
  then show ?case using tally_pos [of i "mon_pcs s" reads] tally_nonneg [of waits_write "mon_pcs s"]
      wakes_num [OF up_unlock(5), of reads] wakes_num [OF up_unlock(5), of writes]
      wakes_num [OF up_unlock(5), of waits_write]
    by (auto simp: up_counted_def tally_update upgradeable_defs Let_def)
next
  case (up_upgrade i s r l b)
  then show ?case using tally_pos [of i "mon_pcs s" reads] tally_nonneg [of waits_write "mon_pcs s"]
    by (auto simp: up_counted_def tally_update upgradeable_defs Let_def split: if_splits)
next
  case (up_reupgrade i s l b)
  then show ?case using tally_pos [of i "mon_pcs s" waits_write] tally_nonneg [of reads "mon_pcs s"]
    by (auto simp: up_counted_def tally_update upgradeable_defs Let_def split: if_splits)
next
  case (up_write_unlock i s l w ps)
  then have "is_writing (mon_lock s)" using tally_pos [of i "mon_pcs s" writes]
    by (cases "is_writing (mon_lock s)") (auto simp: up_counted_def)
  with up_write_unlock show ?case
    using wakes_num [OF up_write_unlock(4), of reads] wakes_num [OF up_write_unlock(4), of writes]
      wakes_num [OF up_write_unlock(4), of waits_write]
    by (auto simp: up_counted_def tally_update upgradeable_defs Let_def)
qed (auto simp: up_counted_def tally_update upgradeable_defs split: if_splits)

lemma up_data_safe_step:
  assumes "up_step sp s t" "up_counted s" "data_safe s"
  shows "data_safe t"
  using assms
proof (induction rule: up_step.induct)
  case (up_read i s)
  then have "tally writes (mon_pcs s) = 0"
    using tally_pos [of i "mon_pcs s" reads] tally_nonneg [of waits_write "mon_pcs s"]
    by (auto simp: up_counted_def)
  with up_read show ?case by (intro data_safe_read)
qed (auto simp: up_counted_def intro: data_safe_intros)

lemma up_init_counted: "up_counted (up_init n)" "data_safe (up_init n)"
proof -
  have "tally P (replicate n Idle) = 0" if "\<not> P Idle" for P using that by (simp add: tally_def)
  then show "up_counted (up_init n)" "data_safe (up_init n)"
    by (auto simp: up_init_def mon_init_def up_counted_def data_safe_def upgradeable_defs)
qed

lemma up_inv: "up_reachable sp n s \<Longrightarrow> up_counted s \<and> data_safe s"
  unfolding up_reachable_def
  by (induction rule: rtranclp_induct) (blast intro: up_init_counted up_counted_step up_data_safe_step)+

text \<open>Without spurious wake-ups no upgrade is ever woken: the end of a read signals only when
  \<open>up_writers\<close> is positive, which it never is, and when a write ends there is no other upgrade.\<close>

lemma up_no_woken_step:
  assumes "up_step False s t" "up_counted s" "tally (\<lambda>p. p = WWoken) (mon_pcs s) = 0"
  shows "tally (\<lambda>p. p = WWoken) (mon_pcs t) = 0"
  using assms
proof (induction rule: up_step.induct)
  case (up_unlock i s r l w ps)
  then have "w = NoWake" by (auto simp: up_counted_def upgradeable_defs Let_def)
  with up_unlock show ?case by (auto simp: tally_update)
next
  case (up_write_unlock i s l w ps)
  have "is_writing (mon_lock s)" using tally_pos [of i "mon_pcs s" writes] up_write_unlock
    by (cases "is_writing (mon_lock s)") (auto simp: up_counted_def)
  then have "tally waits_write (mon_pcs s) = 0"
    using up_write_unlock tally_nonneg [of waits_write "mon_pcs s"] tally_nonneg [of reads "mon_pcs s"]
    by (auto simp: up_counted_def)
  with up_write_unlock have "w = BroadcastReaders" by (auto simp: up_counted_def upgradeable_defs Let_def)
  with up_write_unlock show ?case using wakes_broadcast(3) [of "(mon_pcs s)[i := Idle]" ps]
    by (simp add: tally_update)
next
  case (up_reupgrade i s l b)
  then show ?case using tally_pos [of i "mon_pcs s" "\<lambda>p. p = WWoken"] by simp
qed (auto simp: tally_update split: if_splits)

lemma up_no_woken: "up_reachable False n s \<Longrightarrow> tally (\<lambda>p. p = WWoken) (mon_pcs s) = 0"
  unfolding up_reachable_def
proof (induction rule: rtranclp_induct)
  case (step s t)
  then show ?case using up_no_woken_step up_inv by (auto simp: up_reachable_def)
qed (simp add: up_init_def mon_init_def tally_def)

text \<open>While the lock is not written and every upgrade has to wait, a step changes neither the data nor
  the number of upgrades.\<close>

lemma up_blocked_step:
  assumes "up_step sp s t" "up_counted s" "0 < tally waits_write (mon_pcs s)"
    and "tally (\<lambda>p. p = WWoken) (mon_pcs s) = 0 \<or> 1 < tally waits_write (mon_pcs s)"
  shows "mon_data t = mon_data s \<and> tally waits_write (mon_pcs s) \<le> tally waits_write (mon_pcs t)"
  using assms
proof (induction rule: up_step.induct)
  case (up_unlock i s r l w ps)
  then show ?case using wakes_num [OF up_unlock(5), of waits_write] by (auto simp: tally_update)
next
  case (up_reupgrade i s l b)
  then show ?case
    using tally_pos [of i "mon_pcs s" "\<lambda>p. p = WWoken"] tally_nonneg [of reads "mon_pcs s"]
    by (auto simp: up_counted_def upgrade_test_def tally_update split: if_splits)
next
  case (up_store i s v)
  then show ?case
    using tally_pos [of i "mon_pcs s" writes] tally_nonneg [of reads "mon_pcs s"]
    by (cases "is_writing (mon_lock s)") (auto simp: up_counted_def tally_update)
next
  case (up_write_unlock i s l w ps)
  then show ?case using wakes_num [OF up_write_unlock(4), of waits_write] by (auto simp: tally_update)
next
  case (up_upgrade i s r l b)
  then show ?case using tally_pos [of i "mon_pcs s" reads]
    by (auto simp: up_counted_def upgradeable_defs tally_update split: if_splits)
qed (auto simp: tally_update)

lemma up_asleep_step:
  assumes "up_step False s t" "up_counted s" "k < length (mon_pcs s)" "mon_pcs s ! k = WAsleep"
  shows "length (mon_pcs t) = length (mon_pcs s) \<and> mon_pcs t ! k = WAsleep"
  using assms
proof (induction rule: up_step.induct)
  case (up_unlock i s r l w ps)
  then have "w = NoWake" by (auto simp: up_counted_def upgradeable_defs Let_def)
  with up_unlock show ?case by (auto simp: nth_list_update)
next
  case (up_write_unlock i s l w ps)
  then have False
    using tally_pos [of i "mon_pcs s" writes] tally_pos [of k "mon_pcs s" waits_write] tally_nonneg [of reads "mon_pcs s"]
    by (cases "is_writing (mon_lock s)") (auto simp: up_counted_def)
  then show ?case ..
qed (auto simp: nth_list_update)

subsection \<open>Concrete runs\<close>

lemma up_two_readers_run:
  "up_reachable sp 2 \<lparr>mon_lock = \<lparr>up_readers = 2, up_writers = 0, up_upgraders = 1, is_writing = False\<rparr>,
     mon_pcs = [WAsleep, RPrinted], mon_data = 0, mon_log = [ReadEv 0 0, ReadEv 1 0]\<rparr>"
proof -
  let ?s = "\<lambda>r u ps log. \<lparr>mon_lock = \<lparr>up_readers = r, up_writers = 0, up_upgraders = u, is_writing = False\<rparr>,
     mon_pcs = ps, mon_data = 0, mon_log = log\<rparr> :: up_state"
  have "up_init 2 = ?s 0 0 [Idle, Idle] []"
    by (simp add: up_init_def mon_init_def upgradeable_rwlock_init_def numeral_2_eq_2)
  moreover have "up_step sp (?s 0 0 [Idle, Idle] []) (?s 1 0 [RHolds, Idle] [])"
    using up_step.up_lock [of 0 "?s 0 0 [Idle, Idle] []"] by (simp add: upgradeable_defs)
  moreover have "up_step sp (?s 1 0 [RHolds, Idle] []) (?s 2 0 [RHolds, RHolds] [])"
    using up_step.up_lock [of 1 "?s 1 0 [RHolds, Idle] []"] by (simp add: upgradeable_defs)
  moreover have "up_step sp (?s 2 0 [RHolds, RHolds] []) (?s 2 0 [RPrinted, RHolds] [ReadEv 0 0])"
    using up_step.up_read [of 0 "?s 2 0 [RHolds, RHolds] []"] by simp
  moreover have "up_step sp (?s 2 0 [RPrinted, RHolds] [ReadEv 0 0])
      (?s 2 0 [RPrinted, RPrinted] [ReadEv 0 0, ReadEv 1 0])"
    using up_step.up_read [of 1 "?s 2 0 [RPrinted, RHolds] [ReadEv 0 0]"] by simp
  moreover have "up_step sp (?s 2 0 [RPrinted, RPrinted] [ReadEv 0 0, ReadEv 1 0])
      (?s 2 1 [WAsleep, RPrinted] [ReadEv 0 0, ReadEv 1 0])"
    using up_step.up_upgrade [of 0 "?s 2 0 [RPrinted, RPrinted] [ReadEv 0 0, ReadEv 1 0]" 0 _ False]
    by (simp add: upgradeable_defs)
  ultimately show ?thesis
    unfolding up_reachable_def by (metis (no_types, lifting) rtranclp.simps)
qed

lemma up_two_upgrades_run:
  "up_reachable sp 2 \<lparr>mon_lock = \<lparr>up_readers = 2, up_writers = 0, up_upgraders = 2, is_writing = False\<rparr>,
     mon_pcs = [WAsleep, WAsleep], mon_data = 0, mon_log = [ReadEv 0 0, ReadEv 1 0]\<rparr>"
  using up_two_readers_run [of sp] up_step.up_upgrade [of 1 "\<lparr>mon_lock = \<lparr>up_readers = 2, up_writers = 0,
      up_upgraders = 1, is_writing = False\<rparr>, mon_pcs = [WAsleep, RPrinted], mon_data = 0,
      mon_log = [ReadEv 0 0, ReadEv 1 0]\<rparr>" 0 _ False sp]
  unfolding up_reachable_def by (auto simp: upgradeable_defs intro: rtranclp.rtrancl_into_rtrancl)

subsection \<open>Properties\<close>

text \<open>C32. The upgradeable lock excludes: in every reachable state a thread that writes is the only one that
  holds the lock, where a waiting upgrade counts as a reader, and the printed log is the log of a counter,
  so no increment is lost. This holds with and without spurious wake-ups.\<close>

theorem upgradeable_lock_safe:
  assumes "up_reachable sp n s"
  shows "(\<forall>i j. i < length (mon_pcs s) \<and> j < length (mon_pcs s) \<and> writes (mon_pcs s ! i) \<and>
           (reads (mon_pcs s ! j) \<or> waits_write (mon_pcs s ! j) \<or> writes (mon_pcs s ! j)) \<longrightarrow> i = j) \<and>
         replay 0 (mon_log s) = Some (mon_data s - tally (\<lambda>p. p = WStored) (mon_pcs s))"
proof -
  have c: "up_counted s" "data_safe s" using up_inv [OF assms] by auto
  have "i = j" if i: "i < length (mon_pcs s)" "writes (mon_pcs s ! i)" and j: "j < length (mon_pcs s)"
    "reads (mon_pcs s ! j) \<or> waits_write (mon_pcs s ! j) \<or> writes (mon_pcs s ! j)" for i j
  proof -
    have w: "is_writing (mon_lock s)" using tally_pos [of i "mon_pcs s" writes] i c(1)
      by (cases "is_writing (mon_lock s)") (auto simp: up_counted_def)
    then have "tally reads (mon_pcs s) = 0" "tally waits_write (mon_pcs s) = 0"
      using c(1) tally_nonneg [of reads "mon_pcs s"] tally_nonneg [of waits_write "mon_pcs s"]
      by (auto simp: up_counted_def)
    with j have "writes (mon_pcs s ! j)" by (auto simp: tally_zero)
    with i j w c(1) show ?thesis using tally_le_one [of writes "mon_pcs s" i j] by (auto simp: up_counted_def)
  qed
  with c(2) show ?thesis by (auto simp: data_safe_def)
qed

theorem upgradeable_lock_safe_witness:
  "\<exists>s. up_reachable True 2 s \<and> mon_pcs s = [WAsleep, RPrinted] \<and> mon_log s = [ReadEv 0 0, ReadEv 1 0] \<and>
    replay 0 (mon_log s) = Some 0"
proof -
  let ?s = "\<lparr>mon_lock = \<lparr>up_readers = 2, up_writers = 0, up_upgraders = 1, is_writing = False\<rparr>,
     mon_pcs = [WAsleep, RPrinted], mon_data = 0, mon_log = [ReadEv 0 0, ReadEv 1 0]\<rparr> :: up_state"
  have "replay 0 (mon_log ?s) = Some 0" using upgradeable_lock_safe [OF up_two_readers_run [of True]] by (simp add: tally_def)
  then show ?thesis using up_two_readers_run [of True] by (intro exI [of _ ?s]) simp
qed

text \<open>C8. An upgrade that has to wait is never woken. As soon as a thread sleeps in \<open>upgrade\<close>, then
  however the threads go on (with wake-ups only by signals and broadcasts) it sleeps for ever and the
  shared data is never written again: the readers that leave signal only when \<open>writers\<close> is positive, and
  nothing ever increments \<open>writers\<close>.\<close>

theorem waiting_upgrade_sleeps_forever:
  assumes "up_reachable False n s" "k < length (mon_pcs s)" "mon_pcs s ! k = WAsleep"
    and "(up_step False)\<^sup>*\<^sup>* s t"
  shows "mon_pcs t ! k = WAsleep \<and> mon_data t = mon_data s"
proof -
  have "up_reachable False n t \<and> k < length (mon_pcs t) \<and> mon_pcs t ! k = WAsleep \<and> mon_data t = mon_data s"
    using assms(4)
  proof (induction rule: rtranclp_induct)
    case (step t u)
    then have c: "up_counted t" "tally (\<lambda>p. p = WWoken) (mon_pcs t) = 0" using up_inv up_no_woken by blast+
    have "up_reachable False n u" using step by (auto simp: up_reachable_def)
    moreover have "0 < tally waits_write (mon_pcs t)" using tally_pos [of k "mon_pcs t" waits_write] step by auto
    ultimately show ?case
      using up_asleep_step [OF step(2) c(1), of k] up_blocked_step [OF step(2) c(1)] c(2) step by auto
  qed (use assms in auto)
  then show ?thesis by simp
qed

theorem waiting_upgrade_sleeps_forever_witness:
  "let s = \<lparr>mon_lock = \<lparr>up_readers = 2, up_writers = 0, up_upgraders = 1, is_writing = False\<rparr>,
          mon_pcs = [WAsleep, RPrinted], mon_data = 0, mon_log = [ReadEv 0 0, ReadEv 1 0]\<rparr>;
       t = \<lparr>mon_lock = \<lparr>up_readers = 1, up_writers = 0, up_upgraders = 1, is_writing = False\<rparr>,
          mon_pcs = [WAsleep, Idle], mon_data = 0, mon_log = [ReadEv 0 0, ReadEv 1 0]\<rparr>
   in up_step False s t \<and> mon_pcs t ! 0 = WAsleep \<and> mon_data t = mon_data s"
proof -
  let ?s = "\<lambda>r ps. \<lparr>mon_lock = \<lparr>up_readers = r, up_writers = 0, up_upgraders = 1, is_writing = False\<rparr>,
    mon_pcs = ps, mon_data = 0, mon_log = [ReadEv 0 0, ReadEv 1 0]\<rparr> :: up_state"
  have "up_step False (?s 2 [WAsleep, RPrinted]) (?s 1 [WAsleep, Idle])"
    using up_step.up_unlock [of 1 "?s 2 [WAsleep, RPrinted]" 1 _ NoWake "[WAsleep, Idle]" False]
    by (simp add: upgradeable_defs Let_def)
  with waiting_upgrade_sleeps_forever [OF up_two_readers_run, of 0 "?s 1 [WAsleep, Idle]"]
  show ?thesis by (simp add: Let_def)
qed

text \<open>Two upgrades that wait for each other block all writing for ever, also with spurious wake-ups.\<close>

theorem two_upgrades_deadlock:
  assumes "up_reachable sp n s" "1 < tally waits_write (mon_pcs s)" "(up_step sp)\<^sup>*\<^sup>* s t"
  shows "1 < tally waits_write (mon_pcs t) \<and> mon_data t = mon_data s"
proof -
  have "up_reachable sp n t \<and> 1 < tally waits_write (mon_pcs t) \<and> mon_data t = mon_data s"
    using assms(3)
  proof (induction rule: rtranclp_induct)
    case (step t u)
    then have "up_counted t" "up_reachable sp n u" using up_inv by (auto simp: up_reachable_def)
    then show ?case using up_blocked_step [OF step(2)] step by fastforce
  qed (use assms in auto)
  then show ?thesis by simp
qed

theorem two_upgrades_deadlock_witness:
  "(up_step True)\<^sup>*\<^sup>* \<lparr>mon_lock = \<lparr>up_readers = 2, up_writers = 0, up_upgraders = 2, is_writing = False\<rparr>,
     mon_pcs = [WAsleep, WAsleep], mon_data = 0, mon_log = [ReadEv 0 0, ReadEv 1 0]\<rparr> t \<Longrightarrow> mon_data t = 0"
  using two_upgrades_deadlock [OF up_two_upgrades_run, of True t] by (simp add: tally_def)

end
