(* ===== verification/Futex_Mutex.thy ===== *)
theory Futex_Mutex
  imports Prelude
begin

text \<open>
  The mutex made from a compare-and-swap and a futex, and the threads that count with it
  (\<^verbatim>\<open>concurrency/synchronization/preemmtibleCriticalSections.c\<close>).

  \<open>fx_step\<close> is one atomic step of one thread: a compare-and-swap, a system call, a single load or store.
  A thread is the number of its finished rounds and a control point. \<open>FUTEX_WAIT\<close> with the value 1 puts
  the thread to sleep if the lock word is 1 and returns at once otherwise; \<open>FUTEX_WAKE\<close> with 1 wakes one
  sleeping thread if there is one. The argument \<open>sp\<close> allows \<open>FUTEX_WAIT\<close> to return without a wake-up,
  as the system call may when a signal arrives. The thread number stands for the result of
  \<open>gettid\<close>. Work, yielding and sleeping change no state; of the output the values of the counter
  are kept.

  Shown: exclusion, the values printed are 1, 2, 3 and so on, no wake-up is lost; and every run ends
  after a bounded number of steps with three increments from every thread.
\<close>

subsection \<open>The program\<close>

datatype fx_pc =
    FHead | FTry | FWait | FAsleep
  | FSwapped | FHolds | FLoaded int | FStored | FPrinted | FDisowned | FReleased
  | FDone

record fx_state =
  fx_lock :: int
  fx_owner :: int
  shared_counter :: int
  fx_threads :: "(nat \<times> fx_pc) list"
  fx_log :: "int list"

definition fx_at :: "fx_state \<Rightarrow> nat \<Rightarrow> nat \<Rightarrow> fx_pc \<Rightarrow> bool" where
  "fx_at s i k p \<longleftrightarrow> i < length (fx_threads s) \<and> fx_threads s ! i = (k, p)"

definition fx_goto :: "nat \<Rightarrow> nat \<times> fx_pc \<Rightarrow> fx_state \<Rightarrow> fx_state" where
  "fx_goto i th s = s\<lparr>fx_threads := (fx_threads s)[i := th]\<rparr>"

definition rt_mutex_init :: "nat \<Rightarrow> fx_state" where
  "rt_mutex_init n =
    \<lparr>fx_lock = 0, fx_owner = - 1, shared_counter = 0, fx_threads = replicate n (0, FHead), fx_log = []\<rparr>"

text \<open>\<open>rt_mutex_lock\<close>: the compare-and-swap, the wait, and the store of the owner.\<close>

inductive rt_mutex_lock :: "fx_state \<Rightarrow> fx_state \<Rightarrow> bool" where
  swap: "fx_at s i k FTry \<Longrightarrow> fx_lock s = 0 \<Longrightarrow>
    rt_mutex_lock s (fx_goto i (k, FSwapped) (s\<lparr>fx_lock := 1\<rparr>))"
| swap_fails: "fx_at s i k FTry \<Longrightarrow> fx_lock s \<noteq> 0 \<Longrightarrow> rt_mutex_lock s (fx_goto i (k, FWait) s)"
| own: "fx_at s i k FSwapped \<Longrightarrow> rt_mutex_lock s (fx_goto i (k, FHolds) (s\<lparr>fx_owner := int i\<rparr>))"
| wait: "fx_at s i k FWait \<Longrightarrow> fx_lock s = 1 \<Longrightarrow> rt_mutex_lock s (fx_goto i (k, FAsleep) s)"
| wait_fails: "fx_at s i k FWait \<Longrightarrow> fx_lock s \<noteq> 1 \<Longrightarrow> rt_mutex_lock s (fx_goto i (k, FTry) s)"

text \<open>\<open>rt_mutex_unlock\<close>: two stores and the wake-up; the thread then starts its next round.\<close>

inductive rt_mutex_unlock :: "fx_state \<Rightarrow> fx_state \<Rightarrow> bool" where
  disown: "fx_at s i k FPrinted \<Longrightarrow> rt_mutex_unlock s (fx_goto i (k, FDisowned) (s\<lparr>fx_owner := - 1\<rparr>))"
| release: "fx_at s i k FDisowned \<Longrightarrow> rt_mutex_unlock s (fx_goto i (k, FReleased) (s\<lparr>fx_lock := 0\<rparr>))"
| wake_one: "fx_at s i k FReleased \<Longrightarrow> fx_at s j m FAsleep \<Longrightarrow>
    rt_mutex_unlock s (fx_goto i (k + 1, FHead) (fx_goto j (m, FTry) s))"
| wake_none: "fx_at s i k FReleased \<Longrightarrow> list_all (\<lambda>th. snd th \<noteq> FAsleep) (fx_threads s) \<Longrightarrow>
    rt_mutex_unlock s (fx_goto i (k + 1, FHead) s)"

inductive critical_section :: "fx_state \<Rightarrow> fx_state \<Rightarrow> bool" where
  lock: "rt_mutex_lock s t \<Longrightarrow> critical_section s t"
| load: "fx_at s i k FHolds \<Longrightarrow> critical_section s (fx_goto i (k, FLoaded (shared_counter s)) s)"
| store: "fx_at s i k (FLoaded v) \<Longrightarrow>
    critical_section s (fx_goto i (k, FStored) (s\<lparr>shared_counter := v + 1\<rparr>))"
| print: "fx_at s i k FStored \<Longrightarrow>
    critical_section s (fx_goto i (k, FPrinted) (s\<lparr>fx_log := fx_log s @ [shared_counter s]\<rparr>))"
| unlock: "rt_mutex_unlock s t \<Longrightarrow> critical_section s t"

inductive fx_step :: "bool \<Rightarrow> fx_state \<Rightarrow> fx_state \<Rightarrow> bool" for sp :: bool where
  enter: "fx_at s i k FHead \<Longrightarrow> k < 3 \<Longrightarrow> fx_step sp s (fx_goto i (k, FTry) s)"
| finish: "fx_at s i k FHead \<Longrightarrow> \<not> k < 3 \<Longrightarrow> fx_step sp s (fx_goto i (k, FDone) s)"
| in_section: "critical_section s t \<Longrightarrow> fx_step sp s t"
| interrupted: "sp \<Longrightarrow> fx_at s i k FAsleep \<Longrightarrow> fx_step sp s (fx_goto i (k, FTry) s)"

text \<open>\<open>main\<close> joins the threads and then prints the counter.\<close>

definition fx_main_output :: "fx_state \<Rightarrow> int option" where
  "fx_main_output s =
    (if list_all (\<lambda>th. snd th = FDone) (fx_threads s) then Some (shared_counter s) else None)"

lemmas fx_cases = rt_mutex_lock.cases rt_mutex_unlock.cases critical_section.cases fx_step.cases

subsection \<open>The invariant\<close>

fun in_lock :: "nat \<times> fx_pc \<Rightarrow> bool" where
  "in_lock (k, FLoaded v) = True"
| "in_lock (k, p) = (p \<in> {FSwapped, FHolds, FStored, FPrinted, FDisowned})"

fun owns :: "nat \<times> fx_pc \<Rightarrow> bool" where
  "owns (k, FLoaded v) = True"
| "owns (k, p) = (p \<in> {FHolds, FStored, FPrinted})"

fun counted_up :: "nat \<times> fx_pc \<Rightarrow> int" where
  "counted_up (k, p) = int k + of_bool (p \<in> {FStored, FPrinted, FDisowned, FReleased})"

fun round_ok :: "nat \<times> fx_pc \<Rightarrow> bool" where
  "round_ok (k, p) = (if p = FDone then k = 3 else if p = FHead then k \<le> 3 else k < 3)"

fun awake :: "nat \<times> fx_pc \<Rightarrow> bool" where
  "awake (k, p) = (p \<notin> {FHead, FAsleep, FDone})"

definition fx_excl :: "fx_state \<Rightarrow> bool" where
  "fx_excl s \<longleftrightarrow> fx_lock s = tally in_lock (fx_threads s) \<and> fx_lock s \<le> 1"

definition fx_rounds :: "fx_state \<Rightarrow> bool" where
  "fx_rounds s \<longleftrightarrow> list_all round_ok (fx_threads s)"

definition fx_owned :: "fx_state \<Rightarrow> bool" where
  "fx_owned s \<longleftrightarrow> (\<forall>i k p. fx_at s i k p \<longrightarrow> owns (k, p) \<longrightarrow> fx_owner s = int i)"

definition fx_data :: "fx_state \<Rightarrow> bool" where
  "fx_data s \<longleftrightarrow> (\<forall>i k v. fx_at s i k (FLoaded v) \<longrightarrow> v = shared_counter s) \<and>
    shared_counter s = (\<Sum>th\<leftarrow>fx_threads s. counted_up th) \<and>
    fx_log s = [1..shared_counter s - tally (\<lambda>th. snd th = FStored) (fx_threads s)]"

definition fx_wakeup :: "fx_state \<Rightarrow> bool" where
  "fx_wakeup s \<longleftrightarrow> tally (\<lambda>th. snd th = FAsleep) (fx_threads s) = 0 \<or> 0 < tally awake (fx_threads s)"

lemma fx_goto_simps [simp]:
  "fx_lock (fx_goto i th s) = fx_lock s" "fx_owner (fx_goto i th s) = fx_owner s"
  "shared_counter (fx_goto i th s) = shared_counter s" "fx_log (fx_goto i th s) = fx_log s"
  "fx_threads (fx_goto i th s) = (fx_threads s)[i := th]"
  by (simp_all add: fx_goto_def)

lemma fx_at_goto: "fx_at (fx_goto i th s) j k p \<longleftrightarrow>
    j < length (fx_threads s) \<and> (if i = j then th = (k, p) else fx_at s j k p)"
  by (auto simp: fx_at_def)

lemma fx_at_upd [simp]:
  "fx_at (s\<lparr>fx_lock := l\<rparr>) = fx_at s" "fx_at (s\<lparr>fx_owner := w\<rparr>) = fx_at s"
  "fx_at (s\<lparr>shared_counter := c\<rparr>) = fx_at s" "fx_at (s\<lparr>fx_log := ls\<rparr>) = fx_at s"
  by (auto simp: fx_at_def fun_eq_iff)

lemma fx_at_unique: "fx_at s i k p \<Longrightarrow> fx_at s i m q \<Longrightarrow> k = m \<and> p = q"
  by (simp add: fx_at_def)

lemma fx_holds_unique:
  assumes "fx_excl s" "fx_at s i k p" "fx_at s j m q" "in_lock (k, p)" "in_lock (m, q)"
  shows "i = j"
  using tally_le_one [of in_lock "fx_threads s" i j] assms by (auto simp: fx_excl_def fx_at_def)

lemma owns_holds: "owns th \<Longrightarrow> in_lock th"
  by (cases th rule: in_lock.cases) auto

lemma fx_holds_locked: "fx_excl s \<Longrightarrow> fx_at s i k p \<Longrightarrow> in_lock (k, p) \<Longrightarrow> fx_lock s = 1"
  using tally_pos [of i "fx_threads s" in_lock] by (auto simp: fx_excl_def fx_at_def)

lemma fx_excl_step:
  assumes "fx_step sp s t" "fx_excl s"
  shows "fx_excl t"
  using assms(1)
proof (elim fx_cases; clarify)
  fix i k assume "fx_at s i k FDisowned"
  with fx_holds_locked [OF assms(2) this] assms(2) show "fx_excl (fx_goto i (k, FReleased) (s\<lparr>fx_lock := 0\<rparr>))"
    by (simp add: fx_excl_def fx_at_def tally_update)
qed (use assms(2) in \<open>auto simp: fx_excl_def fx_at_def tally_update nth_list_update\<close>)

lemma fx_rounds_step: "fx_step sp s t \<Longrightarrow> fx_rounds s \<Longrightarrow> fx_rounds t"
  by (elim fx_cases; force simp: fx_rounds_def fx_at_def list_all_length nth_list_update split: if_splits)

lemma fx_owned_step: "fx_step sp s t \<Longrightarrow> fx_excl s \<Longrightarrow> fx_owned s \<Longrightarrow> fx_owned t"
  by (elim fx_cases; fastforce simp: fx_owned_def fx_at_goto split: if_splits
      dest: fx_holds_unique owns_holds)

text \<open>The sums over the threads after a step.\<close>

lemma fx_sum_goto:
  "fx_at s i k p \<Longrightarrow> (\<Sum>th\<leftarrow>fx_threads (fx_goto i th' s). f th) =
    (\<Sum>th\<leftarrow>fx_threads s. f th) - f (k, p) + (f th' :: int)"
  by (simp add: fx_at_def sum_list_map_update)

lemma fx_tally_goto:
  "fx_at s i k p \<Longrightarrow> tally P (fx_threads (fx_goto i th s)) =
    tally P (fx_threads s) - of_bool (P (k, p)) + of_bool (P th)"
  by (simp add: fx_at_def tally_update)

lemma fx_loaded_step:
  assumes "fx_step sp s t" "fx_excl s" "\<forall>i k v. fx_at s i k (FLoaded v) \<longrightarrow> v = shared_counter s"
  shows "\<forall>i k v. fx_at t i k (FLoaded v) \<longrightarrow> v = shared_counter t"
  using assms
  by (elim fx_cases; fastforce simp: fx_at_goto split: if_splits dest: fx_holds_unique)

lemma fx_counter_step:
  assumes "fx_step sp s t" "\<forall>i k v. fx_at s i k (FLoaded v) \<longrightarrow> v = shared_counter s"
    and "shared_counter s = (\<Sum>th\<leftarrow>fx_threads s. counted_up th)"
  shows "shared_counter t = (\<Sum>th\<leftarrow>fx_threads t. counted_up th)"
  using assms
  by (elim fx_cases; auto simp: fx_at_def sum_list_map_update nth_list_update)

lemma upto_snoc: "1 \<le> c \<Longrightarrow> [1..c - 1] @ [c] = [1..c]" for c :: int
  using upto_rec2 [of 1 c] by simp

lemma fx_stored_le: "fx_excl s \<Longrightarrow> tally (\<lambda>th. snd th = FStored) (fx_threads s) \<le> 1"
  using tally_mono [of "\<lambda>th. snd th = FStored" in_lock "fx_threads s"] by (fastforce simp: fx_excl_def)

lemma counted_up_nonneg: "0 \<le> (\<Sum>th\<leftarrow>ths. counted_up th)"
  by (induction ths) auto

lemma fx_log_step:
  assumes "fx_step sp s t" "fx_excl s" "fx_data s"
  shows "fx_log t = [1..shared_counter t - tally (\<lambda>th. snd th = FStored) (fx_threads t)]"
proof -
  have printed: "tally (\<lambda>th. snd th = FStored) (fx_threads s) = 1 \<and> 1 \<le> shared_counter s" if "fx_at s i k FStored" for i k
  proof -
    have "1 \<le> tally (\<lambda>th. snd th = FStored) (fx_threads s)"
      using tally_pos [of i "fx_threads s" "\<lambda>th. snd th = FStored"] that by (simp add: fx_at_def)
    moreover have "1 \<le> shared_counter s"
      using fx_sum_goto [OF that, of counted_up "(k, FHolds)"] counted_up_nonneg [of "fx_threads (fx_goto i (k, FHolds) s)"]
        assms(3) by (simp add: fx_data_def)
    ultimately show ?thesis using fx_stored_le [OF assms(2)] by simp
  qed
  have loaded: "v = shared_counter s" if "fx_at s i k (FLoaded v)" for i k v
    using assms(3) that by (auto simp: fx_data_def)
  have log: "fx_log s = [1..shared_counter s - tally (\<lambda>th. snd th = FStored) (fx_threads s)]"
    using assms(3) by (simp add: fx_data_def)
  show ?thesis using assms(1)
  proof (elim fx_cases; clarify)
    fix i k assume "fx_at s i k FStored"
    from printed [OF this] this show "fx_log (fx_goto i (k, FPrinted) (s\<lparr>fx_log := fx_log s @ [shared_counter s]\<rparr>)) = [1..shared_counter (fx_goto i (k, FPrinted) (s\<lparr>fx_log := fx_log s @ [shared_counter s]\<rparr>)) -
        tally (\<lambda>th. snd th = FStored) (fx_threads (fx_goto i (k, FPrinted) (s\<lparr>fx_log := fx_log s @ [shared_counter s]\<rparr>)))]"
      by (simp add: log upto_snoc fx_at_def tally_update)
  next
    fix i k v assume "fx_at s i k (FLoaded v)"
    from loaded [OF this] this show "fx_log (fx_goto i (k, FStored) (s\<lparr>shared_counter := v + 1\<rparr>)) =
        [1..shared_counter (fx_goto i (k, FStored) (s\<lparr>shared_counter := v + 1\<rparr>)) -
          tally (\<lambda>th. snd th = FStored) (fx_threads (fx_goto i (k, FStored) (s\<lparr>shared_counter := v + 1\<rparr>)))]"
      by (simp add: log fx_at_def tally_update)
  qed (auto simp: log fx_at_def tally_update nth_list_update)
qed

lemma fx_other_awake:
  assumes "fx_excl s" "fx_at s i k FWait" "fx_lock s = 1"
  shows "2 \<le> tally awake (fx_threads s)"
proof -
  have "0 < tally in_lock (fx_threads s)" using assms(1,3) by (simp add: fx_excl_def)
  then obtain j where j: "j < length (fx_threads s)" "in_lock (fx_threads s ! j)" unfolding tally_pos_ex by blast
  have "j \<noteq> i" using j assms(2) by (auto simp: fx_at_def)
  moreover have "awake (fx_threads s ! j)" using j(2) by (cases "fx_threads s ! j" rule: in_lock.cases) auto
  ultimately have "1 \<le> tally awake (fx_threads (fx_goto i (k, FHead) s))"
    using tally_pos [of j "(fx_threads s)[i := (k, FHead)]" awake] j by simp
  with fx_tally_goto [OF assms(2), of awake "(k, FHead)"] show ?thesis by simp
qed

lemma fx_wakeup_step:
  assumes "fx_step sp s t" "fx_excl s" "fx_wakeup s"
  shows "fx_wakeup t"
  using assms(1)
proof (elim fx_cases; clarify)
  fix i k assume "fx_at s i k FWait" "fx_lock s = 1"
  from fx_other_awake [OF assms(2) this] this(1) show "fx_wakeup (fx_goto i (k, FAsleep) s)"
    by (simp add: fx_wakeup_def fx_at_def tally_update)
next
  fix i k assume "fx_at s i k FReleased" "list_all (\<lambda>th. snd th \<noteq> FAsleep) (fx_threads s)"
  then show "fx_wakeup (fx_goto i (k + 1, FHead) s)"
    by (auto simp: fx_wakeup_def fx_at_def tally_zero list_all_length nth_list_update)
next
  fix i k j m assume a: "fx_at s i k FReleased" "fx_at s j m FAsleep"
  have "1 \<le> tally awake (fx_threads s)"
    using tally_pos [of i "fx_threads s" awake] a(1) by (simp add: fx_at_def)
  with a show "fx_wakeup (fx_goto i (k + 1, FHead) (fx_goto j (m, FTry) s))"
    by (auto simp: fx_wakeup_def fx_at_def tally_update nth_list_update)
qed (use assms(3) tally_nonneg [of awake "fx_threads s"] in
    \<open>auto simp: fx_wakeup_def fx_at_def tally_update nth_list_update\<close>)

definition fx_inv :: "fx_state \<Rightarrow> bool" where
  "fx_inv s \<longleftrightarrow> fx_excl s \<and> fx_rounds s \<and> fx_owned s \<and> fx_data s \<and> fx_wakeup s"

lemma fx_inv_step: "fx_step sp s t \<Longrightarrow> fx_inv s \<Longrightarrow> fx_inv t"
  using fx_excl_step fx_rounds_step fx_owned_step fx_wakeup_step fx_log_step fx_loaded_step [of sp s t]
    fx_counter_step [of sp s t]
  unfolding fx_inv_def by (auto simp: fx_data_def)

lemma fx_inv_init: "fx_inv (rt_mutex_init n)"
  by (auto simp: fx_inv_def fx_excl_def fx_rounds_def fx_owned_def fx_data_def fx_wakeup_def rt_mutex_init_def
      fx_at_def tally_def list_all_length sum_list_replicate)

lemma fx_inv_run: "(fx_step sp)\<^sup>*\<^sup>* (rt_mutex_init n) s \<Longrightarrow> fx_inv s"
  by (induction rule: rtranclp_induct) (auto intro: fx_inv_init fx_inv_step)

subsection \<open>Runs end\<close>

text \<open>The work that is left to a thread, and the steps it may take in the waiting loop before a thread
  makes progress: with the lock taken it tries, waits and sleeps; with the lock free it leaves the wait and
  tries.\<close>

fun work_left :: "nat \<times> fx_pc \<Rightarrow> int" where
  "work_left (k, FLoaded v) = 10 * (3 - int k) - 3"
| "work_left (k, p) = 10 * (3 - int k) +
    (if p = FHead then 1 else if p = FSwapped then - 1 else if p = FHolds then - 2
     else if p = FStored then - 4 else if p = FPrinted then - 5 else if p = FDisowned then - 6
     else if p = FReleased then - 7 else 0)"

fun tries_left :: "int \<Rightarrow> nat \<times> fx_pc \<Rightarrow> int" where
  "tries_left l (k, p) =
    (if p = FTry then if l = 0 then 1 else 2 else if p = FWait then if l = 0 then 2 else 1 else 0)"

definition fx_measure :: "fx_state \<Rightarrow> int" where
  "fx_measure s = (2 * int (length (fx_threads s)) + 1) * (\<Sum>th\<leftarrow>fx_threads s. work_left th) +
    (\<Sum>th\<leftarrow>fx_threads s. tries_left (fx_lock s) th)"

lemma tries_left_bounds:
  "0 \<le> (\<Sum>th\<leftarrow>ths. tries_left l th)" "(\<Sum>th\<leftarrow>ths. tries_left l th) \<le> 2 * int (length ths)"
  by (induction ths) auto

lemma work_left_nonneg: "list_all round_ok ths \<Longrightarrow> 0 \<le> (\<Sum>th\<leftarrow>ths. work_left th)"
proof (induction ths)
  case (Cons th ths)
  moreover have "0 \<le> work_left th" if "round_ok th"
    using that by (cases th rule: work_left.cases) auto
  ultimately show ?case by auto
qed simp

lemma fx_length_step: "fx_step sp s t \<Longrightarrow> length (fx_threads t) = length (fx_threads s)"
  by (elim fx_cases) auto

text \<open>A step either does some of the work, or is a step of the waiting loop.\<close>

lemma fx_progress_step:
  assumes "fx_step False s t" "fx_excl s"
  shows "(\<Sum>th\<leftarrow>fx_threads t. work_left th) \<le> (\<Sum>th\<leftarrow>fx_threads s. work_left th) - 1 \<or>
    (\<Sum>th\<leftarrow>fx_threads t. work_left th) = (\<Sum>th\<leftarrow>fx_threads s. work_left th) \<and> fx_lock t = fx_lock s \<and>
    (\<Sum>th\<leftarrow>fx_threads t. tries_left (fx_lock s) th) = (\<Sum>th\<leftarrow>fx_threads s. tries_left (fx_lock s) th) - 1"
proof -
  have "fx_lock s = 0 \<or> fx_lock s = 1"
    using assms(2) tally_nonneg [of in_lock "fx_threads s"] by (auto simp: fx_excl_def)
  with assms(1) show ?thesis
    by (elim fx_cases; auto simp: fx_at_def sum_list_map_update nth_list_update)
qed

lemma fx_measure_step:
  assumes "fx_step False s t" "fx_excl s"
  shows "fx_measure t \<le> fx_measure s - 1"
proof -
  let ?n = "2 * int (length (fx_threads s)) + 1" and ?w = "\<lambda>s. \<Sum>th\<leftarrow>fx_threads s. work_left th"
  note len = fx_length_step [OF assms(1)]
  from fx_progress_step [OF assms] show ?thesis
  proof
    assume "?w t \<le> ?w s - 1"
    then have "?n * ?w t \<le> ?n * (?w s - 1)" by (intro mult_left_mono) auto
    then have "?n * ?w t \<le> ?n * ?w s - ?n" by (simp add: algebra_simps)
    then show ?thesis
      using tries_left_bounds(2) [of "fx_lock t" "fx_threads t"] tries_left_bounds(1) [of "fx_lock s" "fx_threads s"] len
      by (simp add: fx_measure_def)
  qed (simp add: fx_measure_def len)
qed

lemma fx_measure_nonneg: "fx_rounds s \<Longrightarrow> 0 \<le> fx_measure s"
  using work_left_nonneg [of "fx_threads s"] tries_left_bounds(1) [of "fx_lock s" "fx_threads s"]
  by (simp add: fx_measure_def fx_rounds_def)

lemma fx_steps_bounded:
  assumes "(fx_step False ^^ m) (rt_mutex_init n) s"
  shows "int m \<le> (2 * int n + 1) * (31 * int n)"
proof -
  have "fx_inv s \<and> fx_measure s \<le> fx_measure (rt_mutex_init n) - int m"
    using assms
  proof (induction m arbitrary: s)
    case (Suc m)
    then obtain r where "(fx_step False ^^ m) (rt_mutex_init n) r" "fx_step False r s" by auto
    with Suc.IH [of r] fx_measure_step [of r s] fx_inv_step [of False r s]
    show ?case by (auto simp: fx_inv_def)
  qed (simp add: fx_inv_init)
  moreover have "fx_measure (rt_mutex_init n) = (2 * int n + 1) * (31 * int n)"
    by (simp add: fx_measure_def rt_mutex_init_def sum_list_replicate)
  ultimately show ?thesis using fx_measure_nonneg [of s] by (simp add: fx_inv_def)
qed

text \<open>A thread that is neither asleep nor finished can always take a step.\<close>

lemma fx_can_step:
  assumes "fx_at s i k p" "p \<noteq> FAsleep" "p \<noteq> FDone"
  shows "\<exists>t. fx_step sp s t"
proof -
  have cs: "\<exists>t. fx_step sp s t" if "critical_section s t" for t using that fx_step.in_section by blast
  have lk: "\<exists>t. fx_step sp s t" if "rt_mutex_lock s t" for t using that cs critical_section.lock by blast
  have ul: "\<exists>t. fx_step sp s t" if "rt_mutex_unlock s t" for t using that cs critical_section.unlock by blast
  note at = assms(1)
  show ?thesis
  proof (cases p)
    case FHead
    then show ?thesis using at fx_step.enter fx_step.finish by (cases "k < 3") blast+
  next
    case FTry
    then show ?thesis using at lk rt_mutex_lock.swap rt_mutex_lock.swap_fails by (cases "fx_lock s = 0") blast+
  next
    case FWait
    then show ?thesis using at lk rt_mutex_lock.wait rt_mutex_lock.wait_fails by (cases "fx_lock s = 1") blast+
  next
    case FReleased
    show ?thesis
    proof (cases "list_all (\<lambda>th. snd th \<noteq> FAsleep) (fx_threads s)")
      case True
      then show ?thesis using at FReleased ul rt_mutex_unlock.wake_none by blast
    next
      case False
      then obtain j where j: "j < length (fx_threads s)" "snd (fx_threads s ! j) = FAsleep"
        by (auto simp: list_all_length)
      then have "fx_at s j (fst (fx_threads s ! j)) FAsleep" by (simp add: fx_at_def prod_eq_iff)
      then show ?thesis using at FReleased ul rt_mutex_unlock.wake_one by blast
    qed
  next
    case FSwapped
    then show ?thesis using lk [OF rt_mutex_lock.own] at by blast
  next
    case FHolds
    then show ?thesis using cs [OF critical_section.load] at by blast
  next
    case (FLoaded v)
    then show ?thesis using cs [OF critical_section.store] at by blast
  next
    case FStored
    then show ?thesis using cs [OF critical_section.print] at by blast
  next
    case FPrinted
    then show ?thesis using ul [OF rt_mutex_unlock.disown] at by blast
  next
    case FDisowned
    then show ?thesis using ul [OF rt_mutex_unlock.release] at by blast
  qed (use assms(2,3) in simp_all)
qed

lemma fx_final:
  assumes "fx_inv s" "\<And>t. \<not> fx_step sp s t"
  shows "list_all (\<lambda>th. th = (3, FDone)) (fx_threads s)"
proof -
  have pcs: "snd (fx_threads s ! i) = FAsleep \<or> snd (fx_threads s ! i) = FDone" if "i < length (fx_threads s)" for i
    using fx_can_step [of s i "fst (fx_threads s ! i)" "snd (fx_threads s ! i)"] assms(2) that by (auto simp: fx_at_def)
  then have "tally awake (fx_threads s) = 0"
    unfolding tally_zero by (metis awake.simps insertCI prod.collapse)
  then have "tally (\<lambda>th. snd th = FAsleep) (fx_threads s) = 0" using assms(1) by (simp add: fx_inv_def fx_wakeup_def)
  then have fin: "snd (fx_threads s ! i) = FDone" if "i < length (fx_threads s)" for i
    using pcs that by (auto simp: tally_zero)
  moreover have "round_ok (fx_threads s ! i)" if "i < length (fx_threads s)" for i
    using assms(1) that by (simp add: fx_inv_def fx_rounds_def list_all_length)
  ultimately show ?thesis by (auto simp: list_all_length) (metis prod.collapse round_ok.simps)
qed

lemma fx_length_run: "(fx_step sp ^^ m) s t \<Longrightarrow> length (fx_threads t) = length (fx_threads s)"
  by (induction m arbitrary: t) (auto dest: fx_length_step)

lemma fx_final_output:
  assumes "fx_inv s" "\<And>t. \<not> fx_step sp s t" "length (fx_threads s) = n"
  shows "fx_main_output s = Some (3 * int n) \<and> fx_log s = [1..3 * int n]"
proof -
  have all: "list_all (\<lambda>th. th = (3, FDone)) (fx_threads s)" using fx_final assms(1,2) by blast
  then have eq: "fx_threads s = replicate n (3, FDone)"
    using assms(3) by (auto simp: list_all_length intro: nth_equalityI)
  then have "shared_counter s = 3 * int n" "tally (\<lambda>th. snd th = FStored) (fx_threads s) = 0"
    using assms(1) by (simp_all add: fx_inv_def fx_data_def sum_list_replicate tally_def)
  then show ?thesis using assms(1) eq by (simp add: fx_main_output_def fx_inv_def fx_data_def list_all_length)
qed

subsection \<open>Properties\<close>

text \<open>C9. The futex mutex excludes, in every interleaving of any number of threads, interrupted waits included:
  at most one thread is between the compare-and-swap and the release, the owner field names the thread that
  counts, the printed counter values are 1, 2, 3 and so on without a gap, and while a thread sleeps in the
  kernel another one is awake to release the lock or to take it.\<close>

theorem futex_mutex_correct:
  assumes "(fx_step sp)\<^sup>*\<^sup>* (rt_mutex_init n) s"
  shows "(\<forall>i j k m p q. fx_at s i k p \<and> fx_at s j m q \<and> in_lock (k, p) \<and> in_lock (m, q) \<longrightarrow> i = j) \<and>
    (\<forall>i k p. fx_at s i k p \<and> owns (k, p) \<longrightarrow> fx_owner s = int i) \<and>
    fx_log s = [1..shared_counter s - tally (\<lambda>th. snd th = FStored) (fx_threads s)] \<and>
    (\<forall>i k. fx_at s i k FAsleep \<longrightarrow> (\<exists>j m p. fx_at s j m p \<and> awake (m, p)))"
proof -
  have inv: "fx_inv s" using fx_inv_run assms .
  have "\<exists>j m p. fx_at s j m p \<and> awake (m, p)" if "fx_at s i k FAsleep" for i k
  proof -
    have "tally (\<lambda>th. snd th = FAsleep) (fx_threads s) \<noteq> 0"
      using that by (auto simp: tally_zero fx_at_def intro!: exI [of _ i])
    then have "0 < tally awake (fx_threads s)" using inv by (simp add: fx_inv_def fx_wakeup_def)
    then show ?thesis unfolding tally_pos_ex fx_at_def by (metis prod.collapse)
  qed
  with inv show ?thesis
    using fx_holds_unique [of s] by (auto simp: fx_inv_def fx_owned_def fx_data_def)
qed

theorem futex_mutex_correct_witness:
  "\<exists>s :: fx_state. fx_threads s = [(0, FHolds), (0, FHead)] \<and> fx_owner s = 0 \<and> fx_log s = [1..0]"
proof -
  let ?s = "\<lambda>l w p. \<lparr>fx_lock = l, fx_owner = w, shared_counter = 0, fx_threads = [(0, p), (0, FHead)], fx_log = []\<rparr>"
  have "rt_mutex_init 2 = ?s 0 (- 1) FHead" by (simp add: rt_mutex_init_def numeral_2_eq_2)
  moreover have "fx_step True (?s 0 (- 1) FHead) (?s 0 (- 1) FTry)"
    using fx_step.enter [of "?s 0 (- 1) FHead" 0 0 True] by (simp add: fx_at_def fx_goto_def)
  moreover have "fx_step True (?s 0 (- 1) FTry) (?s 1 (- 1) FSwapped)"
    using fx_step.in_section [OF critical_section.lock [OF rt_mutex_lock.swap [of "?s 0 (- 1) FTry" 0 0]], of True]
    by (simp add: fx_at_def fx_goto_def)
  moreover have "fx_step True (?s 1 (- 1) FSwapped) (?s 1 0 FHolds)"
    using fx_step.in_section [OF critical_section.lock [OF rt_mutex_lock.own [of "?s 1 (- 1) FSwapped" 0 0]], of True]
    by (simp add: fx_at_def fx_goto_def)
  ultimately have "(fx_step True)\<^sup>*\<^sup>* (rt_mutex_init 2) (?s 1 0 FHolds)"
    by (metis (no_types, lifting) rtranclp.simps)
  from futex_mutex_correct [OF this] show ?thesis
    by - (rule exI [of _ "?s 1 0 FHolds"], simp add: tally_def)
qed

text \<open>C10. Every run of the program ends, whatever the schedule, if waits end only by wake-ups: with five threads
  a run has at most 1705 steps, and when no thread can take a step all have finished, the values printed in
  the critical sections were 1 to 15 and \<open>main\<close> prints 15.\<close>

theorem futex_program_ends:
  assumes "(fx_step False ^^ m) (rt_mutex_init 5) s"
  shows "m \<le> 1705 \<and>
    ((\<forall>t. \<not> fx_step False s t) \<longrightarrow> fx_main_output s = Some 15 \<and> fx_log s = [1..15])"
proof -
  have "fx_inv s" using fx_inv_run [of False 5 s] assms relpowp_imp_rtranclp by metis
  moreover have "length (fx_threads s) = 5" using fx_length_run [OF assms] by (simp add: rt_mutex_init_def)
  ultimately show ?thesis using fx_steps_bounded [OF assms] fx_final_output [of s False 5] by auto
qed

theorem futex_program_ends_witness:
  "\<exists>m s. (fx_step False ^^ m) (rt_mutex_init 5) s \<and> m \<le> 1705 \<and> fx_main_output s = Some 15 \<and> fx_log s = [1..15]"
proof -
  obtain m s where "(fx_step False ^^ m) (rt_mutex_init 5) s" "\<forall>t. \<not> fx_step False s t"
    using maximal_run [of "fx_step False" "rt_mutex_init 5" 1705] fx_steps_bounded [of _ 5] by fastforce
  with futex_program_ends [of m s] show ?thesis by blast
qed

end
