(* ===== verification/Message_Passing.thy ===== *)
theory Message_Passing
  imports Prelude
begin

text \<open>
  The producer and the consumer process that exchange messages through shared memory and two named semaphores
  (\<^verbatim>\<open>concurrency/threads/semaphores\<close>: \<^verbatim>\<open>producer.c\<close>, \<^verbatim>\<open>consumer.c\<close>, \<^verbatim>\<open>semaphoreShared.h\<close>).

  Each process is a function that gives its next step, or \<open>None\<close> when it waits at a semaphore or has ended;
  its argument says whether the system call of the step succeeds. \<open>mp_step f w\<close> is a step of either process;
  with \<open>f\<close> the calls at the start and \<open>sem_unlink\<close> may fail, with \<open>w\<close> a \<open>sem_wait\<close> may be interrupted, which
  the program does not notice. \<open>sem_post\<close> fails only when the value of the semaphore overflows. A semaphore has
  a value, and a name that is there or not: the consumer creates and unlinks both, the producer only opens
  them. Sleeping changes no state.

  Shown, for runs without interrupted waits: the processes are never both at the message, the consumer prints the ten messages in order, every
  run ends, and it ends with everything delivered unless a process has given up at the start. And: an interrupted wait lets both
  processes at the message.
\<close>

subsection \<open>The processes\<close>

definition MAX_MESSAGE_SIZE :: nat where
  "MAX_MESSAGE_SIZE = 256"

fun decimal :: "nat \<Rightarrow> string" where
  "decimal n = (if n < 10 then [char_of (48 + n)] else decimal (n div 10) @ [char_of (48 + n mod 10)])"

definition message_text :: "nat \<Rightarrow> string" where
  "message_text i = take (MAX_MESSAGE_SIZE - 1) (''Message '' @ decimal i)"

datatype producer_pc =
  PStart | POpenProd | POpenCons bool | PWait nat | PWrite nat | PPrint nat | PPost nat | PDone | PExit

datatype consumer_pc =
  CStart | COpenProd | COpenCons bool | CWait nat | CPrint nat | CClear nat | CPost nat
  | CUnlinkProd | CUnlinkCons | CDone | CExit

record mp_state =
  message :: string
  sem_prod :: nat
  sem_cons :: nat
  sem_prod_named :: bool
  sem_cons_named :: bool
  produced :: "string list"
  consumed :: "string list"
  producer_at :: producer_pc
  consumer_at :: consumer_pc

definition mp_init :: mp_state where
  "mp_init = \<lparr>message = [], sem_prod = 0, sem_cons = 0, sem_prod_named = False, sem_cons_named = False,
    produced = [], consumed = [], producer_at = PStart, consumer_at = CStart\<rparr>"

fun producer_step :: "bool \<Rightarrow> mp_state \<Rightarrow> mp_state option" where
  "producer_step ok s =
    (case producer_at s of
      PStart \<Rightarrow> Some (s\<lparr>producer_at := (if ok then POpenProd else PExit)\<rparr>)
    | POpenProd \<Rightarrow> Some (s\<lparr>producer_at := POpenCons (ok \<and> sem_prod_named s)\<rparr>)
    | POpenCons opened \<Rightarrow>
        Some (s\<lparr>producer_at := (if opened \<and> ok \<and> sem_cons_named s then PWait 0 else PExit)\<rparr>)
    | PWait i \<Rightarrow>
        if \<not> i < 10 then Some (s\<lparr>producer_at := PDone\<rparr>)
        else if \<not> ok then Some (s\<lparr>producer_at := PWrite i\<rparr>)
        else if sem_cons s = 0 then None
        else Some (s\<lparr>sem_cons := sem_cons s - 1, producer_at := PWrite i\<rparr>)
    | PWrite i \<Rightarrow> Some (s\<lparr>message := message_text i, producer_at := PPrint i\<rparr>)
    | PPrint i \<Rightarrow> Some (s\<lparr>produced := produced s @ [message s], producer_at := PPost i\<rparr>)
    | PPost i \<Rightarrow> Some (s\<lparr>sem_prod := sem_prod s + 1, producer_at := PWait (i + 1)\<rparr>)
    | PDone \<Rightarrow> None
    | PExit \<Rightarrow> None)"

fun consumer_step :: "bool \<Rightarrow> mp_state \<Rightarrow> mp_state option" where
  "consumer_step ok s =
    (case consumer_at s of
      CStart \<Rightarrow> Some (s\<lparr>consumer_at := (if ok then COpenProd else CExit)\<rparr>)
    | COpenProd \<Rightarrow>
        Some (if ok then s\<lparr>sem_prod := (if sem_prod_named s then sem_prod s else 0), sem_prod_named := True,
                           consumer_at := COpenCons True\<rparr>
              else s\<lparr>consumer_at := COpenCons False\<rparr>)
    | COpenCons opened \<Rightarrow>
        Some (if ok then s\<lparr>sem_cons := (if sem_cons_named s then sem_cons s else 1), sem_cons_named := True,
                           consumer_at := (if opened then CWait 0 else CExit)\<rparr>
              else s\<lparr>consumer_at := CExit\<rparr>)
    | CWait i \<Rightarrow>
        if \<not> i < 10 then Some (s\<lparr>consumer_at := CUnlinkProd\<rparr>)
        else if \<not> ok then Some (s\<lparr>consumer_at := CPrint i\<rparr>)
        else if sem_prod s = 0 then None
        else Some (s\<lparr>sem_prod := sem_prod s - 1, consumer_at := CPrint i\<rparr>)
    | CPrint i \<Rightarrow> Some (s\<lparr>consumed := consumed s @ [message s], consumer_at := CClear i\<rparr>)
    | CClear i \<Rightarrow> Some (s\<lparr>message := [], consumer_at := CPost i\<rparr>)
    | CPost i \<Rightarrow> Some (s\<lparr>sem_cons := sem_cons s + 1, consumer_at := CWait (i + 1)\<rparr>)
    | CUnlinkProd \<Rightarrow> Some (s\<lparr>sem_prod_named := sem_prod_named s \<and> \<not> ok, consumer_at := CUnlinkCons\<rparr>)
    | CUnlinkCons \<Rightarrow> Some (s\<lparr>sem_cons_named := sem_cons_named s \<and> \<not> ok, consumer_at := CDone\<rparr>)
    | CDone \<Rightarrow> None
    | CExit \<Rightarrow> None)"

text \<open>A failed \<open>sem_wait\<close>, as when a signal interrupts it, is not noticed by the program.\<close>

fun p_waits :: "producer_pc \<Rightarrow> bool" where
  "p_waits (PWait i) = True" | "p_waits _ = False"

fun c_waits :: "consumer_pc \<Rightarrow> bool" where
  "c_waits (CWait i) = True" | "c_waits _ = False"

inductive mp_step :: "bool \<Rightarrow> bool \<Rightarrow> mp_state \<Rightarrow> mp_state \<Rightarrow> bool" for f w :: bool where
  produce: "producer_step ok s = Some t \<Longrightarrow> ok \<or> (if p_waits (producer_at s) then w else f) \<Longrightarrow> mp_step f w s t"
| consume: "consumer_step ok s = Some t \<Longrightarrow> ok \<or> (if c_waits (consumer_at s) then w else f) \<Longrightarrow> mp_step f w s t"

text \<open>A schedule in which every call succeeds: who takes the next step.\<close>

fun mp_run :: "bool list \<Rightarrow> mp_state \<Rightarrow> mp_state option" where
  "mp_run [] s = Some s"
| "mp_run (p # ps) s = Option.bind (if p then producer_step True s else consumer_step True s) (mp_run ps)"

lemma mp_run_steps: "mp_run ps s = Some t \<Longrightarrow> (mp_step f w)\<^sup>*\<^sup>* s t"
proof (induction ps arbitrary: s)
  case (Cons p ps)
  then obtain u where "(if p then producer_step True s else consumer_step True s) = Some u" "mp_run ps u = Some t"
    by (auto split: Option.bind_splits)
  then have "mp_step f w s u" "(mp_step f w)\<^sup>*\<^sup>* u t"
    using Cons.IH mp_step.intros [of True s u w f] by (auto split: if_splits simp del: producer_step.simps consumer_step.simps)
  then show ?case by (rule converse_rtranclp_into_rtranclp)
qed simp

subsection \<open>The invariant\<close>

text \<open>How many messages a process has finished, whether it is at the message, and whether the consumer has
  already printed the message it works on.\<close>

fun p_index :: "producer_pc \<Rightarrow> nat" where
  "p_index (PWait i) = i" | "p_index (PWrite i) = i" | "p_index (PPrint i) = i" | "p_index (PPost i) = i"
| "p_index PDone = 10" | "p_index _ = 0"

fun c_index :: "consumer_pc \<Rightarrow> nat" where
  "c_index (CWait i) = i" | "c_index (CPrint i) = i" | "c_index (CClear i) = i" | "c_index (CPost i) = i"
| "c_index CUnlinkProd = 10" | "c_index CUnlinkCons = 10" | "c_index CDone = 10" | "c_index _ = 0"

fun p_inside :: "producer_pc \<Rightarrow> bool" where
  "p_inside (PWrite i) = True" | "p_inside (PPrint i) = True" | "p_inside (PPost i) = True" | "p_inside _ = False"

fun c_inside :: "consumer_pc \<Rightarrow> bool" where
  "c_inside (CPrint i) = True" | "c_inside (CClear i) = True" | "c_inside (CPost i) = True" | "c_inside _ = False"

fun c_ready :: "consumer_pc \<Rightarrow> bool" where
  "c_ready CStart = False" | "c_ready COpenProd = False" | "c_ready (COpenCons b) = False" | "c_ready CExit = False"
| "c_ready _ = True"

fun p_opened :: "producer_pc \<Rightarrow> bool" where
  "p_opened PStart = False" | "p_opened POpenProd = False" | "p_opened (POpenCons b) = False" | "p_opened PExit = False"
| "p_opened _ = True"

fun p_written :: "producer_pc \<Rightarrow> bool" where
  "p_written (PPrint i) = True" | "p_written (PPost i) = True" | "p_written _ = False"

fun p_printed :: "producer_pc \<Rightarrow> bool" where
  "p_printed (PPost i) = True" | "p_printed _ = False"

fun c_printed :: "consumer_pc \<Rightarrow> bool" where
  "c_printed (CClear i) = True" | "c_printed (CPost i) = True" | "c_printed _ = False"

definition mp_named :: "mp_state \<Rightarrow> bool" where
  "mp_named s \<longleftrightarrow>
    (if c_ready (consumer_at s)
     then (consumer_at s \<notin> {CUnlinkCons, CDone} \<longrightarrow> sem_prod_named s) \<and> (consumer_at s \<noteq> CDone \<longrightarrow> sem_cons_named s)
     else \<not> (sem_prod_named s \<and> sem_cons_named s) \<and>
       (consumer_at s \<in> {CStart, COpenProd} \<longrightarrow> \<not> sem_prod_named s \<and> \<not> sem_cons_named s) \<and>
       (consumer_at s = COpenCons True \<longrightarrow> sem_prod_named s \<and> \<not> sem_cons_named s) \<and>
       (consumer_at s = COpenCons False \<longrightarrow> \<not> sem_prod_named s \<and> \<not> sem_cons_named s)) \<and>
    (producer_at s = POpenCons True \<longrightarrow> c_ready (consumer_at s) \<or> sem_prod_named s) \<and>
    (p_opened (producer_at s) \<longrightarrow> c_ready (consumer_at s))"

definition mp_baton :: "mp_state \<Rightarrow> bool" where
  "mp_baton s \<longleftrightarrow>
    (if c_ready (consumer_at s)
     then sem_prod s + sem_cons s + of_bool (p_inside (producer_at s)) + of_bool (c_inside (consumer_at s)) = 1
     else sem_prod s = 0 \<and> \<not> p_inside (producer_at s)) \<and>
    p_index (producer_at s) = c_index (consumer_at s) + of_bool (sem_prod s = 1 \<or> c_inside (consumer_at s)) \<and>
    p_index (producer_at s) \<le> 10 \<and> (p_inside (producer_at s) \<longrightarrow> p_index (producer_at s) < 10) \<and>
    (c_ready (consumer_at s) \<and> sem_prod s = 1 \<longrightarrow> message s = message_text (c_index (consumer_at s)))"

definition mp_logs :: "mp_state \<Rightarrow> bool" where
  "mp_logs s \<longleftrightarrow>
    (p_written (producer_at s) \<longrightarrow> message s = message_text (p_index (producer_at s))) \<and>
    (c_inside (consumer_at s) \<longrightarrow>
      c_printed (consumer_at s) \<or> message s = message_text (c_index (consumer_at s))) \<and>
    produced s = map message_text [0..<p_index (producer_at s) + of_bool (p_printed (producer_at s))] \<and>
    consumed s = map message_text [0..<c_index (consumer_at s) + of_bool (c_printed (consumer_at s))]"

lemma mp_producer_named: "producer_step ok s = Some t \<Longrightarrow> mp_named s \<Longrightarrow> mp_named t"
  by (cases "producer_at s"; clarsimp simp: mp_named_def split: if_splits)

lemma mp_consumer_named: "consumer_step ok s = Some t \<Longrightarrow> mp_named s \<Longrightarrow> mp_named t"
  by (cases "consumer_at s"; clarsimp simp: mp_named_def split: if_splits)

lemma p_phases: "p_written p \<Longrightarrow> p_inside p" "p_printed p \<Longrightarrow> p_inside p"
  by (cases p; simp)+

lemma mp_producer_baton: "producer_step ok s = Some t \<Longrightarrow> ok \<or> \<not> p_waits (producer_at s) \<Longrightarrow> mp_named s \<Longrightarrow> mp_baton s \<Longrightarrow> mp_logs s \<Longrightarrow> mp_baton t"
  by (cases "producer_at s"; cases "c_inside (consumer_at s)"; cases "sem_prod s = 1";
      clarsimp simp: mp_baton_def mp_named_def mp_logs_def split: if_splits)

lemma mp_consumer_baton: "consumer_step ok s = Some t \<Longrightarrow> ok \<or> \<not> c_waits (consumer_at s) \<Longrightarrow> mp_named s \<Longrightarrow> mp_baton s \<Longrightarrow> mp_baton t"
  by (cases "consumer_at s"; clarsimp simp: mp_baton_def mp_named_def split: if_splits)

lemma mp_producer_logs: "producer_step ok s = Some t \<Longrightarrow> ok \<or> \<not> p_waits (producer_at s) \<Longrightarrow> mp_named s \<Longrightarrow> mp_baton s \<Longrightarrow> mp_logs s \<Longrightarrow> mp_logs t"
  by (cases "producer_at s"; clarsimp simp: mp_baton_def mp_named_def mp_logs_def split: if_splits)

lemma mp_consumer_logs:
  assumes "consumer_step ok s = Some t" "ok \<or> \<not> c_waits (consumer_at s)" "mp_named s" "mp_baton s" "mp_logs s"
  shows "mp_logs t"
proof (cases "consumer_at s")
  case (CWait i)
  have "i \<le> 10" using CWait assms(4) by (simp add: mp_baton_def)
  then show ?thesis
    using CWait assms p_phases [of "producer_at s"] by (cases "i = 10") (auto simp: mp_logs_def mp_baton_def split: if_splits)
qed (use assms p_phases [of "producer_at s"] in
    \<open>clarsimp simp: mp_baton_def mp_named_def mp_logs_def split: if_splits; fastforce?\<close>)+

definition mp_inv :: "mp_state \<Rightarrow> bool" where
  "mp_inv s \<longleftrightarrow> mp_named s \<and> mp_baton s \<and> mp_logs s"

lemma mp_inv_step:
  assumes "mp_step f False s t" "mp_inv s"
  shows "mp_inv t"
  using assms(1)
proof (cases rule: mp_step.cases)
  case (produce ok)
  then have "ok \<or> \<not> p_waits (producer_at s)" by (auto split: if_splits)
  with produce(1) assms(2) show ?thesis
    unfolding mp_inv_def by (blast intro: mp_producer_named mp_producer_baton mp_producer_logs)
next
  case (consume ok)
  then have "ok \<or> \<not> c_waits (consumer_at s)" by (auto split: if_splits)
  with consume(1) assms(2) show ?thesis
    unfolding mp_inv_def by (blast intro: mp_consumer_named mp_consumer_baton mp_consumer_logs)
qed

lemma mp_inv_init: "mp_inv mp_init"
  by (simp add: mp_inv_def mp_named_def mp_baton_def mp_logs_def mp_init_def)

lemma mp_inv_run: "(mp_step f False)\<^sup>*\<^sup>* r s \<Longrightarrow> mp_inv r \<Longrightarrow> mp_inv s"
  by (induction rule: rtranclp_induct) (auto intro: mp_inv_step)

subsection \<open>Runs end\<close>

fun p_left :: "producer_pc \<Rightarrow> int" where
  "p_left PStart = 44" | "p_left POpenProd = 43" | "p_left (POpenCons b) = 42"
| "p_left (PWait i) = 4 * (10 - int i) + 1" | "p_left (PWrite i) = 4 * (10 - int i)"
| "p_left (PPrint i) = 4 * (10 - int i) - 1" | "p_left (PPost i) = 4 * (10 - int i) - 2"
| "p_left _ = 0"

fun c_left :: "consumer_pc \<Rightarrow> int" where
  "c_left CStart = 46" | "c_left COpenProd = 45" | "c_left (COpenCons b) = 44"
| "c_left (CWait i) = 4 * (10 - int i) + 3" | "c_left (CPrint i) = 4 * (10 - int i) + 2"
| "c_left (CClear i) = 4 * (10 - int i) + 1" | "c_left (CPost i) = 4 * (10 - int i)"
| "c_left CUnlinkProd = 2" | "c_left CUnlinkCons = 1" | "c_left _ = 0"

definition mp_left :: "mp_state \<Rightarrow> int" where
  "mp_left s = p_left (producer_at s) + c_left (consumer_at s)"

lemma mp_left_step:
  assumes "mp_step f False s t" "mp_inv s"
  shows "mp_left t \<le> mp_left s - 1"
  using assms(1)
proof (cases rule: mp_step.cases)
  case (produce b)
  then show ?thesis using assms(2)
    by (cases "producer_at s"; cases "c_inside (consumer_at s)"; cases "sem_prod s = 1";
        clarsimp simp: mp_left_def mp_inv_def mp_baton_def split: if_splits)
next
  case (consume b)
  then show ?thesis using assms(2)
    by (cases "consumer_at s"; clarsimp simp: mp_left_def mp_inv_def mp_baton_def split: if_splits)
qed

lemma mp_left_nonneg: "mp_inv s \<Longrightarrow> 0 \<le> mp_left s"
  by (cases "producer_at s"; cases "consumer_at s"; simp add: mp_inv_def mp_left_def mp_baton_def)

lemma mp_steps_bounded:
  assumes "(mp_step f False ^^ m) r s" "mp_inv r"
  shows "mp_inv s" "int m \<le> mp_left r"
proof -
  have "mp_inv s \<and> mp_left s \<le> mp_left r - int m"
    using assms(1)
  proof (induction m arbitrary: s)
    case (Suc m)
    then obtain q where "(mp_step f False ^^ m) r q" "mp_step f False q s" by auto
    with Suc.IH [of q] mp_left_step [of f q s] mp_inv_step [of f q s] show ?case by auto
  qed (simp add: assms(2))
  then show "mp_inv s" "int m \<le> mp_left r" using mp_left_nonneg [of s] by auto
qed

definition mp_delivered :: "mp_state \<Rightarrow> bool" where
  "mp_delivered s \<longleftrightarrow> producer_at s = PDone \<and> consumer_at s = CDone \<and>
    consumed s = map message_text [0..<10] \<and> produced s = map message_text [0..<10]"

lemma mp_final:
  assumes "mp_inv s" "\<And>t. \<not> mp_step f False s t"
  shows "producer_at s = PExit \<or> consumer_at s = CExit \<or> mp_delivered s"
proof -
  have p: "producer_step True s = None" and c: "consumer_step True s = None"
    using assms(2) mp_step.intros [of True s _ False f] by (metis not_None_eq)+
  from p have "producer_at s = PDone \<or> producer_at s = PExit \<or> (\<exists>i<10. producer_at s = PWait i \<and> sem_cons s = 0)"
    by (cases "producer_at s") (simp_all split: if_splits)
  moreover from c have "consumer_at s = CDone \<or> consumer_at s = CExit \<or>
      (\<exists>i<10. consumer_at s = CWait i \<and> sem_prod s = 0)"
    by (cases "consumer_at s") (simp_all split: if_splits)
  ultimately show ?thesis using assms(1)
    by (elim disjE exE conjE; simp add: mp_inv_def mp_baton_def mp_logs_def mp_delivered_def)
qed

text \<open>Without failing calls, and with the consumer started first, the producer never gives up.\<close>

definition mp_consumer_first :: mp_state where
  "mp_consumer_first = mp_init\<lparr>sem_cons := 1, sem_prod_named := True, sem_cons_named := True, consumer_at := CWait 0\<rparr>"

lemma mp_no_exit_step:
  assumes "mp_step False False s t" "mp_inv s" "c_ready (consumer_at s)"
    and "producer_at s \<noteq> PExit" "producer_at s \<noteq> POpenCons False"
  shows "c_ready (consumer_at t) \<and> producer_at t \<noteq> PExit \<and> producer_at t \<noteq> POpenCons False"
  using assms
proof (induction rule: mp_step.induct)
  case (produce b s t)
  have "c_index (consumer_at s) = 0" if "producer_at s = POpenProd \<or> producer_at s = POpenCons True"
    using that produce by (auto simp: mp_inv_def mp_baton_def)
  then have "consumer_at s \<notin> {CUnlinkProd, CUnlinkCons, CDone}"
    if "producer_at s = POpenProd \<or> producer_at s = POpenCons True" using that by auto
  with produce show ?case
    by (cases "producer_at s"; clarsimp simp: mp_inv_def mp_named_def split: if_splits)
next
  case (consume b s t)
  then show ?case by (cases "consumer_at s"; clarsimp split: if_splits)
qed

lemma mp_no_exit_run:
  assumes "(mp_step False False ^^ m) mp_consumer_first s"
  shows "mp_inv s" "c_ready (consumer_at s)" "producer_at s \<noteq> PExit"
proof -
  have start: "mp_inv mp_consumer_first"
    by (simp add: mp_inv_def mp_named_def mp_baton_def mp_logs_def mp_init_def mp_consumer_first_def)
  have "mp_inv s \<and> c_ready (consumer_at s) \<and> producer_at s \<noteq> PExit \<and> producer_at s \<noteq> POpenCons False"
    using assms
  proof (induction m arbitrary: s)
    case (Suc m)
    then obtain q where "(mp_step False False ^^ m) mp_consumer_first q" "mp_step False False q s" by auto
    with Suc.IH [of q] mp_no_exit_step [of q s] mp_inv_step [of False q s] show ?case by blast
  qed (use start in \<open>simp add: mp_consumer_first_def mp_init_def\<close>)
  then show "mp_inv s" "c_ready (consumer_at s)" "producer_at s \<noteq> PExit" by auto
qed

lemma mp_consumer_first_bound:
  assumes "(mp_step False False ^^ n) mp_consumer_first t"
  shows "n \<le> 90"
proof -
  have "mp_inv mp_consumer_first" using mp_no_exit_run(1) [of 0] by simp
  from mp_steps_bounded(2) [OF assms this] show ?thesis by (simp add: mp_left_def mp_consumer_first_def mp_init_def)
qed

subsection \<open>Properties\<close>

text \<open>C34. As long as no \<open>sem_wait\<close> is interrupted: whatever the interleaving, and also when the calls at the start
  or the calls that remove the semaphores fail, the two processes are never both at the shared message, the
  consumer has printed an initial part of the ten messages in order, each exactly as produced, and the
  producer is at most one message ahead.\<close>

theorem messages_delivered_in_order:
  assumes "(mp_step f False)\<^sup>*\<^sup>* mp_init s"
  shows "\<not> (p_inside (producer_at s) \<and> c_inside (consumer_at s)) \<and>
    (\<exists>k\<le>10. consumed s = map message_text [0..<k] \<and>
      (produced s = map message_text [0..<k] \<or> k < 10 \<and> produced s = map message_text [0..<k + 1]))"
proof -
  have inv: "mp_inv s" using mp_inv_run [OF assms mp_inv_init] .
  let ?k = "c_index (consumer_at s) + of_bool (c_printed (consumer_at s))"
  have "consumed s = map message_text [0..<?k]" using inv by (simp add: mp_inv_def mp_logs_def)
  moreover have "?k \<le> 10 \<and>
      (p_index (producer_at s) + of_bool (p_printed (producer_at s)) = ?k \<or>
       ?k < 10 \<and> p_index (producer_at s) + of_bool (p_printed (producer_at s)) = ?k + 1)"
    using inv by (cases "consumer_at s"; cases "producer_at s")
      (auto simp: mp_inv_def mp_baton_def of_bool_def split: if_splits)
  moreover have "produced s = map message_text [0..<p_index (producer_at s) + of_bool (p_printed (producer_at s))]"
    using inv by (simp add: mp_inv_def mp_logs_def)
  moreover have "\<not> (p_inside (producer_at s) \<and> c_inside (consumer_at s))"
    using inv by (auto simp: mp_inv_def mp_baton_def split: if_splits)
  ultimately show ?thesis by metis
qed

text \<open>The producer writes its second message, the first one has been printed.\<close>

theorem messages_delivered_in_order_witness:
  "\<exists>s. (mp_step False False)\<^sup>*\<^sup>* mp_init s \<and> p_inside (producer_at s) \<and> \<not> c_inside (consumer_at s) \<and>
    consumed s = [''Message 0''] \<and> produced s = [''Message 0'']"
proof -
  let ?run = "replicate 3 False @ replicate 7 True @ replicate 4 False @ [True]"
  have "map_option (\<lambda>s. (p_inside (producer_at s), consumed s, produced s)) (mp_run ?run mp_init) =
      Some (True, [''Message 0''], [''Message 0''])" by code_simp
  then obtain s where s: "mp_run ?run mp_init = Some s" "p_inside (producer_at s)"
    "consumed s = [''Message 0'']" "produced s = [''Message 0'']"
    unfolding map_option_eq_Some prod.inject by blast
  have reach: "(mp_step False False)\<^sup>*\<^sup>* mp_init s" by (rule mp_run_steps [OF s(1)])
  from messages_delivered_in_order [OF reach] s(2) have "\<not> c_inside (consumer_at s)" by blast
  with reach s show ?thesis by blast
qed

text \<open>The result of \<open>sem_wait\<close> is not looked at: if a signal interrupts it, the consumer goes on without a message
  and can be at the shared memory together with the producer.\<close>

theorem interrupted_wait_breaks_exclusion:
  "\<exists>s. (mp_step False True)\<^sup>*\<^sup>* mp_init s \<and> p_inside (producer_at s) \<and> c_inside (consumer_at s)"
proof -
  have "map_option (\<lambda>s. (p_inside (producer_at s), consumer_at s)) (mp_run (replicate 3 False @ replicate 4 True) mp_init) =
      Some (True, CWait 0)" by code_simp
  then obtain s where s: "mp_run (replicate 3 False @ replicate 4 True) mp_init = Some s" "p_inside (producer_at s)"
    "consumer_at s = CWait 0"
    unfolding map_option_eq_Some prod.inject by blast
  have "mp_step False True s (s\<lparr>consumer_at := CPrint 0\<rparr>)"
    by (rule mp_step.consume [of False]) (simp_all add: s(3))
  with mp_run_steps [OF s(1)] have "(mp_step False True)\<^sup>*\<^sup>* mp_init (s\<lparr>consumer_at := CPrint 0\<rparr>)"
    by (rule rtranclp.rtrancl_into_rtrancl)
  then show ?thesis using s(2) by (intro exI [of _ "s\<lparr>consumer_at := CPrint 0\<rparr>"]) simp
qed

text \<open>C35. Every run in which no \<open>sem_wait\<close> is interrupted ends after at most 90 steps. If no system call fails and the producer starts when the
  consumer has created the semaphores, it ends with both processes finished and all ten messages printed by
  both; in general a run that does not end so has a process that gave up at its start.\<close>

theorem message_passing_ends:
  assumes "(mp_step f False ^^ m) mp_init s" "(mp_step False False ^^ n) mp_consumer_first t"
  shows "m \<le> 90 \<and> n \<le> 90 \<and>
    ((\<forall>u. \<not> mp_step f False s u) \<longrightarrow> producer_at s = PExit \<or> consumer_at s = CExit \<or> mp_delivered s) \<and>
    ((\<forall>u. \<not> mp_step False False t u) \<longrightarrow> mp_delivered t)"
proof -
  have "int m \<le> 90" "mp_inv s"
    using mp_steps_bounded [OF assms(1) mp_inv_init] by (simp_all add: mp_left_def mp_init_def)
  moreover have "n \<le> 90" by (rule mp_consumer_first_bound [OF assms(2)])
  ultimately show ?thesis
    using mp_final [of s f] mp_final [of t False] mp_no_exit_run [OF assms(2)] by auto
qed

theorem message_passing_ends_witness:
  "\<exists>n t. (mp_step False False ^^ n) mp_consumer_first t \<and> n \<le> 90 \<and> mp_delivered t"
proof -
  obtain n t where t: "(mp_step False False ^^ n) mp_consumer_first t" "\<forall>u. \<not> mp_step False False t u"
    using maximal_run [of "mp_step False False" mp_consumer_first 90] mp_consumer_first_bound by blast
  with message_passing_ends [of 0 False mp_init n t] show ?thesis by auto
qed

end
