(* ===== verification/Page_Pool.thy ===== *)
theory Page_Pool
  imports Prelude
begin

text \<open>
  The buffer pool of \<^verbatim>\<open>os/filesystem/whyNotUseOS.c\<close>: ten frames over a file of pages of 4096 bytes, with
  replacement of the least recently used frame.

  The pool holds its frames, the file with its position, and the counters. A pointer to a frame is its index.
  \<open>lseek\<close>, \<open>read\<close> and \<open>write\<close> are those of a regular file with room: a negative offset is refused, a
  read at the end of the file is short, a write behind the end fills the gap with zeros. The offset of a page
  is a product of type \<open>int\<close>; when it overflows, the flag \<open>bp_undefined\<close> is set and the model says nothing
  more about the program. The pin counts and the two counters, which only grow by one in an operation, are
  taken to stay in the range of \<open>int\<close>. Clock readings and the contents of fresh memory are arguments.
  Printing is left out.

  Shown: on a file that has all its pages, and no more than two gigabytes, any run of page operations leaves exactly the file that the
  operations describe; the victim is the least recently used unpinned frame or frame 0, which is taken even
  while it is pinned; and what \<open>main\<close> writes.
\<close>

subsection \<open>The pool\<close>

definition BP_PAGE_SIZE :: nat where
  "BP_PAGE_SIZE = 4096"

definition BP_POOL_SIZE :: nat where
  "BP_POOL_SIZE = 10"

record bp_frame =
  bp_page_id :: int
  bp_data :: string
  bp_dirty :: bool
  bp_pin_count :: int
  bp_last_access :: int

record bp_pool =
  bp_frames :: "bp_frame list"
  bp_file :: string
  bp_pos :: nat
  bp_page_faults :: nat
  bp_disk_writes :: nat
  bp_undefined :: bool

definition fd_lseek :: "int \<Rightarrow> bp_pool \<Rightarrow> bp_pool" where
  "fd_lseek off P = (if off < 0 then P else P\<lparr>bp_pos := nat off\<rparr>)"

definition fd_write :: "string \<Rightarrow> bp_pool \<Rightarrow> bp_pool" where
  "fd_write bs P =
    (let f = bp_file P @ replicate (bp_pos P - length (bp_file P)) (CHR 0x00)
     in P\<lparr>bp_file := take (bp_pos P) f @ bs @ drop (bp_pos P + length bs) f, bp_pos := bp_pos P + length bs\<rparr>)"

definition fd_read :: "nat \<Rightarrow> bp_pool \<Rightarrow> string \<times> bp_pool" where
  "fd_read n P = (let bs = take n (drop (bp_pos P) (bp_file P)) in (bs, P\<lparr>bp_pos := bp_pos P + length bs\<rparr>))"

text \<open>Moving to a page: \<open>page_id * PAGE_SIZE\<close> is a product of type \<open>int\<close>, which is undefined when it overflows.\<close>

definition seek_page :: "int \<Rightarrow> bp_pool \<Rightarrow> bp_pool" where
  "seek_page page P =
    (let off = page * int BP_PAGE_SIZE
     in if - (2 ^ 31) \<le> off \<and> off < 2 ^ 31 then fd_lseek off P else P\<lparr>bp_undefined := True\<rparr>)"

definition create_buffer_pool :: "string list \<Rightarrow> string \<Rightarrow> bp_pool" where
  "create_buffer_pool mem file =
    \<lparr>bp_frames = map (\<lambda>i. \<lparr>bp_page_id = - 1, bp_data = mem ! i, bp_dirty = False, bp_pin_count = 0,
        bp_last_access = 0\<rparr>) [0..<BP_POOL_SIZE],
     bp_file = file, bp_pos = 0, bp_page_faults = 0, bp_disk_writes = 0, bp_undefined = False\<rparr>"

definition find_lru_page :: "bp_pool \<Rightarrow> nat" where
  "find_lru_page P =
    fst (fold (\<lambda>i (lru, oldest).
        if bp_pin_count (bp_frames P ! i) = 0 \<and> bp_last_access (bp_frames P ! i) < oldest
        then (i, bp_last_access (bp_frames P ! i)) else (lru, oldest))
      [1..<BP_POOL_SIZE] (0, bp_last_access (bp_frames P ! 0)))"

definition set_frame :: "nat \<Rightarrow> bp_frame \<Rightarrow> bp_pool \<Rightarrow> bp_pool" where
  "set_frame k fr P = P\<lparr>bp_frames := (bp_frames P)[k := fr]\<rparr>"

definition bp_get_page :: "int \<Rightarrow> int \<Rightarrow> bp_pool \<Rightarrow> nat \<times> bp_pool" where
  "bp_get_page page now P =
    (case first_index 0 BP_POOL_SIZE (\<lambda>i. bp_page_id (bp_frames P ! i) = page) of
      Some i \<Rightarrow>
        (i, set_frame i ((bp_frames P ! i)\<lparr>bp_pin_count := bp_pin_count (bp_frames P ! i) + 1,
                                            bp_last_access := now\<rparr>) P)
    | None \<Rightarrow>
        (let P = P\<lparr>bp_page_faults := bp_page_faults P + 1\<rparr>;
             victim = find_lru_page P;
             frame = bp_frames P ! victim;
             P = (if bp_dirty frame
                  then (fd_write (bp_data frame) (seek_page (bp_page_id frame) P))
                         \<lparr>bp_disk_writes := bp_disk_writes P + 1\<rparr>
                  else P);
             (bs, P) = fd_read BP_PAGE_SIZE (seek_page page P)
         in (victim, set_frame victim
               \<lparr>bp_page_id = page, bp_data = bs @ drop (length bs) (bp_data frame), bp_dirty = False,
                bp_pin_count = 1, bp_last_access = now\<rparr> P)))"

definition bp_release_page :: "nat \<Rightarrow> bp_pool \<Rightarrow> bp_pool" where
  "bp_release_page k P =
    set_frame k ((bp_frames P ! k)\<lparr>bp_pin_count := bp_pin_count (bp_frames P ! k) - 1\<rparr>) P"

definition bp_mark_dirty :: "nat \<Rightarrow> bp_pool \<Rightarrow> bp_pool" where
  "bp_mark_dirty k P = set_frame k ((bp_frames P ! k)\<lparr>bp_dirty := True\<rparr>) P"

definition bp_flush_page :: "nat \<Rightarrow> bp_pool \<Rightarrow> bp_pool" where
  "bp_flush_page k P =
    (let frame = bp_frames P ! k
     in if bp_dirty frame
        then (set_frame k (frame\<lparr>bp_dirty := False\<rparr>)
               (fd_write (bp_data frame) (seek_page (bp_page_id frame) P)))
               \<lparr>bp_disk_writes := bp_disk_writes P + 1\<rparr>
        else P)"

definition destroy_buffer_pool :: "bp_pool \<Rightarrow> bp_pool" where
  "destroy_buffer_pool P =
    for_range 0 BP_POOL_SIZE (\<lambda>i P. if bp_dirty (bp_frames P ! i) then bp_flush_page i P else P) P"

text \<open>The client overwrites the start of a frame's data with a string and its terminating zero.\<close>

definition bp_strcpy :: "nat \<Rightarrow> string \<Rightarrow> bp_pool \<Rightarrow> bp_pool" where
  "bp_strcpy k str P =
    (let bs = str @ [CHR 0x00]
     in set_frame k ((bp_frames P ! k)\<lparr>bp_data := bs @ drop (length bs) (bp_data (bp_frames P ! k))\<rparr>) P)"

definition bp_main :: "string list \<Rightarrow> string \<Rightarrow> (nat \<Rightarrow> int) \<Rightarrow> bp_pool" where
  "bp_main mem file clock =
    (let P = create_buffer_pool mem file;
         (page1, P) = bp_get_page 1 (clock 0) P;
         (page5, P) = bp_get_page 5 (clock 1) P;
         (page10, P) = bp_get_page 10 (clock 2) P;
         P = bp_mark_dirty page1 (bp_strcpy page1 ''Updated data for page 1'' P);
         P = bp_release_page page10 (bp_release_page page5 (bp_release_page page1 P));
         (page2, P) = bp_get_page 2 (clock 3) P;
         (page5, P) = bp_get_page 5 (clock 4) P;
         (page15, P) = bp_get_page 15 (clock 5) P;
         P = bp_mark_dirty page2 (bp_strcpy page2 ''New data for page 2'' P);
         P = bp_release_page page15 (bp_release_page page5 (bp_release_page page2 P))
     in destroy_buffer_pool P)"

subsection \<open>Files of pages\<close>

definition file_page :: "string \<Rightarrow> nat \<Rightarrow> string" where
  "file_page f p = take BP_PAGE_SIZE (drop (p * BP_PAGE_SIZE) f)"

lemma length_file_page: "(p + 1) * BP_PAGE_SIZE \<le> length f \<Longrightarrow> length (file_page f p) = BP_PAGE_SIZE"
  by (simp add: file_page_def)

lemma slice_before:
  "c + n \<le> a \<Longrightarrow> a \<le> length f \<Longrightarrow> take n (drop c (take a f @ zs)) = take n (drop c f)"
  by (simp add: drop_take)

lemma slice_behind:
  "a + length bs \<le> c \<Longrightarrow> a \<le> length f \<Longrightarrow> drop c (take a f @ bs @ drop (a + length bs) f) = drop c f"
  by simp

lemma file_page_write:
  assumes "(p + 1) * BP_PAGE_SIZE \<le> length f" "(q + 1) * BP_PAGE_SIZE \<le> length f" "length bs = BP_PAGE_SIZE"
  shows "file_page (take (q * BP_PAGE_SIZE) f @ bs @ drop (q * BP_PAGE_SIZE + BP_PAGE_SIZE) f) p =
    (if p = q then bs else file_page f p)"
proof (cases "p = q")
  case True
  with assms show ?thesis by (simp add: file_page_def)
next
  case False
  then consider "p + 1 \<le> q" | "q + 1 \<le> p" by linarith
  then show ?thesis
  proof cases
    case 1
    then have "(p + 1) * BP_PAGE_SIZE \<le> q * BP_PAGE_SIZE" by (rule mult_le_mono1)
    then show ?thesis using False assms(2) unfolding file_page_def by (subst slice_before) simp_all
  next
    case 2
    then have "(q + 1) * BP_PAGE_SIZE \<le> p * BP_PAGE_SIZE" by (rule mult_le_mono1)
    then show ?thesis using False assms(2,3) slice_behind [of "q * BP_PAGE_SIZE" bs "p * BP_PAGE_SIZE" f]
      unfolding file_page_def by simp
  qed
qed

subsection \<open>The invariant and the contents of the pages\<close>

definition frame_ok :: "nat \<Rightarrow> string \<Rightarrow> bp_frame \<Rightarrow> bool" where
  "frame_ok n f fr \<longleftrightarrow> length (bp_data fr) = BP_PAGE_SIZE \<and>
    (bp_page_id fr = - 1 \<and> \<not> bp_dirty fr \<or>
     (\<exists>p<n. bp_page_id fr = int p \<and> (\<not> bp_dirty fr \<longrightarrow> bp_data fr = file_page f p)))"

definition bp_ok :: "nat \<Rightarrow> bp_pool \<Rightarrow> bool" where
  "bp_ok n P \<longleftrightarrow> \<not> bp_undefined P \<and> n \<le> 2 ^ 19 \<and> length (bp_frames P) = BP_POOL_SIZE \<and> length (bp_file P) = n * BP_PAGE_SIZE \<and>
    (\<forall>i<BP_POOL_SIZE. frame_ok n (bp_file P) (bp_frames P ! i)) \<and>
    (\<forall>i<BP_POOL_SIZE. \<forall>j<BP_POOL_SIZE. bp_page_id (bp_frames P ! i) = bp_page_id (bp_frames P ! j) \<longrightarrow>
      bp_page_id (bp_frames P ! i) \<noteq> - 1 \<longrightarrow> i = j)"

definition page_view :: "bp_pool \<Rightarrow> nat \<Rightarrow> string" where
  "page_view P p =
    (case first_index 0 BP_POOL_SIZE (\<lambda>i. bp_page_id (bp_frames P ! i) = int p) of
      Some i \<Rightarrow> bp_data (bp_frames P ! i) | None \<Rightarrow> file_page (bp_file P) p)"

lemma page_view_resident:
  assumes "bp_ok n P" "k < BP_POOL_SIZE" "bp_page_id (bp_frames P ! k) = int p"
  shows "page_view P p = bp_data (bp_frames P ! k)"
proof (cases "first_index 0 BP_POOL_SIZE (\<lambda>i. bp_page_id (bp_frames P ! i) = int p)")
  case None
  with assms show ?thesis by (auto simp: first_index_None_iff)
next
  case (Some i)
  with first_index_SomeD(2,3) [OF Some] assms have "i = k" by (auto simp: bp_ok_def)
  with Some show ?thesis by (simp add: page_view_def)
qed

lemma page_view_absent:
  "\<forall>i<BP_POOL_SIZE. bp_page_id (bp_frames P ! i) \<noteq> int p \<Longrightarrow> page_view P p = file_page (bp_file P) p"
  using first_index_None_iff [of 0 BP_POOL_SIZE "\<lambda>i. bp_page_id (bp_frames P ! i) = int p"]
  by (simp add: page_view_def)

lemma page_view_length: "bp_ok n P \<Longrightarrow> p < n \<Longrightarrow> length (page_view P p) = BP_PAGE_SIZE"
proof (cases "\<exists>k<BP_POOL_SIZE. bp_page_id (bp_frames P ! k) = int p")
  case False
  assume "bp_ok n P" "p < n"
  moreover from this have "(p + 1) * BP_PAGE_SIZE \<le> n * BP_PAGE_SIZE" by (intro mult_le_mono1) simp
  ultimately show ?thesis using False page_view_absent [of P p] length_file_page [of p "bp_file P"]
    by (auto simp: bp_ok_def)
next
  case True
  assume "bp_ok n P"
  with True show ?thesis using page_view_resident [of n P _ p] by (auto simp: bp_ok_def frame_ok_def)
qed

lemma set_frame_simps [simp]:
  "bp_frames (set_frame k fr P) = (bp_frames P)[k := fr]" "bp_file (set_frame k fr P) = bp_file P"
  "bp_undefined (set_frame k fr P) = bp_undefined P"
  by (simp_all add: set_frame_def)

lemma fd_simps [simp]:
  "bp_frames (seek_page q P) = bp_frames P" "bp_file (seek_page q P) = bp_file P"
  "bp_frames (fd_write bs P) = bp_frames P" "bp_frames (snd (fd_read n P)) = bp_frames P"
  "bp_file (snd (fd_read n P)) = bp_file P" "bp_undefined (fd_write bs P) = bp_undefined P"
  by (simp_all add: seek_page_def fd_lseek_def fd_write_def fd_read_def Let_def)

lemma seek_page_in: "q < n \<Longrightarrow> n \<le> 2 ^ 19 \<Longrightarrow> seek_page (int q) P = P\<lparr>bp_pos := q * BP_PAGE_SIZE\<rparr>"
  by (simp add: seek_page_def fd_lseek_def BP_PAGE_SIZE_def nat_mult_distrib)

lemma seek_page_out: "n \<ge> 2 ^ 19 \<Longrightarrow> seek_page (int n) P = P\<lparr>bp_undefined := True\<rparr>"
  by (simp add: seek_page_def BP_PAGE_SIZE_def)

lemma fd_read_page: "p < n \<Longrightarrow> n \<le> 2 ^ 19 \<Longrightarrow> fd_read BP_PAGE_SIZE (seek_page (int p) P) =
    (file_page (bp_file P) p, P\<lparr>bp_pos := p * BP_PAGE_SIZE + length (file_page (bp_file P) p)\<rparr>)"
  by (simp add: seek_page_in fd_read_def file_page_def Let_def)

text \<open>Changing the pin count and the access time of a frame changes no page.\<close>

lemma touch_frame:
  assumes "bp_ok n P" "k < BP_POOL_SIZE" "fr = (bp_frames P ! k)\<lparr>bp_pin_count := c, bp_last_access := t\<rparr>"
  shows "bp_ok n (set_frame k fr P)" "page_view (set_frame k fr P) = page_view P"
proof -
  have same: "bp_page_id (((bp_frames P)[k := fr]) ! i) = bp_page_id (bp_frames P ! i)"
    "bp_data (((bp_frames P)[k := fr]) ! i) = bp_data (bp_frames P ! i)"
    "bp_dirty (((bp_frames P)[k := fr]) ! i) = bp_dirty (bp_frames P ! i)" for i
    using assms by (cases "i = k"; simp add: bp_ok_def)+
  show "bp_ok n (set_frame k fr P)" using assms(1) by (simp add: bp_ok_def frame_ok_def same)
  show "page_view (set_frame k fr P) = page_view P" by (simp add: page_view_def same fun_eq_iff split: option.split)
qed

text \<open>Writing a dirty frame back changes no page and leaves the frame clean.\<close>

lemma write_back_file:
  assumes "bp_ok n P" "k < BP_POOL_SIZE" "bp_dirty (bp_frames P ! k)"
  obtains q where "q < n" "bp_page_id (bp_frames P ! k) = int q"
    "length (bp_file (bp_flush_page k P)) = n * BP_PAGE_SIZE" "\<not> bp_undefined (bp_flush_page k P)"
    "\<And>p. p < n \<Longrightarrow> file_page (bp_file (bp_flush_page k P)) p =
      (if p = q then bp_data (bp_frames P ! k) else file_page (bp_file P) p)"
proof -
  let ?fr = "bp_frames P ! k"
  obtain q where q: "q < n" "bp_page_id ?fr = int q" "length (bp_data ?fr) = BP_PAGE_SIZE"
    using assms by (auto simp: bp_ok_def frame_ok_def)
  have len: "length (bp_file P) = n * BP_PAGE_SIZE" using assms(1) by (simp add: bp_ok_def)
  have le: "(p + 1) * BP_PAGE_SIZE \<le> length (bp_file P)" if "p < n" for p
    unfolding len using that by (intro mult_le_mono1) simp
  have f: "bp_file (bp_flush_page k P) =
      take (q * BP_PAGE_SIZE) (bp_file P) @ bp_data ?fr @ drop (q * BP_PAGE_SIZE + BP_PAGE_SIZE) (bp_file P)"
    using assms q le [OF q(1)]
    by (simp add: bp_flush_page_def fd_write_def seek_page_in bp_ok_def Let_def)
  show thesis
  proof (rule that [OF q(1,2)])
    show "length (bp_file (bp_flush_page k P)) = n * BP_PAGE_SIZE"
      using le [OF q(1)] q(3) by (simp add: f len)
    show "\<not> bp_undefined (bp_flush_page k P)"
      using assms q by (simp add: bp_flush_page_def seek_page_in bp_ok_def Let_def)
  qed (use le q file_page_write in \<open>simp add: f\<close>)
qed

lemma flush_frames: "bp_frames (bp_flush_page k P) =
    (if bp_dirty (bp_frames P ! k) then (bp_frames P)[k := (bp_frames P ! k)\<lparr>bp_dirty := False\<rparr>] else bp_frames P)"
  by (simp add: bp_flush_page_def Let_def)

lemma flush_page_ok:
  assumes "bp_ok n P" "k < BP_POOL_SIZE"
  shows "bp_ok n (bp_flush_page k P)" "\<And>p. p < n \<Longrightarrow> page_view (bp_flush_page k P) p = page_view P p"
    "\<not> bp_dirty (bp_frames (bp_flush_page k P) ! k)"
proof -
  let ?P = "bp_flush_page k P"
  have id: "bp_page_id (bp_frames ?P ! i) = bp_page_id (bp_frames P ! i)"
    "bp_data (bp_frames ?P ! i) = bp_data (bp_frames P ! i)" for i
    using assms by (cases "i = k"; simp add: flush_frames bp_ok_def)+
  have clean: "bp_dirty (bp_frames ?P ! i) = (bp_dirty (bp_frames P ! i) \<and> i \<noteq> k)" for i
    using assms by (cases "i = k"; simp add: flush_frames bp_ok_def)
  then show "\<not> bp_dirty (bp_frames ?P ! k)" by simp
  have both: "bp_ok n ?P \<and> (\<forall>p<n. page_view ?P p = page_view P p)"
  proof (cases "bp_dirty (bp_frames P ! k)")
    case False
    then show ?thesis using assms(1) by (simp add: bp_flush_page_def Let_def)
  next
    case True
    obtain q where q: "q < n" "bp_page_id (bp_frames P ! k) = int q" "length (bp_file ?P) = n * BP_PAGE_SIZE" "\<not> bp_undefined ?P"
      "\<And>p. p < n \<Longrightarrow> file_page (bp_file ?P) p =
        (if p = q then bp_data (bp_frames P ! k) else file_page (bp_file P) p)"
      using write_back_file [OF assms True] by metis
    have "frame_ok n (bp_file ?P) (bp_frames ?P ! i)" if i: "i < BP_POOL_SIZE" for i
    proof (cases "i = k")
      case True
      then show ?thesis using assms q i by (auto simp: frame_ok_def id clean bp_ok_def)
    next
      case False
      have "frame_ok n (bp_file P) (bp_frames P ! i)" using assms(1) i by (simp add: bp_ok_def)
      moreover have "bp_page_id (bp_frames P ! i) \<noteq> int q"
        using False assms i q(2) unfolding bp_ok_def by auto
      ultimately show ?thesis using False q(5) by (auto simp: frame_ok_def id clean)
    qed
    moreover have "length (bp_frames ?P) = BP_POOL_SIZE" using assms(1) by (simp add: bp_ok_def flush_frames)
    ultimately have "bp_ok n ?P" using assms(1) q(3,4) by (simp add: bp_ok_def id)
    moreover have "page_view ?P p = page_view P p" if "p < n" for p
    proof (cases "\<exists>i<BP_POOL_SIZE. bp_page_id (bp_frames P ! i) = int p")
      case True
      then obtain i where "i < BP_POOL_SIZE" "bp_page_id (bp_frames P ! i) = int p" by blast
      then show ?thesis using page_view_resident [OF assms(1)] page_view_resident [OF \<open>bp_ok n ?P\<close>] id by metis
    next
      case False
      then have "p \<noteq> q" using q(2) assms(2) by auto
      then show ?thesis using False q(5) [OF that] by (simp add: page_view_absent id)
    qed
    ultimately show ?thesis by blast
  qed
  then show "bp_ok n ?P" "\<And>p. p < n \<Longrightarrow> page_view ?P p = page_view P p" by auto
qed

lemma seek_page_frames:
  "seek_page q (P\<lparr>bp_frames := F\<rparr>) = (seek_page q P)\<lparr>bp_frames := F\<rparr>"
  "seek_page q (P\<lparr>bp_disk_writes := d\<rparr>) = (seek_page q P)\<lparr>bp_disk_writes := d\<rparr>"
  by (simp_all add: seek_page_def fd_lseek_def Let_def)

text \<open>A miss writes the victim back and then loads the page into the clean frame.\<close>

lemma get_page_miss:
  assumes "first_index 0 BP_POOL_SIZE (\<lambda>i. bp_page_id (bp_frames P ! i) = page) = None"
  shows "bp_get_page page now P =
    (let v = find_lru_page P;
         P1 = bp_flush_page v (P\<lparr>bp_page_faults := bp_page_faults P + 1\<rparr>);
         (bs, P2) = fd_read BP_PAGE_SIZE (seek_page page P1)
     in (v, set_frame v \<lparr>bp_page_id = page, bp_data = bs @ drop (length bs) (bp_data (bp_frames P ! v)),
           bp_dirty = False, bp_pin_count = 1, bp_last_access = now\<rparr> P2))"
proof -
  have "find_lru_page (P\<lparr>bp_page_faults := c\<rparr>) = find_lru_page P" for c
    by (simp add: find_lru_page_def cong: if_cong)
  with assms show ?thesis
    by (cases "bp_dirty (bp_frames P ! find_lru_page P)")
      (simp_all add: bp_get_page_def bp_flush_page_def set_frame_def fd_read_def seek_page_frames
        Let_def cong: if_cong)
qed

lemma load_page_ok:
  assumes "bp_ok n P" "v < BP_POOL_SIZE" "\<not> bp_dirty (bp_frames P ! v)" "p < n"
    and "\<forall>i<BP_POOL_SIZE. bp_page_id (bp_frames P ! i) \<noteq> int p"
    and "bp_page_id fr = int p" "bp_data fr = file_page (bp_file P) p" "\<not> bp_dirty fr"
  shows "bp_ok n (set_frame v fr P)" "\<And>q. q < n \<Longrightarrow> page_view (set_frame v fr P) q = page_view P q"
proof -
  let ?P = "set_frame v fr P"
  have nth: "bp_frames ?P ! i = (if i = v then fr else bp_frames P ! i)" for i
    using assms(1,2) by (cases "i = v") (simp_all add: bp_ok_def)
  have "length (bp_data fr) = BP_PAGE_SIZE"
    using page_view_length [OF assms(1,4)] page_view_absent [OF assms(5)] assms(7) by simp
  then have fr: "frame_ok n (bp_file P) fr" using assms(4,6-8) by (auto simp: frame_ok_def)
  have "frame_ok n (bp_file ?P) (bp_frames ?P ! i)" if "i < BP_POOL_SIZE" for i
    using assms(1) fr that by (simp add: bp_ok_def nth del: set_frame_simps(1))
  moreover have "i = j" if "i < BP_POOL_SIZE" "j < BP_POOL_SIZE" "bp_page_id (bp_frames ?P ! i) = bp_page_id (bp_frames ?P ! j)"
    "bp_page_id (bp_frames ?P ! i) \<noteq> - 1" for i j
    using that assms(1,5,6) by (auto simp: bp_ok_def nth simp del: set_frame_simps(1) split: if_splits)
  moreover have "\<not> bp_undefined ?P" "n \<le> 2 ^ 19" "length (bp_frames ?P) = BP_POOL_SIZE" "length (bp_file ?P) = n * BP_PAGE_SIZE"
    using assms(1) by (simp_all add: bp_ok_def)
  ultimately show ok: "bp_ok n ?P" unfolding bp_ok_def by blast
  fix q assume q: "q < n"
  consider (new) "q = p" | (evicted) "q \<noteq> p" "bp_page_id (bp_frames P ! v) = int q"
    | (kept) i where "i < BP_POOL_SIZE" "i \<noteq> v" "bp_page_id (bp_frames P ! i) = int q"
    | (absent) "q \<noteq> p" "\<forall>i<BP_POOL_SIZE. bp_page_id (bp_frames P ! i) \<noteq> int q"
    using assms(2) by blast
  then show "page_view ?P q = page_view P q"
  proof cases
    case new
    then show ?thesis using page_view_resident [OF ok assms(2), of p] page_view_absent [OF assms(5)] assms(6,7)
      by (simp add: nth del: set_frame_simps(1))
  next
    case evicted
    have "bp_page_id (bp_frames ?P ! i) \<noteq> int q" if "i < BP_POOL_SIZE" for i
      using that evicted assms(1,2,6) by (auto simp: nth bp_ok_def simp del: set_frame_simps(1))
    then have "page_view ?P q = file_page (bp_file P) q" by (simp add: page_view_absent)
    moreover have "bp_data (bp_frames P ! v) = file_page (bp_file P) q"
      using assms(1-3) evicted(2) by (auto simp: bp_ok_def frame_ok_def)
    ultimately show ?thesis using page_view_resident [OF assms(1,2) evicted(2)] by simp
  next
    case kept
    then show ?thesis using page_view_resident [OF ok kept(1), of q] page_view_resident [OF assms(1) kept(1,3)]
      by (simp add: nth del: set_frame_simps(1))
  next
    case absent
    then have "bp_page_id (bp_frames ?P ! i) \<noteq> int q" if "i < BP_POOL_SIZE" for i
      using that assms(6) by (auto simp: nth simp del: set_frame_simps(1))
    then show ?thesis using page_view_absent [OF absent(2)] page_view_absent [of ?P q] by simp
  qed
qed

lemma find_lru_bound: "find_lru_page P < BP_POOL_SIZE"
proof -
  have "fst (fold (\<lambda>i (lru, oldest). if A i oldest then (i, B i) else (lru, oldest)) is (l, x)) < BP_POOL_SIZE"
    if "\<forall>i\<in>set is. i < BP_POOL_SIZE" "l < BP_POOL_SIZE" for A B l "is" and x :: int
    using that by (induction "is" arbitrary: l x) auto
  note bound = this
  show ?thesis unfolding find_lru_page_def by (rule bound) (auto simp: BP_POOL_SIZE_def)
qed

lemma get_page_ok:
  assumes "bp_ok n P" "p < n" "bp_get_page (int p) now P = (k, P')"
  shows "k < BP_POOL_SIZE" "bp_ok n P'" "bp_page_id (bp_frames P' ! k) = int p"
    "\<And>q. q < n \<Longrightarrow> page_view P' q = page_view P q"
proof -
  let ?hit = "first_index 0 BP_POOL_SIZE (\<lambda>i. bp_page_id (bp_frames P ! i) = int p)"
  have "k < BP_POOL_SIZE \<and> bp_ok n P' \<and> bp_page_id (bp_frames P' ! k) = int p \<and> (\<forall>q<n. page_view P' q = page_view P q)"
  proof (cases ?hit)
    case (Some i)
    let ?fr = "(bp_frames P ! i)\<lparr>bp_pin_count := bp_pin_count (bp_frames P ! i) + 1, bp_last_access := now\<rparr>"
    have "k = i" "P' = set_frame i ?fr P" using assms(3) Some by (auto simp: bp_get_page_def)
    with first_index_SomeD(2,3) [OF Some] touch_frame [OF assms(1), of i ?fr] assms(1)
    show ?thesis by (auto simp: bp_ok_def)
  next
    case None
    let ?v = "find_lru_page P" and ?P1 = "bp_flush_page (find_lru_page P) (P\<lparr>bp_page_faults := bp_page_faults P + 1\<rparr>)"
    let ?fr = "\<lparr>bp_page_id = int p, bp_data = file_page (bp_file ?P1) p, bp_dirty = False, bp_pin_count = 1,
        bp_last_access = now\<rparr>"
    let ?P2 = "?P1\<lparr>bp_pos := p * BP_PAGE_SIZE + BP_PAGE_SIZE\<rparr>"
    have ok0: "bp_ok n (P\<lparr>bp_page_faults := c\<rparr>)" "page_view (P\<lparr>bp_page_faults := c\<rparr>) = page_view P" for c
      using assms(1) by (simp_all add: bp_ok_def page_view_def fun_eq_iff split: option.split)
    note ok1 = flush_page_ok [OF ok0(1) find_lru_bound]
    have ok2: "bp_ok n ?P2" "page_view ?P2 = page_view ?P1" "bp_frames ?P2 = bp_frames ?P1"
      using ok1(1) by (simp_all add: bp_ok_def page_view_def fun_eq_iff split: option.split)
    have absent: "\<forall>i<BP_POOL_SIZE. bp_page_id (bp_frames P ! i) \<noteq> int p"
      using None by (auto simp: first_index_None_iff)
    then have absent1: "\<forall>i<BP_POOL_SIZE. bp_page_id (bp_frames ?P2 ! i) \<noteq> int p"
      using find_lru_bound [of P] assms(1) by (auto simp: flush_frames nth_list_update bp_ok_def)
    have len: "length (file_page (bp_file ?P1) p) = BP_PAGE_SIZE" "length (bp_data (bp_frames P ! ?v)) = BP_PAGE_SIZE"
      using page_view_length [OF ok2(1) assms(2)] page_view_absent [OF absent1] assms(1) find_lru_bound [of P]
      by (simp_all add: bp_ok_def frame_ok_def)
    have "bp_get_page (int p) now P = (?v, set_frame ?v ?fr ?P2)"
      unfolding get_page_miss [OF None] using len assms(1,2) by (simp add: Let_def fd_read_page bp_ok_def)
    with assms(3) have "(k, P') = (?v, set_frame ?v ?fr ?P2)" by (rule trans [OF sym])
    then have eq: "k = ?v" "P' = set_frame ?v ?fr ?P2" by blast+
    have "\<not> bp_dirty (bp_frames ?P2 ! ?v)" using ok1(3) ok2(3) by simp
    note ld = load_page_ok [OF ok2(1) find_lru_bound [of P] this assms(2) absent1, of ?fr]
    have "bp_ok n P'" unfolding eq by (rule ld(1)) simp_all
    moreover have "page_view P' q = page_view P q" if "q < n" for q
      unfolding eq using ld(2) [OF _ _ _ that] ok1(2) [OF that] ok0(2) ok2(2) by simp
    moreover have "bp_page_id (bp_frames P' ! k) = int p"
      using ok2(1) find_lru_bound [of P] by (simp add: eq bp_ok_def)
    ultimately show ?thesis using find_lru_bound [of P] eq(1) by simp
  qed
  then show "k < BP_POOL_SIZE" "bp_ok n P'" "bp_page_id (bp_frames P' ! k) = int p"
    "\<And>q. q < n \<Longrightarrow> page_view P' q = page_view P q" by auto
qed

text \<open>Overwriting the start of a frame and marking it dirty changes its page and no other.\<close>

lemma strcpy_ok:
  assumes "bp_ok n P" "k < BP_POOL_SIZE" "bp_page_id (bp_frames P ! k) = int p" "length str < BP_PAGE_SIZE"
  shows "bp_ok n (bp_mark_dirty k (bp_strcpy k str P))" (is "bp_ok n ?P")
    "page_view (bp_mark_dirty k (bp_strcpy k str P)) q =
      (if q = p then str @ [CHR 0x00] @ drop (length str + 1) (page_view P p) else page_view P q)"
proof -
  let ?fr = "bp_frames P ! k" and ?bs = "str @ [CHR 0x00]"
  have k: "k < length (bp_frames P)" using assms(1,2) by (simp add: bp_ok_def)
  then have fr: "bp_frames ?P = (bp_frames P)[k := ?fr\<lparr>bp_data := ?bs @ drop (length ?bs) (bp_data ?fr), bp_dirty := True\<rparr>]"
    "bp_file ?P = bp_file P" "bp_undefined ?P = bp_undefined P"
    by (simp_all add: bp_mark_dirty_def bp_strcpy_def Let_def)
  have nth: "bp_frames ?P ! i = (if i = k
      then ?fr\<lparr>bp_data := ?bs @ drop (length ?bs) (bp_data ?fr), bp_dirty := True\<rparr> else bp_frames P ! i)" for i
    using k by (cases "i = k") (simp_all add: fr)
  have len: "length (bp_data ?fr) = BP_PAGE_SIZE" and p: "p < n"
    using assms(1-3) by (auto simp: bp_ok_def frame_ok_def)
  have id: "bp_page_id (bp_frames ?P ! i) = bp_page_id (bp_frames P ! i)" for i by (simp add: nth)
  have "frame_ok n (bp_file ?P) (bp_frames ?P ! i)" if "i < BP_POOL_SIZE" for i
    using assms(1,3,4) that len p by (cases "i = k") (simp_all add: bp_ok_def nth fr(2) frame_ok_def)
  moreover have "length (bp_frames ?P) = BP_POOL_SIZE" using assms(1) by (simp add: bp_ok_def fr(1))
  ultimately show ok: "bp_ok n ?P" using assms(1) unfolding bp_ok_def by (simp add: id fr(2,3))
  show "page_view ?P q = (if q = p then str @ [CHR 0x00] @ drop (length str + 1) (page_view P p) else page_view P q)"
  proof (cases "q = p")
    case True
    then show ?thesis
      using page_view_resident [OF ok assms(2), of p] page_view_resident [OF assms(1-3)] assms(3) by (simp add: nth)
  next
    case False
    have "bp_data (bp_frames ?P ! i) = bp_data (bp_frames P ! i)" if "bp_page_id (bp_frames P ! i) = int q" for i
      using that False assms(3) by (auto simp: nth)
    then show ?thesis using False first_index_SomeD(3) [of 0 BP_POOL_SIZE "\<lambda>i. bp_page_id (bp_frames P ! i) = int q"]
      by (simp add: page_view_def id fr(2) split: option.split)
  qed
qed

lemma destroy_ok:
  assumes "bp_ok n P" "p < n"
  shows "file_page (bp_file (destroy_buffer_pool P)) p = page_view P p"
    "length (bp_file (destroy_buffer_pool P)) = n * BP_PAGE_SIZE" "\<not> bp_undefined (destroy_buffer_pool P)"
proof -
  let ?D = "\<lambda>m. for_range 0 m (\<lambda>i P. if bp_dirty (bp_frames P ! i) then bp_flush_page i P else P) P"
  have loop: "bp_ok n (?D m) \<and> (\<forall>q<n. page_view (?D m) q = page_view P q) \<and> (\<forall>i<m. \<not> bp_dirty (bp_frames (?D m) ! i))"
    if "m \<le> BP_POOL_SIZE" for m
    using that
  proof (induction m)
    case (Suc m)
    let ?Q = "?D m"
    have Q: "bp_ok n ?Q" "\<forall>q<n. page_view ?Q q = page_view P q" "\<forall>i<m. \<not> bp_dirty (bp_frames ?Q ! i)"
      using Suc by simp_all
    have "?D (Suc m) = bp_flush_page m ?Q"
      by (simp add: for_range_last) (simp add: bp_flush_page_def Let_def)
    moreover have "\<not> bp_dirty (bp_frames (bp_flush_page m ?Q) ! i)" if "i < Suc m" for i
      using Q flush_page_ok(3) [OF Q(1), of m] Suc.prems that
      by (cases "i = m") (auto simp: flush_frames less_Suc_eq)
    ultimately show ?case using flush_page_ok(1,2) [OF Q(1), of m] Q(2) Suc.prems by simp
  qed (simp add: assms(1) for_range_empty)
  let ?E = "destroy_buffer_pool P"
  have E: "bp_ok n ?E" "page_view ?E p = page_view P p" "\<forall>i<BP_POOL_SIZE. \<not> bp_dirty (bp_frames ?E ! i)"
    using loop [of BP_POOL_SIZE] assms(2) by (simp_all add: destroy_buffer_pool_def)
  show "length (bp_file ?E) = n * BP_PAGE_SIZE" "\<not> bp_undefined ?E" using E(1) by (simp_all add: bp_ok_def)
  show "file_page (bp_file ?E) p = page_view P p"
  proof (cases "\<exists>k<BP_POOL_SIZE. bp_page_id (bp_frames ?E ! k) = int p")
    case True
    then obtain k where k: "k < BP_POOL_SIZE" "bp_page_id (bp_frames ?E ! k) = int p" by blast
    then have "bp_data (bp_frames ?E ! k) = file_page (bp_file ?E) p"
      using E(1,3) by (auto simp: bp_ok_def frame_ok_def)
    then show ?thesis using page_view_resident [OF E(1) k] E(2) by simp
  next
    case False
    then show ?thesis using page_view_absent [of ?E p] E(2) by auto
  qed
qed

lemma create_ok:
  assumes "length mem = BP_POOL_SIZE" "list_all (\<lambda>m. length m = BP_PAGE_SIZE) mem" "length file = n * BP_PAGE_SIZE"
    and "n \<le> 2 ^ 19"
  shows "bp_ok n (create_buffer_pool mem file)" "page_view (create_buffer_pool mem file) = file_page file"
proof -
  show "bp_ok n (create_buffer_pool mem file)"
    using assms by (simp add: bp_ok_def create_buffer_pool_def frame_ok_def list_all_length)
  show "page_view (create_buffer_pool mem file) = file_page file"
    by (rule ext, subst page_view_absent) (simp_all add: create_buffer_pool_def)
qed

subsection \<open>Runs of the pool and the victim\<close>

text \<open>A client gets a page, gets a page and writes a string to its start, releases a frame, or flushes one.\<close>

datatype pool_op = UsePage nat int | WritePage nat string int | ReleaseFrame nat | FlushFrame nat

fun pool_exec :: "pool_op \<Rightarrow> bp_pool \<Rightarrow> bp_pool" where
  "pool_exec (UsePage p now) P = snd (bp_get_page (int p) now P)"
| "pool_exec (WritePage p str now) P = (let (k, P) = bp_get_page (int p) now P in bp_mark_dirty k (bp_strcpy k str P))"
| "pool_exec (ReleaseFrame k) P = bp_release_page k P"
| "pool_exec (FlushFrame k) P = bp_flush_page k P"

fun page_op :: "pool_op \<Rightarrow> (nat \<Rightarrow> string) \<Rightarrow> nat \<Rightarrow> string" where
  "page_op (WritePage p str now) m = m(p := str @ [CHR 0x00] @ drop (length str + 1) (m p))"
| "page_op _ m = m"

fun pool_op_ok :: "nat \<Rightarrow> pool_op \<Rightarrow> bool" where
  "pool_op_ok n (UsePage p now) = (p < n)"
| "pool_op_ok n (WritePage p str now) = (p < n \<and> length str < BP_PAGE_SIZE)"
| "pool_op_ok n (ReleaseFrame k) = (k < BP_POOL_SIZE)"
| "pool_op_ok n (FlushFrame k) = (k < BP_POOL_SIZE)"

lemma pool_op_refines:
  assumes "bp_ok n P" "pool_op_ok n op"
  shows "bp_ok n (pool_exec op P) \<and> (\<forall>p<n. page_view (pool_exec op P) p = page_op op (page_view P) p)"
proof (cases op)
  case (UsePage p now)
  then show ?thesis using get_page_ok [OF assms(1), of p now] assms(2) by (cases "bp_get_page (int p) now P") auto
next
  case (WritePage p str now)
  obtain k Q where g: "bp_get_page (int p) now P = (k, Q)" by fastforce
  note ok = get_page_ok [OF assms(1) _ g]
  have "p < n" "length str < BP_PAGE_SIZE" using assms(2) WritePage by auto
  then show ?thesis using ok strcpy_ok [of n Q k p str] WritePage g by auto
next
  case (ReleaseFrame k)
  let ?fr = "bp_frames P ! k"
  have "bp_release_page k P = set_frame k (?fr\<lparr>bp_pin_count := bp_pin_count ?fr - 1, bp_last_access := bp_last_access ?fr\<rparr>) P"
    by (simp add: bp_release_page_def)
  then show ?thesis using touch_frame [OF assms(1), of k _ "bp_last_access ?fr" "bp_pin_count ?fr - 1"] ReleaseFrame assms(2)
    by simp
next
  case (FlushFrame k)
  then show ?thesis using flush_page_ok [OF assms(1)] assms(2) by auto
qed

lemma page_op_local: "m p = m' p \<Longrightarrow> page_op op m p = page_op op m' p"
  by (cases op) auto

lemma page_ops_local: "m p = m' p \<Longrightarrow> fold page_op ops m p = fold page_op ops m' p"
proof (induction ops arbitrary: m m')
  case (Cons op ops)
  have "page_op op m p = page_op op m' p" using Cons.prems by (rule page_op_local)
  from Cons.IH [of "page_op op m" "page_op op m'", OF this] show ?case by simp
qed simp

lemma pool_run_refines:
  assumes "bp_ok n P" "list_all (pool_op_ok n) ops"
  shows "bp_ok n (fold pool_exec ops P)"
    "p < n \<Longrightarrow> page_view (fold pool_exec ops P) p = fold page_op ops (page_view P) p"
proof -
  have "bp_ok n (fold pool_exec ops P) \<and> (\<forall>p<n. page_view (fold pool_exec ops P) p = fold page_op ops (page_view P) p)"
    using assms
  proof (induction ops arbitrary: P)
    case (Cons op ops)
    have op: "bp_ok n (pool_exec op P)" "\<forall>p<n. page_view (pool_exec op P) p = page_op op (page_view P) p"
      using pool_op_refines [of n P op] Cons.prems by simp_all
    have "fold page_op ops (page_view (pool_exec op P)) p = fold page_op ops (page_op op (page_view P)) p" if "p < n" for p
      using op(2) that by (intro page_ops_local) simp
    with Cons.IH [OF op(1)] Cons.prems(2) show ?case by simp
  qed simp
  then show "bp_ok n (fold pool_exec ops P)"
    "p < n \<Longrightarrow> page_view (fold pool_exec ops P) p = fold page_op ops (page_view P) p" by simp_all
qed

lemma find_lru_spec:
  assumes "v = find_lru_page P"
  shows "(v = 0 \<or> bp_pin_count (bp_frames P ! v) = 0 \<and> bp_last_access (bp_frames P ! v) < bp_last_access (bp_frames P ! 0)) \<and>
    (\<forall>i. 1 \<le> i \<and> i < BP_POOL_SIZE \<and> bp_pin_count (bp_frames P ! i) = 0 \<longrightarrow>
      bp_last_access (bp_frames P ! v) \<le> bp_last_access (bp_frames P ! i))"
proof -
  let ?t = "\<lambda>i. bp_last_access (bp_frames P ! i)" and ?e = "\<lambda>i. bp_pin_count (bp_frames P ! i) = 0"
  let ?r = "\<lambda>m. fold (\<lambda>i (lru, oldest). if ?e i \<and> ?t i < oldest then (i, ?t i) else (lru, oldest)) [1..<m] (0, ?t 0)"
  have "snd (?r m) = ?t (fst (?r m)) \<and> (fst (?r m) = 0 \<or> ?e (fst (?r m)) \<and> ?t (fst (?r m)) < ?t 0) \<and>
      ?t (fst (?r m)) \<le> ?t 0 \<and> (\<forall>i. 1 \<le> i \<and> i < m \<and> ?e i \<longrightarrow> ?t (fst (?r m)) \<le> ?t i)" for m
  proof (induction m)
    case (Suc m)
    obtain a b where r: "?r m = (a, b)" by fastforce
    show ?case
    proof (cases "1 \<le> m")
      case True
      then have "?r (Suc m) = (if ?e m \<and> ?t m < b then (m, ?t m) else (a, b))" using r by simp
      then show ?thesis using Suc r by (auto simp: less_Suc_eq)
    qed (auto simp: not_le)
  qed simp
  from this [of BP_POOL_SIZE] show ?thesis unfolding assms find_lru_page_def by blast
qed

text \<open>As long as some frame has never been used, a get evicts no page: the pointers to frames stay valid.\<close>

definition has_fresh :: "nat \<Rightarrow> bp_pool \<Rightarrow> bool" where
  "has_fresh m P \<longleftrightarrow> (\<forall>i<BP_POOL_SIZE.
      if bp_page_id (bp_frames P ! i) = - 1 then bp_pin_count (bp_frames P ! i) = 0 \<and> bp_last_access (bp_frames P ! i) = 0
      else 0 < bp_last_access (bp_frames P ! i)) \<and>
    m \<le> card {i. i < BP_POOL_SIZE \<and> bp_page_id (bp_frames P ! i) = - 1}"

lemma get_page_frames:
  assumes "bp_ok n P" "p < n" "bp_get_page (int p) now P = (k, P')"
  shows "bp_frames P' ! i = (if i = k then bp_frames P' ! k else bp_frames P ! i)"
    "bp_page_id (bp_frames P ! k) \<noteq> int p \<Longrightarrow> k = find_lru_page P" "bp_last_access (bp_frames P' ! k) = now"
proof -
  have k: "k < length (bp_frames P)" using get_page_ok(1) [OF assms] assms(1) by (simp add: bp_ok_def)
  have "i = k \<or> bp_frames P' ! i = bp_frames P ! i" "bp_page_id (bp_frames P ! k) \<noteq> int p \<Longrightarrow> k = find_lru_page P"
    "bp_last_access (bp_frames P' ! k) = now"
  proof (atomize (full), cases "first_index 0 BP_POOL_SIZE (\<lambda>i. bp_page_id (bp_frames P ! i) = int p)")
    case None
    then show "(i = k \<or> bp_frames P' ! i = bp_frames P ! i) \<and>
        (bp_page_id (bp_frames P ! k) \<noteq> int p \<longrightarrow> k = find_lru_page P) \<and> bp_last_access (bp_frames P' ! k) = now"
      using assms(3) k unfolding get_page_miss [OF None]
      by (cases "i = k") (auto simp: Let_def fd_read_def flush_frames)
  next
    case (Some j)
    then show "(i = k \<or> bp_frames P' ! i = bp_frames P ! i) \<and>
        (bp_page_id (bp_frames P ! k) \<noteq> int p \<longrightarrow> k = find_lru_page P) \<and> bp_last_access (bp_frames P' ! k) = now"
      using assms(3) k first_index_SomeD(3) [OF Some] by (cases "i = k") (auto simp: bp_get_page_def)
  qed
  then show "bp_frames P' ! i = (if i = k then bp_frames P' ! k else bp_frames P ! i)"
    "bp_page_id (bp_frames P ! k) \<noteq> int p \<Longrightarrow> k = find_lru_page P" "bp_last_access (bp_frames P' ! k) = now" by auto
qed

lemma get_page_fresh:
  assumes "bp_ok n P" "p < n" "bp_get_page (int p) now P = (k, P')" "has_fresh (Suc m) P" "0 < now"
  shows "has_fresh m P'" "\<And>j q. j < BP_POOL_SIZE \<Longrightarrow> bp_page_id (bp_frames P ! j) = int q \<Longrightarrow> bp_page_id (bp_frames P' ! j) = int q"
proof -
  let ?id = "\<lambda>P i. bp_page_id (bp_frames P ! i)" and ?F = "\<lambda>P. {i. i < BP_POOL_SIZE \<and> bp_page_id (bp_frames P ! i) = - 1}"
  note ok = get_page_ok [OF assms(1-3)] and fr = get_page_frames [OF assms(1-3)]
  have lru: "?id P (find_lru_page P) = - 1"
  proof -
    have "?F P \<noteq> {}" using assms(4) by (auto simp: has_fresh_def simp del: Collect_empty_eq)
    then obtain i where i: "i < BP_POOL_SIZE" "?id P i = - 1" by blast
    then have z: "bp_pin_count (bp_frames P ! i) = 0" "bp_last_access (bp_frames P ! i) = 0"
      using assms(4) by (auto simp: has_fresh_def)
    have "1 \<le> i \<Longrightarrow> bp_last_access (bp_frames P ! find_lru_page P) \<le> bp_last_access (bp_frames P ! i)"
      using find_lru_spec [OF refl, of P] i(1) z(1) by blast
    then have "bp_last_access (bp_frames P ! find_lru_page P) \<le> 0"
      using find_lru_spec [OF refl, of P] z(2) by (cases "i = 0") auto
    then show ?thesis using assms(4) find_lru_bound [of P] by (auto simp: has_fresh_def split: if_splits)
  qed
  have k: "?id P k = int p \<or> ?id P k = - 1" using fr(2) lru by metis
  have id: "?id P' i = (if i = k then int p else ?id P i)" for i using fr(1) [of i] ok(3) by auto
  then show "?id P' j = int q" if "j < BP_POOL_SIZE" "?id P j = int q" for j q using that k by auto
  have "?F P \<subseteq> insert k (?F P')" using id by auto
  then have "card (?F P) \<le> card (insert k (?F P'))" by (intro card_mono) auto
  also have "\<dots> \<le> Suc (card (?F P'))" by (simp add: card_insert_if)
  finally have "m \<le> card (?F P')" using assms(4) by (simp add: has_fresh_def)
  moreover have "if ?id P' i = - 1 then bp_pin_count (bp_frames P' ! i) = 0 \<and> bp_last_access (bp_frames P' ! i) = 0
      else 0 < bp_last_access (bp_frames P' ! i)" if "i < BP_POOL_SIZE" for i
  proof (cases "i = k")
    case True
    then show ?thesis using fr(3) ok(3) assms(5) by simp
  next
    case False
    then have "bp_frames P' ! i = bp_frames P ! i" using fr(1) [of i] by simp
    then show ?thesis using assms(4) that by (simp add: has_fresh_def)
  qed
  ultimately show "has_fresh m P'" unfolding has_fresh_def by blast
qed

lemma set_frame_fresh:
  assumes "has_fresh m P" "bp_page_id (bp_frames P ! k) \<noteq> - 1" "bp_page_id fr = bp_page_id (bp_frames P ! k)"
    and "bp_last_access fr = bp_last_access (bp_frames P ! k)"
  shows "has_fresh m (set_frame k fr P)" "bp_page_id (bp_frames (set_frame k fr P) ! i) = bp_page_id (bp_frames P ! i)"
proof -
  have same: "bp_page_id (((bp_frames P)[k := fr]) ! i) = bp_page_id (bp_frames P ! i) \<and>
      bp_last_access (((bp_frames P)[k := fr]) ! i) = bp_last_access (bp_frames P ! i) \<and>
      (bp_page_id (bp_frames P ! i) = - 1 \<longrightarrow> ((bp_frames P)[k := fr]) ! i = bp_frames P ! i)" for i
    using assms by (cases "i = k"; cases "k < length (bp_frames P)") (auto simp: list_update_beyond)
  then show "bp_page_id (bp_frames (set_frame k fr P) ! i) = bp_page_id (bp_frames P ! i)" by simp
  show "has_fresh m (set_frame k fr P)" using assms(1) same by (simp add: has_fresh_def)
qed

text \<open>What \<open>main\<close> needs of each operation: the invariant, the unused frames, the contents and the pages of the
  frames that are in use.\<close>

definition pool_at :: "nat \<Rightarrow> nat \<Rightarrow> (nat \<Rightarrow> string) \<Rightarrow> (nat \<times> nat) list \<Rightarrow> bp_pool \<Rightarrow> bool" where
  "pool_at n m c ptrs P \<longleftrightarrow> bp_ok n P \<and> has_fresh m P \<and> (\<forall>q<n. page_view P q = c q) \<and>
    list_all (\<lambda>(k, p). k < BP_POOL_SIZE \<and> bp_page_id (bp_frames P ! k) = int p) ptrs"

lemma pool_at_get:
  assumes "pool_at n (Suc m) c ptrs P" "p < n" "0 < now"
  shows "pool_at n m c ((fst (bp_get_page (int p) now P), p) # ptrs) (snd (bp_get_page (int p) now P))"
proof -
  obtain k P' where g: "bp_get_page (int p) now P = (k, P')" by fastforce
  have ok: "bp_ok n P" "has_fresh (Suc m) P" using assms(1) by (auto simp: pool_at_def)
  show ?thesis
    using get_page_ok [OF ok(1) assms(2) g] get_page_fresh [OF ok(1) assms(2) g ok(2) assms(3)] assms(1)
    by (auto simp: pool_at_def g list_all_iff)
qed

lemma pool_at_write:
  assumes "pool_at n m c ptrs P" "(k, p) \<in> set ptrs" "length str < BP_PAGE_SIZE"
  shows "pool_at n m (c(p := str @ [CHR 0x00] @ drop (length str + 1) (c p))) ptrs (bp_mark_dirty k (bp_strcpy k str P))"
proof -
  have ok: "bp_ok n P" "has_fresh m P" and k: "k < BP_POOL_SIZE" "bp_page_id (bp_frames P ! k) = int p"
    using assms(1,2) by (auto simp: pool_at_def list_all_iff)
  then have "p < n" by (auto simp: bp_ok_def frame_ok_def)
  note st = strcpy_ok [OF ok(1) k assms(3)]
  let ?Q = "bp_strcpy k str P"
  have q: "has_fresh m ?Q" "\<And>i. bp_page_id (bp_frames ?Q ! i) = bp_page_id (bp_frames P ! i)"
    using set_frame_fresh [OF ok(2), of k] k(2) by (simp_all add: bp_strcpy_def Let_def del: set_frame_simps(1))
  have "has_fresh m (bp_mark_dirty k ?Q)" "\<And>i. bp_page_id (bp_frames (bp_mark_dirty k ?Q) ! i) = bp_page_id (bp_frames P ! i)"
    using set_frame_fresh [OF q(1), of k] k(2) q(2) by (simp_all add: bp_mark_dirty_def del: set_frame_simps(1))
  with st assms(1) \<open>p < n\<close> show ?thesis by (simp add: pool_at_def)
qed

lemma pool_at_release:
  assumes "pool_at n m c ptrs P" "(k, p) \<in> set ptrs"
  shows "pool_at n m c ptrs (bp_release_page k P)"
proof -
  have ok: "bp_ok n P" "has_fresh m P" and k: "k < BP_POOL_SIZE" "bp_page_id (bp_frames P ! k) = int p"
    using assms by (auto simp: pool_at_def list_all_iff)
  let ?fr = "(bp_frames P ! k)\<lparr>bp_pin_count := bp_pin_count (bp_frames P ! k) - 1\<rparr>"
  have "?fr = (bp_frames P ! k)\<lparr>bp_pin_count := bp_pin_count (bp_frames P ! k) - 1, bp_last_access := bp_last_access (bp_frames P ! k)\<rparr>"
    by simp
  note t = touch_frame [OF ok(1) k(1) this] and f = set_frame_fresh [OF ok(2), of k ?fr]
  from t f k(2) assms(1) show ?thesis
    by (simp add: pool_at_def bp_release_page_def del: set_frame_simps(1))
qed

subsection \<open>Properties\<close>

text \<open>C24. On a file that has all its \<open>n\<close> pages, at most 524288 (two gigabytes), the pool is transparent: after
  any run of gets, writes, releases and flushes, with any clock and any contents of the fresh frames,
  destroying the pool leaves the file in which every page has exactly the contents that the writes describe,
  and no offset has overflowed.\<close>

theorem page_pool_transparent:
  assumes "length mem = BP_POOL_SIZE" "list_all (\<lambda>m. length m = BP_PAGE_SIZE) mem"
    and "length file = n * BP_PAGE_SIZE" "n \<le> 2 ^ 19" "list_all (pool_op_ok n) ops" "p < n"
  shows "file_page (bp_file (destroy_buffer_pool (fold pool_exec ops (create_buffer_pool mem file)))) p =
      fold page_op ops (file_page file) p \<and>
    \<not> bp_undefined (destroy_buffer_pool (fold pool_exec ops (create_buffer_pool mem file)))"
proof -
  note c = create_ok [OF assms(1-4)]
  have "bp_ok n (fold pool_exec ops (create_buffer_pool mem file))"
    "page_view (fold pool_exec ops (create_buffer_pool mem file)) p = fold page_op ops (file_page file) p"
    using pool_run_refines [OF c(1) assms(5)] assms(6) by (auto simp: c(2))
  then show ?thesis using destroy_ok(1,3) assms(6) by simp
qed

theorem page_pool_transparent_witness:
  "file_page (bp_file (destroy_buffer_pool (fold pool_exec [WritePage 1 ''ab'' 7, ReleaseFrame 0, UsePage 0 8]
     (create_buffer_pool (replicate BP_POOL_SIZE (replicate BP_PAGE_SIZE CHR ''x'')) (replicate (2 * BP_PAGE_SIZE) CHR ''y''))))) 1 =
   ''ab'' @ [CHR 0x00] @ replicate 4093 CHR ''y''"
  using page_pool_transparent [of "replicate BP_POOL_SIZE (replicate BP_PAGE_SIZE CHR ''x'')"
      "replicate (2 * BP_PAGE_SIZE) CHR ''y''" 2 "[WritePage 1 ''ab'' 7, ReleaseFrame 0, UsePage 0 8]" 1]
  by (simp add: list_all_iff file_page_def BP_PAGE_SIZE_def BP_POOL_SIZE_def)

text \<open>The bound is sharp: fetching any page from 524288 on overflows.\<close>

theorem large_page_overflows:
  assumes "2 ^ 19 \<le> p" "\<forall>i<BP_POOL_SIZE. bp_page_id (bp_frames P ! i) \<noteq> int p"
  shows "bp_undefined (snd (bp_get_page (int p) now P))"
proof -
  have "first_index 0 BP_POOL_SIZE (\<lambda>i. bp_page_id (bp_frames P ! i) = int p) = None"
    using assms(2) by (simp add: first_index_None_iff)
  then show ?thesis by (simp add: get_page_miss Let_def seek_page_out [OF assms(1)] fd_read_def)
qed

text \<open>The victim of a miss is the least recently used unpinned frame, or frame 0. Frame 0 is taken even while it is
  pinned, as soon as no other unpinned frame is older.\<close>

theorem pinned_frame_zero_is_evicted:
  assumes "bp_ok n P" "p < n" "\<forall>i<BP_POOL_SIZE. bp_page_id (bp_frames P ! i) \<noteq> int p"
    and "\<forall>i<BP_POOL_SIZE. bp_last_access (bp_frames P ! 0) \<le> bp_last_access (bp_frames P ! i)"
  shows "fst (bp_get_page (int p) now P) = 0 \<and> bp_page_id (bp_frames (snd (bp_get_page (int p) now P)) ! 0) = int p"
proof -
  have "find_lru_page P = 0"
    using find_lru_spec [of "find_lru_page P" P] find_lru_bound [of P] assms(4) by force
  moreover have "first_index 0 BP_POOL_SIZE (\<lambda>i. bp_page_id (bp_frames P ! i) = int p) = None"
    using assms(3) by (simp add: first_index_None_iff)
  ultimately have "fst (bp_get_page (int p) now P) = 0" by (simp add: get_page_miss Let_def split: prod.split)
  then show ?thesis using get_page_ok(3) [OF assms(1,2)] by (cases "bp_get_page (int p) now P") auto
qed

text \<open>On a file with at least sixteen pages, and no more than two gigabytes, the program \<open>main\<close>, with a clock that is positive, writes its two
  strings to the starts of the pages 1 and 2 and leaves every other byte of the file as it was.\<close>

theorem page_pool_main_writes:
  assumes "length mem = BP_POOL_SIZE" "list_all (\<lambda>m. length m = BP_PAGE_SIZE) mem"
    and "length file = n * BP_PAGE_SIZE" "16 \<le> n" "\<And>i. 0 < clock i" "p < n" "n \<le> 2 ^ 19"
  shows "file_page (bp_file (bp_main mem file clock)) p =
    (if p = 1 then ''Updated data for page 1'' @ [CHR 0x00] @ drop 24 (file_page file 1)
     else if p = 2 then ''New data for page 2'' @ [CHR 0x00] @ drop 20 (file_page file 2)
     else file_page file p)"
proof -
  let ?s1 = "''Updated data for page 1''" and ?s2 = "''New data for page 2''"
  let ?put = "\<lambda>str p c. c(p := str @ [CHR 0x00] @ drop (length str + 1) (c p)) :: nat \<Rightarrow> string"
  let ?P0 = "create_buffer_pool mem file"
  obtain k1 P1 where g1: "bp_get_page 1 (clock 0) ?P0 = (k1, P1)" by fastforce
  obtain k5 P2 where g2: "bp_get_page 5 (clock 1) P1 = (k5, P2)" by fastforce
  obtain k10 P3 where g3: "bp_get_page 10 (clock 2) P2 = (k10, P3)" by fastforce
  let ?P4 = "bp_mark_dirty k1 (bp_strcpy k1 ?s1 P3)"
  let ?P5 = "bp_release_page k10 (bp_release_page k5 (bp_release_page k1 ?P4))"
  obtain k2 P6 where g4: "bp_get_page 2 (clock 3) ?P5 = (k2, P6)" by fastforce
  obtain k5' P7 where g5: "bp_get_page 5 (clock 4) P6 = (k5', P7)" by fastforce
  obtain k15 P8 where g6: "bp_get_page 15 (clock 5) P7 = (k15, P8)" by fastforce
  let ?P9 = "bp_mark_dirty k2 (bp_strcpy k2 ?s2 P8)"
  let ?P10 = "bp_release_page k15 (bp_release_page k5' (bp_release_page k2 ?P9))"
  have main: "bp_main mem file clock = destroy_buffer_pool ?P10"
    by (simp add: bp_main_def g1 g2 [unfolded One_nat_def] g3 g4 g5 g6)
  have "has_fresh 10 ?P0" by (simp add: has_fresh_def create_buffer_pool_def BP_POOL_SIZE_def cong: conj_cong)
  then have s0: "pool_at n 10 (file_page file) [] ?P0" using create_ok [OF assms(1-3,7)] by (simp add: pool_at_def)
  have s1: "pool_at n 9 (file_page file) [(k1, 1)] P1"
    using pool_at_get [of n 9 _ _ ?P0 1 "clock 0"] s0 assms(4,5) g1 by simp
  have s2: "pool_at n 8 (file_page file) [(k5, 5), (k1, 1)] P2"
    using pool_at_get [of n 8 _ _ P1 5 "clock 1"] s1 assms(4,5) g2 by simp
  have s3: "pool_at n 7 (file_page file) [(k10, 10), (k5, 5), (k1, 1)] P3"
    using pool_at_get [of n 7 _ _ P2 10 "clock 2"] s2 assms(4,5) g3 by simp
  have s4: "pool_at n 7 (?put ?s1 1 (file_page file)) [(k10, 10), (k5, 5), (k1, 1)] ?P4"
    using pool_at_write [OF s3, of k1 1 ?s1] by (simp add: BP_PAGE_SIZE_def)
  have s5: "pool_at n 7 (?put ?s1 1 (file_page file)) [(k10, 10), (k5, 5), (k1, 1)] ?P5"
    by (intro pool_at_release [where p = 10] pool_at_release [where p = 5] pool_at_release [where p = 1] s4) simp_all
  have s6: "pool_at n 6 (?put ?s1 1 (file_page file)) [(k2, 2), (k10, 10), (k5, 5), (k1, 1)] P6"
    using pool_at_get [of n 6 _ _ ?P5 2 "clock 3"] s5 assms(4,5) g4 by simp
  have s7: "pool_at n 5 (?put ?s1 1 (file_page file)) [(k5', 5), (k2, 2), (k10, 10), (k5, 5), (k1, 1)] P7"
    using pool_at_get [of n 5 _ _ P6 5 "clock 4"] s6 assms(4,5) g5 by simp
  have s8: "pool_at n 4 (?put ?s1 1 (file_page file))
      [(k15, 15), (k5', 5), (k2, 2), (k10, 10), (k5, 5), (k1, 1)] P8"
    using pool_at_get [of n 4 _ _ P7 15 "clock 5"] s7 assms(4,5) g6 by simp
  have s9: "pool_at n 4 (?put ?s2 2 (?put ?s1 1 (file_page file)))
      [(k15, 15), (k5', 5), (k2, 2), (k10, 10), (k5, 5), (k1, 1)] ?P9"
    using pool_at_write [OF s8, of k2 2 ?s2] by (simp add: BP_PAGE_SIZE_def)
  have "pool_at n 4 (?put ?s2 2 (?put ?s1 1 (file_page file)))
      [(k15, 15), (k5', 5), (k2, 2), (k10, 10), (k5, 5), (k1, 1)] ?P10"
    by (intro pool_at_release [where p = 15] pool_at_release [where p = 5] pool_at_release [where p = 2] s9) simp_all
  then have "bp_ok n ?P10" "page_view ?P10 p = ?put ?s2 2 (?put ?s1 1 (file_page file)) p"
    using assms(6) by (auto simp: pool_at_def)
  then show ?thesis unfolding main using destroy_ok(1) [of n ?P10 p] assms(6) by (simp add: eval_nat_numeral)
qed

end
