(* ===== verification/Stream_Buffer.thy ===== *)
theory Stream_Buffer
  imports Prelude "HOL-Library.Monad_Syntax"
begin

text \<open>
  The output buffer of \<^verbatim>\<open>os/filesystem/customBuffer.c\<close>: bytes are collected in 1024 bytes of memory and
  written to a file descriptor when the memory is full.

  \<open>resp i n\<close> is what the operating system answers to the \<open>i\<close>-th call of \<open>write\<close> with \<open>n\<close> bytes:
  \<open>None\<close> is the result -1, \<open>Some k\<close> that the first \<open>k\<close> bytes have been written. The state records what
  has reached the file and the number of calls. The loop of \<open>write_to_buffer\<close> is a partial function, whose
  value \<open>None\<close> means that it leaves the memory of the buffer or never ends. Both calls of \<open>malloc\<close>
  succeed or not by an argument.

  Shown: the loop always ends; if a write is complete or fails, then no byte is lost, repeated or
  reordered, also over failures; and a write that is short loses bytes, because its result is only compared
  with -1.
\<close>

subsection \<open>The buffer\<close>

definition CB_BUFFER_SIZE :: nat where
  "CB_BUFFER_SIZE = 1024"

record CustomBuffer =
  cb_buffer :: string
  cb_size :: nat
  cb_position :: nat
  cb_out :: string
  cb_calls :: nat

type_synonym write_resp = "nat \<Rightarrow> nat \<Rightarrow> nat option"

definition create_buffer :: "bool \<Rightarrow> bool \<Rightarrow> string \<Rightarrow> CustomBuffer option" where
  "create_buffer have_struct have_data mem =
    (if \<not> have_struct then None
     else if \<not> have_data then None
     else Some \<lparr>cb_buffer = mem, cb_size = CB_BUFFER_SIZE, cb_position = 0, cb_out = [], cb_calls = 0\<rparr>)"

definition flush_buffer :: "write_resp \<Rightarrow> CustomBuffer \<Rightarrow> int \<times> CustomBuffer" where
  "flush_buffer resp b =
    (if cb_position b = 0 then (0, b)
     else case resp (cb_calls b) (cb_position b) of
       None \<Rightarrow> (- 1, b\<lparr>cb_calls := cb_calls b + 1\<rparr>)
     | Some k \<Rightarrow>
         (0, b\<lparr>cb_out := cb_out b @ take k (take (cb_position b) (cb_buffer b)),
               cb_calls := cb_calls b + 1, cb_position := 0\<rparr>))"

partial_function (option) write_to_buffer ::
    "write_resp \<Rightarrow> string \<Rightarrow> CustomBuffer \<Rightarrow> (int \<times> CustomBuffer) option" where
  "write_to_buffer resp data b =
    (if length data = 0 then Some (0, b)
     else let available = cb_size b - cb_position b;
              to_write = (if length data < available then length data else available)
          in do {
            mem \<leftarrow> c_splice (cb_buffer b) (cb_position b) (take to_write data);
            let b = b\<lparr>cb_buffer := mem, cb_position := cb_position b + to_write\<rparr>;
            let data = drop to_write data;
            (if cb_position b = cb_size b
             then let (r, b) = flush_buffer resp b
                  in if r = - 1 then Some (- 1, b) else write_to_buffer resp data b
             else write_to_buffer resp data b)
          })"

lemmas [code] = write_to_buffer.simps

definition buffer_message :: string where
  "buffer_message = ''Hello, buffered world!'' @ [CHR 0x0A]"

text \<open>\<open>main\<close> returns its exit status and what it has written.\<close>

definition custom_buffer_main :: "bool \<Rightarrow> bool \<Rightarrow> string \<Rightarrow> write_resp \<Rightarrow> (int \<times> string) option" where
  "custom_buffer_main have_struct have_data mem resp =
    (case create_buffer have_struct have_data mem of
      None \<Rightarrow> Some (1, [])
    | Some b \<Rightarrow> do {
        (r, b) \<leftarrow> write_to_buffer resp buffer_message b;
        (if r = - 1 then Some (1, cb_out b)
         else let (r, b) = flush_buffer resp b in Some (0, cb_out b))
      })"

subsection \<open>Nothing is lost\<close>

definition cb_ok :: "CustomBuffer \<Rightarrow> bool" where
  "cb_ok b \<longleftrightarrow> length (cb_buffer b) = cb_size b \<and> cb_position b \<le> cb_size b \<and> 0 < cb_size b"

text \<open>What has been handed to the buffer: the written bytes and the waiting ones.\<close>

definition cb_stream :: "CustomBuffer \<Rightarrow> string" where
  "cb_stream b = cb_out b @ take (cb_position b) (cb_buffer b)"

definition no_short_write :: "write_resp \<Rightarrow> bool" where
  "no_short_write resp \<longleftrightarrow> (\<forall>i n. resp i n = None \<or> resp i n = Some n)"

lemma flush_buffer_ok:
  assumes "cb_ok b" "flush_buffer resp b = (r, b')"
  shows "cb_ok b'" "cb_size b' = cb_size b" "r = 0 \<and> cb_position b' = 0 \<or> r = - 1 \<and> cb_position b' = cb_position b"
    and "no_short_write resp \<Longrightarrow> cb_stream b' = cb_stream b"
proof -
  have "x = cb_position b" if "no_short_write resp" "resp (cb_calls b) (cb_position b) = Some x" for x
    using that unfolding no_short_write_def by (metis option.distinct(1) option.inject)
  then show "cb_ok b'" "cb_size b' = cb_size b" "r = 0 \<and> cb_position b' = 0 \<or> r = - 1 \<and> cb_position b' = cb_position b"
    and "no_short_write resp \<Longrightarrow> cb_stream b' = cb_stream b"
    using assms by (auto simp: flush_buffer_def cb_ok_def cb_stream_def split: if_splits option.splits)
qed

text \<open>One round of the loop, on a buffer that satisfies the invariant.\<close>

lemma fill_buffer_ok:
  assumes "cb_ok b" "w \<le> length data" "w \<le> cb_size b - cb_position b"
  obtains mem where "c_splice (cb_buffer b) (cb_position b) (take w data) = Some mem"
    "cb_ok (b\<lparr>cb_buffer := mem, cb_position := cb_position b + w\<rparr>)"
    "cb_stream (b\<lparr>cb_buffer := mem, cb_position := cb_position b + w\<rparr>) = cb_stream b @ take w data"
proof -
  have len: "length (take w data) = w" "cb_position b + w \<le> length (cb_buffer b)"
    using assms by (auto simp: cb_ok_def)
  then show thesis using assms
    by (intro that) (auto simp: c_splice_in cb_ok_def cb_stream_def)
qed

text \<open>The number of rounds that are left: a full buffer takes one more.\<close>

definition cb_rounds :: "string \<Rightarrow> CustomBuffer \<Rightarrow> nat" where
  "cb_rounds data b = 2 * length data + of_bool (cb_position b = cb_size b)"

lemma write_to_buffer_Nil: "write_to_buffer resp [] b = Some (0, b)"
  by (simp add: write_to_buffer.simps)

lemma write_round:
  assumes "data \<noteq> []"
    and w: "w = (if length data < cb_size b - cb_position b then length data else cb_size b - cb_position b)"
    and "c_splice (cb_buffer b) (cb_position b) (take w data) = Some mem"
    and "b1 = b\<lparr>cb_buffer := mem, cb_position := cb_position b + w\<rparr>" "flush_buffer resp b1 = (r, c)"
  shows "write_to_buffer resp data b =
    (if cb_position b1 = cb_size b1
     then if r = - 1 then Some (- 1, c) else write_to_buffer resp (drop w data) c
     else write_to_buffer resp (drop w data) b1)"
proof (cases "cb_position b + w = cb_size b")
  case True
  with assms(4,5) have "flush_buffer resp (b\<lparr>cb_buffer := mem, cb_position := cb_size b\<rparr>) = (r, c)" by simp
  with True assms(1,3,4) show ?thesis
    unfolding write_to_buffer.simps [of resp data b] Let_def w [symmetric] by simp
next
  case False
  with assms(1,3,4) show ?thesis
    unfolding write_to_buffer.simps [of resp data b] Let_def w [symmetric] by simp
qed

definition written_ok :: "write_resp \<Rightarrow> string \<Rightarrow> CustomBuffer \<Rightarrow> bool" where
  "written_ok resp data b \<longleftrightarrow> (\<exists>r b' k. write_to_buffer resp data b = Some (r, b') \<and> cb_ok b' \<and> k \<le> length data \<and>
    (r = 0 \<and> k = length data \<or> r = - 1 \<and> cb_position b' = cb_size b') \<and>
    (no_short_write resp \<longrightarrow> cb_stream b' = cb_stream b @ take k data))"

lemma written_ok_glue:
  assumes "written_ok resp (drop w data) c" "write_to_buffer resp data b = write_to_buffer resp (drop w data) c"
    and "no_short_write resp \<Longrightarrow> cb_stream c = cb_stream b @ take w data" "w \<le> length data"
  shows "written_ok resp data b"
proof -
  obtain r b' k where k: "write_to_buffer resp (drop w data) c = Some (r, b')" "cb_ok b'" "k \<le> length (drop w data)"
    "r = 0 \<and> k = length (drop w data) \<or> r = - 1 \<and> cb_position b' = cb_size b'"
    "no_short_write resp \<longrightarrow> cb_stream b' = cb_stream c @ take k (drop w data)"
    using assms(1) unfolding written_ok_def by blast
  show ?thesis unfolding written_ok_def assms(2) k(1)
    using k(2-5) assms(3,4) by (intro exI [of _ r] exI [of _ b'] exI [of _ "w + k"]) (auto simp: take_add)
qed

lemma write_to_buffer_ok: "cb_ok b \<Longrightarrow> written_ok resp data b"
proof (induction "cb_rounds data b" arbitrary: data b rule: less_induct)
  case less
  show ?case
  proof (cases "data = []")
    case True
    then show ?thesis using less.prems by (auto simp: written_ok_def write_to_buffer_Nil)
  next
    case False
    obtain w where w: "w = (if length data < cb_size b - cb_position b then length data else cb_size b - cb_position b)"
      by blast
    then have wl: "w \<le> length data" "w \<le> cb_size b - cb_position b" by simp_all
    obtain mem where "c_splice (cb_buffer b) (cb_position b) (take w data) = Some mem"
      "cb_ok (b\<lparr>cb_buffer := mem, cb_position := cb_position b + w\<rparr>)"
      "cb_stream (b\<lparr>cb_buffer := mem, cb_position := cb_position b + w\<rparr>) = cb_stream b @ take w data"
      by (rule fill_buffer_ok [OF less.prems wl])
    then obtain b1 where mem: "c_splice (cb_buffer b) (cb_position b) (take w data) = Some mem"
      "b1 = b\<lparr>cb_buffer := mem, cb_position := cb_position b + w\<rparr>" "cb_ok b1" "cb_stream b1 = cb_stream b @ take w data"
      by blast
    obtain r c where fl: "flush_buffer resp b1 = (r, c)" by fastforce
    note flush = flush_buffer_ok [OF mem(3) fl] and round = write_round [OF False w mem(1,2) fl]
    have pos: "cb_position b1 = cb_position b + w" "cb_size b1 = cb_size b" using mem(2) by simp_all
    have dec: "cb_rounds (drop w data) c < cb_rounds data b" if "cb_position c = 0" "cb_position b1 = cb_size b1"
      using that less.prems flush(2) pos wl False by (auto simp: cb_rounds_def cb_ok_def of_bool_def)
    have dec': "cb_rounds (drop w data) b1 < cb_rounds data b" if "cb_position b1 \<noteq> cb_size b1"
      using that less.prems pos wl w False by (auto simp: cb_rounds_def cb_ok_def of_bool_def split: if_splits)
    consider (fail) "cb_position b1 = cb_size b1" "r = - 1" | (flushed) "cb_position b1 = cb_size b1" "r = 0" "cb_position c = 0"
      | (room) "cb_position b1 \<noteq> cb_size b1" using flush(3) by auto
    then show ?thesis
    proof cases
      case fail
      then have "write_to_buffer resp data b = Some (- 1, c)" using round by simp
      moreover have "cb_position c = cb_size c" using fail flush(2,3) by simp
      moreover have "no_short_write resp \<longrightarrow> cb_stream c = cb_stream b @ take w data" using flush(4) mem(4) by simp
      ultimately show ?thesis unfolding written_ok_def using flush(1) wl(1) by blast
    next
      case flushed
      then have "write_to_buffer resp data b = write_to_buffer resp (drop w data) c" using round by simp
      then show ?thesis
        by (rule written_ok_glue [OF less.hyps [OF dec [OF flushed(3,1)] flush(1)]]) (use flush(4) mem(4) wl(1) in auto)
    next
      case room
      then have "write_to_buffer resp data b = write_to_buffer resp (drop w data) b1" using round by simp
      then show ?thesis
        by (rule written_ok_glue [OF less.hyps [OF dec' [OF room] mem(3)]]) (use mem(4) wl(1) in auto)
    qed
  qed
qed

subsection \<open>Properties\<close>

text \<open>C30. Whatever the operating system answers, \<open>write_to_buffer\<close> ends without leaving its memory. If every write
  is complete or fails, nothing is lost, repeated or reordered: the bytes written to the file followed by the
  waiting ones grow by exactly the data when the result is 0, and by an initial part of it when the result is
  -1, so that also after a failure every byte handed over is still in the file or in the buffer.\<close>

theorem write_to_buffer_keeps_stream:
  assumes "cb_ok b"
  shows "\<exists>r b' k. write_to_buffer resp data b = Some (r, b') \<and> cb_ok b' \<and> k \<le> length data \<and>
    (r = 0 \<and> k = length data \<or> r = - 1 \<and> cb_position b' = cb_size b') \<and>
    (no_short_write resp \<longrightarrow> cb_stream b' = cb_stream b @ take k data)"
  using write_to_buffer_ok [OF assms, of resp data] unfolding written_ok_def .

theorem write_to_buffer_keeps_stream_witness:
  "\<exists>r b' k. write_to_buffer (\<lambda>i n. if i = 0 then None else Some n) ''abcd''
      \<lparr>cb_buffer = ''xyz'', cb_size = 3, cb_position = 1, cb_out = ''o'', cb_calls = 0\<rparr> = Some (r, b') \<and> k \<le> 4 \<and>
    cb_stream b' = ''ox'' @ take k ''abcd''"
proof -
  let ?b = "\<lparr>cb_buffer = ''xyz'', cb_size = 3, cb_position = 1, cb_out = ''o'', cb_calls = 0\<rparr>"
    and ?resp = "\<lambda>i n. if i = 0 then None else Some n" and ?data = "''abcd''"
  have "cb_ok ?b" "no_short_write ?resp" by (simp_all add: cb_ok_def no_short_write_def)
  with write_to_buffer_keeps_stream [of ?b ?resp ?data]
  obtain r b' k where "write_to_buffer ?resp ?data ?b = Some (r, b')" "k \<le> length ?data"
    "cb_stream b' = cb_stream ?b @ take k ?data" by blast
  moreover have "cb_stream ?b = ''ox''" by (simp add: cb_stream_def)
  ultimately show ?thesis by (intro exI [of _ r] exI [of _ b'] exI [of _ k]) simp
qed

text \<open>If memory is there and writes are complete, \<open>main\<close> writes its message and returns 0; without memory it
  returns 1 and writes nothing.\<close>

theorem custom_buffer_main_prints:
  assumes "length mem = CB_BUFFER_SIZE" "\<And>i n. resp i n = Some n"
  shows "custom_buffer_main True True mem resp = Some (0, buffer_message)"
    "custom_buffer_main False d mem resp = Some (1, [])" "custom_buffer_main a False mem resp = Some (1, [])"
proof -
  let ?b = "\<lparr>cb_buffer = mem, cb_size = CB_BUFFER_SIZE, cb_position = 0, cb_out = [], cb_calls = 0\<rparr>"
  have msg: "length buffer_message = 23" "buffer_message \<noteq> []" by (simp_all add: buffer_message_def)
  obtain r c where fl: "flush_buffer resp (?b\<lparr>cb_buffer := buffer_message @ drop 23 mem, cb_position := 0 + 23\<rparr>) = (r, c)"
    by fastforce
  have "write_to_buffer resp buffer_message ?b =
      Some (0, ?b\<lparr>cb_buffer := buffer_message @ drop 23 mem, cb_position := 23\<rparr>)"
    using write_round [of buffer_message 23 ?b "buffer_message @ drop 23 mem" _ resp r c] assms(1) msg fl
    by (simp add: write_to_buffer_Nil CB_BUFFER_SIZE_def c_splice_in)
  then show "custom_buffer_main True True mem resp = Some (0, buffer_message)"
    using msg assms(2) by (simp add: custom_buffer_main_def create_buffer_def flush_buffer_def)
qed (simp_all add: custom_buffer_main_def create_buffer_def)

text \<open>A short write loses bytes: when the system takes only two of three bytes, the call still returns 0 and
  the third byte is in neither the file nor the buffer.\<close>

theorem short_write_loses_bytes:
  "case write_to_buffer (\<lambda>i n. Some (n - 1)) ''abc''
      \<lparr>cb_buffer = ''xyz'', cb_size = 3, cb_position = 0, cb_out = [], cb_calls = 0\<rparr> of
    None \<Rightarrow> False | Some (r, b') \<Rightarrow> r = 0 \<and> cb_stream b' = ''ab''"
  by code_simp

end
