(* ===== verification/Leader_Election.thy ===== *)
theory Leader_Election
  imports Prelude
begin

text \<open>
  Master election among threads by heartbeats (\<^verbatim>\<open>concurrency/threads/leaderElection.c\<close>).

  The state holds the shared variables, the time in seconds and the control points of the threads. What a
  thread does while it holds the mutex is one step; time passes in steps of its own, so that between two steps
  of a thread any time may go by. A master remembers the time of its last sign of life, its own election or
  heartbeat; the argument \<open>punctual\<close> of the step relation says that time does not pass three seconds
  beyond the last sign of life of a master that is still running.

  Shown: if masters are punctual there is never more than one, it is the one the shared variables name, and
  every thread is elected at most once; if a master is late there can be two.
\<close>

subsection \<open>The threads\<close>

definition HEARTBEAT_INTERVAL :: int where
  "HEARTBEAT_INTERVAL = 1"

definition HEARTBEAT_TIMEOUT :: int where
  "HEARTBEAT_TIMEOUT = 3"

text \<open>\<open>LFollow due\<close>: a follower that sleeps until \<open>due\<close>. \<open>LAwake k t\<close>: a master that has sent \<open>k\<close>
  heartbeats, the last sign of life at \<open>t\<close>. \<open>LSleep k t due\<close>: the same, asleep until \<open>due\<close>.\<close>

datatype le_pc = LFollow int | LAwake nat int | LSleep nat int int | LDone

record le_state =
  master_id :: int
  master_alive :: bool
  last_heartbeat_time :: int
  le_now :: int
  le_threads :: "le_pc list"
  le_elected :: "nat list"

definition le_goto :: "nat \<Rightarrow> le_pc \<Rightarrow> le_state \<Rightarrow> le_state" where
  "le_goto i p s = s\<lparr>le_threads := (le_threads s)[i := p]\<rparr>"

text \<open>\<open>master_thread\<close>: three heartbeats with a sleep before each, then the end.\<close>

fun master_thread :: "nat \<Rightarrow> le_state \<Rightarrow> le_state option" where
  "master_thread i s =
    (case le_threads s ! i of
      LAwake k t \<Rightarrow>
        if k < 3 then Some (le_goto i (LSleep k t (le_now s + HEARTBEAT_INTERVAL)) s)
        else Some (le_goto i LDone (s\<lparr>master_alive := False\<rparr>))
    | LSleep k t due \<Rightarrow>
        if due \<le> le_now s
        then Some (le_goto i (LAwake (k + 1) (le_now s)) (s\<lparr>last_heartbeat_time := le_now s\<rparr>))
        else None
    | _ \<Rightarrow> None)"

text \<open>One round of \<open>follower_thread\<close>: the check, and the election of the thread itself.\<close>

fun follower_thread :: "nat \<Rightarrow> le_state \<Rightarrow> le_state option" where
  "follower_thread i s =
    (case le_threads s ! i of
      LFollow due \<Rightarrow>
        if le_now s < due then None
        else let s = (if master_alive s \<and> le_now s - last_heartbeat_time s > HEARTBEAT_TIMEOUT
                      then s\<lparr>master_alive := False\<rparr> else s)
             in if \<not> master_alive s
                then Some (le_goto i (LAwake 0 (le_now s))
                       (s\<lparr>master_id := int i, master_alive := True, last_heartbeat_time := le_now s,
                          le_elected := le_elected s @ [i]\<rparr>))
                else Some (le_goto i (LFollow (le_now s + 1)) s)
    | _ \<Rightarrow> None)"

fun in_time :: "int \<Rightarrow> le_pc \<Rightarrow> bool" where
  "in_time now (LAwake k t) = (now < t + HEARTBEAT_TIMEOUT)"
| "in_time now (LSleep k t due) = (now < t + HEARTBEAT_TIMEOUT)"
| "in_time now _ = True"

inductive le_step :: "bool \<Rightarrow> le_state \<Rightarrow> le_state \<Rightarrow> bool" for punctual :: bool where
  master: "i < length (le_threads s) \<Longrightarrow> master_thread i s = Some t \<Longrightarrow> le_step punctual s t"
| follower: "i < length (le_threads s) \<Longrightarrow> follower_thread i s = Some t \<Longrightarrow> le_step punctual s t"
| tick: "punctual \<longrightarrow> list_all (in_time (le_now s)) (le_threads s) \<Longrightarrow>
    le_step punctual s (s\<lparr>le_now := le_now s + 1\<rparr>)"

text \<open>A punctual schedule: \<open>Some (True, i)\<close> is a step of thread \<open>i\<close> as master, \<open>Some (False, i)\<close> one as follower,
  and \<open>None\<close> a second that passes.\<close>

fun le_run :: "(bool \<times> nat) option list \<Rightarrow> le_state \<Rightarrow> le_state option" where
  "le_run [] s = Some s"
| "le_run (None # xs) s =
     (if list_all (in_time (le_now s)) (le_threads s) then le_run xs (s\<lparr>le_now := le_now s + 1\<rparr>) else None)"
| "le_run (Some (m, i) # xs) s =
     (if i < length (le_threads s)
      then Option.bind (if m then master_thread i s else follower_thread i s) (le_run xs) else None)"

lemma le_run_steps: "le_run xs s = Some t \<Longrightarrow> (le_step True)\<^sup>*\<^sup>* s t"
proof (induction xs s rule: le_run.induct)
  case (2 xs s)
  then have "le_step True s (s\<lparr>le_now := le_now s + 1\<rparr>)" "(le_step True)\<^sup>*\<^sup>* (s\<lparr>le_now := le_now s + 1\<rparr>) t"
    using le_step.tick [of True s] by (auto split: if_splits)
  then show ?case by (rule converse_rtranclp_into_rtranclp)
next
  case (3 m i xs s)
  then obtain u where u: "(if m then master_thread i s else follower_thread i s) = Some u" "le_run xs u = Some t"
    and i: "i < length (le_threads s)" by (auto split: if_splits Option.bind_splits simp del: master_thread.simps follower_thread.simps)
  have "le_step True s u" using u(1) le_step.master [OF i] le_step.follower [OF i] by (cases m) (auto simp del: master_thread.simps follower_thread.simps)
  moreover have "(le_step True)\<^sup>*\<^sup>* u t" using 3(1) i u by blast
  ultimately show ?case by (rule converse_rtranclp_into_rtranclp)
qed simp

text \<open>\<open>main\<close>: thread 0 starts as the master, the others as followers.\<close>

definition le_init :: "nat \<Rightarrow> int \<Rightarrow> le_state" where
  "le_init n now = \<lparr>master_id = 0, master_alive = True, last_heartbeat_time = now, le_now = now,
     le_threads = LAwake 0 now # replicate (n - 1) (LFollow now), le_elected = [0]\<rparr>"

subsection \<open>The invariant\<close>

fun is_master :: "le_pc \<Rightarrow> bool" where
  "is_master (LAwake k t) = True"
| "is_master (LSleep k t due) = True"
| "is_master _ = False"

fun is_follower :: "le_pc \<Rightarrow> bool" where
  "is_follower (LFollow due) = True"
| "is_follower _ = False"

fun seen :: "le_pc \<Rightarrow> int" where
  "seen (LAwake k t) = t"
| "seen (LSleep k t due) = t"
| "seen _ = 0"

definition one_master :: "le_state \<Rightarrow> bool" where
  "one_master s \<longleftrightarrow> tally is_master (le_threads s) = of_bool (master_alive s) \<and>
    (\<forall>i<length (le_threads s). is_master (le_threads s ! i) \<longrightarrow> master_id s = int i \<and>
      last_heartbeat_time s = seen (le_threads s ! i) \<and> le_now s \<le> seen (le_threads s ! i) + HEARTBEAT_TIMEOUT)"

lemma one_master_update:
  assumes "one_master s" "i < length (le_threads s)" "is_master (le_threads s ! i)" "is_master p"
    and "seen p = last'" "le_now s \<le> last' + HEARTBEAT_TIMEOUT"
  shows "one_master (le_goto i p (s\<lparr>last_heartbeat_time := last'\<rparr>))"
proof -
  have "\<not> is_master (le_threads s ! j)" if "j < length (le_threads s)" "j \<noteq> i" for j
    using tally_le_one [of is_master "le_threads s" i j] assms that by (auto simp: one_master_def split: if_splits)
  with assms show ?thesis by (auto simp: one_master_def le_goto_def tally_update nth_list_update)
qed

lemma one_master_none:
  "one_master s \<Longrightarrow> \<not> master_alive s \<Longrightarrow> j < length (le_threads s) \<Longrightarrow> \<not> is_master (le_threads s ! j)"
  using tally_zero [of is_master "le_threads s"] by (auto simp: one_master_def)

lemma one_master_alive:
  "one_master s \<Longrightarrow> i < length (le_threads s) \<Longrightarrow> is_master (le_threads s ! i) \<Longrightarrow> master_alive s"
  using tally_pos [of i "le_threads s" is_master] by (cases "master_alive s") (auto simp: one_master_def)

lemma one_master_master:
  assumes "one_master s" "i < length (le_threads s)" "master_thread i s = Some t"
  shows "one_master t"
proof (cases "le_threads s ! i")
  case (LAwake k t0)
  have alive: "master_alive s" "last_heartbeat_time s = t0" "le_now s \<le> t0 + HEARTBEAT_TIMEOUT"
    using one_master_alive [OF assms(1,2)] assms(1,2) LAwake by (auto simp: one_master_def)
  show ?thesis
  proof (cases "k < 3")
    case True
    have "s\<lparr>last_heartbeat_time := t0\<rparr> = s" using alive(2) by simp
    then show ?thesis
      using assms(3) LAwake True one_master_update [OF assms(1,2), of "LSleep k t0 (le_now s + HEARTBEAT_INTERVAL)" t0] alive(3)
      by auto
  next
    case False
    have "\<not> is_master (le_threads s ! j)" if "j < length (le_threads s)" "j \<noteq> i" for j
      using tally_le_one [of is_master "le_threads s" i j] assms(1,2) that LAwake alive(1) by (auto simp: one_master_def)
    then show ?thesis using assms LAwake False alive(1)
      by (auto simp: one_master_def le_goto_def tally_update nth_list_update split: if_splits)
  qed
next
  case (LSleep k t0 due)
  then show ?thesis
    using assms(3) one_master_update [OF assms(1,2), of "LAwake (k + 1) (le_now s)" "le_now s"]
    by (auto simp: HEARTBEAT_TIMEOUT_def split: if_splits)
qed (use assms(3) in auto)

lemma one_master_follower:
  assumes "one_master s" "i < length (le_threads s)" "follower_thread i s = Some t"
  shows "one_master t"
proof -
  obtain due where due: "le_threads s ! i = LFollow due"
    using assms(3) by (auto split: le_pc.splits)
  have stay: "\<not> (le_now s - last_heartbeat_time s > HEARTBEAT_TIMEOUT)" if "master_alive s"
  proof -
    have "0 < tally is_master (le_threads s)" using assms(1) that by (simp add: one_master_def)
    then obtain j where "j < length (le_threads s)" "is_master (le_threads s ! j)" unfolding tally_pos_ex by blast
    with assms(1) show ?thesis by (auto simp: one_master_def)
  qed
  show ?thesis
  proof (cases "master_alive s")
    case True
    then show ?thesis using assms due stay
      by (auto simp: one_master_def le_goto_def tally_update nth_list_update split: if_splits)
  next
    case False
    note none = one_master_none [OF assms(1) False]
    have "tally is_master (le_threads s) = 0" using assms(1) False by (simp add: one_master_def)
    then show ?thesis using assms(2,3) due False none
      by (auto simp: one_master_def le_goto_def tally_update nth_list_update Let_def HEARTBEAT_TIMEOUT_def split: if_splits)
  qed
qed

lemma one_master_tick:
  assumes "one_master s" "list_all (in_time (le_now s)) (le_threads s)"
  shows "one_master (s\<lparr>le_now := le_now s + 1\<rparr>)"
proof -
  have "le_now s + 1 \<le> seen (le_threads s ! i) + HEARTBEAT_TIMEOUT"
    if "i < length (le_threads s)" "is_master (le_threads s ! i)" for i
    using assms(2) that by (cases "le_threads s ! i") (force simp: list_all_length)+
  then show ?thesis using assms(1) by (auto simp: one_master_def)
qed

lemma le_length_step: "le_step punctual s t \<Longrightarrow> length (le_threads t) = length (le_threads s)"
  by (induction rule: le_step.induct) (auto simp: le_goto_def Let_def split: le_pc.splits if_splits)

text \<open>A thread that has been elected never follows again.\<close>

definition elected_ok :: "le_state \<Rightarrow> bool" where
  "elected_ok s \<longleftrightarrow> distinct (le_elected s) \<and>
    (\<forall>i. i \<in> set (le_elected s) \<longleftrightarrow> i < length (le_threads s) \<and> \<not> is_follower (le_threads s ! i))"

lemma elected_ok_same:
  assumes "elected_ok s" "i < length (le_threads s)" "is_follower p = is_follower (le_threads s ! i)"
  shows "elected_ok (s\<lparr>master_id := m, master_alive := a, last_heartbeat_time := h, le_threads := (le_threads s)[i := p]\<rparr>)"
proof -
  have "is_follower (((le_threads s)[i := p]) ! j) = is_follower (le_threads s ! j)" for j
    using assms(2,3) by (cases "j = i") simp_all
  with assms(1) show ?thesis by (simp add: elected_ok_def)
qed

lemma elected_ok_elect:
  assumes "elected_ok s" "i < length (le_threads s)" "is_follower (le_threads s ! i)" "\<not> is_follower p"
  shows "elected_ok (s\<lparr>master_id := m, master_alive := a, last_heartbeat_time := h,
    le_elected := le_elected s @ [i], le_threads := (le_threads s)[i := p]\<rparr>)"
proof -
  have "is_follower (((le_threads s)[i := p]) ! j) = (is_follower (le_threads s ! j) \<and> j \<noteq> i)" for j
    using assms(2,4) by (cases "j = i") simp_all
  with assms show ?thesis by (auto simp: elected_ok_def)
qed

lemma elected_ok_step: "le_step punctual s t \<Longrightarrow> elected_ok s \<Longrightarrow> elected_ok t"
proof (induction rule: le_step.induct)
  case (master i s t)
  note same = elected_ok_same [OF master(3,1), where m = "master_id s"]
  show ?case using master(2)
      same [where p = "LSleep _ _ _" and a = "master_alive s" and h = "last_heartbeat_time s"]
      same [where p = LDone and a = False and h = "last_heartbeat_time s"]
      same [where p = "LAwake _ _" and a = "master_alive s" and h = "le_now s"]
    by (cases "le_threads s ! i") (auto simp: le_goto_def split: if_splits)
next
  case (follower i s t)
  then obtain due where due: "le_threads s ! i = LFollow due" by (auto split: le_pc.splits)
  show ?case using follower(2) due
      elected_ok_same [OF follower(3,1), where p = "LFollow _" and m = "master_id s" and a = "master_alive s"
        and h = "last_heartbeat_time s"]
      elected_ok_elect [OF follower(3,1), where p = "LAwake 0 (le_now s)"]
    by (auto simp: le_goto_def Let_def split: if_splits)
qed (simp add: elected_ok_def)

lemma one_master_step: "le_step True s t \<Longrightarrow> one_master s \<Longrightarrow> one_master t"
  by (induction rule: le_step.induct) (auto intro: one_master_master one_master_follower one_master_tick)

lemma le_init_ok: "0 < n \<Longrightarrow> one_master (le_init n now)" "0 < n \<Longrightarrow> elected_ok (le_init n now)"
proof -
  show "one_master (le_init n now)" if "0 < n"
    using that by (auto simp: one_master_def le_init_def tally_def nth_Cons HEARTBEAT_TIMEOUT_def split: nat.splits)
  show "elected_ok (le_init n now)" if "0 < n"
    using that by (auto simp: elected_ok_def le_init_def nth_Cons split: nat.splits)
qed

lemma le_inv: "(le_step True)\<^sup>*\<^sup>* (le_init n now) s \<Longrightarrow> 0 < n \<Longrightarrow> one_master s"
  by (induction rule: rtranclp_induct) (auto intro: le_init_ok one_master_step)

lemma elected_inv: "(le_step punctual)\<^sup>*\<^sup>* (le_init n now) s \<Longrightarrow> 0 < n \<Longrightarrow> elected_ok s"
  by (induction rule: rtranclp_induct) (auto intro: le_init_ok elected_ok_step)

lemma le_length_run: "(le_step punctual)\<^sup>*\<^sup>* s t \<Longrightarrow> length (le_threads t) = length (le_threads s)"
  by (induction rule: rtranclp_induct) (auto dest: le_length_step)

subsection \<open>Properties\<close>

text \<open>C33. If a master always gives its next sign of life within three seconds, then in every interleaving there
  is at most one master; the shared variables say whether there is one and which thread it is; and every thread
  is elected at most once.\<close>

theorem single_master:
  assumes "(le_step True)\<^sup>*\<^sup>* (le_init 5 now) s"
  shows "(\<forall>i j. i < 5 \<and> j < 5 \<and> is_master (le_threads s ! i) \<and> is_master (le_threads s ! j) \<longrightarrow> i = j) \<and>
    (master_alive s \<longleftrightarrow> (\<exists>i<5. is_master (le_threads s ! i) \<and> master_id s = int i)) \<and> distinct (le_elected s)"
proof -
  have one: "one_master s" using le_inv [OF assms] by simp
  have len: "length (le_threads s) = 5" using le_length_run [OF assms] by (simp add: le_init_def)
  have "master_alive s \<longleftrightarrow> 0 < tally is_master (le_threads s)" using one by (cases "master_alive s") (auto simp: one_master_def)
  then have "master_alive s \<longleftrightarrow> (\<exists>i<5. is_master (le_threads s ! i) \<and> master_id s = int i)"
    using one len unfolding tally_pos_ex by (auto simp: one_master_def)
  moreover have "i = j" if "i < 5" "j < 5" "is_master (le_threads s ! i)" "is_master (le_threads s ! j)" for i j
  proof -
    have "master_id s = int i" using that(1,3) one len by (auto simp: one_master_def)
    moreover have "master_id s = int j" using that(2,4) one len by (auto simp: one_master_def)
    ultimately show ?thesis by simp
  qed
  ultimately show ?thesis using elected_inv [OF assms] by (auto simp: elected_ok_def)
qed

text \<open>The first master gives three signs of life and stops, and thread 1 is elected.\<close>

theorem single_master_witness:
  "\<exists>s. (le_step True)\<^sup>*\<^sup>* (le_init 5 0) s \<and> le_elected s = [0, 1] \<and> distinct (le_elected s) \<and> master_id s = 1"
proof -
  let ?beat = "[Some (True, 0), None, Some (True, 0)]"
  have "map_option (\<lambda>s. (le_elected s, master_id s)) (le_run (?beat @ ?beat @ ?beat @ [Some (True, 0), Some (False, 1)]) (le_init 5 0)) =
      Some ([0, 1], 1)" by code_simp
  then obtain s where s: "le_run (?beat @ ?beat @ ?beat @ [Some (True, 0), Some (False, 1)]) (le_init 5 0) = Some s"
    "le_elected s = [0, 1]" "master_id s = 1"
    unfolding map_option_eq_Some prod.inject by blast
  have reach: "(le_step True)\<^sup>*\<^sup>* (le_init 5 0) s" by (rule le_run_steps [OF s(1)])
  from single_master [OF reach] have "distinct (le_elected s)" by blast
  with reach s show ?thesis by blast
qed

text \<open>A master that is late is replaced while it is still running: with time passing freely, two threads are
  masters at once after four seconds.\<close>

theorem late_master_is_doubled:
  "\<exists>s. (le_step False)\<^sup>*\<^sup>* (le_init 5 0) s \<and> is_master (le_threads s ! 0) \<and> is_master (le_threads s ! 1)"
proof -
  let ?t = "\<lambda>now. (le_init 5 0)\<lparr>le_now := now\<rparr>"
  have "(le_step False)\<^sup>*\<^sup>* (?t 0) (?t (int k))" for k
  proof (induction k)
    case (Suc k)
    have "le_step False (?t (int k)) (?t (int (Suc k)))"
      using le_step.tick [of False "?t (int k)"] by (simp add: add.commute)
    with Suc show ?case by (rule rtranclp.rtrancl_into_rtrancl)
  qed simp
  from this [of 4] have "(le_step False)\<^sup>*\<^sup>* (le_init 5 0) (?t 4)" by (simp add: le_init_def)
  moreover obtain s where s: "follower_thread 1 (?t 4) = Some s" "le_threads s = (le_threads (?t 4))[1 := LAwake 0 4]"
    by (simp add: le_init_def Let_def HEARTBEAT_TIMEOUT_def le_goto_def)
  moreover have "le_step False (?t 4) s" using s(1) by (intro le_step.follower [of 1]) (auto simp: le_init_def)
  ultimately show ?thesis by (intro exI [of _ s]) (auto simp: le_init_def)
qed

end
