(* ===== verification/Echo_Server.thy ===== *)
theory Echo_Server
  imports Prelude "HOL-Library.Multiset"
begin

text \<open>
  The echo server on an asynchronous request ring (\<^verbatim>\<open>unix/zero_copy_server\<close>: \<^verbatim>\<open>zero_copy_server.c\<close>,
  \<^verbatim>\<open>zero_copy_server.h\<close>, \<^verbatim>\<open>main.c\<close>).

  The ring library and the kernel are not part of the sources. Of the ring the model has the requests that
  are queued and not yet submitted, at most \<open>QUEUE_DEPTH\<close> of them, and those that are submitted and not yet
  completed; \<open>io_uring_get_sqe\<close> returns a null pointer when the queue is full. A completion is any submitted
  request with any answer the calls document: \<open>accept\<close> returns a descriptor that is not open, a read returns at
  most the length of its buffer, \<open>mmap\<close> returns memory that is not mapped. The state also has the open
  descriptors, the mapped buffers and the echoed pieces, which no function reads. Calls of \<open>exit\<close> through
  \<open>fatal_error\<close> are the value \<open>Inl\<close> with the name of the call.

  Shown: in every state that can be reached there is exactly one pending accept, and every connection has
  exactly one pending read into a buffer of its own; the open descriptors and the mapped buffers are exactly
  those of the connections, so that none leaks, is closed twice or is shared. And: the server stops when
  more than \<open>QUEUE_DEPTH\<close> clients are answered before it submits again.
\<close>

subsection \<open>The server\<close>

definition QUEUE_DEPTH :: nat where
  "QUEUE_DEPTH = 256"

definition READ_SZ :: nat where
  "READ_SZ = 4096"

definition MAX_CONNECTIONS :: nat where
  "MAX_CONNECTIONS = 1024"

datatype event_type = EVENT_TYPE_ACCEPT | EVENT_TYPE_READ | EVENT_TYPE_WRITE

record conn_info =
  ci_fd :: int
  ci_in_use :: bool
  ci_buf :: "nat option"
  ci_buf_size :: nat

record io_data =
  io_event :: event_type
  io_fd :: int
  io_base :: "nat option"
  io_len :: nat
  io_conn :: nat

record server =
  sv_conns :: "conn_info list"
  sv_queued :: "io_data list"
  sv_submitted :: "io_data list"
  sv_open :: "int list"
  sv_mapped :: "nat list"
  sv_echoed :: "(int \<times> nat) list"

text \<open>The answers of the system during one completion.\<close>

record os_answers =
  os_malloc_read :: bool
  os_malloc_accept :: bool
  os_mmap :: "nat option"

definition init_conn_table :: "bool \<Rightarrow> string + conn_info list" where
  "init_conn_table calloc_ok =
    (if \<not> calloc_ok then Inl ''calloc''
     else Inr (replicate MAX_CONNECTIONS \<lparr>ci_fd = 0, ci_in_use = False, ci_buf = None, ci_buf_size = 0\<rparr>))"

definition set_conn :: "nat \<Rightarrow> conn_info \<Rightarrow> server \<Rightarrow> server" where
  "set_conn k c s = s\<lparr>sv_conns := (sv_conns s)[k := c]\<rparr>"

definition cleanup_conn :: "nat \<Rightarrow> server \<Rightarrow> server" where
  "cleanup_conn k s =
    (let c = sv_conns s ! k;
         s = (if ci_fd c \<ge> 0 then s\<lparr>sv_open := remove1 (ci_fd c) (sv_open s)\<rparr> else s);
         c = (if ci_fd c \<ge> 0 then c\<lparr>ci_fd := - 1\<rparr> else c);
         s = (case ci_buf c of Some b \<Rightarrow> s\<lparr>sv_mapped := remove1 b (sv_mapped s)\<rparr> | None \<Rightarrow> s);
         c = c\<lparr>ci_buf := None\<rparr>
     in set_conn k (c\<lparr>ci_in_use := False, ci_buf_size := 0\<rparr>) s)"

definition setup_io_uring :: "bool \<Rightarrow> string + unit" where
  "setup_io_uring init_ok = (if \<not> init_ok then Inl ''io_uring_queue_init_params'' else Inr ())"

definition setup_listening_socket :: "int \<Rightarrow> bool \<Rightarrow> bool \<Rightarrow> bool \<Rightarrow> string + int" where
  "setup_listening_socket sock setsockopt_ok bind_ok listen_ok =
    (if sock < 0 then Inl ''socket''
     else if \<not> setsockopt_ok then Inl ''setsockopt''
     else if \<not> bind_ok then Inl ''bind''
     else if \<not> listen_ok then Inl ''listen''
     else Inr sock)"

definition accept_request :: "int \<Rightarrow> io_data" where
  "accept_request sock =
    \<lparr>io_event = EVENT_TYPE_ACCEPT, io_fd = sock, io_base = None, io_len = 0, io_conn = 0\<rparr>"

definition read_request :: "nat \<Rightarrow> conn_info \<Rightarrow> io_data" where
  "read_request k c =
    \<lparr>io_event = EVENT_TYPE_READ, io_fd = ci_fd c, io_base = ci_buf c, io_len = ci_buf_size c, io_conn = k\<rparr>"

definition add_accept_request :: "bool \<Rightarrow> int \<Rightarrow> server \<Rightarrow> string + server" where
  "add_accept_request malloc_ok sock s =
    (if \<not> malloc_ok then Inl ''malloc''
     else if QUEUE_DEPTH \<le> length (sv_queued s) then Inl ''io_uring_get_sqe''
     else Inr (s\<lparr>sv_queued := sv_queued s @ [accept_request sock]\<rparr>))"

definition add_read_request :: "os_answers \<Rightarrow> nat \<Rightarrow> server \<Rightarrow> string + server" where
  "add_read_request os k s =
    (if \<not> os_malloc_read os then Inl ''malloc''
     else case (case ci_buf (sv_conns s ! k) of
           Some b \<Rightarrow> Inr s
         | None \<Rightarrow> (case os_mmap os of
             None \<Rightarrow> Inl ''mmap''
           | Some b \<Rightarrow> Inr (set_conn k ((sv_conns s ! k)\<lparr>ci_buf := Some b, ci_buf_size := READ_SZ\<rparr>)
               (s\<lparr>sv_mapped := b # sv_mapped s\<rparr>)))) of
       Inl e \<Rightarrow> Inl e
     | Inr s \<Rightarrow>
         if QUEUE_DEPTH \<le> length (sv_queued s) then Inl ''io_uring_get_sqe''
         else Inr (s\<lparr>sv_queued := sv_queued s @ [read_request k (sv_conns s ! k)]\<rparr>))"

definition handle_accept :: "os_answers \<Rightarrow> io_data \<Rightarrow> int \<Rightarrow> server \<Rightarrow> string + server" where
  "handle_accept os data res s =
    (case (if res < 0 then Inr s
           else case first_index 0 MAX_CONNECTIONS (\<lambda>i. \<not> ci_in_use (sv_conns s ! i)) of
             Some k \<Rightarrow> add_read_request os k
               (set_conn k ((sv_conns s ! k)\<lparr>ci_fd := res, ci_in_use := True\<rparr>) s)
           | None \<Rightarrow> Inr (s\<lparr>sv_open := remove1 res (sv_open s)\<rparr>)) of
       Inl e \<Rightarrow> Inl e
     | Inr s \<Rightarrow> add_accept_request (os_malloc_accept os) (io_fd data) s)"

definition handle_read :: "os_answers \<Rightarrow> io_data \<Rightarrow> int \<Rightarrow> server \<Rightarrow> string + server" where
  "handle_read os data res s =
    (if res \<le> 0 then Inr (cleanup_conn (io_conn data) s)
     else add_read_request os (io_conn data) (s\<lparr>sv_echoed := sv_echoed s @ [(io_fd data, nat res)]\<rparr>))"

definition handle_completion :: "os_answers \<Rightarrow> io_data \<Rightarrow> int \<Rightarrow> server \<Rightarrow> string + server" where
  "handle_completion os data res s =
    (case io_event data of
      EVENT_TYPE_ACCEPT \<Rightarrow> handle_accept os data res s
    | EVENT_TYPE_READ \<Rightarrow> handle_read os data res s
    | EVENT_TYPE_WRITE \<Rightarrow> Inr s)"

text \<open>The documented answers: new descriptors and buffers are fresh, reads stay in their buffer.\<close>

definition answer_ok :: "os_answers \<Rightarrow> io_data \<Rightarrow> int \<Rightarrow> server \<Rightarrow> bool" where
  "answer_ok os data res s \<longleftrightarrow>
    (io_event data = EVENT_TYPE_ACCEPT \<longrightarrow> res \<notin> set (sv_open s)) \<and>
    (io_event data = EVENT_TYPE_READ \<longrightarrow> res \<le> int (io_len data)) \<and>
    (\<forall>b. os_mmap os = Some b \<longrightarrow> b \<notin> set (sv_mapped s))"

text \<open>A submitted request is taken off; an accepted connection has a new open descriptor.\<close>

definition take_completion :: "nat \<Rightarrow> int \<Rightarrow> server \<Rightarrow> server" where
  "take_completion j res s =
    s\<lparr>sv_submitted := take j (sv_submitted s) @ drop (Suc j) (sv_submitted s),
      sv_open := (if io_event (sv_submitted s ! j) = EVENT_TYPE_ACCEPT \<and> 0 \<le> res then res # sv_open s else sv_open s)\<rparr>"

text \<open>The loop of \<open>main\<close>: submit what is queued, and handle completions.\<close>

inductive srv_step :: "server \<Rightarrow> string + server \<Rightarrow> bool" where
  submit: "srv_step s (Inr (s\<lparr>sv_queued := [], sv_submitted := sv_submitted s @ sv_queued s\<rparr>))"
| submit_fails: "srv_step s (Inl ''io_uring_submit_and_wait'')"
| complete: "j < length (sv_submitted s) \<Longrightarrow> answer_ok os (sv_submitted s ! j) res s \<Longrightarrow>
    srv_step s (handle_completion os (sv_submitted s ! j) res (take_completion j res s))"

definition srv_start :: "bool \<Rightarrow> bool \<Rightarrow> int \<Rightarrow> bool \<Rightarrow> bool \<Rightarrow> bool \<Rightarrow> bool \<Rightarrow> string + server" where
  "srv_start calloc_ok init_ok sock setsockopt_ok bind_ok listen_ok malloc_ok =
    (case init_conn_table calloc_ok of Inl e \<Rightarrow> Inl e | Inr conns \<Rightarrow>
     (case setup_io_uring init_ok of Inl e \<Rightarrow> Inl e | Inr _ \<Rightarrow>
      (case setup_listening_socket sock setsockopt_ok bind_ok listen_ok of Inl e \<Rightarrow> Inl e | Inr sock \<Rightarrow>
        add_accept_request malloc_ok sock
          \<lparr>sv_conns = conns, sv_queued = [], sv_submitted = [], sv_open = [sock], sv_mapped = [], sv_echoed = []\<rparr>)))"

inductive srv_reach :: "int \<Rightarrow> server \<Rightarrow> bool" for sock :: int where
  start: "srv_start a b sock c d e f = Inr s \<Longrightarrow> srv_reach sock s"
| step: "srv_reach sock s \<Longrightarrow> srv_step s (Inr t) \<Longrightarrow> srv_reach sock t"

subsection \<open>The invariant\<close>

definition used_slots :: "server \<Rightarrow> nat set" where
  "used_slots s = {k. k < MAX_CONNECTIONS \<and> ci_in_use (sv_conns s ! k)}"

definition per_conn :: "(nat \<Rightarrow> conn_info \<Rightarrow> 'a) \<Rightarrow> server \<Rightarrow> 'a multiset" where
  "per_conn f s = image_mset (\<lambda>k. f k (sv_conns s ! k)) (mset_set (used_slots s))"

definition conn_ok :: "conn_info \<Rightarrow> bool" where
  "conn_ok c \<longleftrightarrow> (if ci_in_use c then 0 \<le> ci_fd c \<and> ci_buf c \<noteq> None \<and> ci_buf_size c = READ_SZ
    else ci_buf c = None \<and> ci_buf_size c = 0)"

definition srv_ok :: "int \<Rightarrow> server \<Rightarrow> bool" where
  "srv_ok sock s \<longleftrightarrow> 0 \<le> sock \<and> length (sv_conns s) = MAX_CONNECTIONS \<and> list_all conn_ok (sv_conns s) \<and>
    mset (sv_queued s) + mset (sv_submitted s) = add_mset (accept_request sock) (per_conn read_request s) \<and>
    mset (sv_open s) = add_mset sock (per_conn (\<lambda>k. ci_fd) s) \<and> distinct (sv_open s) \<and>
    mset (sv_mapped s) = per_conn (\<lambda>k c. the (ci_buf c)) s \<and> distinct (sv_mapped s)"

lemma finite_used [simp]: "finite (used_slots s)"
  by (simp add: used_slots_def)

text \<open>How the collections over the connections change when one connection is set.\<close>

lemma used_set_conn:
  "k < MAX_CONNECTIONS \<Longrightarrow> length (sv_conns s) = MAX_CONNECTIONS \<Longrightarrow>
    used_slots (set_conn k c s) = (if ci_in_use c then insert k (used_slots s) else used_slots s - {k})"
  by (auto simp: used_slots_def set_conn_def nth_list_update)

lemma per_conn_cong:
  "used_slots s = used_slots t \<Longrightarrow> (\<And>k. k \<in> used_slots s \<Longrightarrow> f k (sv_conns s ! k) = f k (sv_conns t ! k)) \<Longrightarrow>
    per_conn f s = per_conn f t"
  by (auto simp: per_conn_def intro!: image_mset_cong)

lemma per_conn_other:
  "k \<notin> A \<Longrightarrow> image_mset (\<lambda>j. f j (((sv_conns s)[k := c]) ! j)) (mset_set A) = image_mset (\<lambda>j. f j (sv_conns s ! j)) (mset_set A)"
  by (rule image_mset_cong) (metis elem_mset_set empty_iff infinite_set_mset_mset_set nth_list_update_neq)

lemma per_conn_remove:
  "k \<in> used_slots s \<Longrightarrow>
    per_conn f s = add_mset (f k (sv_conns s ! k)) (image_mset (\<lambda>j. f j (sv_conns s ! j)) (mset_set (used_slots s - {k})))"
  by (simp add: per_conn_def mset_set.remove)

lemma per_conn_set:
  assumes "k < MAX_CONNECTIONS" "length (sv_conns s) = MAX_CONNECTIONS" "ci_in_use c"
  shows "per_conn f (set_conn k c s) =
    add_mset (f k c) (image_mset (\<lambda>j. f j (sv_conns s ! j)) (mset_set (used_slots s - {k})))"
proof -
  have "k \<in> used_slots (set_conn k c s)" "used_slots (set_conn k c s) - {k} = used_slots s - {k}"
    using assms by (auto simp: used_set_conn)
  then show ?thesis using assms per_conn_remove [of k "set_conn k c s" f]
    by (simp add: set_conn_def per_conn_other)
qed

lemma per_conn_clear:
  assumes "k < MAX_CONNECTIONS" "length (sv_conns s) = MAX_CONNECTIONS" "\<not> ci_in_use c"
  shows "per_conn f (set_conn k c s) = image_mset (\<lambda>j. f j (sv_conns s ! j)) (mset_set (used_slots s - {k}))"
  using assms by (simp add: per_conn_def used_set_conn) (simp add: set_conn_def per_conn_other)

lemma mset_take_drop: "j < length xs \<Longrightarrow> add_mset (xs ! j) (mset (take j xs @ drop (Suc j) xs)) = mset xs"
  using arg_cong [OF id_take_nth_drop [of j xs], of mset] by simp

lemma per_conn_fields [simp]:
  "per_conn f (s\<lparr>sv_queued := q\<rparr>) = per_conn f s" "per_conn f (s\<lparr>sv_submitted := q\<rparr>) = per_conn f s"
  "per_conn f (s\<lparr>sv_open := os\<rparr>) = per_conn f s" "per_conn f (s\<lparr>sv_mapped := ms\<rparr>) = per_conn f s"
  "per_conn f (s\<lparr>sv_echoed := es\<rparr>) = per_conn f s"
  by (simp_all add: per_conn_def used_slots_def)

lemma set_conn_fields [simp]:
  "sv_conns (set_conn k c s) = (sv_conns s)[k := c]" "sv_queued (set_conn k c s) = sv_queued s"
  "sv_submitted (set_conn k c s) = sv_submitted s" "sv_open (set_conn k c s) = sv_open s"
  "sv_mapped (set_conn k c s) = sv_mapped s"
  by (simp_all add: set_conn_def)

lemma used_fields [simp]:
  "used_slots (s\<lparr>sv_queued := q\<rparr>) = used_slots s" "used_slots (s\<lparr>sv_submitted := q\<rparr>) = used_slots s"
  "used_slots (s\<lparr>sv_open := os\<rparr>) = used_slots s" "used_slots (s\<lparr>sv_mapped := ms\<rparr>) = used_slots s"
  "used_slots (s\<lparr>sv_echoed := es\<rparr>) = used_slots s"
  by (simp_all add: used_slots_def)

lemma conn_ok_set:
  assumes "list_all conn_ok cs" "conn_ok c"
  shows "list_all conn_ok (cs[k := c])"
proof -
  have "conn_ok (cs[k := c] ! n)" if "n < length cs" for n
    using assms that by (cases "n = k") (simp_all add: list_all_length)
  then show ?thesis by (simp add: list_all_length)
qed

text \<open>The pending requests when one of them has completed.\<close>

lemma accept_pending:
  assumes "srv_ok sock s" "j < length (sv_submitted s)" "io_event (sv_submitted s ! j) = EVENT_TYPE_ACCEPT"
  shows "sv_submitted s ! j = accept_request sock"
    and "mset (sv_queued s) + mset (sv_submitted (take_completion j res s)) = per_conn read_request s"
proof -
  let ?d = "sv_submitted s ! j"
  have all: "mset (sv_queued s) + add_mset ?d (mset (sv_submitted (take_completion j res s))) =
      add_mset (accept_request sock) (per_conn read_request s)"
    using assms(1) mset_take_drop [OF assms(2)] by (simp add: srv_ok_def take_completion_def)
  have "?d \<in># mset (sv_queued s) + add_mset ?d (mset (sv_submitted (take_completion j res s)))" by simp
  then have "?d \<in># add_mset (accept_request sock) (per_conn read_request s)" unfolding all .
  with assms(3) show d: "?d = accept_request sock" by (auto simp: per_conn_def read_request_def)
  from all show "mset (sv_queued s) + mset (sv_submitted (take_completion j res s)) = per_conn read_request s"
    by (simp add: d)
qed

lemma read_pending:
  assumes "srv_ok sock s" "j < length (sv_submitted s)" "io_event (sv_submitted s ! j) \<noteq> EVENT_TYPE_ACCEPT"
  obtains k where "k \<in> used_slots s" "sv_submitted s ! j = read_request k (sv_conns s ! k)"
    and "mset (sv_queued s) + mset (sv_submitted (take_completion j res s)) =
      add_mset (accept_request sock) (image_mset (\<lambda>i. read_request i (sv_conns s ! i)) (mset_set (used_slots s - {k})))"
proof -
  let ?d = "sv_submitted s ! j"
  have all: "mset (sv_queued s) + add_mset ?d (mset (sv_submitted (take_completion j res s))) =
      add_mset (accept_request sock) (per_conn read_request s)"
    using assms(1) mset_take_drop [OF assms(2)] by (simp add: srv_ok_def take_completion_def)
  have "?d \<in># mset (sv_queued s) + add_mset ?d (mset (sv_submitted (take_completion j res s)))" by simp
  then have "?d \<in># add_mset (accept_request sock) (per_conn read_request s)" unfolding all .
  with assms(3) obtain k where k: "k \<in> used_slots s" "?d = read_request k (sv_conns s ! k)"
    by (auto simp: per_conn_def accept_request_def)
  show thesis
  proof (rule that [OF k])
    show "mset (sv_queued s) + mset (sv_submitted (take_completion j res s)) =
      add_mset (accept_request sock) (image_mset (\<lambda>i. read_request i (sv_conns s ! i)) (mset_set (used_slots s - {k})))"
      using all by (simp add: k(2) per_conn_remove [OF k(1)])
  qed
qed

text \<open>What \<open>add_read_request\<close> does for a connection without and with a buffer.\<close>

lemma add_read_new_buffer:
  assumes "add_read_request os k s = Inr t" "ci_buf (sv_conns s ! k) = None" "k < length (sv_conns s)"
  obtains b where "os_mmap os = Some b"
    and "t = (set_conn k ((sv_conns s ! k)\<lparr>ci_buf := Some b, ci_buf_size := READ_SZ\<rparr>) s)\<lparr>sv_mapped := b # sv_mapped s,
      sv_queued := sv_queued s @ [read_request k ((sv_conns s ! k)\<lparr>ci_buf := Some b, ci_buf_size := READ_SZ\<rparr>)]\<rparr>"
  using assms by (auto simp: add_read_request_def set_conn_def split: if_splits option.splits)

lemma add_read_old_buffer:
  "add_read_request os k s = Inr t \<Longrightarrow> ci_buf (sv_conns s ! k) = Some b \<Longrightarrow>
    t = s\<lparr>sv_queued := sv_queued s @ [read_request k (sv_conns s ! k)]\<rparr>"
  by (auto simp: add_read_request_def split: if_splits)

lemma add_accept_Inr:
  "add_accept_request m sock s = Inr t \<longleftrightarrow>
    m \<and> length (sv_queued s) < QUEUE_DEPTH \<and> t = s\<lparr>sv_queued := sv_queued s @ [accept_request sock]\<rparr>"
  by (auto simp: add_accept_request_def)

lemma handle_read_ok:
  assumes "srv_ok sock s" "j < length (sv_submitted s)" "io_event (sv_submitted s ! j) \<noteq> EVENT_TYPE_ACCEPT"
    and "handle_completion os (sv_submitted s ! j) res (take_completion j res s) = Inr t"
  shows "srv_ok sock t"
proof -
  obtain k where k: "k \<in> used_slots s" "sv_submitted s ! j = read_request k (sv_conns s ! k)"
    and req: "mset (sv_queued s) + mset (sv_submitted (take_completion j res s)) =
      add_mset (accept_request sock) (image_mset (\<lambda>i. read_request i (sv_conns s ! i)) (mset_set (used_slots s - {k})))"
    using read_pending [OF assms(1-3)] by metis
  let ?c = "sv_conns s ! k" and ?s = "take_completion j res s"
  have k': "k < MAX_CONNECTIONS" "length (sv_conns s) = MAX_CONNECTIONS" "ci_in_use ?c"
    using assms(1) k(1) by (auto simp: srv_ok_def used_slots_def)
  then have c: "0 \<le> ci_fd ?c" "ci_buf ?c \<noteq> None" using assms(1) by (auto simp: srv_ok_def list_all_length conn_ok_def)
  then obtain b where b: "ci_buf ?c = Some b" by auto
  have sel: "sv_conns ?s = sv_conns s" "sv_queued ?s = sv_queued s" "sv_open ?s = sv_open s" "sv_mapped ?s = sv_mapped s"
    "used_slots ?s = used_slots s" using assms(3) by (auto simp: take_completion_def used_slots_def)
  have t: "handle_read os (read_request k ?c) res ?s = Inr t"
    using assms(4) unfolding k(2) by (simp add: handle_completion_def read_request_def)
  show ?thesis
  proof (cases "res \<le> 0")
    case True
    let ?c' = "?c\<lparr>ci_fd := - 1, ci_buf := None, ci_in_use := False, ci_buf_size := 0\<rparr>"
    have t': "t = set_conn k ?c' (?s\<lparr>sv_open := remove1 (ci_fd ?c) (sv_open s), sv_mapped := remove1 b (sv_mapped s)\<rparr>)"
      using t True c(1) b by (simp add: handle_read_def cleanup_conn_def read_request_def sel Let_def)
    have pc: "per_conn f t = image_mset (\<lambda>i. f i (sv_conns s ! i)) (mset_set (used_slots s - {k}))" for f :: "nat \<Rightarrow> conn_info \<Rightarrow> 'a"
      unfolding t' using k'(1,2) by (subst per_conn_clear) (simp_all add: sel)
    have "conn_ok ?c'" by (simp add: conn_ok_def)
    then show ?thesis using assms(1) req per_conn_remove [OF k(1), of read_request]
        per_conn_remove [OF k(1), of "\<lambda>k. ci_fd"] per_conn_remove [OF k(1), of "\<lambda>k c. the (ci_buf c)"]
      unfolding srv_ok_def pc by (simp add: t' sel conn_ok_set b)
  next
    case False
    have "add_read_request os k (?s\<lparr>sv_echoed := sv_echoed ?s @ [(ci_fd ?c, nat res)]\<rparr>) = Inr t"
      using t False by (simp add: handle_read_def read_request_def)
    from add_read_old_buffer [OF this, of b]
    have t': "t = ?s\<lparr>sv_echoed := sv_echoed ?s @ [(ci_fd ?c, nat res)], sv_queued := sv_queued s @ [read_request k ?c]\<rparr>"
      using b by (simp add: sel)
    have pc: "per_conn f t = per_conn f s" for f :: "nat \<Rightarrow> conn_info \<Rightarrow> 'a"
      by (simp add: t' per_conn_def used_slots_def sel)
    show ?thesis using assms(1) req per_conn_remove [OF k(1), of read_request]
      unfolding srv_ok_def pc by (simp add: t' sel)
  qed
qed

lemma handle_accept_ok:
  assumes "srv_ok sock s" "j < length (sv_submitted s)" "io_event (sv_submitted s ! j) = EVENT_TYPE_ACCEPT"
    and "answer_ok os (sv_submitted s ! j) res s"
    and "handle_completion os (sv_submitted s ! j) res (take_completion j res s) = Inr t"
  shows "srv_ok sock t"
proof -
  let ?s = "take_completion j res s"
  note d = accept_pending(1) [OF assms(1-3)] and req = accept_pending(2) [OF assms(1-3)]
  have sel: "sv_conns ?s = sv_conns s" "sv_queued ?s = sv_queued s" "sv_mapped ?s = sv_mapped s"
    "sv_open ?s = (if 0 \<le> res then res # sv_open s else sv_open s)" "used_slots ?s = used_slots s"
    using assms(3) by (auto simp: take_completion_def used_slots_def)
  have pcs: "per_conn f ?s = per_conn f s" for f :: "nat \<Rightarrow> conn_info \<Rightarrow> 'a" by (simp add: per_conn_def sel)
  have ok: "length (sv_conns s) = MAX_CONNECTIONS" "list_all conn_ok (sv_conns s)" "0 \<le> sock"
    using assms(1) by (auto simp: srv_ok_def)
  have fresh: "res \<notin> set (sv_open s)" "\<And>b. os_mmap os = Some b \<Longrightarrow> b \<notin> set (sv_mapped s)"
    using assms(3,4) by (auto simp: answer_ok_def)
  have t: "handle_accept os (accept_request sock) res ?s = Inr t"
    using assms(5) unfolding d by (simp add: handle_completion_def accept_request_def)
  have fd: "io_fd (accept_request sock) = sock" by (simp add: accept_request_def)
  let ?free = "first_index 0 MAX_CONNECTIONS (\<lambda>i. \<not> ci_in_use (sv_conns s ! i))"
  consider (failed) "res < 0" | (full) "0 \<le> res" "?free = None" | (slot) k where "0 \<le> res" "?free = Some k"
    by (cases "res < 0"; cases ?free) (auto simp: not_less)
  then show ?thesis
  proof cases
    case failed
    then have "t = ?s\<lparr>sv_queued := sv_queued s @ [accept_request sock]\<rparr>"
      using t by (simp add: handle_accept_def add_accept_Inr sel fd)
    then show ?thesis using assms(1) req failed by (simp add: srv_ok_def sel pcs ac_simps)
  next
    case full
    then have "t = ?s\<lparr>sv_open := sv_open s, sv_queued := sv_queued s @ [accept_request sock]\<rparr>"
      using t by (simp add: handle_accept_def add_accept_Inr sel fd)
    then show ?thesis using assms(1) req by (simp add: srv_ok_def sel pcs ac_simps)
  next
    case slot
    have k: "k < MAX_CONNECTIONS" "\<not> ci_in_use (sv_conns s ! k)" using first_index_SomeD(2,3) [OF slot(2)] by auto
    then have none: "ci_buf (sv_conns s ! k) = None" and unused: "used_slots s - {k} = used_slots s"
      using ok(1,2) by (auto simp: list_all_length conn_ok_def used_slots_def)
    let ?c0 = "(sv_conns s ! k)\<lparr>ci_fd := res, ci_in_use := True\<rparr>"
    obtain s1 where s1: "add_read_request os k (set_conn k ?c0 ?s) = Inr s1" "add_accept_request (os_malloc_accept os) sock s1 = Inr t"
      using t slot by (auto simp: handle_accept_def sel fd split: sum.splits)
    obtain b where b: "os_mmap os = Some b"
      "s1 = (set_conn k (?c0\<lparr>ci_buf := Some b, ci_buf_size := READ_SZ\<rparr>) (set_conn k ?c0 ?s))\<lparr>sv_mapped := b # sv_mapped s,
        sv_queued := sv_queued s @ [read_request k (?c0\<lparr>ci_buf := Some b, ci_buf_size := READ_SZ\<rparr>)]\<rparr>"
      using add_read_new_buffer [OF s1(1)] none k(1) ok(1) by (auto simp: sel)
    let ?c = "?c0\<lparr>ci_buf := Some b, ci_buf_size := READ_SZ\<rparr>"
    have t': "t = (set_conn k ?c ?s)\<lparr>sv_mapped := b # sv_mapped s,
        sv_queued := sv_queued s @ [read_request k ?c, accept_request sock]\<rparr>"
      using s1(2) unfolding b(2) add_accept_Inr by (simp add: set_conn_def)
    have pc: "per_conn f t = add_mset (f k ?c) (per_conn f s)" for f :: "nat \<Rightarrow> conn_info \<Rightarrow> 'a"
      using per_conn_set [of k ?s ?c f] k(1) ok(1) by (simp add: t' sel unused per_conn_def [of f s])
    have "conn_ok ?c" using slot(1) by (simp add: conn_ok_def)
    then show ?thesis using assms(1) req fresh(1) fresh(2) [OF b(1)] slot(1)
      unfolding srv_ok_def pc by (simp add: t' sel conn_ok_set ac_simps)
  qed
qed

lemma srv_start_ok: "srv_start a b sock c d e f = Inr s \<Longrightarrow> srv_ok sock s"
proof -
  assume s: "srv_start a b sock c d e f = Inr s"
  let ?cs = "replicate MAX_CONNECTIONS \<lparr>ci_fd = 0, ci_in_use = False, ci_buf = None, ci_buf_size = 0\<rparr>"
  have "0 \<le> sock" "s = \<lparr>sv_conns = ?cs, sv_queued = [accept_request sock], sv_submitted = [], sv_open = [sock],
      sv_mapped = [], sv_echoed = []\<rparr>"
    using s by (auto simp: srv_start_def init_conn_table_def setup_io_uring_def setup_listening_socket_def add_accept_Inr
        split: if_splits)
  moreover from this have "used_slots s = {}" by (auto simp: used_slots_def)
  ultimately show ?thesis by (simp add: srv_ok_def per_conn_def list_all_length conn_ok_def)
qed

lemma srv_step_ok: "srv_step s (Inr t) \<Longrightarrow> srv_ok sock s \<Longrightarrow> srv_ok sock t"
proof (erule srv_step.cases)
  fix u assume "s = u" "Inr t = Inr (u\<lparr>sv_queued := [], sv_submitted := sv_submitted u @ sv_queued u\<rparr>)" "srv_ok sock s"
  then show ?thesis by (simp add: srv_ok_def ac_simps)
next
  fix j u os res assume "s = u" "Inr t = handle_completion os (sv_submitted u ! j) res (take_completion j res u)"
    "j < length (sv_submitted u)" "answer_ok os (sv_submitted u ! j) res u" "srv_ok sock s"
  then show ?thesis using handle_accept_ok [of sock u j os res t] handle_read_ok [of sock u j os res t] by metis
qed simp

lemma srv_inv: "srv_reach sock s \<Longrightarrow> srv_ok sock s"
  by (induction rule: srv_reach.induct) (auto intro: srv_start_ok srv_step_ok)

subsection \<open>Too many answers at once\<close>

text \<open>A new client is accepted while the table has a free slot.\<close>

lemma accept_one_more:
  assumes "srv_reach sock s" "sv_queued s = []" "card (used_slots s) < MAX_CONNECTIONS"
  shows "\<exists>t. srv_reach sock t \<and> sv_queued t = [] \<and> card (used_slots t) = Suc (card (used_slots s))"
proof -
  have inv: "srv_ok sock s" by (rule srv_inv [OF assms(1)])
  then have "accept_request sock \<in> set (sv_submitted s)" and len: "length (sv_conns s) = MAX_CONNECTIONS"
    using assms(2) by (auto simp: srv_ok_def simp flip: set_mset_mset)
  then obtain j where j: "j < length (sv_submitted s)" "sv_submitted s ! j = accept_request sock"
    by (auto simp: in_set_conv_nth)
  obtain n where n: "int n \<notin> set (sv_open s)"
    using ex_new_if_finite [OF infinite_UNIV_nat, of "nat ` set (sv_open s)"] by (metis finite_imageI finite_set image_eqI nat_int)
  obtain b where b: "b \<notin> set (sv_mapped s)" using ex_new_if_finite [of "set (sv_mapped s)"] by auto
  let ?os = "\<lparr>os_malloc_read = True, os_malloc_accept = True, os_mmap = Some b\<rparr>"
  let ?free = "first_index 0 MAX_CONNECTIONS (\<lambda>i. \<not> ci_in_use (sv_conns s ! i))"
  have "?free \<noteq> None"
  proof
    assume "?free = None"
    then have "used_slots s = {..<MAX_CONNECTIONS}" by (auto simp: first_index_None_iff used_slots_def)
    then show False using assms(3) by simp
  qed
  then obtain k where k: "?free = Some k" by auto
  then have kk: "k < MAX_CONNECTIONS" "\<not> ci_in_use (sv_conns s ! k)" using first_index_SomeD(2,3) [OF k] by auto
  then have "ci_buf (sv_conns s ! k) = None" using inv by (auto simp: srv_ok_def list_all_length conn_ok_def)
  then obtain t where t: "handle_completion ?os (sv_submitted s ! j) (int n) (take_completion j (int n) s) = Inr t"
    "used_slots t = insert k (used_slots s)"
    using k kk len assms(2) j(2)
    by (simp add: handle_completion_def handle_accept_def add_read_request_def add_accept_request_def
        take_completion_def accept_request_def QUEUE_DEPTH_def used_set_conn)
  have "answer_ok ?os (sv_submitted s ! j) (int n) s" using n b by (simp add: answer_ok_def j(2) accept_request_def)
  then have "srv_reach sock t" using srv_reach.step [OF assms(1)] srv_step.complete [OF j(1)] t(1) by metis
  from srv_reach.step [OF this srv_step.submit] have "srv_reach sock (t\<lparr>sv_queued := [], sv_submitted := sv_submitted t @ sv_queued t\<rparr>)" .
  moreover have "k \<notin> used_slots s" using kk by (simp add: used_slots_def)
  ultimately show ?thesis using t(2) by (intro exI [of _ "t\<lparr>sv_queued := [], sv_submitted := sv_submitted t @ sv_queued t\<rparr>"]) simp
qed

lemma clients_connect:
  "0 \<le> sock \<Longrightarrow> n \<le> MAX_CONNECTIONS \<Longrightarrow> \<exists>s. srv_reach sock s \<and> sv_queued s = [] \<and> card (used_slots s) = n"
proof (induction n)
  case 0
  then obtain s where s: "srv_start True True sock True True True True = Inr s" "used_slots s = {}"
    by (simp add: srv_start_def init_conn_table_def setup_io_uring_def setup_listening_socket_def
        add_accept_request_def QUEUE_DEPTH_def used_slots_def)
  have "srv_reach sock (s\<lparr>sv_queued := [], sv_submitted := sv_submitted s @ sv_queued s\<rparr>)"
    by (rule srv_reach.step [OF srv_reach.start [OF s(1)] srv_step.submit])
  then show ?case using s(2) by (intro exI [of _ "s\<lparr>sv_queued := [], sv_submitted := sv_submitted s @ sv_queued s\<rparr>"]) simp
next
  case (Suc n)
  then show ?case using accept_one_more [of sock] by (metis Suc_leD Suc_le_lessD)
qed

text \<open>The answer to a client that sent one byte: its read is queued again, or there is no room.\<close>

definition calm :: os_answers where
  "calm = \<lparr>os_malloc_read = True, os_malloc_accept = True, os_mmap = None\<rparr>"

lemma read_answered:
  assumes "srv_ok sock s" "length (sv_queued s) < card (used_slots s)"
  obtains j where "j < length (sv_submitted s)" "io_event (sv_submitted s ! j) = EVENT_TYPE_READ"
    "answer_ok calm (sv_submitted s ! j) 1 s"
    "if length (sv_queued s) < QUEUE_DEPTH
     then \<exists>t. handle_completion calm (sv_submitted s ! j) 1 (take_completion j 1 s) = Inr t \<and>
       length (sv_queued t) = Suc (length (sv_queued s)) \<and> used_slots t = used_slots s
     else handle_completion calm (sv_submitted s ! j) 1 (take_completion j 1 s) = Inl ''io_uring_get_sqe''"
proof -
  have all: "mset (sv_queued s) + mset (sv_submitted s) = add_mset (accept_request sock) (per_conn read_request s)"
    using assms(1) by (simp add: srv_ok_def)
  have "\<exists>j<length (sv_submitted s). io_event (sv_submitted s ! j) \<noteq> EVENT_TYPE_ACCEPT"
  proof (rule ccontr)
    assume "\<not> ?thesis"
    then have "filter_mset (\<lambda>d. io_event d \<noteq> EVENT_TYPE_ACCEPT) (mset (sv_submitted s)) = {#}"
      by (auto simp: filter_mset_eq_conv in_set_conv_nth)
    then have "filter_mset (\<lambda>d. io_event d \<noteq> EVENT_TYPE_ACCEPT) (mset (sv_queued s)) =
        filter_mset (\<lambda>d. io_event d \<noteq> EVENT_TYPE_ACCEPT) (add_mset (accept_request sock) (per_conn read_request s))"
      unfolding all [symmetric] by simp
    also have "\<dots> = per_conn read_request s"
      by (auto simp: accept_request_def per_conn_def read_request_def filter_mset_eq_conv)
    finally have "size (per_conn read_request s) \<le> length (sv_queued s)"
      by (metis size_filter_mset_lesseq size_mset)
    then show False using assms(2) by (simp add: per_conn_def)
  qed
  then obtain j where j: "j < length (sv_submitted s)" "io_event (sv_submitted s ! j) \<noteq> EVENT_TYPE_ACCEPT" by auto
  from read_pending [OF assms(1) j] obtain k where k: "k \<in> used_slots s" "sv_submitted s ! j = read_request k (sv_conns s ! k)"
    by metis
  have "conn_ok (sv_conns s ! k)" using k(1) assms(1) by (simp add: used_slots_def srv_ok_def list_all_length)
  then obtain b where b: "ci_buf (sv_conns s ! k) = Some b" "ci_buf_size (sv_conns s ! k) = READ_SZ"
    using k(1) by (auto simp: used_slots_def conn_ok_def)
  show thesis
    by (rule that [OF j(1)]) (use b in \<open>simp_all add: k(2) answer_ok_def calm_def read_request_def READ_SZ_def
        handle_completion_def handle_read_def add_read_request_def take_completion_def used_slots_def\<close>)
qed

lemma answers_pile_up:
  assumes "srv_reach sock s" "sv_queued s = []" "m \<le> QUEUE_DEPTH" "m \<le> card (used_slots s)"
  shows "\<exists>t. srv_reach sock t \<and> length (sv_queued t) = m \<and> card (used_slots t) = card (used_slots s)"
  using assms(3,4)
proof (induction m)
  case 0
  then show ?case using assms(1,2) by auto
next
  case (Suc m)
  then obtain t where t: "srv_reach sock t" "length (sv_queued t) = m" "card (used_slots t) = card (used_slots s)" by auto
  then obtain j u where j: "j < length (sv_submitted t)" "answer_ok calm (sv_submitted t ! j) 1 t"
    "handle_completion calm (sv_submitted t ! j) 1 (take_completion j 1 t) = Inr u"
    "length (sv_queued u) = Suc m" "used_slots u = used_slots t"
    using read_answered [OF srv_inv [OF t(1)]] Suc.prems by (metis Suc_le_eq)
  have "srv_reach sock u" using srv_reach.step [OF t(1)] srv_step.complete [OF j(1,2)] j(3) by metis
  then show ?case using j(4,5) t(3) by auto
qed

text \<open>C11. In every state the server can reach, whatever the kernel answers within its documentation and in
  whatever order requests complete: the requests that are queued or at the kernel are exactly one accept on
  the listening socket and one read for each connection in use, into that connection's buffer; the open
  descriptors are the listening socket and those of the connections, the mapped buffers those of the
  connections, each once, so that none is leaked, shared or released twice; and a slot in use has a whole
  buffer of \<open>READ_SZ\<close> bytes and a free slot none.\<close>

theorem echo_server_resources:
  assumes "srv_reach sock s"
  shows "mset (sv_queued s @ sv_submitted s) = add_mset (accept_request sock) (per_conn read_request s) \<and>
    mset (sv_open s) = add_mset sock (per_conn (\<lambda>k. ci_fd) s) \<and> distinct (sv_open s) \<and>
    mset (sv_mapped s) = per_conn (\<lambda>k c. the (ci_buf c)) s \<and> distinct (sv_mapped s) \<and>
    list_all conn_ok (sv_conns s)"
  using srv_inv [OF assms] by (simp add: srv_ok_def)

text \<open>The server that has started and holds one client.\<close>

theorem echo_server_resources_witness:
  "\<exists>s. card (used_slots s) = 1 \<and> length (sv_open s) = 2 \<and> distinct (sv_open s)"
proof -
  obtain s where s: "srv_reach 3 s" "card (used_slots s) = 1"
    using clients_connect [of 3 1] by (auto simp: MAX_CONNECTIONS_def)
  from echo_server_resources [OF s(1)] have "size (mset (sv_open s)) = 2" "distinct (sv_open s)"
    using s(2) by (simp_all add: per_conn_def)
  then show ?thesis using s(2) by (intro exI [of _ s]) simp
qed

text \<open>C39. The server can be brought down by its clients: with more than \<open>QUEUE_DEPTH\<close> of them connected, it
  reaches a state in which a client's byte arrives, every system call succeeds, and handling it ends the
  process, because the queue for requests is full and \<open>add_read_request\<close> treats that as fatal.\<close>

theorem echo_server_overload:
  assumes "0 \<le> sock"
  shows "\<exists>s j. srv_reach sock s \<and> j < length (sv_submitted s) \<and> io_event (sv_submitted s ! j) = EVENT_TYPE_READ \<and>
    answer_ok calm (sv_submitted s ! j) 1 s \<and>
    handle_completion calm (sv_submitted s ! j) 1 (take_completion j 1 s) = Inl ''io_uring_get_sqe''"
proof -
  have "Suc QUEUE_DEPTH \<le> MAX_CONNECTIONS" by (simp add: QUEUE_DEPTH_def MAX_CONNECTIONS_def)
  then obtain s where s: "srv_reach sock s" "sv_queued s = []" "card (used_slots s) = Suc QUEUE_DEPTH"
    using clients_connect [OF assms] by blast
  obtain t where t: "srv_reach sock t" "length (sv_queued t) = QUEUE_DEPTH" "card (used_slots t) = Suc QUEUE_DEPTH"
    using answers_pile_up [OF s(1,2), of QUEUE_DEPTH] s(3) by auto
  show ?thesis using read_answered [OF srv_inv [OF t(1)]] t by (metis lessI less_irrefl)
qed

theorem echo_server_overload_witness: "\<exists>s. srv_reach 3 s \<and> sv_submitted s \<noteq> []"
  using echo_server_overload [of 3] by fastforce

end
