(* ===== verification/Line_Caches.thy ===== *)
theory Line_Caches
  imports Prelude
begin

text \<open>
  The simulation of memory accesses through two caches (\<^verbatim>\<open>memory/parallelComputing/memory_transfer.c\<close>).

  Both caches are direct-mapped arrays of lines. The results of \<open>rand\<close> are arguments: the value the address
  is made of, and the bytes of a line that is loaded. A null pointer from \<open>calloc\<close> is an array without
  elements, so that every access to it is undefined.

  Shown: both caches together behave as a reference definition that looks only at the history of accesses:
  an access hits the first (second) cache exactly if the last access to the same line of that cache was to
  the same memory line. The simulation's three counters are the numbers of these cases, every access of it
  stays inside the arrays, and a line in the first cache is a copy of the line in the second.
\<close>

subsection \<open>The caches\<close>

definition MT_LINE_SIZE :: nat where
  "MT_LINE_SIZE = 64"

definition MT_L1_SIZE :: nat where
  "MT_L1_SIZE = 64 * 1024"

definition MT_L2_SIZE :: nat where
  "MT_L2_SIZE = 6 * 1024 * 1024"

record mt_line =
  mt_data :: "nat list"
  mt_valid :: bool
  mt_tag :: nat

record mt_cache =
  mt_lines :: "mt_line list"
  mt_size :: nat

definition mt_create_cache :: "bool \<Rightarrow> bool \<Rightarrow> nat \<Rightarrow> mt_cache option" where
  "mt_create_cache malloc_ok calloc_ok bytes =
    (if \<not> malloc_ok then None
     else Some \<lparr>mt_lines = (if calloc_ok
         then replicate (bytes div MT_LINE_SIZE) \<lparr>mt_data = replicate MT_LINE_SIZE 0, mt_valid = False, mt_tag = 0\<rparr>
         else []), mt_size = bytes div MT_LINE_SIZE\<rparr>)"

definition simulate_memory_access ::
  "(nat \<Rightarrow> nat) \<Rightarrow> mt_cache \<Rightarrow> mt_cache \<Rightarrow> nat \<Rightarrow> (nat \<times> mt_cache \<times> mt_cache) option" where
  "simulate_memory_access rnd l1 l2 address =
    (if mt_size l1 = 0 \<or> mt_size l2 = 0 then None
     else let l1_index = (address div MT_LINE_SIZE) mod mt_size l1;
         l2_index = (address div MT_LINE_SIZE) mod mt_size l2;
         tag = address div MT_LINE_SIZE
     in do {
       a \<leftarrow> c_load (mt_lines l1) l1_index;
       if mt_valid a \<and> mt_tag a = tag then Some (1, l1, l2)
       else do {
         b \<leftarrow> c_load (mt_lines l2) l2_index;
         if mt_valid b \<and> mt_tag b = tag then do {
           ls \<leftarrow> c_store (mt_lines l1) l1_index (a\<lparr>mt_valid := True, mt_tag := tag, mt_data := mt_data b\<rparr>);
           Some (2, l1\<lparr>mt_lines := ls\<rparr>, l2)
         } else do {
           let b = b\<lparr>mt_valid := True, mt_tag := tag, mt_data := map (\<lambda>i. rnd i mod 256) [0..<MT_LINE_SIZE]\<rparr>;
           ms \<leftarrow> c_store (mt_lines l2) l2_index b;
           ls \<leftarrow> c_store (mt_lines l1) l1_index (a\<lparr>mt_valid := True, mt_tag := tag, mt_data := mt_data b\<rparr>);
           Some (3, l1\<lparr>mt_lines := ls\<rparr>, l2\<lparr>mt_lines := ms\<rparr>)
         }
       }
     })"

text \<open>The loop of \<open>main\<close>; the counters are those of first-level hits, second-level hits and misses.\<close>

fun mt_loop :: "(nat \<times> (nat \<Rightarrow> nat)) list \<Rightarrow> mt_cache \<Rightarrow> mt_cache \<Rightarrow> nat \<times> nat \<times> nat \<Rightarrow>
    ((nat \<times> nat \<times> nat) \<times> mt_cache \<times> mt_cache) option" where
  "mt_loop [] l1 l2 cnt = Some (cnt, l1, l2)"
| "mt_loop ((r, rnd) # rs) l1 l2 (h1, h2, ms) = do {
     (res, l1, l2) \<leftarrow> simulate_memory_access rnd l1 l2 (r mod 2 ^ 32);
     mt_loop rs l1 l2 (if res = 1 then (h1 + 1, h2, ms) else if res = 2 then (h1, h2 + 1, ms)
       else if res = 3 then (h1, h2, ms + 1) else (h1, h2, ms))
   }"

definition mt_main :: "bool \<Rightarrow> bool \<Rightarrow> bool \<Rightarrow> bool \<Rightarrow> (nat \<times> (nat \<Rightarrow> nat)) list \<Rightarrow>
    ((nat \<times> nat \<times> nat) \<times> mt_cache \<times> mt_cache) option" where
  "mt_main m1 c1 m2 c2 rs = do {
     l1 \<leftarrow> mt_create_cache m1 c1 MT_L1_SIZE;
     l2 \<leftarrow> mt_create_cache m2 c2 MT_L2_SIZE;
     mt_loop rs l1 l2 (0, 0, 0)
   }"

subsection \<open>The reference: the history decides\<close>

text \<open>The last access to line \<open>i\<close> of a cache of \<open>n\<close> lines; the history has the newest access first.\<close>

definition last_in :: "nat \<Rightarrow> nat \<Rightarrow> nat list \<Rightarrow> nat option" where
  "last_in n i past = List.find (\<lambda>t. t mod n = i) past"

definition access_level :: "nat \<Rightarrow> nat \<Rightarrow> nat list \<Rightarrow> nat \<Rightarrow> nat" where
  "access_level n1 n2 past t =
    (if last_in n1 (t mod n1) past = Some t then 1 else if last_in n2 (t mod n2) past = Some t then 2 else 3)"

fun level_list :: "nat \<Rightarrow> nat \<Rightarrow> nat list \<Rightarrow> nat list \<Rightarrow> nat list" where
  "level_list n1 n2 past [] = []"
| "level_list n1 n2 past (t # ts) = access_level n1 n2 past t # level_list n1 n2 (t # past) ts"

definition line_tag :: "mt_line \<Rightarrow> nat option" where
  "line_tag l = (if mt_valid l then Some (mt_tag l) else None)"

definition follows :: "nat list \<Rightarrow> mt_cache \<Rightarrow> bool" where
  "follows past c \<longleftrightarrow> 0 < mt_size c \<and> length (mt_lines c) = mt_size c \<and>
    (\<forall>i<mt_size c. line_tag (mt_lines c ! i) = last_in (mt_size c) i past)"

definition included :: "mt_cache \<Rightarrow> mt_cache \<Rightarrow> bool" where
  "included l1 l2 \<longleftrightarrow> (\<forall>i<mt_size l1. mt_valid (mt_lines l1 ! i) \<longrightarrow>
    (let m = mt_lines l2 ! (mt_tag (mt_lines l1 ! i) mod mt_size l2)
     in mt_valid m \<and> mt_tag m = mt_tag (mt_lines l1 ! i) \<and> mt_data m = mt_data (mt_lines l1 ! i)))"

lemma last_in_Cons: "last_in n i (t # past) = (if t mod n = i then Some t else last_in n i past)"
  by (simp add: last_in_def)

lemma last_in_mod: "last_in n i past = Some t \<Longrightarrow> t mod n = i"
  by (auto simp: last_in_def find_Some_iff)

text \<open>A cache still follows the history when the accessed line is, or becomes, the line of the access.\<close>

lemma follows_keep:
  "follows past c \<Longrightarrow> line_tag (mt_lines c ! (t mod mt_size c)) = Some t \<Longrightarrow> follows (t # past) c"
  by (auto simp: follows_def last_in_Cons)

lemma follows_set:
  assumes "follows past c" "mt_valid m" "mt_tag m = t"
  shows "follows (t # past) (c\<lparr>mt_lines := (mt_lines c)[t mod mt_size c := m]\<rparr>)"
  using assms by (auto simp: follows_def last_in_Cons nth_list_update line_tag_def)

lemma mod_of_dvd: "n1 dvd n2 \<Longrightarrow> (t :: nat) mod n2 = u mod n2 \<Longrightarrow> t mod n1 = u mod n1"
  by (metis mod_mod_cancel)

lemma included_copy:
  assumes "included l1 l2" "mt_valid m" "mt_tag m = t" "length (mt_lines l1) = mt_size l1"
    "mt_valid (mt_lines l2 ! (t mod mt_size l2))" "mt_tag (mt_lines l2 ! (t mod mt_size l2)) = t"
    "mt_data m = mt_data (mt_lines l2 ! (t mod mt_size l2))"
  shows "included (l1\<lparr>mt_lines := (mt_lines l1)[t mod mt_size l1 := m]\<rparr>) l2"
  using assms by (auto simp: included_def nth_list_update Let_def)

lemma included_load:
  assumes "included l1 l2" "follows past l1" "follows past l2" "mt_size l1 dvd mt_size l2"
    "mt_valid m" "mt_tag m = t" "mt_valid m'" "mt_tag m' = t" "mt_data m = mt_data m'"
  shows "included (l1\<lparr>mt_lines := (mt_lines l1)[t mod mt_size l1 := m]\<rparr>)
    (l2\<lparr>mt_lines := (mt_lines l2)[t mod mt_size l2 := m']\<rparr>)"
proof -
  have len: "length (mt_lines l1) = mt_size l1" "length (mt_lines l2) = mt_size l2" "0 < mt_size l2"
    using assms(2,3) by (auto simp: follows_def)
  have other: "mt_tag (mt_lines l1 ! i) mod mt_size l2 \<noteq> t mod mt_size l2"
    if "i < mt_size l1" "i \<noteq> t mod mt_size l1" "mt_valid (mt_lines l1 ! i)" for i
  proof
    assume "mt_tag (mt_lines l1 ! i) mod mt_size l2 = t mod mt_size l2"
    then have "mt_tag (mt_lines l1 ! i) mod mt_size l1 = t mod mt_size l1" by (rule mod_of_dvd [OF assms(4)])
    moreover have "mt_tag (mt_lines l1 ! i) mod mt_size l1 = i"
      using assms(2) that(1,3) by (intro last_in_mod [of _ _ past]) (auto simp: follows_def line_tag_def)
    ultimately show False using that(2) by simp
  qed
  show ?thesis unfolding included_def
  proof (intro allI impI)
    fix i assume i: "i < mt_size (l1\<lparr>mt_lines := (mt_lines l1)[t mod mt_size l1 := m]\<rparr>)"
      "mt_valid (mt_lines (l1\<lparr>mt_lines := (mt_lines l1)[t mod mt_size l1 := m]\<rparr>) ! i)"
    show "let n = mt_lines (l2\<lparr>mt_lines := (mt_lines l2)[t mod mt_size l2 := m']\<rparr>) !
          (mt_tag (mt_lines (l1\<lparr>mt_lines := (mt_lines l1)[t mod mt_size l1 := m]\<rparr>) ! i) mod
            mt_size (l2\<lparr>mt_lines := (mt_lines l2)[t mod mt_size l2 := m']\<rparr>))
        in mt_valid n \<and> mt_tag n = mt_tag (mt_lines (l1\<lparr>mt_lines := (mt_lines l1)[t mod mt_size l1 := m]\<rparr>) ! i) \<and>
          mt_data n = mt_data (mt_lines (l1\<lparr>mt_lines := (mt_lines l1)[t mod mt_size l1 := m]\<rparr>) ! i)"
      using i other [of i] assms(1,5-9) len
      by (cases "i = t mod mt_size l1") (auto simp: included_def Let_def)
  qed
qed

text \<open>One access: it is safe, its result is the level that the history gives, and the caches follow.\<close>

lemma simulate_follows:
  assumes "follows past l1" "follows past l2" "included l1 l2" "mt_size l1 dvd mt_size l2"
  obtains l1' l2' where
    "simulate_memory_access rnd l1 l2 a =
      Some (access_level (mt_size l1) (mt_size l2) past (a div MT_LINE_SIZE), l1', l2')"
    "follows (a div MT_LINE_SIZE # past) l1'" "follows (a div MT_LINE_SIZE # past) l2'" "included l1' l2'"
    "mt_size l1' = mt_size l1" "mt_size l2' = mt_size l2"
proof -
  let ?t = "a div MT_LINE_SIZE"
  let ?i = "?t mod mt_size l1" and ?j = "?t mod mt_size l2"
  let ?a = "mt_lines l1 ! ?i" and ?b = "mt_lines l2 ! ?j"
  have in1: "0 < mt_size l1" "?i < length (mt_lines l1)" "length (mt_lines l1) = mt_size l1"
    and in2: "0 < mt_size l2" "?j < length (mt_lines l2)"
    using assms(1,2) by (auto simp: follows_def)
  have lev: "access_level (mt_size l1) (mt_size l2) past ?t =
      (if mt_valid ?a \<and> mt_tag ?a = ?t then 1 else if mt_valid ?b \<and> mt_tag ?b = ?t then 2 else 3)"
    using assms(1,2) in1 in2 by (auto simp: access_level_def follows_def line_tag_def split: if_splits)
  consider (hit1) "mt_valid ?a" "mt_tag ?a = ?t"
    | (hit2) "\<not> (mt_valid ?a \<and> mt_tag ?a = ?t)" "mt_valid ?b" "mt_tag ?b = ?t"
    | (miss) "\<not> (mt_valid ?a \<and> mt_tag ?a = ?t)" "\<not> (mt_valid ?b \<and> mt_tag ?b = ?t)" by blast
  then show thesis
  proof cases
    case hit1
    have "mt_valid ?b \<and> mt_tag ?b = ?t" using assms(3) hit1 in1 by (auto simp: included_def Let_def)
    then show ?thesis using hit1 in1 in2 assms
      by (intro that [of l1 l2]) (auto simp: simulate_memory_access_def lev line_tag_def intro!: follows_keep)
  next
    case hit2
    let ?m = "?a\<lparr>mt_valid := True, mt_tag := ?t, mt_data := mt_data ?b\<rparr>"
    show ?thesis
    proof (rule that [of "l1\<lparr>mt_lines := (mt_lines l1)[?i := ?m]\<rparr>" l2])
      show "included (l1\<lparr>mt_lines := (mt_lines l1)[?i := ?m]\<rparr>) l2"
        by (rule included_copy [OF assms(3) _ _ in1(3)]) (use hit2 in simp_all)
      show "follows (?t # past) (l1\<lparr>mt_lines := (mt_lines l1)[?i := ?m]\<rparr>)"
        by (rule follows_set [OF assms(1)]) simp_all
    qed (use hit2 in1 in2 assms(2) in \<open>auto simp: simulate_memory_access_def lev line_tag_def Let_def intro!: follows_keep\<close>)
  next
    case miss
    let ?b' = "?b\<lparr>mt_valid := True, mt_tag := ?t, mt_data := map (\<lambda>i. rnd i mod 256) [0..<MT_LINE_SIZE]\<rparr>"
    let ?m = "?a\<lparr>mt_valid := True, mt_tag := ?t, mt_data := mt_data ?b'\<rparr>"
    show ?thesis
    proof (rule that [of "l1\<lparr>mt_lines := (mt_lines l1)[?i := ?m]\<rparr>" "l2\<lparr>mt_lines := (mt_lines l2)[?j := ?b']\<rparr>"])
      show "included (l1\<lparr>mt_lines := (mt_lines l1)[?i := ?m]\<rparr>) (l2\<lparr>mt_lines := (mt_lines l2)[?j := ?b']\<rparr>)"
        by (rule included_load [OF assms(3,1,2,4)]) simp_all
      show "follows (?t # past) (l1\<lparr>mt_lines := (mt_lines l1)[?i := ?m]\<rparr>)"
        by (rule follows_set [OF assms(1)]) simp_all
      show "follows (?t # past) (l2\<lparr>mt_lines := (mt_lines l2)[?j := ?b']\<rparr>)"
        by (rule follows_set [OF assms(2)]) simp_all
    qed (use miss in1 in2 in \<open>auto simp: simulate_memory_access_def lev Let_def\<close>)
  qed
qed

lemma mt_loop_follows:
  assumes "follows past l1" "follows past l2" "included l1 l2" "mt_size l1 dvd mt_size l2"
  shows "\<exists>l1' l2'. mt_loop rs l1 l2 (h1, h2, ms) =
      Some ((h1 + length (filter (\<lambda>v. v = 1) (level_list (mt_size l1) (mt_size l2) past (map (\<lambda>(r, rnd). r mod 2 ^ 32 div MT_LINE_SIZE) rs))),
        h2 + length (filter (\<lambda>v. v = 2) (level_list (mt_size l1) (mt_size l2) past (map (\<lambda>(r, rnd). r mod 2 ^ 32 div MT_LINE_SIZE) rs))),
        ms + length (filter (\<lambda>v. v = 3) (level_list (mt_size l1) (mt_size l2) past (map (\<lambda>(r, rnd). r mod 2 ^ 32 div MT_LINE_SIZE) rs)))),
        l1', l2') \<and> included l1' l2'"
  using assms
proof (induction rs arbitrary: past l1 l2 h1 h2 ms)
  case Nil
  then show ?case by simp
next
  case (Cons x rs)
  obtain r rnd where x: "x = (r, rnd)" by fastforce
  let ?a = "r mod 2 ^ 32"
  obtain l1' l2' where s: "simulate_memory_access rnd l1 l2 ?a =
      Some (access_level (mt_size l1) (mt_size l2) past (?a div MT_LINE_SIZE), l1', l2')"
    "follows (?a div MT_LINE_SIZE # past) l1'" "follows (?a div MT_LINE_SIZE # past) l2'" "included l1' l2'"
    "mt_size l1' = mt_size l1" "mt_size l2' = mt_size l2"
    by (rule simulate_follows [OF Cons.prems])
  have "access_level (mt_size l1) (mt_size l2) past (?a div MT_LINE_SIZE) \<in> {1, 2, 3}" by (simp add: access_level_def)
  then consider "access_level (mt_size l1) (mt_size l2) past (?a div MT_LINE_SIZE) = 1"
    | "access_level (mt_size l1) (mt_size l2) past (?a div MT_LINE_SIZE) = 2"
    | "access_level (mt_size l1) (mt_size l2) past (?a div MT_LINE_SIZE) = 3" by auto
  then show ?case
  proof cases
    case 1
    then show ?thesis using Cons.IH [OF s(2-4), of "h1 + 1" h2 ms] Cons.prems(4) s(1,5,6) by (simp add: x)
  next
    case 2
    then show ?thesis using Cons.IH [OF s(2-4), of h1 "h2 + 1" ms] Cons.prems(4) s(1,5,6) by (simp add: x)
  next
    case 3
    then show ?thesis using Cons.IH [OF s(2-4), of h1 h2 "ms + 1"] Cons.prems(4) s(1,5,6) by (simp add: x)
  qed
qed

lemma created_cache:
  "mt_create_cache True True n = Some c \<Longrightarrow> 0 < n div MT_LINE_SIZE \<Longrightarrow>
    follows [] c \<and> mt_size c = n div MT_LINE_SIZE \<and> (\<forall>m\<in>set (mt_lines c). \<not> mt_valid m)"
  by (auto simp: mt_create_cache_def follows_def line_tag_def last_in_def)

subsection \<open>The simulation\<close>

text \<open>C18. For all results of \<open>rand\<close> the simulation stays inside its arrays, and its counters of first-level hits,
  second-level hits and misses are the numbers of accesses that the history of accesses classifies so: a hit
  of a cache is an access where the last access to the same line of that cache was to the same 64 bytes. At
  the end every line of the first cache is a copy of the second cache's line for the same address.\<close>

theorem cache_levels_by_history:
  "\<exists>l1 l2. mt_main True True True True rs =
    (let levels = level_list (MT_L1_SIZE div MT_LINE_SIZE) (MT_L2_SIZE div MT_LINE_SIZE) []
       (map (\<lambda>(r, rnd). r mod 2 ^ 32 div MT_LINE_SIZE) rs)
     in Some ((length (filter (\<lambda>v. v = 1) levels), length (filter (\<lambda>v. v = 2) levels), length (filter (\<lambda>v. v = 3) levels)),
       l1, l2)) \<and> included l1 l2"
proof -
  obtain c1 c2 where c: "mt_create_cache True True MT_L1_SIZE = Some c1" "mt_create_cache True True MT_L2_SIZE = Some c2"
    by (simp add: mt_create_cache_def)
  have pos: "0 < MT_L1_SIZE div MT_LINE_SIZE" "0 < MT_L2_SIZE div MT_LINE_SIZE"
    "MT_L1_SIZE div MT_LINE_SIZE dvd MT_L2_SIZE div MT_LINE_SIZE"
    by (simp_all add: MT_L1_SIZE_def MT_L2_SIZE_def MT_LINE_SIZE_def)
  note f = created_cache [OF c(1) pos(1)] created_cache [OF c(2) pos(2)]
  have inc: "included c1 c2" using f(1) by (auto simp: included_def follows_def)
  show ?thesis using mt_loop_follows [of "[]" c1 c2 rs 0 0 0] f inc pos(3) by (simp add: mt_main_def c Let_def)
qed

text \<open>A failed \<open>malloc\<close> or \<open>calloc\<close> is not noticed: the next statement uses the null pointer.\<close>

theorem failed_allocation_undefined:
  assumes "rs \<noteq> []" "\<not> (m1 \<and> c1 \<and> m2 \<and> c2)"
  shows "mt_main m1 c1 m2 c2 rs = None"
proof -
  obtain r rnd rest where "rs = (r, rnd) # rest" using assms(1) by (metis neq_Nil_conv surj_pair)
  then show ?thesis using assms(2)
    by (cases m1; cases c1; cases m2) (auto simp: mt_main_def mt_create_cache_def simulate_memory_access_def
        MT_L1_SIZE_def MT_L2_SIZE_def MT_LINE_SIZE_def Let_def)
qed

end
