(* ===== verification/Prefetch_Cache.thy ===== *)
theory Prefetch_Cache
  imports Prelude
begin

text \<open>
  The cache with a stride prefetcher (\<^verbatim>\<open>accessPatterns/prefetching.c\<close>).

  The global variables are a record. The memory's contents and the readings of the clock are arguments; the
  readings still to come are part of the state. A read of \<open>main_memory\<close> outside the array is \<open>None\<close>. The
  addresses are those of the array, so no sum of the program leaves the range of \<open>int\<close>.

  Shown: whatever the clock says, a value that an access returns is the one in memory, and a run over
  addresses that never go back ends inside the array. And: a run with a falling stride makes the
  prefetcher read in front of the array.
\<close>

subsection \<open>The program\<close>

definition PF_ARRAY_SIZE :: int where
  "PF_ARRAY_SIZE = 10000"

definition PF_CACHE_SIZE :: nat where
  "PF_CACHE_SIZE = 100"

definition PREFETCH_DISTANCE :: nat where
  "PREFETCH_DISTANCE = 10"

record pf_state =
  pf_data :: "int list"
  pf_tags :: "int list"
  pf_lru :: "int list"
  main_memory :: "int list"
  prefetch_stride :: int
  last_address :: int
  pf_clock :: "nat \<Rightarrow> int"

definition pf_init_memory :: "(nat \<Rightarrow> int) \<Rightarrow> int list" where
  "pf_init_memory rnd = map (\<lambda>i. rnd i mod 1000) [0..<nat PF_ARRAY_SIZE]"

definition pf_init_cache :: "pf_state \<Rightarrow> pf_state" where
  "pf_init_cache s = s\<lparr>pf_tags := map (\<lambda>i. - 1) [0..<PF_CACHE_SIZE], pf_lru := map (\<lambda>i. 0) [0..<PF_CACHE_SIZE]\<rparr>"

definition find_in_cache :: "int \<Rightarrow> pf_state \<Rightarrow> int" where
  "find_in_cache address s =
    (case first_index 0 PF_CACHE_SIZE (\<lambda>i. pf_tags s ! i = address) of Some i \<Rightarrow> int i | None \<Rightarrow> - 1)"

definition pf_find_lru :: "pf_state \<Rightarrow> nat" where
  "pf_find_lru s = for_range 1 PF_CACHE_SIZE (\<lambda>i k. if pf_lru s ! i < pf_lru s ! k then i else k) 0"

definition pf_update_lru :: "nat \<Rightarrow> pf_state \<Rightarrow> pf_state" where
  "pf_update_lru k s = s\<lparr>pf_lru := (pf_lru s)[k := pf_clock s 0], pf_clock := (\<lambda>n. pf_clock s (Suc n))\<rparr>"

definition bring_to_cache :: "int \<Rightarrow> pf_state \<Rightarrow> pf_state option" where
  "bring_to_cache address s =
    (let k = pf_find_lru s in
     if address < 0 then None
     else do {
       v \<leftarrow> c_load (main_memory s) (nat address);
       Some (pf_update_lru k (s\<lparr>pf_data := (pf_data s)[k := v], pf_tags := (pf_tags s)[k := address]\<rparr>))
     })"

definition prefetch :: "int \<Rightarrow> pf_state \<Rightarrow> pf_state option" where
  "prefetch address s =
    (let prefetch_address = address + prefetch_stride s in
     if prefetch_address < PF_ARRAY_SIZE \<and> find_in_cache prefetch_address s = - 1
     then bring_to_cache prefetch_address s else Some s)"

fun prefetch_each :: "int \<Rightarrow> nat list \<Rightarrow> pf_state \<Rightarrow> pf_state option" where
  "prefetch_each address [] s = Some s"
| "prefetch_each address (i # is) s = do {
     s \<leftarrow> prefetch (address + int i * prefetch_stride s) s;
     prefetch_each address is s
   }"

definition pf_access_memory :: "int \<Rightarrow> pf_state \<Rightarrow> (int \<times> pf_state) option" where
  "pf_access_memory address s =
    (let cache_index = find_in_cache address s in
     if cache_index \<noteq> - 1 then
       let s = pf_update_lru (nat cache_index) s in Some (pf_data s ! nat cache_index, s)
     else do {
       s \<leftarrow> bring_to_cache address s;
       s \<leftarrow> (if last_address s \<noteq> - 1 then
           let new_stride = address - last_address s in
           if new_stride = prefetch_stride s then prefetch_each address [1..<Suc PREFETCH_DISTANCE] s
           else Some (s\<lparr>prefetch_stride := new_stride\<rparr>)
         else Some s);
       v \<leftarrow> (if address < 0 then None else c_load (main_memory s) (nat address));
       Some (v, s\<lparr>last_address := address\<rparr>)
     })"

fun pf_run :: "int list \<Rightarrow> pf_state \<Rightarrow> (int list \<times> pf_state) option" where
  "pf_run [] s = Some ([], s)"
| "pf_run (a # as) s = do {
     (v, s) \<leftarrow> pf_access_memory a s;
     (vs, s) \<leftarrow> pf_run as s;
     Some (v # vs, s)
   }"

text \<open>The variables at the start of the program, after the two initialisations.\<close>

definition pf_start :: "(nat \<Rightarrow> int) \<Rightarrow> (nat \<Rightarrow> int) \<Rightarrow> pf_state" where
  "pf_start rnd clk = pf_init_cache
    \<lparr>pf_data = replicate PF_CACHE_SIZE 0, pf_tags = replicate PF_CACHE_SIZE 0, pf_lru = replicate PF_CACHE_SIZE 0,
     main_memory = pf_init_memory rnd, prefetch_stride = 0, last_address = - 1, pf_clock = clk\<rparr>"

definition pf_main :: "(nat \<Rightarrow> int) \<Rightarrow> (nat \<Rightarrow> int) \<Rightarrow> (int list \<times> pf_state) option" where
  "pf_main rnd clk = pf_run (map (\<lambda>i. 2 * int i) [0..<25]) (pf_start rnd clk)"

subsection \<open>The invariant\<close>

text \<open>A line holds what the memory has at its tag; \<open>M\<close> is the memory, which nothing changes.\<close>

definition pf_ok :: "int list \<Rightarrow> pf_state \<Rightarrow> bool" where
  "pf_ok M s \<longleftrightarrow> main_memory s = M \<and> length M = nat PF_ARRAY_SIZE \<and> length (pf_data s) = PF_CACHE_SIZE \<and>
    length (pf_tags s) = PF_CACHE_SIZE \<and>
    (\<forall>i<PF_CACHE_SIZE. pf_tags s ! i = - 1 \<or> 0 \<le> pf_tags s ! i \<and> pf_data s ! i = M ! nat (pf_tags s ! i))"

lemma find_in_cache_hit:
  assumes "find_in_cache a s \<noteq> - 1"
  shows "nat (find_in_cache a s) < PF_CACHE_SIZE \<and> pf_tags s ! nat (find_in_cache a s) = a"
proof -
  obtain i where i: "first_index 0 PF_CACHE_SIZE (\<lambda>i. pf_tags s ! i = a) = Some i"
    using assms by (cases "first_index 0 PF_CACHE_SIZE (\<lambda>i. pf_tags s ! i = a)") (auto simp: find_in_cache_def)
  then show ?thesis using first_index_SomeD(2,3) [OF i] by (simp add: find_in_cache_def)
qed

lemma bring_ok:
  assumes "pf_ok M s" "bring_to_cache a s = Some t"
  shows "pf_ok M t \<and> 0 \<le> a \<and> a < PF_ARRAY_SIZE \<and> prefetch_stride t = prefetch_stride s \<and> last_address t = last_address s"
proof -
  have t: "0 \<le> a" "nat a < length M" "t = pf_update_lru (pf_find_lru s)
      (s\<lparr>pf_data := (pf_data s)[pf_find_lru s := M ! nat a], pf_tags := (pf_tags s)[pf_find_lru s := a]\<rparr>)"
    using assms by (auto simp: bring_to_cache_def pf_ok_def Let_def c_load_Some_iff split: if_splits bind_splits)
  have "pf_tags t ! i = - 1 \<or> 0 \<le> pf_tags t ! i \<and> pf_data t ! i = M ! nat (pf_tags t ! i)" if "i < PF_CACHE_SIZE" for i
    using assms(1) that t(1) by (cases "i = pf_find_lru s") (auto simp: t(3) pf_update_lru_def pf_ok_def)
  then show ?thesis using assms(1) t(1,2) by (auto simp: t(3) pf_ok_def pf_update_lru_def)
qed

lemma bring_total: "pf_ok M s \<Longrightarrow> 0 \<le> a \<Longrightarrow> a < PF_ARRAY_SIZE \<Longrightarrow> \<exists>t. bring_to_cache a s = Some t"
  by (simp add: bring_to_cache_def pf_ok_def Let_def nat_less_iff)

lemma prefetch_ok:
  "pf_ok M s \<Longrightarrow> prefetch a s = Some t \<Longrightarrow>
    pf_ok M t \<and> prefetch_stride t = prefetch_stride s \<and> last_address t = last_address s"
  using bring_ok by (auto simp: prefetch_def Let_def split: if_splits)

lemma prefetch_total: "pf_ok M s \<Longrightarrow> 0 \<le> a + prefetch_stride s \<Longrightarrow> \<exists>t. prefetch a s = Some t"
  using bring_total [of M s "a + prefetch_stride s"] by (auto simp: prefetch_def Let_def)

lemma prefetch_each_ok:
  "pf_ok M s \<Longrightarrow> prefetch_each a is s = Some t \<Longrightarrow>
    pf_ok M t \<and> prefetch_stride t = prefetch_stride s \<and> last_address t = last_address s"
proof (induction "is" arbitrary: s)
  case (Cons i "is")
  then obtain u where u: "prefetch (a + int i * prefetch_stride s) s = Some u" "prefetch_each a is u = Some t"
    by (auto split: bind_splits)
  then show ?case using Cons.IH [of u] prefetch_ok [OF Cons.prems(1) u(1)] by simp
qed simp

lemma prefetch_each_total:
  "pf_ok M s \<Longrightarrow> 0 \<le> a \<Longrightarrow> 0 \<le> prefetch_stride s \<Longrightarrow> \<exists>t. prefetch_each a is s = Some t"
proof (induction "is" arbitrary: s)
  case (Cons i "is")
  then obtain u where u: "prefetch (a + int i * prefetch_stride s) s = Some u"
    using prefetch_total [OF Cons.prems(1), of "a + int i * prefetch_stride s"] by auto
  then show ?case using Cons.IH [of u] prefetch_ok [OF Cons.prems(1) u] Cons.prems by simp
qed simp

text \<open>What happens after a miss, when the line has been brought in.\<close>

definition after_miss :: "int \<Rightarrow> pf_state \<Rightarrow> pf_state option" where
  "after_miss a s = (if last_address s \<noteq> - 1 then
       let new_stride = a - last_address s in
       if new_stride = prefetch_stride s then prefetch_each a [1..<Suc PREFETCH_DISTANCE] s
       else Some (s\<lparr>prefetch_stride := new_stride\<rparr>)
     else Some s)"

lemma pf_access_unfold:
  "pf_access_memory a s =
    (if find_in_cache a s \<noteq> - 1
     then Some (pf_data s ! nat (find_in_cache a s), pf_update_lru (nat (find_in_cache a s)) s)
     else do {
       t \<leftarrow> bring_to_cache a s;
       u \<leftarrow> after_miss a t;
       v \<leftarrow> (if a < 0 then None else c_load (main_memory u) (nat a));
       Some (v, u\<lparr>last_address := a\<rparr>)
     })"
  by (simp add: pf_access_memory_def after_miss_def Let_def pf_update_lru_def)

lemma after_miss_ok:
  assumes "pf_ok M s" "after_miss a s = Some t"
  shows "pf_ok M t \<and> (last_address s \<le> a \<longrightarrow> 0 \<le> prefetch_stride s \<longrightarrow> 0 \<le> prefetch_stride t)"
proof (cases "last_address s \<noteq> - 1 \<and> a - last_address s = prefetch_stride s")
  case True
  then show ?thesis using assms prefetch_each_ok [OF assms(1)] by (simp add: after_miss_def Let_def)
next
  case False
  then show ?thesis using assms by (auto simp: after_miss_def Let_def pf_ok_def split: if_splits)
qed

lemma after_miss_total:
  "pf_ok M s \<Longrightarrow> 0 \<le> a \<Longrightarrow> 0 \<le> prefetch_stride s \<Longrightarrow> \<exists>t. after_miss a s = Some t"
  using prefetch_each_total [of M s a] by (simp add: after_miss_def Let_def)

lemma pf_access_ok:
  assumes "pf_ok M s" "0 \<le> a" "pf_access_memory a s = Some (v, t)"
  shows "v = M ! nat a \<and> pf_ok M t \<and>
    (last_address s \<le> a \<longrightarrow> 0 \<le> prefetch_stride s \<longrightarrow> last_address t \<le> a \<and> 0 \<le> prefetch_stride t)"
proof (cases "find_in_cache a s = - 1")
  case True
  then obtain s1 u where s1: "bring_to_cache a s = Some s1" and u: "after_miss a s1 = Some u"
    and v: "nat a < length (main_memory u)" "v = main_memory u ! nat a" "t = u\<lparr>last_address := a\<rparr>"
    using assms(2,3) by (auto simp: pf_access_unfold c_load_Some_iff split: bind_splits if_splits)
  note b = bring_ok [OF assms(1) s1]
  then show ?thesis using after_miss_ok [OF _ u, of M] v by (auto simp: pf_ok_def)
next
  case False
  then show ?thesis using assms find_in_cache_hit [OF False]
    by (auto simp: pf_access_unfold pf_ok_def pf_update_lru_def)
qed

lemma pf_access_total:
  assumes "pf_ok M s" "0 \<le> a" "a < PF_ARRAY_SIZE" "0 \<le> prefetch_stride s"
  shows "\<exists>v t. pf_access_memory a s = Some (v, t)"
proof (cases "find_in_cache a s = - 1")
  case True
  obtain s1 where s1: "bring_to_cache a s = Some s1" using bring_total [OF assms(1-3)] by blast
  note b = bring_ok [OF assms(1) s1]
  obtain u where u: "after_miss a s1 = Some u" using after_miss_total [of M s1 a] b assms(2,4) by auto
  have "pf_ok M u" using after_miss_ok [OF _ u] b by blast
  then show ?thesis using True s1 u assms(2,3) by (simp add: pf_access_unfold pf_ok_def nat_less_iff)
qed (simp add: pf_access_unfold)

lemma pf_run_ok:
  assumes "pf_ok M s" "\<forall>a\<in>set as. 0 \<le> a" "pf_run as s = Some (vs, t)"
  shows "vs = map (\<lambda>a. M ! nat a) as"
  using assms
proof (induction as arbitrary: s vs)
  case (Cons a as)
  then obtain v u ws where u: "pf_access_memory a s = Some (v, u)" "pf_run as u = Some (ws, t)" "vs = v # ws"
    by (auto split: bind_splits)
  then show ?case using Cons.IH [of u ws] pf_access_ok [OF Cons.prems(1) _ u(1)] Cons.prems(2) by simp
qed simp

lemma pf_run_total:
  assumes "pf_ok M s" "0 \<le> prefetch_stride s" "\<forall>a\<in>set as. last_address s \<le> a \<and> 0 \<le> a \<and> a < PF_ARRAY_SIZE" "sorted as"
  shows "\<exists>vs t. pf_run as s = Some (vs, t)"
  using assms
proof (induction as arbitrary: s)
  case (Cons a as)
  obtain v u where u: "pf_access_memory a s = Some (v, u)"
    using pf_access_total [OF Cons.prems(1)] Cons.prems(2,3) by fastforce
  have "pf_ok M u" "0 \<le> prefetch_stride u" "last_address u \<le> a"
    using pf_access_ok [OF Cons.prems(1) _ u] Cons.prems(2,3) by auto
  then show ?case using Cons.IH [of u] Cons.prems(3,4) u by fastforce
qed simp

lemma pf_start_ok: "pf_ok (pf_init_memory rnd) (pf_start rnd clk)"
  by (simp add: pf_ok_def pf_start_def pf_init_cache_def pf_init_memory_def)

subsection \<open>The program is correct while addresses do not go back\<close>

text \<open>C19. The cache and its prefetcher are invisible: from the start of the program, for every memory and all
  readings of the clock, a run of accesses that ends returns exactly the values in memory; and a run over
  addresses of the array that never go back, such as that of \<open>main\<close>, does end without leaving the array.\<close>

theorem prefetch_cache_transparent:
  assumes "\<forall>a\<in>set as. 0 \<le> a \<and> a < PF_ARRAY_SIZE"
  shows "(\<forall>vs t. pf_run as (pf_start rnd clk) = Some (vs, t) \<longrightarrow> vs = map (\<lambda>a. pf_init_memory rnd ! nat a) as) \<and>
    (sorted as \<longrightarrow> pf_run as (pf_start rnd clk) \<noteq> None)"
proof -
  have "last_address (pf_start rnd clk) = - 1" "prefetch_stride (pf_start rnd clk) = 0"
    by (simp_all add: pf_start_def pf_init_cache_def)
  then show ?thesis
    using pf_run_ok [OF pf_start_ok] pf_run_total [OF pf_start_ok, of rnd clk as] assms by fastforce
qed

theorem prefetch_cache_transparent_witness:
  "\<exists>t. pf_run [3, 5, 7] (pf_start (\<lambda>i. int i) (\<lambda>n. 0)) = Some ([3, 5, 7], t)"
proof -
  have "\<forall>a\<in>set [3, 5, 7]. 0 \<le> a \<and> a < PF_ARRAY_SIZE" by (simp add: PF_ARRAY_SIZE_def)
  from prefetch_cache_transparent [OF this, of "\<lambda>i. int i" "\<lambda>n. 0"]
  show ?thesis by (fastforce simp: pf_init_memory_def PF_ARRAY_SIZE_def)
qed

text \<open>The program's own run.\<close>

theorem pf_main_returns_memory:
  "\<exists>t. pf_main rnd clk = Some (map (\<lambda>i. pf_init_memory rnd ! (2 * i)) [0..<25], t)"
proof -
  let ?as = "map (\<lambda>i. 2 * int i) [0..<25]"
  have "sorted ?as" by (simp add: sorted_iff_nth_mono)
  then obtain vs t where r: "pf_run ?as (pf_start rnd clk) = Some (vs, t)"
    using pf_run_total [OF pf_start_ok, of rnd clk ?as] by (auto simp: PF_ARRAY_SIZE_def pf_start_def pf_init_cache_def)
  from pf_run_ok [OF pf_start_ok _ r] show ?thesis using r by (simp add: pf_main_def comp_def nat_mult_distrib)
qed

text \<open>Three accesses with a falling stride make the prefetcher read in front of the array.\<close>

lemma find_in_cache_miss: "pf_ok M s \<Longrightarrow> a \<notin> set (pf_tags s) \<Longrightarrow> find_in_cache a s = - 1"
  by (auto simp: find_in_cache_def pf_ok_def in_set_conv_nth first_index_None_iff split: option.split
      dest!: first_index_SomeD(2,3))

lemma bring_tags: "bring_to_cache a s = Some t \<Longrightarrow> set (pf_tags t) \<subseteq> insert a (set (pf_tags s))"
  by (auto simp: bring_to_cache_def Let_def pf_update_lru_def split: if_splits bind_splits
      dest!: subsetD [OF set_update_subset_insert])

text \<open>A miss that only learns the stride.\<close>

lemma learning_miss:
  assumes "pf_ok M s" "a \<notin> set (pf_tags s)" "0 \<le> a" "a < PF_ARRAY_SIZE"
    and "last_address s = - 1 \<or> a - last_address s \<noteq> prefetch_stride s"
  obtains v t where "pf_access_memory a s = Some (v, t)" "pf_ok M t" "set (pf_tags t) \<subseteq> insert a (set (pf_tags s))"
    "last_address t = a" "prefetch_stride t = (if last_address s = - 1 then prefetch_stride s else a - last_address s)"
proof -
  obtain t where t: "bring_to_cache a s = Some t" using bring_total [OF assms(1,3,4)] by blast
  note b = bring_ok [OF assms(1) t]
  let ?u = "(if last_address s = - 1 then t else t\<lparr>prefetch_stride := a - last_address s\<rparr>)\<lparr>last_address := a\<rparr>"
  show thesis
  proof (rule that [of "M ! nat a" ?u])
    show "pf_access_memory a s = Some (M ! nat a, ?u)"
      using find_in_cache_miss [OF assms(1,2)] t b assms(3-5)
      by (auto simp: pf_access_unfold after_miss_def Let_def pf_ok_def nat_less_iff)
  qed (use b bring_tags [OF t] in \<open>auto simp: pf_ok_def\<close>)
qed

theorem falling_stride_leaves_array: "pf_run [20, 10, 0] (pf_start rnd clk) = None"
proof -
  let ?M = "pf_init_memory rnd" and ?s = "pf_start rnd clk"
  have start: "set (pf_tags ?s) \<subseteq> {- 1}" "last_address ?s = - 1" "prefetch_stride ?s = 0"
    by (auto simp: pf_start_def pf_init_cache_def)
  obtain v t where t: "pf_access_memory 20 ?s = Some (v, t)" "pf_ok ?M t" "set (pf_tags t) \<subseteq> insert 20 (set (pf_tags ?s))"
    "last_address t = 20" "prefetch_stride t = (if last_address ?s = - 1 then prefetch_stride ?s else 20 - last_address ?s)"
    by (rule learning_miss [OF pf_start_ok, of 20 rnd clk]) (use start in \<open>auto simp: PF_ARRAY_SIZE_def\<close>)
  have tags: "set (pf_tags t) \<subseteq> {- 1, 20}" using t(3) start(1) by blast
  obtain w u where u: "pf_access_memory 10 t = Some (w, u)" "pf_ok ?M u" "set (pf_tags u) \<subseteq> insert 10 (set (pf_tags t))"
    "last_address u = 10" "prefetch_stride u = (if last_address t = - 1 then prefetch_stride t else 10 - last_address t)"
    by (rule learning_miss [OF t(2), of 10]) (use start t tags in \<open>auto simp: PF_ARRAY_SIZE_def\<close>)
  have tags: "set (pf_tags u) \<subseteq> {- 1, 20, 10}" using u(3) tags by blast
  have u': "last_address u = 10" "prefetch_stride u = - 10" using u t by simp_all
  obtain x where x: "bring_to_cache 0 u = Some x" using bring_total [OF u(2), of 0] by (auto simp: PF_ARRAY_SIZE_def)
  note b = bring_ok [OF u(2) x]
  have "set (pf_tags x) \<subseteq> {- 1, 20, 10, 0}" using bring_tags [OF x] tags by blast
  then have "- 20 \<notin> set (pf_tags x)" "0 \<notin> set (pf_tags u)" using tags by auto
  then have "find_in_cache (- 20) x = - 1" "find_in_cache 0 u = - 1"
    using find_in_cache_miss b u(2) by blast+
  then have "pf_access_memory 0 u = None" using x b u'
    by (simp add: pf_access_unfold after_miss_def Let_def PREFETCH_DISTANCE_def upt_conv_Cons prefetch_def
        bring_to_cache_def [of "- 20"] PF_ARRAY_SIZE_def)
  then show ?thesis using t(1) u(1) by simp
qed

end
