(* ===== verification/Record_File.thy ===== *)
theory Record_File
  imports Prelude
begin

text \<open>
  The database in a mapped file (\<^verbatim>\<open>os/filesystem/databaseOperationWithMMAP.c\<close>).

  The mapped structure is a record; what is written to it is what the file holds at the next run. A name
  field is a list of 50 characters. The answers of the system calls are arguments; a
  file that is not empty is one this program has made. A null pointer from \<open>map_file\<close> is \<open>None\<close> in its result,
  an access outside the array of records is \<open>None\<close> in that of the others.

  Shown: the file is an append-only list of at most 100 records with names cut to 49 characters; searching
  finds the first record with an identifier; and over any number of runs the file has exactly the records
  of all runs in order, until it is full.
\<close>

subsection \<open>The program\<close>

definition DB_MAX_RECORDS :: nat where
  "DB_MAX_RECORDS = 100"

record db_record =
  db_id :: int
  db_name :: string

record db_file =
  record_count :: int
  db_records :: "db_record list"

text \<open>\<open>strncpy\<close> followed by the store of the last zero, and the string that a field holds.\<close>

definition name_field :: "string \<Rightarrow> string" where
  "name_field name = take 49 name @ replicate (49 - length name) (CHR 0x00) @ [CHR 0x00]"

definition field_string :: "string \<Rightarrow> string" where
  "field_string f = takeWhile (\<lambda>c. c \<noteq> CHR 0x00) f"

definition empty_db :: db_file where
  "empty_db = \<lparr>record_count = 0, db_records = replicate DB_MAX_RECORDS \<lparr>db_id = 0, db_name = replicate 50 (CHR 0x00)\<rparr>\<rparr>"

text \<open>A new file is extended by \<open>ftruncate\<close>, which fills it with zeros.\<close>

definition map_file :: "bool \<Rightarrow> bool \<Rightarrow> bool \<Rightarrow> bool \<Rightarrow> db_file option \<Rightarrow> db_file option" where
  "map_file open_ok fstat_ok ftruncate_ok mmap_ok content =
    (if \<not> open_ok then None
     else if \<not> fstat_ok then None
     else case content of
       None \<Rightarrow> if \<not> ftruncate_ok then None else if \<not> mmap_ok then None else Some empty_db
     | Some db \<Rightarrow> if \<not> mmap_ok then None else Some db)"

definition insert_record :: "int \<Rightarrow> string \<Rightarrow> db_file \<Rightarrow> (int \<times> db_file) option" where
  "insert_record rid name db =
    (if record_count db \<ge> int DB_MAX_RECORDS then Some (0, db)
     else if record_count db < 0 then None
     else do {
       rs \<leftarrow> c_store (db_records db) (nat (record_count db)) \<lparr>db_id = rid, db_name = name_field name\<rparr>;
       Some (1, db\<lparr>db_records := rs, record_count := record_count db + 1\<rparr>)
     })"

fun find_from :: "db_file \<Rightarrow> int \<Rightarrow> nat list \<Rightarrow> nat option option" where
  "find_from db rid [] = Some None"
| "find_from db rid (i # is) = do {
     r \<leftarrow> c_load (db_records db) i;
     if db_id r = rid then Some (Some i) else find_from db rid is
   }"

definition find_record :: "db_file \<Rightarrow> int \<Rightarrow> nat option option" where
  "find_record db rid = find_from db rid [0..<nat (record_count db)]"


text \<open>The exit code, the record that is printed as found, all records that are printed, and the file.\<close>

definition db_main :: "db_file option \<Rightarrow>
    (int \<times> (int \<times> string) option \<times> (int \<times> string) list \<times> db_file option) option" where
  "db_main mapped =
    (case mapped of
      None \<Rightarrow> Some (1, None, [], None)
    | Some db \<Rightarrow> do {
        (_, db) \<leftarrow> insert_record 1 ''Alice'' db;
        (_, db) \<leftarrow> insert_record 2 ''Bob'' db;
        (_, db) \<leftarrow> insert_record 3 ''Charlie'' db;
        found \<leftarrow> find_record db 2;
        rs \<leftarrow> those (map (c_load (db_records db)) [0..<nat (record_count db)]);
        Some (0, map_option (\<lambda>i. (db_id (db_records db ! i), field_string (db_name (db_records db ! i)))) found,
          map (\<lambda>r. (db_id r, field_string (db_name r))) rs, Some db)
      })"

subsection \<open>The file as a list\<close>

definition db_list :: "db_file \<Rightarrow> (int \<times> string) list" where
  "db_list db = map (\<lambda>r. (db_id r, field_string (db_name r))) (take (nat (record_count db)) (db_records db))"

definition db_ok :: "db_file \<Rightarrow> bool" where
  "db_ok db \<longleftrightarrow> 0 \<le> record_count db \<and> record_count db \<le> int DB_MAX_RECORDS \<and> length (db_records db) = DB_MAX_RECORDS"

lemma empty_db_ok: "db_ok empty_db" "db_list empty_db = []"
  by (simp_all add: empty_db_def db_ok_def db_list_def)

text \<open>A field gives back the string it was made of, cut to 49 characters.\<close>

lemma field_roundtrip: "field_string (name_field name) = take 49 (field_string name)"
proof -
  have "takeWhile (\<lambda>c. c \<noteq> CHR 0x00) (take n xs @ replicate k (CHR 0x00) @ [CHR 0x00]) = take n (takeWhile (\<lambda>c. c \<noteq> CHR 0x00) xs)" for n k and xs :: string
  proof (induction xs arbitrary: n)
    case Nil
    show ?case by (cases k) simp_all
  next
    case (Cons x xs)
    then show ?case by (cases n; cases k) simp_all
  qed
  then show ?thesis by (simp add: field_string_def name_field_def)
qed

lemma db_list_length: "db_ok db \<Longrightarrow> length (db_list db) = nat (record_count db)"
  by (simp add: db_list_def db_ok_def nat_le_iff)

lemma insert_appends:
  assumes "db_ok db"
  shows "\<exists>db'. insert_record rid name db = Some (if length (db_list db) < DB_MAX_RECORDS then 1 else 0, db') \<and> db_ok db' \<and>
    db_list db' = take DB_MAX_RECORDS (db_list db @ [(rid, take 49 (field_string name))])"
proof (cases "record_count db \<ge> int DB_MAX_RECORDS")
  case True
  then have "insert_record rid name db = Some (0, db)" "length (db_list db) = DB_MAX_RECORDS"
    using assms by (auto simp: insert_record_def db_list_length db_ok_def)
  then show ?thesis using assms by (intro exI [of _ db]) simp
next
  case False
  let ?r = "\<lparr>db_id = rid, db_name = name_field name\<rparr>"
  let ?db = "db\<lparr>db_records := (db_records db)[nat (record_count db) := ?r], record_count := record_count db + 1\<rparr>"
  have n: "nat (record_count db) < length (db_records db)" "nat (record_count db + 1) = Suc (nat (record_count db))"
    using assms False by (auto simp: db_ok_def)
  have "insert_record rid name db = Some (1, ?db)" using assms False n by (auto simp: insert_record_def db_ok_def)
  moreover have "db_list ?db = db_list db @ [(rid, take 49 (field_string name))]"
    using n by (simp add: db_list_def take_Suc_conv_app_nth field_roundtrip)
  ultimately show ?thesis using assms False db_list_length [OF assms]
    by (intro exI [of _ ?db]) (auto simp: db_ok_def)
qed

lemma find_from_find:
  "\<forall>i\<in>set is. i < length (db_records db) \<Longrightarrow>
    find_from db rid is = Some (List.find (\<lambda>i. db_id (db_records db ! i) = rid) is)"
  by (induction "is") auto

lemma find_record_first:
  "db_ok db \<Longrightarrow> find_record db rid = Some (first_index 0 (length (db_list db)) (\<lambda>i. fst (db_list db ! i) = rid))"
  unfolding find_record_def first_index_def db_list_length
  by (subst find_from_find) (auto simp: db_ok_def db_list_def intro!: find_cong)

subsection \<open>Runs of the program\<close>

definition three_records :: "(int \<times> string) list" where
  "three_records = [(1, ''Alice''), (2, ''Bob''), (3, ''Charlie'')]"

text \<open>The program run \<open>n\<close> times, one after the other, all system calls succeeding.\<close>

fun db_runs :: "nat \<Rightarrow> db_file option \<Rightarrow> db_file option option" where
  "db_runs 0 f = Some f"
| "db_runs (Suc n) f = do {
     (code, found, printed, f) \<leftarrow> db_main (map_file True True True True f);
     db_runs n f
   }"

lemma take_take_append: "take m (take m xs @ ys) = take m (xs @ ys)"
  by (cases "length xs \<le> m") simp_all

lemma concat_replicate_comm: "concat (replicate n xs) @ xs = xs @ concat (replicate n xs)"
  by (induction n) simp_all

lemma those_loads: "n \<le> length xs \<Longrightarrow> those (map (c_load xs) [0..<n]) = Some (take n xs)"
proof (induction n)
  case (Suc n)
  have "those (ys @ [Some y]) = map_option (\<lambda>zs. zs @ [y]) (those ys)" for ys :: "'a option list" and y
    by (induction ys) (auto simp: option.map_comp comp_def split: option.splits)
  then show ?case using Suc by (simp add: take_Suc_conv_app_nth)
qed simp

lemma first_index_find:
  "map_option (\<lambda>i. xs ! i) (first_index 0 (length xs) (\<lambda>i. P (xs ! i))) = List.find P xs"
proof (cases "first_index 0 (length xs) (\<lambda>i. P (xs ! i))")
  case None
  then have "List.find P xs = None" by (auto simp: first_index_None_iff find_None_iff in_set_conv_nth)
  then show ?thesis using None by simp
next
  case (Some i)
  then have "List.find P xs = Some (xs ! i)" using first_index_SomeD [OF Some] unfolding find_Some_iff by blast
  then show ?thesis using Some by simp
qed

lemma insert_whole_name:
  assumes "db_ok db" "take 49 (field_string name) = name"
  obtains c d where "insert_record rid name db = Some (c, d)" "db_ok d"
    "db_list d = take DB_MAX_RECORDS (db_list db @ [(rid, name)])"
  using insert_appends [OF assms(1), of rid name] unfolding assms(2) by blast

lemma db_main_appends:
  assumes "db_ok db"
  shows "\<exists>db'. db_main (Some db) = Some (0, List.find (\<lambda>r. fst r = 2) (db_list db'), db_list db', Some db') \<and> db_ok db' \<and>
    db_list db' = take DB_MAX_RECORDS (db_list db @ three_records)"
proof -
  have str: "take 49 (field_string ''Alice'') = ''Alice''" "take 49 (field_string ''Bob'') = ''Bob''"
    "take 49 (field_string ''Charlie'') = ''Charlie''" by (simp_all add: field_string_def)
  obtain c1 d1 where d1: "insert_record 1 ''Alice'' db = Some (c1, d1)" "db_ok d1"
    "db_list d1 = take DB_MAX_RECORDS (db_list db @ [(1, ''Alice'')])"
    by (rule insert_whole_name [OF assms str(1)])
  obtain c2 d2 where d2: "insert_record 2 ''Bob'' d1 = Some (c2, d2)" "db_ok d2"
    "db_list d2 = take DB_MAX_RECORDS (db_list d1 @ [(2, ''Bob'')])"
    by (rule insert_whole_name [OF d1(2) str(2)])
  obtain c3 d3 where d3: "insert_record 3 ''Charlie'' d2 = Some (c3, d3)" "db_ok d3"
    "db_list d3 = take DB_MAX_RECORDS (db_list d2 @ [(3, ''Charlie'')])"
    by (rule insert_whole_name [OF d2(2) str(3)])
  let ?found = "first_index 0 (length (db_list d3)) (\<lambda>i. fst (db_list d3 ! i) = 2)"
  have rec: "(db_id (db_records d3 ! i), field_string (db_name (db_records d3 ! i))) = db_list d3 ! i"
    if "i < length (db_list d3)" for i using that by (simp add: db_list_def)
  have "map_option (\<lambda>i. (db_id (db_records d3 ! i), field_string (db_name (db_records d3 ! i)))) ?found =
      map_option (\<lambda>i. db_list d3 ! i) ?found"
    by (rule option.map_cong0) (use rec first_index_SomeD(2) in fastforce)
  also have "\<dots> = List.find (\<lambda>r. fst r = 2) (db_list d3)" by (rule first_index_find)
  finally have found: "map_option (\<lambda>i. (db_id (db_records d3 ! i), field_string (db_name (db_records d3 ! i)))) ?found =
      List.find (\<lambda>r. fst r = 2) (db_list d3)" .
  have loads: "those (map (c_load (db_records d3)) [0..<nat (record_count d3)]) = Some (take (nat (record_count d3)) (db_records d3))"
    using d3(2) by (intro those_loads) (auto simp: db_ok_def)
  have "db_main (Some db) = Some (0, List.find (\<lambda>r. fst r = 2) (db_list d3), db_list d3, Some d3)"
    unfolding found [symmetric] by (simp add: db_main_def d1(1) d2(1) d3(1) find_record_first [OF d3(2)] loads)
      (simp add: db_list_def)
  moreover have "db_list d3 = take DB_MAX_RECORDS (db_list db @ three_records)"
    unfolding d3(3) d2(3) d1(3) take_take_append by (simp add: three_records_def take_take_append del: take_append)
  ultimately show ?thesis using d3(2) by blast
qed

lemma db_runs_list:
  assumes "db_ok db"
  shows "\<exists>db'. db_runs n (Some db) = Some (Some db') \<and> db_ok db' \<and>
    db_list db' = take DB_MAX_RECORDS (db_list db @ concat (replicate n three_records))"
  using assms
proof (induction n arbitrary: db)
  case 0
  then show ?case using db_list_length [OF 0] by (simp add: db_ok_def nat_le_iff)
next
  case (Suc n)
  obtain d where d: "db_main (Some db) = Some (0, List.find (\<lambda>r. fst r = 2) (db_list d), db_list d, Some d)" "db_ok d"
    "db_list d = take DB_MAX_RECORDS (db_list db @ three_records)"
    using db_main_appends [OF Suc.prems] by blast
  show ?case using Suc.IH [OF d(2)] d(1) unfolding d(3) take_take_append by (simp add: map_file_def del: take_append)
qed

text \<open>C25. What one run writes the next one reads: after any number of complete runs on a file that was new, one
  more run returns success, finds the record of Bob, and prints exactly the three records of every run so far
  in the order of insertion, cut off at the \<open>MAX_RECORDS\<close> that fit into the file.\<close>

theorem database_persists:
  "\<exists>f db. db_runs n None = Some f \<and> db_main (map_file True True True True f) =
    Some (0, Some (2, ''Bob''), take DB_MAX_RECORDS (concat (replicate (Suc n) three_records)), Some db)"
proof -
  have main: "\<exists>db'. db_main (Some db) = Some (0, Some (2, ''Bob''), take DB_MAX_RECORDS (db_list db @ three_records), Some db')"
    if "db_ok db" "db_list db = [] \<or> take 3 (db_list db) = three_records" for db
  proof -
    have "db_list db = [] \<or> 3 \<le> length (db_list db)"
      using that(2) arg_cong [of "take 3 (db_list db)" three_records length] by (auto simp: three_records_def)
    then have "take 3 (take DB_MAX_RECORDS (db_list db @ three_records)) = three_records"
      using that(2) by (auto simp: DB_MAX_RECORDS_def three_records_def take_append)
    then obtain r where "take DB_MAX_RECORDS (db_list db @ three_records) = three_records @ r" by (metis append_take_drop_id)
    then have "List.find (\<lambda>r. fst r = 2) (take DB_MAX_RECORDS (db_list db @ three_records)) = Some (2, ''Bob'')"
      by (simp add: three_records_def)
    then show ?thesis using db_main_appends [OF that(1)] by metis
  qed
  show ?thesis
  proof (cases n)
    case 0
    then show ?thesis using main [OF empty_db_ok(1)] by (simp add: map_file_def empty_db_ok)
  next
    case (Suc m)
    obtain d where d: "db_runs n (Some empty_db) = Some (Some d)" "db_ok d"
      "db_list d = take DB_MAX_RECORDS (concat (replicate n three_records))"
      using db_runs_list [OF empty_db_ok(1), of n] by (auto simp: empty_db_ok)
    have "db_runs n None = db_runs n (Some empty_db)" by (simp add: Suc map_file_def)
    moreover have "take 3 (db_list d) = three_records"
      unfolding d(3) by (simp add: Suc DB_MAX_RECORDS_def three_records_def)
    moreover have "take DB_MAX_RECORDS (db_list d @ three_records) = take DB_MAX_RECORDS (concat (replicate (Suc n) three_records))"
      unfolding d(3) take_take_append by (simp add: concat_replicate_comm)
    ultimately show ?thesis using d(1) main [OF d(2)] by (auto simp: map_file_def)
  qed
qed

text \<open>A failed call of \<open>map_file\<close> ends the program with exit code 1 and leaves no trace.\<close>

theorem failed_map_exits: "\<not> (a \<and> b \<and> d) \<Longrightarrow> db_main (map_file a b c d f) = Some (1, None, [], None)"
  by (auto simp: map_file_def db_main_def split: option.splits)

end
