(* ===== verification/Dram_Timing.thy ===== *)
theory Dram_Timing
  imports Prelude
begin

text \<open>
  The timing of a memory chip (\<^verbatim>\<open>accessPatterns/DRAMtiming.c\<close>).

  The contents of the chip, which no function reads or writes, and their allocation in \<open>main\<close> are left
  out. The cycle counter is an integer without bounds; the one of the program would overflow after some
  thirty million accesses.

  Shown: for every sequence of accesses, each takes between 14 and 60 cycles, and exactly 14 if it goes to
  the open row; and a bank opens rows at least \<open>tRAS + tRP + tRCD\<close> cycles apart, as its timing demands.
\<close>

definition tCAS :: int where "tCAS = 14"

definition tRAS :: int where "tRAS = 32"

definition tRP :: int where "tRP = 14"

definition tRCD :: int where "tRCD = 14"

record dram_bank =
  active_row :: int
  is_row_active :: bool
  last_activation_cycle :: int

record dram_chip =
  dram_banks :: "dram_bank list"
  current_cycle :: int

definition access_dram :: "nat \<Rightarrow> int \<Rightarrow> int \<Rightarrow> dram_chip \<Rightarrow> (int \<times> dram_chip) option" where
  "access_dram bank row column chip = do {
     b \<leftarrow> c_load (dram_banks chip) bank;
     let open_new = (\<not> is_row_active b \<or> active_row b \<noteq> row);
     let cycles = (if open_new \<and> is_row_active b then
         (let since = current_cycle chip - last_activation_cycle b
          in (if since < tRAS then tRAS - since else 0) + tRP) else 0);
     let cycles = (if open_new then cycles + tRCD else cycles);
     let b = (if open_new then b\<lparr>active_row := row, is_row_active := True,
         last_activation_cycle := current_cycle chip + cycles\<rparr> else b);
     bs \<leftarrow> c_store (dram_banks chip) bank b;
     let cycles = cycles + tCAS;
     Some (cycles, chip\<lparr>dram_banks := bs, current_cycle := current_cycle chip + cycles\<rparr>)
   }"

text \<open>A run of accesses with the number of cycles of each; the chip at the start is all zero.\<close>

fun dram_run :: "(nat \<times> int \<times> int) list \<Rightarrow> dram_chip \<Rightarrow> (int list \<times> dram_chip) option" where
  "dram_run [] chip = Some ([], chip)"
| "dram_run ((bank, row, col) # as) chip = do {
     (n, chip) \<leftarrow> access_dram bank row col chip;
     (ns, chip) \<leftarrow> dram_run as chip;
     Some (n # ns, chip)
   }"

definition zero_chip :: dram_chip where
  "zero_chip = \<lparr>dram_banks = replicate 8 \<lparr>active_row = 0, is_row_active = False, last_activation_cycle = 0\<rparr>,
     current_cycle = 0\<rparr>"

subsection \<open>Timing\<close>

text \<open>The last access came at least \<open>tCAS\<close> cycles after every row that is open was opened.\<close>

definition chip_ok :: "dram_chip \<Rightarrow> bool" where
  "chip_ok chip \<longleftrightarrow> length (dram_banks chip) = 8 \<and>
    (\<forall>b\<in>set (dram_banks chip). is_row_active b \<longrightarrow> last_activation_cycle b + tCAS \<le> current_cycle chip)"

lemmas timing_defs = tCAS_def tRAS_def tRP_def tRCD_def

lemma chip_ok_nth: "chip_ok chip \<Longrightarrow> i < 8 \<Longrightarrow> is_row_active (dram_banks chip ! i) \<Longrightarrow>
    last_activation_cycle (dram_banks chip ! i) + 14 \<le> current_cycle chip"
  by (auto simp: chip_ok_def tCAS_def)

lemma zero_chip_ok: "chip_ok zero_chip"
  by (simp add: chip_ok_def zero_chip_def)

lemma access_dram_correct:
  assumes "chip_ok chip" "bank < 8"
  shows "\<exists>n chip'. access_dram bank row col chip = Some (n, chip') \<and> chip_ok chip' \<and> 14 \<le> n \<and> n \<le> 60 \<and>
    current_cycle chip' = current_cycle chip + n \<and>
    (is_row_active (dram_banks chip ! bank) \<and> active_row (dram_banks chip ! bank) = row \<longrightarrow>
      n = tCAS \<and> dram_banks chip' = dram_banks chip) \<and>
    (is_row_active (dram_banks chip ! bank) \<and> active_row (dram_banks chip ! bank) \<noteq> row \<longrightarrow>
      last_activation_cycle (dram_banks chip ! bank) + tRAS + tRP + tRCD \<le> last_activation_cycle (dram_banks chip' ! bank))"
proof -
  let ?b = "dram_banks chip ! bank"
  have len: "length (dram_banks chip) = 8" using assms(1) by (simp add: chip_ok_def)
  obtain n chip' where a: "access_dram bank row col chip = Some (n, chip')"
    using assms(2) len by (simp add: access_dram_def Let_def)
  have old: "is_row_active ?b \<Longrightarrow> last_activation_cycle ?b + 14 \<le> current_cycle chip"
    by (rule chip_ok_nth [OF assms])
  have n: "14 \<le> n" "n \<le> 60" "current_cycle chip' = current_cycle chip + n" "length (dram_banks chip') = 8"
    using a assms(2) len old by (auto simp: access_dram_def Let_def timing_defs split: if_splits)
  have "last_activation_cycle (dram_banks chip' ! i) + 14 \<le> current_cycle chip'"
    if "i < 8" "is_row_active (dram_banks chip' ! i)" for i
    using a that assms(2) len old chip_ok_nth [OF assms(1) that(1)]
    by (cases "i = bank") (auto simp: access_dram_def Let_def timing_defs split: if_splits)
  then have "chip_ok chip'" using n(4) by (auto simp: chip_ok_def tCAS_def in_set_conv_nth)
  moreover have "n = tCAS \<and> dram_banks chip' = dram_banks chip" if "is_row_active ?b" "active_row ?b = row"
    using a that assms(2) len by (auto simp: access_dram_def Let_def)
  moreover have "last_activation_cycle ?b + tRAS + tRP + tRCD \<le> last_activation_cycle (dram_banks chip' ! bank)"
    if "is_row_active ?b" "active_row ?b \<noteq> row"
    using a that assms(2) len old by (auto simp: access_dram_def Let_def timing_defs split: if_splits)
  ultimately show ?thesis using a n by blast
qed

text \<open>Every run over the chip's eight banks is safe, each access takes 14 to 60 cycles and the counter is their sum.\<close>

theorem dram_run_timing:
  assumes "\<forall>(bank, row, col)\<in>set as. bank < 8"
  shows "\<exists>ns chip. dram_run as zero_chip = Some (ns, chip) \<and> (\<forall>n\<in>set ns. 14 \<le> n \<and> n \<le> 60) \<and>
    length ns = length as \<and> current_cycle chip = sum_list ns"
proof -
  have "\<exists>ns chip'. dram_run as chip = Some (ns, chip') \<and> (\<forall>n\<in>set ns. 14 \<le> n \<and> n \<le> 60) \<and>
      length ns = length as \<and> current_cycle chip' = current_cycle chip + sum_list ns" if "chip_ok chip" for chip
    using that assms
  proof (induction as arbitrary: chip)
    case (Cons a as)
    obtain bank row col where a: "a = (bank, row, col)" by (metis prod_cases3)
    obtain n c where c: "access_dram bank row col chip = Some (n, c)" "chip_ok c" "14 \<le> n" "n \<le> 60"
      "current_cycle c = current_cycle chip + n"
      using access_dram_correct [OF Cons.prems(1), of bank row col] Cons.prems(2) by (auto simp: a)
    show ?case using Cons.IH [OF c(2)] Cons.prems(2) c by (auto simp: a)
  qed simp
  from this [OF zero_chip_ok] show ?thesis by (simp add: zero_chip_def)
qed

text \<open>The four accesses that \<open>main\<close> prints.\<close>

theorem dram_main_cycles:
  "map_option fst (dram_run [(0, 0, 0), (0, 0, 1), (0, 1, 0), (1, 0, 0)] zero_chip) = Some [28, 14, 46, 28]"
  by code_simp

end
