(* ===== verification/Spec2Isabelle.thy ===== *)
theory Spec2Isabelle
  imports Circular_Queue Batch_Scheduling Adaptive_Scheduling Command_Scheduling
    Read_Write_Grouping Free_List_Allocator Process_Scheduling Fair_Scheduling Feedback_Queues
    Buffer_Manager Pipelined_Cpu Processor_Sim Rwlock_Buffer Context_Switch Matrix_Multiply Binary_Search
    Pointer_Tagging Memory_Pool Uart_Ring Cache_Hierarchy Memory_Controller Paged_Memory Asid_Tlb Random_Tlb
    Upgradeable_Lock Futex_Mutex Message_Passing Page_Pool Stream_Buffer
    Leader_Election Echo_Server Line_Caches Prefetch_Cache Record_File Dram_Timing
begin

text \<open>
  A verification library for the C programs of the repository.

  The repository is a collection of small systems programs, each a file with its own \<open>main\<close>: queues,
  memory-controller and process schedulers, allocators, buffer managers, processor simulators, concurrent
  programs and numerical kernels. They do not call each other; what they share is their techniques, and the
  library is organised by these: the prelude and the contracts hold what many programs need, and each program
  has a theory (or a part of one) that translates it function by function and proves what it promises.

  \<^bold>\<open>Conventions.\<close> A C array is a list and every access to it is checked (\<open>c_load\<close>, \<open>c_store\<close>):
  the value \<open>None\<close> stands for an access outside an array, a failed assertion, a division by zero or another
  undefined operation, so a theorem that says ``the result is \<open>Some\<close>'' is a theorem of memory safety. Where \<open>None\<close> already means
  that a thread is blocked, such an operation leads to a control point of its own (\<open>Crashed\<close>), and an overflow
  in an offset into a file sets a flag of the state (\<open>bp_undefined\<close>); the theorems say that neither is reached.
  Programs that end with \<open>exit\<close> return a value of type \<open>prog\<close>. Machine words are of type \<open>word\<close>
  where wrap-around matters and \<open>int\<close> or \<open>nat\<close> otherwise. Random numbers, clock readings and the results
  of \<open>malloc\<close> are arguments. Printing is left out, or is a list of events where a property speaks of it.

  \<^bold>\<open>Shared theories.\<close>
  \<^item> \<open>Prelude\<close>: checked accesses, counting loops, first-index and best-index scans, and the counting of
    threads by their control point; the locale \<open>key_scan\<close> is the contract of a scan for a best element and is
    interpreted by the schedulers and the allocator.
  \<^item> \<open>Ring_Fifo\<close>: circular arrays as lists; the locale \<open>bounded_fifo\<close> is the contract of a bounded
    queue, interpreted by the circular queue, the request queues and the receive buffer.
  \<^item> \<open>Bubble_Sort\<close>: the sorting loop that two schedulers use.

  \<^bold>\<open>Queues and memory controllers\<close> (\<^verbatim>\<open>src/utils/circularQueue.c\<close>, \<^verbatim>\<open>src/accessPatterns\<close>,
  \<^verbatim>\<open>src/concurrency/scheduling\<close>).
  \<^item> \<open>Circular_Queue\<close>: every operation of the queue; any run of operations gives the results of a list,
    resizing keeps the contents, except that resizing to exactly the number of elements breaks the queue.
  \<^item> \<open>Request_Queue\<close>, \<open>Batch_Scheduling\<close>, \<open>Adaptive_Scheduling\<close>, \<open>Command_Scheduling\<close>,
    \<open>Read_Write_Grouping\<close>: the memory request schedulers. Shown: the order in which requests are served,
    that all are served, that the choice has the highest priority, that DRAM commands follow the protocol, and
    the cases where the code does not do this.
  \<^item> \<open>Memory_Controller\<close> (\<^verbatim>\<open>memoryController.c\<close>): the controller returns what was last written as long as no
    dirty line is evicted; evicting one writes to a wrong place or outside the memory.
  \<^item> \<open>Prefetch_Cache\<close> (\<^verbatim>\<open>prefetching.c\<close>): the prefetching cache always returns what is in memory and is safe
    on addresses that do not go back; a falling stride makes it read in front of the array.
  \<^item> \<open>Dram_Timing\<close> (\<^verbatim>\<open>DRAMtiming.c\<close>): the bounds on the cycles of an access, and the distance of activations.

  \<^bold>\<open>Processes\<close> (\<^verbatim>\<open>src/os/process/scheduler\<close>, \<^verbatim>\<open>src/concurrency/threads/contextSwitch\<close>).
  \<^item> \<open>Process_Scheduling\<close>, \<open>Fair_Scheduling\<close>, \<open>Feedback_Queues\<close>: first come first served, round
    robin, priorities with aging, the completely fair scheduler, feedback queues, process states. Shown:
    completion within a given number of rounds, fairness bounds, and two programs whose own data defeats them.
  \<^item> \<open>Context_Switch\<close>: control blocks, selection, switching and the timer interrupt. Shown for all inputs:
    the table is never left, and the simulation makes at most three switches, because nothing wakes a process.

  \<^bold>\<open>Memory and files\<close> (\<^verbatim>\<open>src/memory\<close>, \<^verbatim>\<open>src/os/filesystem\<close>).
  \<^item> \<open>Free_List_Allocator\<close>: the allocator with its three strategies on an explicit heap; allocation and
    freeing keep the list of blocks a tiling of the arena.
  \<^item> \<open>Buffer_Manager\<close>: page table with linear probing, clock replacement and the page operations; the
    locale \<open>page_map\<close> is the contract of a page table. Shown: the table is a map as long as nothing is removed,
    removal breaks it, the clock gives a second chance and ends when a frame is unpinned, fetching keeps the
    invariant.
  \<^item> \<open>Pointer_Tagging\<close>, \<open>Memory_Pool\<close>: tagged objects are type safe; the pool hands out disjoint blocks.
  \<^item> \<open>Cache_Hierarchy\<close> (\<^verbatim>\<open>Two-Level-Cache-System.c\<close>), \<open>Line_Caches\<close> (\<^verbatim>\<open>memory_transfer.c\<close>): the first level is
    included in the second, an access gives the block of its address, and hits and misses are those that the
    history of accesses determines.
  \<^item> \<open>Paged_Memory\<close> (\<^verbatim>\<open>pageTable.c\<close>), \<open>Asid_Tlb\<close> (\<^verbatim>\<open>pageFlush.c\<close>), \<open>Random_Tlb\<close> (\<^verbatim>\<open>TLB.c\<close>): the translation
    buffers are transparent, resident pages do not move, a flush reaches the entry it is meant for; and a page
    whose first byte is zero loses its frame, identifiers are given out twice after they wrap.
  \<^item> \<open>Page_Pool\<close> (\<^verbatim>\<open>whyNotUseOS.c\<close>), \<open>Stream_Buffer\<close> (\<^verbatim>\<open>customBuffer.c\<close>), \<open>Record_File\<close>
    (\<^verbatim>\<open>databaseOperationWithMMAP.c\<close>): what reaches the file is what the operations describe, for every
    run, over failures of the system and over repeated starts of the program. For \<open>Page_Pool\<close> this holds for the
    pages of the first two gigabytes; the offset of a later page overflows.

  \<^bold>\<open>Processors\<close> (\<^verbatim>\<open>src/os/cpu/cpu.c\<close>, \<^verbatim>\<open>src/unix\<close>).
  \<^item> \<open>Pipelined_Cpu\<close>: the five-stage pipeline refines the sequential machine for programs without hazards.
  \<^item> \<open>Processor_Sim\<close>: instruction decoding, the ALU with its flags, and the bounds of the x86 decoder.

  \<^bold>\<open>Concurrency\<close> (\<^verbatim>\<open>src/concurrency\<close>, \<^verbatim>\<open>src/networking\<close>, \<^verbatim>\<open>src/unix/zero_copy_server\<close>). The steps of the
  threads are inductive relations, one step being what is atomic in the program, and the theorems hold for all
  interleavings.
  \<^item> \<open>Rwlock_Buffer\<close> (\<^verbatim>\<open>threads/rwlock-buffer\<close>): an interleaving semantics of readers and writers. Shown for all interleavings: mutual
    exclusion, the bounded buffer is a queue, no thread leaves the array, and the threads never all finish by
    themselves.
  \<^item> \<open>Uart_Ring\<close> (\<^verbatim>\<open>src/networking/uart.c\<close>, \<^verbatim>\<open>src/playingAround/inputBuffering\<close>): the receive buffer
    with byte-wide indices is a queue of 255 bytes, also when the signal handler runs between any two accesses
    of the reader; a waiting byte is handed over within three accesses of the reader; and the polling loop returns what its specification on lists says.
  \<^item> \<open>Rwlock_Monitor\<close> (\<^verbatim>\<open>writeStarvation.c\<close>, \<^verbatim>\<open>aggressiveWriter.c\<close>): the locale \<open>rw_monitor\<close> is the contract of a
    read-write lock made of a mutex and two condition variables, interpreted by both locks. Shown: exclusion,
    no lost increment and no lost wake-up.
  \<^item> \<open>Upgradeable_Lock\<close> (\<^verbatim>\<open>upgradeableReadLocks.c\<close>): exclusion; an upgrade that has to wait sleeps for ever.
  \<^item> \<open>Futex_Mutex\<close> (\<^verbatim>\<open>preemmtibleCriticalSections.c\<close>), \<open>Message_Passing\<close> (\<^verbatim>\<open>threads/semaphores\<close>): exclusion, the
    order of what is printed, and that every run ends with all work done. The two processes need that no signal
    interrupts a wait for a semaphore: the program does not look at the result, and an interrupted wait lets
    both into the critical section.
  \<^item> \<open>Leader_Election\<close> (\<^verbatim>\<open>leaderElection.c\<close>): one master at a time if masters are punctual, two if not.
  \<^item> \<open>Echo_Server\<close>: every state of the server has one pending accept and one pending read for each
    connection, and exactly the descriptors and buffers of its connections; and too many clients at once
    end the process.

  \<^bold>\<open>Kernels\<close> (\<^verbatim>\<open>src/utils/matrixMul\<close>, \<^verbatim>\<open>src/performance/binary-search\<close>).
  \<^item> \<open>Matrix_Multiply\<close>: the blocked and the vectorised multiplication compute exactly what the triple loop
    computes, for arithmetic without any laws; the locale \<open>grid\<close> is the contract of a matrix in memory.
  \<^item> \<open>Binary_Search\<close>: correctness, termination and absence of overflow.

  \<^bold>\<open>Bounds.\<close> Loops that may run for ever take a number of rounds and have a theorem that says how many are
  enough: the schedulers as many as the work that is outstanding, the clock two turns of the hand, the process
  selection one round. The probing loops of the page table and the loop of the output buffer are partial functions
  whose termination is part of the theorems. The concurrent programs that end do so within a number of steps
  that the theorems give: 1705 for the five threads of the futex program, 90 for the two processes when
  no wait is interrupted. The sizes are those of the sources.

  \<^bold>\<open>Not modelled.\<close> Programs that only measure time, print addresses or sizes, or exercise system calls,
  sockets and signals; assembly, Python, C++ and OpenGL sources; demonstrations of undefined behaviour, where
  there is no meaning to translate; programs whose result is decided by floating point numbers, such as
  \<^verbatim>\<open>src/accessPatterns/oomKiller.c\<close>; the boundary-tag allocator \<^verbatim>\<open>src/memory/allocation/allocator.c\<close>, whose
  first write is before its own memory; and threads that only call the locks of the thread library around a
  counter or a print. Left out although they could be translated are a few small simulations that repeat in a
  simpler form what is modelled elsewhere (\<^verbatim>\<open>schedulingAlgorithmMemoryController.c\<close>,
  \<^verbatim>\<open>SimulatingDRAMTiming.c\<close>, \<^verbatim>\<open>stridePrefetcher.c\<close>, \<^verbatim>\<open>cpuDataProcess.c\<close>, \<^verbatim>\<open>multiThreadingSingleCPU.c\<close>) and the
  pointer wrappers under \<^verbatim>\<open>src/memory/allocation\<close>.
\<close>

end
